(* ===== verification/DomTree.thy ===== *)
theory DomTree
  imports Prelude
begin

text \<open>
  The document, and the two Dojo modules the scripts change it with: \<^verbatim>\<open>dojo/dom\<close> (\<open>by_id\<close>) and
  \<^verbatim>\<open>dojo/dom-construct\<close> (\<open>place\<close>, \<open>create\<close>, \<open>empty\<close>, \<open>destroy\<close>).

  A node carries an identity (\<open>nkey\<close>, what \<^verbatim>\<open>==\<close> compares), its element data (the
  attribute \<^verbatim>\<open>widgetId\<close> is the field \<open>widget_id\<close>, empty when not set) and its children; a
  document is a forest whose top-level nodes have no parent. Text is a node with tag \<open>#text\<close>. All
  changes are one substitution, \<open>subst k g\<close>: the node with identity \<open>k\<close> is replaced by the list
  \<open>g\<close> of it. The lemmas say what a substitution does to the nodes in document order (\<open>items\<close>).
\<close>

section \<open>Nodes and documents\<close>

record elem =
  tag :: string
  ident :: string
  widget_id :: string
  classes :: "string list"
  css :: "(string \<times> string) list"
  attrs :: "(string \<times> string) list"

datatype node = Node (nkey: nat) (ninfo: elem) (kids: "node list")

type_synonym doc = "node list"

fun nodes :: "doc \<Rightarrow> node list" where
  "nodes [] = []"
| "nodes (Node k e ts # us) = Node k e ts # nodes ts @ nodes us"

definition items :: "doc \<Rightarrow> (nat \<times> elem) list" where
  "items d = map (\<lambda>n. (nkey n, ninfo n)) (nodes d)"

definition keys :: "doc \<Rightarrow> nat list" where
  "keys d = map fst (items d)"

definition idents :: "doc \<Rightarrow> string list" where
  "idents d = map (ident \<circ> snd) (items d)"

lemma nodes_append [simp]: "nodes (xs @ ys) = nodes xs @ nodes ys"
  by (induction xs rule: nodes.induct) auto

lemma nodes_Cons: "nodes (t # us) = t # nodes (kids t) @ nodes us"
  by (cases t) simp

lemma items_simps [simp]:
  "items [] = []"
  "items (Node k e ts # us) = (k, e) # items ts @ items us"
  "items (xs @ ys) = items xs @ items ys"
  by (simp_all add: items_def)

lemma keys_simps [simp]:
  "keys [] = []"
  "keys (Node k e ts # us) = k # keys ts @ keys us"
  "keys (xs @ ys) = keys xs @ keys ys"
  by (simp_all add: keys_def)

lemma idents_simps [simp]:
  "idents [] = []"
  "idents (Node k e ts # us) = ident e # idents ts @ idents us"
  "idents (xs @ ys) = idents xs @ idents ys"
  by (simp_all add: idents_def)

lemma nkey_in_keys: "n \<in> set (nodes d) \<Longrightarrow> nkey n \<in> set (keys d)"
  by (auto simp: keys_def items_def)

section \<open>Looking nodes up\<close>

definition find_key :: "nat \<Rightarrow> doc \<Rightarrow> node option" where
  "find_key k d = find (\<lambda>n. nkey n = k) (nodes d)"

text \<open>\<^verbatim>\<open>dom.byId\<close> is \<^verbatim>\<open>getElementById\<close>: the first element in document order with that id, null
  for the empty string.\<close>

definition by_id :: "string \<Rightarrow> doc \<Rightarrow> node option" where
  "by_id i d = (if i = [] then None else find (\<lambda>n. ident (ninfo n) = i) (nodes d))"

lemma find_key_None: "find_key k d = None \<longleftrightarrow> k \<notin> set (keys d)"
  by (auto simp: find_key_def keys_def items_def find_None_iff)

lemma find_key_nkey: "find_key k d = Some n \<Longrightarrow> nkey n = k \<and> n \<in> set (nodes d)"
  by (auto simp: find_key_def find_Some_iff)

lemma by_id_None: "i \<noteq> [] \<Longrightarrow> by_id i d = None \<longleftrightarrow> i \<notin> set (idents d)"
  by (auto simp: by_id_def idents_def items_def find_None_iff)

lemma by_id_Some: "by_id i d = Some n \<Longrightarrow> ident (ninfo n) = i \<and> n \<in> set (nodes d) \<and> i \<noteq> []"
  by (auto simp: by_id_def find_Some_iff split: if_splits)

lemma by_id_key: "by_id i d = Some n \<Longrightarrow> nkey n \<in> set (keys d)"
  by (blast dest: by_id_Some intro: nkey_in_keys)

section \<open>Substitution\<close>

fun subst :: "nat \<Rightarrow> (node \<Rightarrow> node list) \<Rightarrow> doc \<Rightarrow> doc" where
  "subst r g [] = []"
| "subst r g (Node k e ts # us) =
     (if k = r then g (Node k e ts) else [Node k e (subst r g ts)]) @ subst r g us"

lemma subst_notin: "r \<notin> set (keys d) \<Longrightarrow> subst r g d = d"
  by (induction r g d rule: subst.induct) auto

text \<open>The place of a node in document order: everything before and after its subtree is kept by
  any substitution at it.\<close>

lemma subst_split:
  assumes "distinct (keys d)" "find_key r d = Some n"
  shows "\<exists>pre post. items d = pre @ items [n] @ post
           \<and> (\<forall>g. items (subst r g d) = pre @ items (g n) @ post)"
  using assms
proof (induction d rule: nodes.induct)
  case 1
  then show ?case by (simp add: find_key_def)
next
  case (2 k e ts us)
  from 2(3) have dist: "distinct (keys ts)" "distinct (keys us)"
    "k \<notin> set (keys ts)" "k \<notin> set (keys us)" "set (keys ts) \<inter> set (keys us) = {}"
    by auto
  show ?case
  proof (cases "k = r")
    case True
    with 2(4) have n: "n = Node k e ts" by (simp add: find_key_def)
    from True dist have "subst r g (Node k e ts # us) = g n @ us" for g
      by (simp add: subst_notin n)
    then have "\<forall>g. items (subst r g (Node k e ts # us)) = [] @ items (g n) @ items us" by simp
    moreover have "items (Node k e ts # us) = [] @ items [n] @ items us" by (simp add: n)
    ultimately show ?thesis by blast
  next
    case False
    show ?thesis
    proof (cases "r \<in> set (keys ts)")
      case True
      then obtain m where "find_key r ts = Some m"
        using find_key_None [of r ts] by (cases "find_key r ts") auto
      with False 2(4) have "find_key r ts = Some n"
        by (simp add: find_key_def find_append)
      with 2(1) dist obtain pre post where
        p: "items ts = pre @ items [n] @ post"
        "\<forall>g. items (subst r g ts) = pre @ items (g n) @ post" by blast
      from True dist have "subst r g us = us" for g by (intro subst_notin) auto
      with p False show ?thesis
        by (intro exI [of _ "(k, e) # pre"] exI [of _ "post @ items us"]) simp
    next
      case notin: False
      then have "find_key r ts = None" by (simp add: find_key_None)
      with False 2(4) have "find_key r us = Some n"
        by (simp add: find_key_def find_append)
      with 2(2) dist obtain pre post where
        p: "items us = pre @ items [n] @ post"
        "\<forall>g. items (subst r g us) = pre @ items (g n) @ post" by blast
      with notin False show ?thesis
        by (intro exI [of _ "(k, e) # items ts @ pre"] exI [of _ post]) (simp add: subst_notin)
    qed
  qed
qed

lemma subst_items:
  assumes "distinct (keys d)" "find_key r d = Some n"
  obtains pre post where "items d = pre @ items [n] @ post"
    "\<And>g. items (subst r g d) = pre @ items (g n) @ post"
  using subst_split [OF assms] by blast

lemma find_key_in_kids:
  assumes "distinct (keys d)" "find_key r d = Some n"
  shows "distinct (keys (kids n))" "r \<notin> set (keys (kids n))" "set (keys [n]) \<subseteq> set (keys d)"
proof -
  from subst_items [OF assms] obtain pre post where i: "items d = pre @ items [n] @ post" by metis
  obtain e ks where n: "n = Node r e ks"
    using find_key_nkey [OF assms(2)] by (cases n) auto
  have "keys d = map fst pre @ keys [n] @ map fst post" by (simp add: keys_def i)
  with assms(1) show "distinct (keys (kids n))" "r \<notin> set (keys (kids n))"
    "set (keys [n]) \<subseteq> set (keys d)" by (auto simp: n)
qed

lemma find_key_subst_self:
  assumes "distinct (keys d)" "find_key r d = Some n" "\<And>m. nkey m = r \<Longrightarrow> nkey (h m) = r"
  shows "find_key r (subst r (\<lambda>m. [h m]) d) = Some (h n)"
  using assms
proof (induction d rule: nodes.induct)
  case 1
  then show ?case by (simp add: find_key_def)
next
  case (2 k e ts us)
  then have dist: "distinct (keys ts)" "distinct (keys us)" by auto
  show ?case
  proof (cases "k = r")
    case True
    with 2(4) have "n = Node r e ts" by (simp add: find_key_def)
    with True 2(5) [of n] show ?thesis
      by (cases "h n") (simp add: find_key_def nodes_Cons)
  next
    case False
    show ?thesis
    proof (cases "r \<in> set (keys ts)")
      case True
      then obtain m where m: "find_key r ts = Some m"
        using find_key_None [of r ts] by (cases "find_key r ts") auto
      with False 2(4) have "m = n" by (simp add: find_key_def find_append)
      with m 2(1) dist 2(5) have "find_key r (subst r (\<lambda>m. [h m]) ts) = Some (h n)" by simp
      with False show ?thesis by (simp add: find_key_def find_append)
    next
      case notin: False
      then have none: "find_key r ts = None" by (simp add: find_key_None)
      with False 2(4) have "find_key r us = Some n" by (simp add: find_key_def find_append)
      with 2(2) dist 2(5) have "find_key r (subst r (\<lambda>m. [h m]) us) = Some (h n)" by simp
      with False none notin show ?thesis
        by (simp add: find_key_def find_append subst_notin)
    qed
  qed
qed

lemma by_id_subst_self:
  assumes "distinct (keys d)" "by_id i d = Some n"
    "\<And>m. ident (ninfo m) = i \<Longrightarrow> ident (ninfo (h m)) = i"
  shows "by_id i (subst (nkey n) (\<lambda>m. [h m]) d) = Some (h n)"
  using assms
proof (induction d rule: nodes.induct)
  case 1
  then show ?case by (simp add: by_id_def split: if_splits)
next
  case (2 k e ts us)
  then have dist: "distinct (keys ts)" "distinct (keys us)" "k \<notin> set (keys ts)"
    "k \<notin> set (keys us)" "set (keys ts) \<inter> set (keys us) = {}" by auto
  from 2(4) have ne: "i \<noteq> []" by (simp add: by_id_def split: if_splits)
  show ?case
  proof (cases "ident e = i")
    case True
    with 2(4) have n: "n = Node k e ts" by (simp add: by_id_def split: if_splits)
    with True ne 2(5) [of n] show ?thesis
      by (cases "h n") (simp add: by_id_def nodes_Cons)
  next
    case False
    show ?thesis
    proof (cases "by_id i ts")
      case (Some m)
      with False ne 2(4) have "m = n" by (simp add: by_id_def find_append)
      with Some have n: "by_id i ts = Some n" by simp
      then have nk: "nkey n \<in> set (keys ts)" by (rule by_id_key)
      with dist have "k \<noteq> nkey n" "nkey n \<notin> set (keys us)" by auto
      moreover from 2(1) dist n 2(5)
      have "by_id i (subst (nkey n) (\<lambda>m. [h m]) ts) = Some (h n)" by simp
      ultimately show ?thesis using False ne by (simp add: by_id_def find_append)
    next
      case None
      with False ne 2(4) have n: "by_id i us = Some n" by (simp add: by_id_def find_append)
      then have nk: "nkey n \<in> set (keys us)" by (rule by_id_key)
      with dist have "k \<noteq> nkey n" "nkey n \<notin> set (keys ts)" by auto
      moreover from 2(2) dist n 2(5)
      have "by_id i (subst (nkey n) (\<lambda>m. [h m]) us) = Some (h n)" by simp
      ultimately show ?thesis using False ne None by (simp add: by_id_def find_append subst_notin)
    qed
  qed
qed

section \<open>dojo/dom-construct\<close>

datatype pos = Before | After | Replace | Only | First | Last | Index int

definition has_parent :: "nat \<Rightarrow> doc \<Rightarrow> bool" where
  "has_parent r d \<longleftrightarrow> r \<notin> set (map nkey d)"

definition detach :: "nat \<Rightarrow> doc \<Rightarrow> doc" where
  "detach k d = subst k (\<lambda>n. []) d"

definition upd_kids :: "nat \<Rightarrow> (node list \<Rightarrow> node list) \<Rightarrow> doc \<Rightarrow> doc" where
  "upd_kids k f d = subst k (\<lambda>n. [Node (nkey n) (ninfo n) (f (kids n))]) d"

definition upd_elem :: "nat \<Rightarrow> (elem \<Rightarrow> elem) \<Rightarrow> doc \<Rightarrow> doc" where
  "upd_elem k f d = subst k (\<lambda>n. [Node (nkey n) (f (ninfo n)) (kids n)]) d"

definition hierarchy_error :: js_error where
  "hierarchy_error = ErrorMsg ''HierarchyRequestError''"

text \<open>The DOM's own insertions: a node already in the document moves; inserting it below itself
  throws and changes nothing.\<close>

definition append_child :: "node \<Rightarrow> nat \<Rightarrow> doc \<Rightarrow> doc \<times> js_error option" where
  "append_child t r d =
     (if r \<in> set (keys [t]) then (d, Some hierarchy_error)
      else (upd_kids r (\<lambda>ks. ks @ [t]) (detach (nkey t) d), None))"

definition insert_before :: "node \<Rightarrow> nat \<Rightarrow> doc \<Rightarrow> doc \<times> js_error option" where
  "insert_before t c d =
     (if c = nkey t then (d, None)
      else if c \<in> set (keys (kids t)) then (d, Some hierarchy_error)
      else (subst c (\<lambda>n. [t, n]) (detach (nkey t) d), None))"

definition insert_after :: "node \<Rightarrow> nat \<Rightarrow> doc \<Rightarrow> doc \<times> js_error option" where
  "insert_after t c d =
     (if c = nkey t then (d, None)
      else if c \<in> set (keys (kids t)) then (d, Some hierarchy_error)
      else (subst c (\<lambda>n. [n, t]) (detach (nkey t) d), None))"

definition replace_child :: "node \<Rightarrow> nat \<Rightarrow> doc \<Rightarrow> doc \<times> js_error option" where
  "replace_child t c d =
     (if c = nkey t then (d, None)
      else if c \<in> set (keys (kids t)) then (d, Some hierarchy_error)
      else (subst c (\<lambda>n. [t]) (detach (nkey t) d), None))"

definition empty_node :: "nat \<Rightarrow> doc \<Rightarrow> doc" where
  "empty_node r d = upd_kids r (\<lambda>_. []) d"

text \<open>\<open>place node refNode position\<close>; \<open>None\<close> is a \<^verbatim>\<open>refNode\<close> that \<^verbatim>\<open>dom.byId\<close> did not find. Any
  position the switch does not name is \<open>Last\<close>.\<close>

fun place :: "node \<Rightarrow> node option \<Rightarrow> pos \<Rightarrow> doc \<Rightarrow> doc \<times> js_error option" where
  "place t None p d = (d, Some (TypeError ''refNode is null''))"
| "place t (Some r) (Index i) d =
     (let cn = kids r
      in if cn = [] \<or> int (length cn) \<le> i then append_child t (nkey r) d
         else insert_before t (nkey (cn ! (if i < 0 then 0 else nat i))) d)"
| "place t (Some r) Before d =
     (if has_parent (nkey r) d then insert_before t (nkey r) d else (d, None))"
| "place t (Some r) After d =
     (if has_parent (nkey r) d then insert_after t (nkey r) d else (d, None))"
| "place t (Some r) Replace d =
     (if has_parent (nkey r) d then replace_child t (nkey r) d
      else (d, Some (TypeError ''refNode.parentNode is null'')))"
| "place t (Some r) Only d = append_child t (nkey r) (empty_node (nkey r) d)"
| "place t (Some r) First d =
     (case kids r of
        c # _ \<Rightarrow> insert_before t (nkey c) d
      | [] \<Rightarrow> append_child t (nkey r) d)"
| "place t (Some r) Last d = append_child t (nkey r) d"

text \<open>\<^verbatim>\<open>create(tag, attrs, refNode, pos)\<close> with a new identity \<open>n\<close>; the attributes are already set in
  \<open>e\<close>. The outer \<open>None\<close> is a call with no \<^verbatim>\<open>refNode\<close>.\<close>

definition create :: "elem \<Rightarrow> node option option \<Rightarrow> pos \<Rightarrow> nat \<Rightarrow> doc \<Rightarrow> doc \<times> js_error option" where
  "create e ref p n d =
     (case ref of
        None \<Rightarrow> (d, None)
      | Some None \<Rightarrow> (d, Some (TypeError ''refNode is null''))
      | Some (Some r) \<Rightarrow> place (Node n e []) (Some r) p d)"

text \<open>\<^verbatim>\<open>empty\<close> dereferences what \<^verbatim>\<open>dom.byId\<close> returned; \<^verbatim>\<open>destroy\<close> does so inside a
  \<^verbatim>\<open>try\<close> that swallows the error.\<close>

fun empty :: "node option \<Rightarrow> doc \<Rightarrow> doc \<times> js_error option" where
  "empty None d = (d, Some (TypeError ''node is null''))"
| "empty (Some n) d = (empty_node (nkey n) d, None)"

fun destroy :: "node option \<Rightarrow> doc \<Rightarrow> doc" where
  "destroy None d = d"
| "destroy (Some n) d = detach (nkey n) d"

section \<open>What the operations do to the nodes in document order\<close>

lemma detach_items:
  assumes "distinct (keys d)" "find_key k d = Some n"
  obtains pre post where "items d = pre @ items [n] @ post" "items (detach k d) = pre @ post"
  using subst_items [OF assms] unfolding detach_def by (metis append_Nil items_simps(1))

lemma detach_notin: "k \<notin> set (keys d) \<Longrightarrow> detach k d = d"
  by (simp add: detach_def subst_notin)

lemma items_kids: "items [n] = (nkey n, ninfo n) # items (kids n)"
  by (cases n) simp

lemma keys_kids: "keys [n] = nkey n # keys (kids n)"
  by (cases n) simp

text \<open>A node that may be given to an insertion: new, or the very node of the document.\<close>

definition placeable :: "node \<Rightarrow> doc \<Rightarrow> bool" where
  "placeable t d \<longleftrightarrow> distinct (keys [t])
     \<and> (set (keys [t]) \<inter> set (keys d) = {} \<or> find_key (nkey t) d = Some t)"

lemma detach_disjoint:
  assumes "distinct (keys d)" "placeable t d"
  shows "set (keys [t]) \<inter> set (keys (detach (nkey t) d)) = {}"
    "distinct (keys (detach (nkey t) d))" "set (keys (detach (nkey t) d)) \<subseteq> set (keys d)"
proof -
  have "set (keys [t]) \<inter> set (keys (detach (nkey t) d)) = {} \<and> distinct (keys (detach (nkey t) d))
    \<and> set (keys (detach (nkey t) d)) \<subseteq> set (keys d)"
  proof (cases "nkey t \<in> set (keys d)")
    case False
    with assms show ?thesis
      by (auto simp: placeable_def detach_notin find_key_None [symmetric])
  next
    case True
    then have "find_key (nkey t) d = Some t"
      using assms(2) by (auto simp: placeable_def keys_kids)
    from detach_items [OF assms(1) this] obtain pre post where
      "items d = pre @ items [t] @ post" "items (detach (nkey t) d) = pre @ post" .
    with assms(1) show ?thesis by (auto simp: keys_def)
  qed
  then show "set (keys [t]) \<inter> set (keys (detach (nkey t) d)) = {}"
    "distinct (keys (detach (nkey t) d))" "set (keys (detach (nkey t) d)) \<subseteq> set (keys d)" by auto
qed

lemma subst_keys_distinct:
  assumes "distinct (keys d)" "set (keys [t]) \<inter> set (keys d) = {}" "distinct (keys [t])"
    and "\<And>n. items (g n) = items [t] @ items [n] \<or> items (g n) = items [n] @ items [t]
      \<or> items (g n) = items [t]"
  shows "distinct (keys (subst r g d)) \<and> set (keys (subst r g d)) \<subseteq> set (keys d) \<union> set (keys [t])"
proof (cases "find_key r d")
  case None
  then show ?thesis using assms(1) by (simp add: find_key_None subst_notin)
next
  case (Some n)
  from subst_items [OF assms(1) Some] obtain pre post where
    *: "items d = pre @ items [n] @ post" "\<And>g. items (subst r g d) = pre @ items (g n) @ post" by metis
  show ?thesis
    using assms(4) [of n] assms(1-3) by (elim disjE) (auto simp: keys_def *)
qed

lemma upd_kids_append_distinct:
  assumes "distinct (keys d)" "set (keys [t]) \<inter> set (keys d) = {}" "distinct (keys [t])"
  shows "distinct (keys (upd_kids r (\<lambda>ks. ks @ [t]) d))
    \<and> set (keys (upd_kids r (\<lambda>ks. ks @ [t]) d)) \<subseteq> set (keys d) \<union> set (keys [t])"
  unfolding upd_kids_def
proof (rule subst_keys_distinct [OF assms])
  fix n
  show "items [Node (nkey n) (ninfo n) (kids n @ [t])] = items [t] @ items [n]
    \<or> items [Node (nkey n) (ninfo n) (kids n @ [t])] = items [n] @ items [t]
    \<or> items [Node (nkey n) (ninfo n) (kids n @ [t])] = items [t]"
    by (simp add: items_kids [of n])
qed

lemma empty_node_distinct:
  assumes "distinct (keys d)"
  shows "distinct (keys (empty_node r d)) \<and> set (keys (empty_node r d)) \<subseteq> set (keys d)"
proof (cases "find_key r d")
  case None
  then show ?thesis using assms by (simp add: empty_node_def upd_kids_def find_key_None subst_notin)
next
  case (Some n)
  from subst_items [OF assms Some] obtain pre post where
    *: "items d = pre @ items [n] @ post" "\<And>g. items (subst r g d) = pre @ items (g n) @ post" by metis
  from * assms show ?thesis
    by (auto simp: keys_def empty_node_def upd_kids_def items_kids [of n])
qed

lemma detach_distinct:
  assumes "distinct (keys d)"
  shows "distinct (keys (detach r d))" "set (keys (detach r d)) \<subseteq> set (keys d)"
proof -
  have "distinct (keys (detach r d)) \<and> set (keys (detach r d)) \<subseteq> set (keys d)"
  proof (cases "find_key r d")
    case None
    then show ?thesis using assms by (simp add: find_key_None detach_notin)
  next
    case (Some n)
    from detach_items [OF assms Some] obtain pre post where
      "items d = pre @ items [n] @ post" "items (detach r d) = pre @ post" .
    with assms show ?thesis by (auto simp: keys_def)
  qed
  then show "distinct (keys (detach r d))" "set (keys (detach r d)) \<subseteq> set (keys d)" by auto
qed

lemma upd_elem_items:
  assumes "distinct (keys d)"
  shows "keys (upd_elem r f d) = keys d"
proof (cases "find_key r d")
  case None
  then show ?thesis by (simp add: upd_elem_def find_key_None subst_notin)
next
  case (Some n)
  from subst_items [OF assms Some] obtain pre post where
    *: "items d = pre @ items [n] @ post" "\<And>g. items (subst r g d) = pre @ items (g n) @ post" by metis
  then show ?thesis by (simp add: keys_def upd_elem_def items_kids [of n])
qed

lemma insert_distinct:
  assumes "distinct (keys d)" "placeable t d" "(d', e) = f t c d"
    and "f \<in> {append_child, insert_before, insert_after, replace_child}"
  shows "distinct (keys d') \<and> set (keys d') \<subseteq> set (keys d) \<union> set (keys [t])"
proof -
  note dd = detach_disjoint [OF assms(1,2)]
  have t: "distinct (keys [t])" using assms(2) by (simp add: placeable_def)
  have s: "distinct (keys (subst c g (detach (nkey t) d)))
    \<and> set (keys (subst c g (detach (nkey t) d))) \<subseteq> set (keys d) \<union> set (keys [t])"
    if "\<And>n. items (g n) = items [t] @ items [n] \<or> items (g n) = items [n] @ items [t]
      \<or> items (g n) = items [t]" for g
    using subst_keys_distinct [OF dd(2,1) t that, of c] dd(3) by blast
  have "distinct (keys (upd_kids c (\<lambda>ks. ks @ [t]) (detach (nkey t) d)))
    \<and> set (keys (upd_kids c (\<lambda>ks. ks @ [t]) (detach (nkey t) d))) \<subseteq> set (keys d) \<union> set (keys [t])"
    using upd_kids_append_distinct [OF dd(2,1) t, of c] dd(3) by blast
  moreover have "distinct (keys (subst c (\<lambda>n. [t, n]) (detach (nkey t) d)))
    \<and> set (keys (subst c (\<lambda>n. [t, n]) (detach (nkey t) d))) \<subseteq> set (keys d) \<union> set (keys [t])"
    by (rule s) (metis append_Cons append_Nil items_simps(3))
  moreover have "distinct (keys (subst c (\<lambda>n. [n, t]) (detach (nkey t) d)))
    \<and> set (keys (subst c (\<lambda>n. [n, t]) (detach (nkey t) d))) \<subseteq> set (keys d) \<union> set (keys [t])"
    by (rule s) (metis append_Cons append_Nil items_simps(3))
  moreover have "distinct (keys (subst c (\<lambda>n. [t]) (detach (nkey t) d)))
    \<and> set (keys (subst c (\<lambda>n. [t]) (detach (nkey t) d))) \<subseteq> set (keys d) \<union> set (keys [t])"
    by (rule s) simp
  ultimately show ?thesis
    using assms(1,3,4)
    by (auto simp: append_child_def insert_before_def insert_after_def replace_child_def
        split: if_splits)
qed

lemma place_distinct:
  assumes "distinct (keys d)" "distinct (keys [t])"
    and "set (keys [t]) \<inter> set (keys d) = {} \<or> p \<noteq> Only \<and> find_key (nkey t) d = Some t"
  shows "distinct (keys (fst (place t r p d)))
    \<and> set (keys (fst (place t r p d))) \<subseteq> set (keys d) \<union> set (keys [t])"
proof (cases r)
  case None
  with assms(1) show ?thesis by simp
next
  case (Some n)
  have pl: "placeable t d" using assms by (auto simp: placeable_def)
  have ins: "distinct (keys (fst (f t c d))) \<and> set (keys (fst (f t c d))) \<subseteq> set (keys d) \<union> set (keys [t])"
    if "f \<in> {append_child, insert_before, insert_after, replace_child}" for f c
    using insert_distinct [OF assms(1) pl _ that, of _ _ c] by (metis prod.collapse)
  show ?thesis
  proof (cases p)
    case Only
    let ?d = "empty_node (nkey n) d"
    note e = empty_node_distinct [OF assms(1), of "nkey n"]
    have "set (keys [t]) \<inter> set (keys ?d) = {}" using Only e assms(3) by auto
    then have "placeable t ?d" using assms(2) by (simp add: placeable_def)
    from insert_distinct [OF _ this, of _ _ append_child "nkey n"] e
    have "distinct (keys (fst (append_child t (nkey n) ?d)))
      \<and> set (keys (fst (append_child t (nkey n) ?d))) \<subseteq> set (keys ?d) \<union> set (keys [t])"
      by (metis insertI1 prod.collapse)
    with e show ?thesis by (auto simp: Some Only)
  next
    case First
    then show ?thesis using ins assms(1) by (cases "kids n") (auto simp: Some)
  next
    case (Index i)
    then show ?thesis using ins assms(1) by (simp add: Some Let_def)
  qed (use ins assms(1) in \<open>auto simp: Some\<close>)
qed

lemma split_unique:
  assumes "distinct (map fst (xs @ y # zs))" "xs @ y # zs = xs' @ y # zs'"
  shows "xs = xs' \<and> zs = zs'"
  using assms
proof (induction xs arbitrary: xs')
  case Nil
  then show ?case by (cases xs') auto
next
  case (Cons a xs)
  have "a \<noteq> y" using Cons.prems(1) by auto
  with Cons.prems(2) obtain l where l: "xs' = a # l" "xs @ y # zs = l @ y # zs'"
    by (cases xs') auto
  from Cons.IH [OF _ l(2)] Cons.prems(1) l show ?case by simp
qed

lemma find_key_nodes:
  assumes "distinct (keys d)" "c \<in> set (nodes d)"
  shows "find_key (nkey c) d = Some c"
  using assms
proof (induction d rule: nodes.induct)
  case 1
  then show ?case by simp
next
  case (2 k e ts us)
  then have dist: "distinct (keys ts)" "distinct (keys us)" "k \<notin> set (keys ts)"
    "k \<notin> set (keys us)" "set (keys ts) \<inter> set (keys us) = {}" by auto
  from 2(4) consider "c = Node k e ts" | "c \<in> set (nodes ts)" | "c \<in> set (nodes us)" by auto
  then show ?case
  proof cases
    case 1
    then show ?thesis by (simp add: find_key_def)
  next
    case c: 2
    with dist have "k \<noteq> nkey c" by (auto dest: nkey_in_keys)
    with 2(1) dist c show ?thesis by (auto simp: find_key_def find_append)
  next
    case c: 3
    with dist have "k \<noteq> nkey c" "nkey c \<notin> set (keys ts)" by (auto dest: nkey_in_keys)
    then have "find_key (nkey c) ts = None" by (simp add: find_key_None)
    with 2(2) dist c \<open>k \<noteq> nkey c\<close> show ?thesis by (simp add: find_key_def find_append)
  qed
qed

lemma nodes_trans: "n \<in> set (nodes d) \<Longrightarrow> set (nodes (kids n)) \<subseteq> set (nodes d)"
  by (induction d rule: nodes.induct) auto

lemma kids_in_nodes: "c \<in> set ks \<Longrightarrow> c \<in> set (nodes ks)"
proof (induction ks)
  case (Cons a ks)
  then show ?case by (cases a) auto
qed simp

lemma subst_fuse:
  "(\<And>m. nkey m = r \<Longrightarrow> nkey (h m) = r) \<Longrightarrow>
   subst r g (subst r (\<lambda>m. [h m]) d) = subst r (\<lambda>m. g (h m)) d"
proof (induction d rule: nodes.induct)
  case (2 k e ts us)
  have app: "subst r g (xs @ ys) = subst r g xs @ subst r g ys" for xs ys
    by (induction xs rule: nodes.induct) auto
  have one: "nkey m = r \<Longrightarrow> subst r g [m] = g m" for m by (cases m) simp
  have cons: "subst r g (m # xs) = subst r g [m] @ subst r g xs" for m xs
    using app [of "[m]" xs] by simp
  show ?case
    using 2(1,2) 2(3) [of "Node k e ts"] 2(3) one [of "h (Node k e ts)"]
      cons [of "h (Node k e ts)" "subst r (\<lambda>m. [h m]) us"]
    by (cases "k = r") simp_all
qed simp

text \<open>The insertions of a node that is not in the document yet.\<close>

lemma insert_fresh:
  assumes "set (keys [t]) \<inter> set (keys d) = {}" "k \<in> set (keys d)"
  shows "append_child t k d = (upd_kids k (\<lambda>ks. ks @ [t]) d, None)"
    "insert_before t k d = (subst k (\<lambda>n. [t, n]) d, None)"
    "insert_after t k d = (subst k (\<lambda>n. [n, t]) d, None)"
    "replace_child t k d = (subst k (\<lambda>n. [t]) d, None)"
proof -
  have "nkey t \<notin> set (keys d)" "k \<noteq> nkey t" "k \<notin> set (keys (kids t))"
    using assms by (auto simp: keys_kids)
  then show "append_child t k d = (upd_kids k (\<lambda>ks. ks @ [t]) d, None)"
    "insert_before t k d = (subst k (\<lambda>n. [t, n]) d, None)"
    "insert_after t k d = (subst k (\<lambda>n. [n, t]) d, None)"
    "replace_child t k d = (subst k (\<lambda>n. [t]) d, None)"
    by (simp_all add: append_child_def insert_before_def insert_after_def replace_child_def
        detach_notin keys_kids)
qed

lemma place_only_fresh:
  assumes "distinct (keys d)" "set (keys [t]) \<inter> set (keys d) = {}" "find_key k d = Some (Node k e ks)"
  shows "place t (Some (Node k e ks)) Only d = (upd_kids k (\<lambda>_. [t]) d, None)"
proof -
  have "set (keys [t]) \<inter> set (keys (empty_node k d)) = {}"
    using empty_node_distinct [OF assms(1), of k] assms(2) by auto
  moreover have "find_key k (empty_node k d) = Some (Node k e [])"
    using find_key_subst_self [OF assms(1,3), of "\<lambda>n. Node (nkey n) (ninfo n) []"]
    by (simp add: empty_node_def upd_kids_def)
  then have "k \<in> set (keys (empty_node k d))" using find_key_None [of k "empty_node k d"] by auto
  ultimately show ?thesis
    by (simp add: insert_fresh(1)) (simp add: empty_node_def upd_kids_def subst_fuse)
qed

lemma find_key_child:
  assumes "distinct (keys d)" "find_key k d = Some (Node k e ks)" "c \<in> set ks"
  shows "nkey c \<in> set (keys d)"
proof -
  have "Node k e ks \<in> set (nodes d)" using find_key_nkey [OF assms(2)] by simp
  then have "c \<in> set (nodes d)"
    using nodes_trans [of "Node k e ks" d] kids_in_nodes [OF assms(3)] by auto
  then show ?thesis by (rule nkey_in_keys)
qed

text \<open>No operation brings in element data but the inserted node's.\<close>

lemma items_of_node: "n \<in> set (nodes d) \<Longrightarrow> set (items [n]) \<subseteq> set (items d)"
  using nodes_trans [of n d] by (cases n) (force simp: items_def)

lemma subst_items_subset:
  assumes "\<And>n. nkey n = r \<Longrightarrow> set (items (g n)) \<subseteq> set (items [n]) \<union> A"
  shows "set (items (subst r g d)) \<subseteq> set (items d) \<union> A"
proof (induction d rule: nodes.induct)
  case (2 k e ts us)
  then show ?case using assms [of "Node k e ts"] by auto
qed simp

lemma detach_items_subset: "set (items (detach k d)) \<subseteq> set (items d)"
  using subst_items_subset [of k "\<lambda>_. []" "{}" d] by (auto simp: detach_def)

lemma items_two: "items [t, n] = items [t] @ items [n]"
  using items_simps(3) [of "[t]" "[n]"] by simp

lemma upd_kids_items_subset:
  "(\<And>ks. set (items (f ks)) \<subseteq> set (items ks) \<union> A) \<Longrightarrow> set (items (upd_kids k f d)) \<subseteq> set (items d) \<union> A"
  unfolding upd_kids_def by (rule subst_items_subset) (auto simp: items_kids)

lemma insert_items_subset:
  "set (items (fst (append_child t k d))) \<subseteq> set (items d) \<union> set (items [t])"
  "set (items (fst (insert_before t k d))) \<subseteq> set (items d) \<union> set (items [t])"
  "set (items (fst (insert_after t k d))) \<subseteq> set (items d) \<union> set (items [t])"
  "set (items (fst (replace_child t k d))) \<subseteq> set (items d) \<union> set (items [t])"
proof -
  have "set (items (upd_kids k (\<lambda>ks. ks @ [t]) (detach (nkey t) d))) \<subseteq> set (items d) \<union> set (items [t])"
    using upd_kids_items_subset [of "\<lambda>ks. ks @ [t]" "set (items [t])" k "detach (nkey t) d"]
      detach_items_subset [of "nkey t" d] by auto
  then show "set (items (fst (append_child t k d))) \<subseteq> set (items d) \<union> set (items [t])"
    by (auto simp: append_child_def)
  have "set (items (subst k g (detach (nkey t) d))) \<subseteq> set (items d) \<union> set (items [t])"
    if "\<And>n. set (items (g n)) \<subseteq> set (items [n]) \<union> set (items [t])" for g
    using subst_items_subset [of k g "set (items [t])" "detach (nkey t) d", OF that]
      detach_items_subset [of "nkey t" d] by auto
  from this [of "\<lambda>n. [t, n]"] this [of "\<lambda>n. [n, t]"] this [of "\<lambda>n. [t]"]
  have "set (items (subst k (\<lambda>n. [t, n]) (detach (nkey t) d))) \<subseteq> set (items d) \<union> set (items [t])"
    "set (items (subst k (\<lambda>n. [n, t]) (detach (nkey t) d))) \<subseteq> set (items d) \<union> set (items [t])"
    "set (items (subst k (\<lambda>n. [t]) (detach (nkey t) d))) \<subseteq> set (items d) \<union> set (items [t])"
    by (simp_all add: items_two)
  then show "set (items (fst (insert_before t k d))) \<subseteq> set (items d) \<union> set (items [t])"
    "set (items (fst (insert_after t k d))) \<subseteq> set (items d) \<union> set (items [t])"
    "set (items (fst (replace_child t k d))) \<subseteq> set (items d) \<union> set (items [t])"
    by (simp_all add: insert_before_def insert_after_def replace_child_def)
qed

lemma empty_node_items_subset: "set (items (empty_node k d)) \<subseteq> set (items d)"
  using upd_kids_items_subset [of "\<lambda>_. []" "{}" k d] by (simp add: empty_node_def)

lemma place_items_subset: "set (items (fst (place t r p d))) \<subseteq> set (items d) \<union> set (items [t])"
proof (cases r)
  case (Some n)
  note i = insert_items_subset [of t _ d]
  have "set (items (fst (append_child t (nkey n) (empty_node (nkey n) d)))) \<subseteq> set (items d) \<union> set (items [t])"
    using insert_items_subset(1) [of t "nkey n" "empty_node (nkey n) d"] empty_node_items_subset [of "nkey n" d]
    by auto
  with i show ?thesis by (cases p) (auto simp: Some Let_def split: list.splits)
qed auto

lemma detach_gone:
  assumes "distinct (keys d)"
  shows "k \<notin> set (keys (detach k d))"
proof (cases "find_key k d")
  case None
  then show ?thesis by (simp add: find_key_None detach_notin)
next
  case (Some n)
  from detach_items [OF assms this] obtain pre post where
    i: "items d = pre @ items [n] @ post" "items (detach k d) = pre @ post" .
  from assms find_key_nkey [OF Some] show ?thesis by (auto simp: keys_def i items_kids)
qed

lemma upd_elem_items_subset:
  "set (items (upd_elem k f d)) \<subseteq> {(j, e). \<exists>e'. (j, e') \<in> set (items d) \<and> (e = e' \<or> e = f e')}"
  by (induction d rule: nodes.induct) (auto simp: upd_elem_def)

text \<open>The tree as a map: of each node its element data and its children.\<close>

definition row :: "node \<Rightarrow> nat \<times> elem \<times> nat list" where
  "row n = (nkey n, ninfo n, map nkey (kids n))"

definition tree :: "doc \<Rightarrow> nat \<Rightarrow> (elem \<times> nat list) option" where
  "tree d = map_of (map row (nodes d))"

lemma tree_node: "tree d k = map_option (\<lambda>n. (ninfo n, map nkey (kids n))) (find_key k d)"
proof -
  have "map_of (map row ns) k = map_option (\<lambda>n. (ninfo n, map nkey (kids n))) (find (\<lambda>n. nkey n = k) ns)" for ns
    by (induction ns) (auto simp: row_def)
  then show ?thesis by (simp add: tree_def find_key_def)
qed

lemma tree_dom: "tree d x = None \<longleftrightarrow> x \<notin> set (keys d)"
  by (simp add: tree_node find_key_None)

lemma tree_append: "tree (xs @ ys) = tree ys ++ tree xs"
  by (simp add: tree_def)

lemma tree_Cons: "tree (n # ns) = tree ns ++ tree [n]"
  using tree_append [of "[n]" ns] by simp

lemma subst_nkeys: "(\<And>m. nkey m = r \<Longrightarrow> nkey (h m) = r) \<Longrightarrow> map nkey (subst r (\<lambda>m. [h m]) d) = map nkey d"
proof (induction d)
  case (Cons n d)
  then show ?case by (cases n) auto
qed simp

lemma upd_kids_roots: "map nkey (upd_kids r f d) = map nkey d"
  unfolding upd_kids_def by (rule subst_nkeys) simp

text \<open>Where a node is found nothing but its own part of the tree changes.\<close>

lemma subst_found:
  assumes "distinct (keys d)" "find_key r d = Some n" "g n = g' n"
  shows "subst r g d = subst r g' d"
  using assms(1,2)
proof (induction d rule: nodes.induct)
  case (2 k e ts us)
  then have dist: "distinct (keys ts)" "distinct (keys us)" "set (keys ts) \<inter> set (keys us) = {}" "k \<notin> set (keys us)" by auto
  show ?case
  proof (cases "k = r")
    case True
    with 2(4) have "n = Node k e ts" by (simp add: find_key_def)
    then show ?thesis using True dist assms(3) by (simp add: subst_notin)
  next
    case False
    show ?thesis
    proof (cases "find_key r ts")
      case None
      then have "find_key r us = Some n" "r \<notin> set (keys ts)"
        using 2(4) False by (simp_all add: find_key_def find_append flip: find_key_None)
      then show ?thesis using 2(2) dist False by (simp add: subst_notin)
    next
      case (Some m)
      then have "find_key r ts = Some n" "r \<notin> set (keys us)"
        using 2(4) False dist find_key_None [of r ts] by (auto simp: find_key_def find_append)
      then show ?thesis using 2(1) dist False by (simp add: subst_notin)
    qed
  qed
qed simp

lemma upd_kids_found:
  assumes "distinct (keys d)" "find_key r d = Some (Node r e ks)"
  shows "upd_kids r f d = upd_kids r (\<lambda>_. f ks) d"
  unfolding upd_kids_def by (rule subst_found [OF assms]) simp

text \<open>A child is replaced in the list of its parent's children.\<close>

lemma subst_child:
  assumes "distinct (keys d)" "find_key q d = Some (Node q e (us @ n # vs))"
  shows "subst (nkey n) g d = upd_kids q (\<lambda>_. us @ g n @ vs) d"
  using assms
proof (induction d rule: nodes.induct)
  case (2 k x ts ws)
  then have dist: "distinct (keys ts)" "distinct (keys ws)" "set (keys ts) \<inter> set (keys ws) = {}"
    "k \<notin> set (keys ws)" "k \<notin> set (keys ts)" by auto
  have sub: "nkey n \<in> set (keys d')" "q \<in> set (keys d')" if "find_key q d' = Some (Node q e (us @ n # vs))" for d'
  proof -
    have p: "Node q e (us @ n # vs) \<in> set (nodes d')" using find_key_nkey [OF that] by simp
    from nkey_in_keys [OF this] show "q \<in> set (keys d')" by simp
    have "n \<in> set (nodes (us @ n # vs))" by (rule kids_in_nodes) simp
    then show "nkey n \<in> set (keys d')" using nodes_trans [OF p] nkey_in_keys by auto
  qed
  show ?case
  proof (cases "k = q")
    case True
    with 2(4) have ts: "x = e" "ts = us @ n # vs" by (simp_all add: find_key_def)
    obtain j f ls where n: "n = Node j f ls" by (cases n)
    have j: "j \<notin> set (keys us)" "j \<notin> set (keys vs)" "j \<noteq> q" "j \<notin> set (keys ws)" "q \<notin> set (keys ws)"
      using dist True by (auto simp: ts n)
    have app: "subst j g (as @ bs) = subst j g as @ subst j g bs" for as bs by (induction as rule: nodes.induct) auto
    have "subst j g (us @ n # vs) = us @ g n @ vs" using j by (simp add: app n subst_notin)
    then show ?thesis using True j by (simp add: ts n upd_kids_def subst_notin)
  next
    case False
    show ?thesis
    proof (cases "find_key q ts")
      case None
      then have f: "find_key q ws = Some (Node q e (us @ n # vs))" "q \<notin> set (keys ts)"
        using 2(4) False by (simp_all add: find_key_def find_append flip: find_key_None)
      then have "nkey n \<notin> set (keys ts)" "nkey n \<noteq> k" using sub [OF f(1)] dist by auto
      then show ?thesis using 2(2) dist f False by (simp add: subst_notin upd_kids_def)
    next
      case (Some m)
      then have f: "find_key q ts = Some (Node q e (us @ n # vs))"
        using 2(4) False by (simp add: find_key_def find_append)
      then have "nkey n \<notin> set (keys ws)" "q \<notin> set (keys ws)" "nkey n \<noteq> k" using sub [OF f] dist by auto
      then show ?thesis using 2(1) dist f False by (simp add: subst_notin upd_kids_def)
    qed
  qed
qed (simp add: find_key_def)

text \<open>The tree after a node's list of children has changed.\<close>

lemma upd_kids_rows:
  assumes "distinct (keys d)" "find_key r d = Some (Node r e old)"
  shows "\<exists>pre post. map row (nodes d) = pre @ (r, e, map nkey old) # map row (nodes old) @ post
    \<and> map row (nodes (upd_kids r (\<lambda>_. new) d)) = pre @ (r, e, map nkey new) # map row (nodes new) @ post"
  using assms
proof (induction d rule: nodes.induct)
  case (2 k x ts us)
  then have dist: "distinct (keys ts)" "distinct (keys us)" "set (keys ts) \<inter> set (keys us) = {}"
    "k \<notin> set (keys us)" "k \<notin> set (keys ts)" by auto
  show ?case
  proof (cases "k = r")
    case True
    with 2(4) have "x = e" "ts = old" by (simp_all add: find_key_def)
    then show ?thesis using True dist
      by (intro exI [of _ "[]"] exI [of _ "map row (nodes us)"]) (simp add: upd_kids_def subst_notin row_def)
  next
    case False
    show ?thesis
    proof (cases "find_key r ts")
      case None
      then have f: "find_key r us = Some (Node r e old)" "r \<notin> set (keys ts)"
        using 2(4) False by (simp_all add: find_key_def find_append flip: find_key_None)
      from 2(2) [OF dist(2) f(1)] obtain pre post where
        "map row (nodes us) = pre @ (r, e, map nkey old) # map row (nodes old) @ post"
        "map row (nodes (upd_kids r (\<lambda>_. new) us)) = pre @ (r, e, map nkey new) # map row (nodes new) @ post" by blast
      then show ?thesis using f(2) False
        by (intro exI [of _ "row (Node k x ts) # map row (nodes ts) @ pre"] exI [of _ post])
          (simp add: upd_kids_def subst_notin)
    next
      case (Some m)
      then have f: "find_key r ts = Some (Node r e old)" "r \<notin> set (keys us)"
        using 2(4) False dist find_key_None [of r ts] by (auto simp: find_key_def find_append)
      from 2(1) [OF dist(1) f(1)] obtain pre post where p:
        "map row (nodes ts) = pre @ (r, e, map nkey old) # map row (nodes old) @ post"
        "map row (nodes (upd_kids r (\<lambda>_. new) ts)) = pre @ (r, e, map nkey new) # map row (nodes new) @ post" by blast
      have "row (Node k x (upd_kids r (\<lambda>_. new) ts)) = row (Node k x ts)" by (simp add: row_def upd_kids_roots)
      then show ?thesis using p f(2) False
        by (intro exI [of _ "row (Node k x ts) # pre"] exI [of _ "post @ map row (nodes us)"])
          (simp add: upd_kids_def subst_notin)
    qed
  qed
qed (simp add: find_key_def)

lemma upd_kids_tree:
  assumes d: "distinct (keys d)" "find_key r d = Some (Node r e old)" and t: "set (keys [t]) \<inter> set (keys d) = {}"
    and new: "tree new = (tree old |` (- gone)) ++ tree [t]" "gone \<subseteq> set (keys old)"
  shows "tree (upd_kids r (\<lambda>_. new) d) = ((tree d |` (- gone))(r \<mapsto> (e, map nkey new))) ++ tree [t]"
proof -
  from upd_kids_rows [OF d, of new] obtain pre post where p:
    "map row (nodes d) = pre @ (r, e, map nkey old) # map row (nodes old) @ post"
    "map row (nodes (upd_kids r (\<lambda>_. new) d)) = pre @ (r, e, map nkey new) # map row (nodes new) @ post" by blast
  have k: "set (keys d) = fst ` set (map row (nodes d))" "keys d = map fst (map row (nodes d))" for d
    by (simp_all add: keys_def items_def row_def comp_def image_image)
  have dj: "distinct (map fst (pre @ (r, e, map nkey old) # map row (nodes old) @ post))" using d(1) unfolding k(2) p(1) .
  have none: "map_of xs x = None \<longleftrightarrow> x \<notin> fst ` set xs" for xs :: "(nat \<times> elem \<times> nat list) list" and x
    by (rule map_of_eq_None_iff)
  show ?thesis
  proof
    fix x
    have td: "tree d x = (case map_of pre x of Some y \<Rightarrow> Some y | None \<Rightarrow> if x = r then Some (e, map nkey old)
        else (case tree old x of Some y \<Rightarrow> Some y | None \<Rightarrow> map_of post x))"
      "tree (upd_kids r (\<lambda>_. new) d) x = (case map_of pre x of Some y \<Rightarrow> Some y | None \<Rightarrow> if x = r then Some (e, map nkey new)
        else (case tree new x of Some y \<Rightarrow> Some y | None \<Rightarrow> map_of post x))"
      by (simp_all add: tree_def p map_add_def split: option.split)
    have dis: "map_of pre x \<noteq> None \<Longrightarrow> x \<noteq> r \<and> x \<notin> set (keys old)" "x \<in> set (keys old) \<Longrightarrow> x \<noteq> r \<and> map_of post x = None"
      "map_of pre x \<noteq> None \<Longrightarrow> x \<in> set (keys d)" "r \<in> set (keys d)"
      using dj unfolding none k p(1) by auto
    have nt: "x \<in> set (keys d) \<Longrightarrow> tree [t] x = None" using t by (auto simp: tree_dom)
    show "tree (upd_kids r (\<lambda>_. new) d) x = (((tree d |` (- gone))(r \<mapsto> (e, map nkey new))) ++ tree [t]) x"
    proof (cases "map_of pre x")
      case None
      then show ?thesis using dis(2,4) nt new(2) unfolding td new(1) map_add_def restrict_map_def
        by (cases "tree [t] x"; cases "x \<in> gone"; cases "x = r") (auto simp: td split: option.splits)
    next
      case (Some y)
      then have "x \<noteq> r" "x \<notin> gone" "tree [t] x = None" using dis(1,3) nt new(2) by auto
      then show ?thesis using Some by (simp add: td map_add_def restrict_map_def)
    qed
  qed
qed

lemma root_no_child:
  assumes "distinct (keys d)" "find_key q d = Some (Node q e (us @ n # vs))"
  shows "has_parent (nkey n) d"
  using assms
proof (induction d rule: nodes.induct)
  case (2 k x ts ws)
  then have dist: "distinct (keys ts)" "distinct (keys ws)" "set (keys ts) \<inter> set (keys ws) = {}"
    "k \<notin> set (keys ws)" "k \<notin> set (keys ts)" by auto
  have root: "set (map nkey ws) \<subseteq> set (keys ws)" by (auto intro!: nkey_in_keys kids_in_nodes)
  have sub: "nkey n \<in> set (keys d')" if "find_key q d' = Some (Node q e (us @ n # vs))" for d'
  proof -
    have p: "Node q e (us @ n # vs) \<in> set (nodes d')" using find_key_nkey [OF that] by simp
    have "n \<in> set (nodes (us @ n # vs))" by (rule kids_in_nodes) simp
    then show ?thesis using nodes_trans [OF p] nkey_in_keys by auto
  qed
  show ?case
  proof (cases "k = q")
    case True
    with 2(4) have "ts = us @ n # vs" by (simp_all add: find_key_def)
    then have "nkey n \<in> set (keys ts)" using nkey_in_keys [OF kids_in_nodes, of n ts] by simp
    then show ?thesis using dist root by (auto simp: has_parent_def)
  next
    case False
    show ?thesis
    proof (cases "find_key q ts")
      case None
      then have f: "find_key q ws = Some (Node q e (us @ n # vs))"
        using 2(4) False by (simp_all add: find_key_def find_append)
      then show ?thesis using 2(2) [OF dist(2) f] sub [OF f] dist by (auto simp: has_parent_def)
    next
      case (Some m)
      then have f: "find_key q ts = Some (Node q e (us @ n # vs))"
        using 2(4) False by (simp add: find_key_def find_append)
      then show ?thesis using sub [OF f] dist root by (auto simp: has_parent_def)
    qed
  qed
qed (simp add: find_key_def)

text \<open>Where the new node \<open>t\<close> stands for each position: the node whose children change, its new children, and the
  nodes that leave the document. The reference node is \<open>n\<close>, \<open>q\<close> its parent, \<open>us\<close> and \<open>vs\<close> its brothers.\<close>

fun spot :: "pos \<Rightarrow> node \<Rightarrow> node \<Rightarrow> nat \<Rightarrow> node list \<Rightarrow> node list \<Rightarrow> nat \<times> node list \<times> nat set" where
  "spot Before t n q us vs = (q, us @ t # n # vs, {})"
| "spot After t n q us vs = (q, us @ n # t # vs, {})"
| "spot Replace t n q us vs = (q, us @ t # vs, set (keys [n]))"
| "spot Only t n q us vs = (nkey n, [t], set (keys (kids n)))"
| "spot First t n q us vs = (nkey n, t # kids n, {})"
| "spot Last t n q us vs = (nkey n, kids n @ [t], {})"
| "spot (Index i) t n q us vs = (nkey n, take (nat i) (kids n) @ t # drop (nat i) (kids n), {})"

lemma restrict_all [simp]: "m |` UNIV = m"
  by (simp add: restrict_map_def)

lemma tree_insert:
  assumes "set (keys [t]) \<inter> set (keys (xs @ ys)) = {}"
  shows "tree (xs @ t # ys) = tree (xs @ ys) ++ tree [t]"
proof
  fix x
  have "tree [t] x \<noteq> None \<Longrightarrow> tree xs x = None" using assms by (auto simp: tree_dom)
  then show "tree (xs @ t # ys) x = (tree (xs @ ys) ++ tree [t]) x"
    by (auto simp: tree_append tree_Cons [of t ys] map_add_def split: option.splits)
qed

lemma tree_replace:
  assumes "distinct (keys (us @ n # vs))" "set (keys [t]) \<inter> set (keys (us @ n # vs)) = {}"
  shows "tree (us @ t # vs) = (tree (us @ n # vs) |` (- set (keys [n]))) ++ tree [t]"
proof
  fix x
  have k: "keys (us @ n # vs) = keys us @ keys [n] @ keys vs" by (cases n) simp
  have "set (keys [t]) \<inter> set (keys (us @ vs)) = {}" using assms(2) unfolding k by auto
  from tree_insert [OF this] have a: "tree (us @ t # vs) x = (tree (us @ vs) ++ tree [t]) x" by simp
  have "tree (us @ vs) x = (tree (us @ n # vs) |` (- set (keys [n]))) x"
  proof (cases "x \<in> set (keys [n])")
    case True
    then have "x \<notin> set (keys us)" "x \<notin> set (keys vs)" using assms(1) unfolding k by auto
    then have "tree us x = None" "tree vs x = None" by (simp_all add: tree_dom)
    then show ?thesis using True by (simp add: tree_append map_add_def restrict_map_def)
  next
    case False
    then have "tree [n] x = None" by (simp add: tree_dom)
    then show ?thesis using False by (simp add: tree_append tree_Cons [of n vs] map_add_def restrict_map_def split: option.split)
  qed
  with a show "tree (us @ t # vs) x = ((tree (us @ n # vs) |` (- set (keys [n]))) ++ tree [t]) x"
    by (simp add: map_add_def split: option.split)
qed

lemma kids_keys:
  assumes "distinct (keys d)" "find_key q d = Some (Node q e ks)"
  shows "distinct (keys ks)" "set (keys ks) \<subseteq> set (keys d)"
  using find_key_in_kids [OF assms] by (simp_all add: keys_kids)

lemma place_spot:
  assumes d: "distinct (keys d)" "find_key (nkey n) d = Some n" and t: "set (keys [t]) \<inter> set (keys d) = {}"
    and q: "p \<in> {Before, After, Replace} \<Longrightarrow> find_key q d = Some (Node q qe (us @ n # vs))"
    and s: "spot p t n q us vs = (r, new, gone)"
  shows "place t (Some n) p d = (upd_kids r (\<lambda>_. new) d, None)
    \<and> (\<exists>e old. find_key r d = Some (Node r e old) \<and> tree new = (tree old |` (- gone)) ++ tree [t] \<and> gone \<subseteq> set (keys old))"
proof -
  obtain k e ks where n: "n = Node k e ks" by (cases n)
  have fk: "find_key k d = Some (Node k e ks)" using d(2) by (simp add: n)
  have kd: "k \<in> set (keys d)" using fk find_key_None [of k d] by auto
  note fresh = insert_fresh [OF t kd]
  note kk = kids_keys [OF d(1) fk]
  have tk: "set (keys [t]) \<inter> set (keys (take j ks @ drop j ks)) = {}" for j using kk(2) t by auto
  have child: "insert_before t (nkey (ks ! j)) d = (upd_kids k (\<lambda>_. take j ks @ t # drop j ks) d, None)" if "j < length ks" for j
  proof -
    have ks: "ks = take j ks @ ks ! j # drop (Suc j) ks" using id_take_nth_drop [OF that] .
    have "nkey (ks ! j) \<in> set (keys d)" by (rule find_key_child [OF d(1) fk nth_mem [OF that]])
    moreover have "find_key k d = Some (Node k e (take j ks @ ks ! j # drop (Suc j) ks))" using fk ks by simp
    ultimately show ?thesis
      using subst_child [OF d(1), of k e "take j ks" "ks ! j" "drop (Suc j) ks" "\<lambda>m. [t, m]"] insert_fresh(2) [OF t]
      by (simp add: Cons_nth_drop_Suc [OF that])
  qed
  have ins: "find_key k d = Some (Node k e ks) \<and> tree (take j ks @ t # drop j ks) = tree ks ++ tree [t]" for j
    using fk tree_insert [OF tk [of j]] by simp
  have beside: "find_key q d = Some (Node q qe (us @ n # vs))" "has_parent k d" "set (keys [t]) \<inter> set (keys (us @ n # vs)) = {}"
    "distinct (keys (us @ n # vs))" if "p \<in> {Before, After, Replace}"
  proof -
    show f: "find_key q d = Some (Node q qe (us @ n # vs))" using q that by blast
    note kq = kids_keys [OF d(1) f]
    show "set (keys [t]) \<inter> set (keys (us @ n # vs)) = {}" "distinct (keys (us @ n # vs))" using kq t by auto
    show "has_parent k d" using root_no_child [OF d(1) f] by (simp add: n)
  qed
  show ?thesis
  proof (cases p)
    case Before
    then have "p \<in> {Before, After, Replace}" by simp
    note b = beside [OF this]
    show ?thesis using b s subst_child [OF d(1) b(1), of "\<lambda>m. [t, m]"] tree_insert [of t us "n # vs"]
      by (auto simp: Before n fresh)
  next
    case After
    then have "p \<in> {Before, After, Replace}" by simp
    note b = beside [OF this]
    show ?thesis using b s subst_child [OF d(1) b(1), of "\<lambda>m. [m, t]"] tree_insert [of t "us @ [n]" vs]
      by (auto simp: After n fresh)
  next
    case Replace
    then have "p \<in> {Before, After, Replace}" by simp
    note b = beside [OF this]
    show ?thesis using b s subst_child [OF d(1) b(1), of "\<lambda>m. [t]"] tree_replace [OF b(4,3)]
      by (auto simp: Replace n fresh)
  next
    case Only
    have "tree ks |` (- set (keys ks)) = Map.empty" by (rule ext) (simp add: restrict_map_def tree_dom)
    then show ?thesis using s fk place_only_fresh [OF d(1) t fk] by (auto simp: Only n)
  next
    case First
    then have "r = k" "new = t # ks" "gone = {}" using s by (simp_all add: n)
    then show ?thesis using First child [of 0] ins [of 0] upd_kids_found [OF d(1) fk, of "\<lambda>ks. ks @ [t]"]
      by (cases ks) (simp_all add: n fresh)
  next
    case Last
    then have "r = k" "new = ks @ [t]" "gone = {}" using s by (simp_all add: n)
    then show ?thesis using Last ins [of "length ks"] upd_kids_found [OF d(1) fk, of "\<lambda>ks. ks @ [t]"] by (simp add: n fresh)
  next
    case (Index i)
    then have r: "r = k" "new = take (nat i) ks @ t # drop (nat i) ks" "gone = {}" using s by (simp_all add: n)
    show ?thesis
    proof (cases "int (length ks) \<le> i \<or> ks = []")
      case True
      then have "length ks \<le> nat i \<or> ks = []" by auto
      with True Index ins [of "nat i"] upd_kids_found [OF d(1) fk, of "\<lambda>ks. ks @ [t]"] show ?thesis
        by (auto simp: n r fresh)
    next
      case False
      then have "nat i < length ks" "(if i < 0 then 0 else nat i) = nat i" by (cases "i < 0"; force)+
      with child [OF this(1)] False Index ins [of "nat i"] show ?thesis by (simp add: n r Let_def)
    qed
  qed
qed

text \<open>C9: \<^verbatim>\<open>dom-construct.place\<close> puts a new node, with what is below it, exactly where the position argument says:
  just before or after the reference node among its parent's children, in its stead for \<open>replace\<close>, as the first,
  the last, the only or the i-th child of the reference node (a negative number counts as 0, one beyond the
  children as their number). No other node's element or children change, nothing leaves the document but what is
  replaced, and no error is raised.\<close>
theorem place_position:
  assumes "distinct (keys d)" "find_key (nkey n) d = Some n" "set (keys [t]) \<inter> set (keys d) = {}"
    and "p \<in> {Before, After, Replace} \<Longrightarrow> find_key q d = Some (Node q qe (us @ n # vs))"
    and "spot p t n q us vs = (r, new, gone)" "place t (Some n) p d = (d', err)"
  shows "err = None \<and> map nkey d' = map nkey d \<and>
    (\<exists>e old. tree d r = Some (e, old) \<and> tree d' = ((tree d |` (- gone))(r \<mapsto> (e, map nkey new))) ++ tree [t])"
proof -
  from place_spot [OF assms(1-5)] obtain e old where
    p: "place t (Some n) p d = (upd_kids r (\<lambda>_. new) d, None)" and f: "find_key r d = Some (Node r e old)"
    and tn: "tree new = (tree old |` (- gone)) ++ tree [t]" "gone \<subseteq> set (keys old)" by blast
  from upd_kids_tree [OF assms(1) f assms(3) tn] p assms(6) f show ?thesis by (auto simp: upd_kids_roots tree_node)
qed

definition plain_elem :: "string \<Rightarrow> string \<Rightarrow> elem" where
  "plain_elem t i = \<lparr>tag = t, ident = i, widget_id = [], classes = [], css = [], attrs = []\<rparr>"

text \<open>A body with a list of two rows, for the witnesses.\<close>

definition sample_doc :: doc where
  "sample_doc = [Node 0 (plain_elem ''body'' []) [Node 1 (plain_elem ''div'' ''list'')
     [Node 2 (plain_elem ''div'' ''a'') [], Node 3 (plain_elem ''div'' ''b'') []]]]"

lemma place_position_witness:
  "map nkey (fst (place (Node 9 (plain_elem ''p'' ''x'') []) (Some (Node 2 (plain_elem ''div'' ''a'') [])) After sample_doc)) = [0]
    \<and> (\<exists>e old. tree sample_doc 1 = Some (e, old) \<and>
        tree (fst (place (Node 9 (plain_elem ''p'' ''x'') []) (Some (Node 2 (plain_elem ''div'' ''a'') [])) After sample_doc))
        = ((tree sample_doc |` (- {}))(1 \<mapsto> (e, [2, 9, 3]))) ++ tree [Node 9 (plain_elem ''p'' ''x'') []])"
proof -
  let ?t = "Node 9 (plain_elem ''p'' ''x'') []" and ?n = "Node 2 (plain_elem ''div'' ''a'') []" and ?b = "Node 3 (plain_elem ''div'' ''b'') []"
  have "find_key 1 sample_doc = Some (Node 1 (plain_elem ''div'' ''list'') ([] @ ?n # [?b]))" by (simp add: sample_doc_def find_key_def)
  with place_position [of sample_doc ?n ?t After 1 "plain_elem ''div'' ''list''" "[]" "[?b]" 1 "[?n, ?t, ?b]" "{}"
      "fst (place ?t (Some ?n) After sample_doc)" "snd (place ?t (Some ?n) After sample_doc)"]
  show ?thesis by (simp add: sample_doc_def find_key_def)
qed

text \<open>\<^verbatim>\<open>dom-construct.destroy\<close> of an id takes out exactly the first element with that id and
  everything below it, and nothing at all (no error either) when there is none.\<close>
theorem destroy_by_id:
  assumes "distinct (keys d)"
  shows "case by_id i d of
      None \<Rightarrow> destroy (by_id i d) d = d
    | Some n \<Rightarrow> \<exists>pre post. items d = pre @ items [n] @ post \<and> i \<notin> set (map (ident \<circ> snd) pre)
        \<and> items (destroy (by_id i d) d) = pre @ post"
proof (cases "by_id i d")
  case (Some n)
  from by_id_Some [OF Some] have "n \<in> set (nodes d)" by simp
  from detach_items [OF assms find_key_nodes [OF assms this]] obtain pre post where
    s: "items d = pre @ items [n] @ post" "items (detach (nkey n) d) = pre @ post" .
  from Some have "find (\<lambda>m. ident (ninfo m) = i) (nodes d) = Some n"
    by (simp add: by_id_def split: if_splits)
  from find_Some_split [OF this] obtain xs ys where
    xs: "nodes d = xs @ n # ys" "\<forall>m \<in> set xs. ident (ninfo m) \<noteq> i" by blast
  have "distinct (map fst (pre @ (nkey n, ninfo n) # (items (kids n) @ post)))"
    using assms by (simp add: keys_def s(1) items_kids [of n])
  moreover have "pre @ (nkey n, ninfo n) # (items (kids n) @ post)
      = map (\<lambda>n. (nkey n, ninfo n)) xs @ (nkey n, ninfo n) # map (\<lambda>n. (nkey n, ninfo n)) ys"
    using s(1) by (simp add: items_def xs(1) items_kids [of n, unfolded items_def])
  ultimately have "pre = map (\<lambda>n. (nkey n, ninfo n)) xs" using split_unique by blast
  with xs(2) have "i \<notin> set (map (ident \<circ> snd) pre)" by auto
  with s Some show ?thesis by auto
qed simp

lemma destroy_by_id_witness:
  "case by_id ''a'' sample_doc of
      None \<Rightarrow> destroy (by_id ''a'' sample_doc) sample_doc = sample_doc
    | Some n \<Rightarrow> \<exists>pre post. items sample_doc = pre @ items [n] @ post
        \<and> ''a'' \<notin> set (map (ident \<circ> snd) pre)
        \<and> items (destroy (by_id ''a'' sample_doc) sample_doc) = pre @ post"
  by (rule destroy_by_id) (simp add: sample_doc_def)

end
