(* ===== verification/Registry.thy ===== *)
theory Registry
  imports DomTree
begin

text \<open>
  The widget registry \<^verbatim>\<open>dijit/registry\<close>: a table from widget ids to widgets, a count, and one
  counter per widget type from which \<^verbatim>\<open>getUniqueId\<close> makes new ids. The table is an object literal,
  so the names of \<^const>\<open>proto_names\<close> read as taken. The loop of \<^verbatim>\<open>getUniqueId\<close> is run with a fuel
  of one more than the number of taken names, and \<open>unique_loop_enough\<close> shows that this suffices.
\<close>

record 'w registry =
  hash :: "(string \<times> 'w) list"
  rlength :: int
  type_ctr :: "string \<Rightarrow> nat option"

definition empty_registry :: "'w registry" where
  "empty_registry = \<lparr>hash = [], rlength = 0, type_ctr = (\<lambda>_. None)\<rparr>"

definition hash_truthy :: "'w registry \<Rightarrow> string \<Rightarrow> bool" where
  "hash_truthy r i \<longleftrightarrow> i \<in> set proto_names \<or> i \<in> fst ` set (hash r)"

definition dup_error :: "string \<Rightarrow> js_error" where
  "dup_error i = ErrorMsg (''Tried to register widget with id=='' @ i @ '' but that id is already registered'')"

definition registry_add :: "string \<Rightarrow> 'w \<Rightarrow> 'w registry \<Rightarrow> 'w registry \<times> js_error option" where
  "registry_add i w r =
     (if hash_truthy r i then (r, Some (dup_error i))
      else (r\<lparr>hash := hash r @ [(i, w)], rlength := rlength r + 1\<rparr>, None))"

definition registry_remove :: "string \<Rightarrow> 'w registry \<Rightarrow> 'w registry" where
  "registry_remove i r =
     (if hash_truthy r i
      then r\<lparr>hash := filter (\<lambda>(j, w). j \<noteq> i) (hash r), rlength := rlength r - 1\<rparr>
      else r)"

definition registry_by_id :: "'w registry \<Rightarrow> string \<Rightarrow> 'w option" where
  "registry_by_id r i = map_of (hash r) i"

definition next_ctr :: "string \<Rightarrow> 'w registry \<Rightarrow> nat" where
  "next_ctr t r = (case type_ctr r t of None \<Rightarrow> 0 | Some k \<Rightarrow> Suc k)"

fun unique_loop :: "nat \<Rightarrow> string \<Rightarrow> 'w registry \<Rightarrow> (string \<times> 'w registry) option" where
  "unique_loop 0 t r = None"
| "unique_loop (Suc f) t r =
     (let n = next_ctr t r;
          r' = r\<lparr>type_ctr := (type_ctr r)(t := Some n)\<rparr>;
          i = t @ ''_'' @ nat_str n
      in if hash_truthy r' i then unique_loop f t r' else Some (i, r'))"

definition get_unique_id :: "string \<Rightarrow> 'w registry \<Rightarrow> (string \<times> 'w registry) option" where
  "get_unique_id t r = unique_loop (Suc (length proto_names + length (hash r))) t r"

text \<open>\<^verbatim>\<open>registry.toArray\<close> and \<^verbatim>\<open>findWidgets\<close>: the outermost registered widgets below a node, not
  looking below \<open>skip\<close>.\<close>

definition to_array :: "'w registry \<Rightarrow> 'w list" where
  "to_array r = map snd (hash r)"

fun find_widgets :: "'w registry \<Rightarrow> nat option \<Rightarrow> doc \<Rightarrow> 'w list" where
  "find_widgets r skip [] = []"
| "find_widgets r skip (Node k e ts # us) =
     (if tag e = ''#text'' then []
      else if widget_id e \<noteq> []
        then (case registry_by_id r (widget_id e) of Some w \<Rightarrow> [w] | None \<Rightarrow> [])
      else if skip \<noteq> Some k then find_widgets r skip ts
      else []) @ find_widgets r skip us"

section \<open>Well-formed registries\<close>

definition registry_ok :: "'w registry \<Rightarrow> bool" where
  "registry_ok r \<longleftrightarrow> distinct (map fst (hash r)) \<and> rlength r = int (length (hash r))
     \<and> (\<forall>i \<in> set proto_names. i \<notin> fst ` set (hash r))"

lemma registry_ok_empty: "registry_ok empty_registry"
  by (simp add: registry_ok_def empty_registry_def)

lemma registry_ok_add: "registry_ok r \<Longrightarrow> registry_ok (fst (registry_add i w r))"
  by (auto simp: registry_ok_def registry_add_def hash_truthy_def)

lemma length_filter_neq_distinct:
  "distinct (map fst xs) \<Longrightarrow> i \<in> fst ` set xs \<Longrightarrow>
   length (filter (\<lambda>(j, w). j \<noteq> i) xs) = length xs - 1"
proof (induction xs)
  case (Cons x xs)
  show ?case
  proof (cases "fst x = i")
    case True
    with Cons.prems have "i \<notin> fst ` set xs" by auto
    then have "filter (\<lambda>(j, w). j \<noteq> i) xs = xs" by (force simp: filter_id_conv)
    with True show ?thesis by (auto split: prod.splits)
  next
    case False
    with Cons show ?thesis by (cases xs) (auto split: prod.splits)
  qed
qed simp

lemma registry_ok_remove:
  assumes "registry_ok r" "i \<notin> set proto_names"
  shows "registry_ok (registry_remove i r)"
proof (cases "hash_truthy r i")
  case True
  with assms have i: "i \<in> fst ` set (hash r)" by (simp add: hash_truthy_def)
  then have "0 < length (hash r)" by auto
  moreover have "length (filter (\<lambda>(j, w). j \<noteq> i) (hash r)) = length (hash r) - 1"
    using assms(1) i by (intro length_filter_neq_distinct) (simp_all add: registry_ok_def)
  ultimately have "int (length (filter (\<lambda>(j, w). j \<noteq> i) (hash r))) = int (length (hash r)) - 1"
    by linarith
  then show ?thesis
    using assms(1) True by (auto simp: registry_ok_def registry_remove_def intro: distinct_map_filter)
qed (simp add: assms(1) registry_remove_def)

lemma by_id_truthy:
  "registry_ok r \<Longrightarrow> registry_by_id r i \<noteq> None \<longleftrightarrow> hash_truthy r i \<and> i \<notin> set proto_names"
  by (auto simp: registry_by_id_def hash_truthy_def registry_ok_def map_of_eq_None_iff)

section \<open>Generated ids\<close>

lemma hash_truthy_ctr [simp]: "hash_truthy (r\<lparr>type_ctr := c\<rparr>) i = hash_truthy r i"
  by (simp add: hash_truthy_def)

lemma unique_loop_spec:
  "unique_loop f t r = Some (i, r') \<Longrightarrow>
   \<exists>n. i = t @ ''_'' @ nat_str n \<and> \<not> hash_truthy r i \<and> hash r' = hash r \<and> rlength r' = rlength r
     \<and> type_ctr r' t = Some n \<and> next_ctr t r \<le> n"
proof (induction f arbitrary: r)
  case (Suc f)
  let ?n = "next_ctr t r"
  let ?r = "r\<lparr>type_ctr := (type_ctr r)(t := Some ?n)\<rparr>"
  show ?case
  proof (cases "hash_truthy r (t @ ''_'' @ nat_str ?n)")
    case False
    with Suc.prems show ?thesis by (auto simp: Let_def intro!: exI [of _ ?n])
  next
    case True
    with Suc.prems have "unique_loop f t ?r = Some (i, r')" by (simp add: Let_def)
    from Suc.IH [OF this] show ?thesis by (force simp: next_ctr_def)
  qed
qed simp

definition taken_from :: "string \<Rightarrow> 'w registry \<Rightarrow> nat set" where
  "taken_from t r = {n. next_ctr t r \<le> n \<and> hash_truthy r (t @ ''_'' @ nat_str n)}"

lemma taken_bound:
  "finite (taken_from t r) \<and> card (taken_from t r) \<le> length proto_names + length (hash r)"
proof -
  let ?f = "\<lambda>n. t @ ''_'' @ nat_str n"
  have inj: "inj_on ?f (taken_from t r)" by (rule inj_onI) simp
  have sub: "?f ` taken_from t r \<subseteq> set (proto_names @ map fst (hash r))"
    by (auto simp: taken_from_def hash_truthy_def)
  have fin: "finite (taken_from t r)"
    using finite_imageD [OF finite_subset [OF sub] inj] by simp
  have "card (taken_from t r) = card (?f ` taken_from t r)" by (rule card_image [OF inj, symmetric])
  also have "\<dots> \<le> card (set (proto_names @ map fst (hash r)))" by (rule card_mono [OF _ sub]) simp
  also have "\<dots> \<le> length (proto_names @ map fst (hash r))" by (rule card_length)
  finally show ?thesis using fin by simp
qed

lemma unique_loop_enough: "card (taken_from t r) < f \<Longrightarrow> unique_loop f t r \<noteq> None"
proof (induction f arbitrary: r)
  case (Suc f)
  let ?n = "next_ctr t r"
  let ?r = "r\<lparr>type_ctr := (type_ctr r)(t := Some ?n)\<rparr>"
  show ?case
  proof (cases "hash_truthy r (t @ ''_'' @ nat_str ?n)")
    case False
    then show ?thesis by (simp add: Let_def)
  next
    case True
    then have "?n \<in> taken_from t r" by (simp add: taken_from_def)
    moreover have "next_ctr t ?r = Suc ?n" by (simp add: next_ctr_def)
    then have "taken_from t ?r = taken_from t r - {?n}" by (auto simp: taken_from_def)
    ultimately have "card (taken_from t ?r) = card (taken_from t r) - 1" "card (taken_from t r) > 0"
      using taken_bound [of t r] by (auto simp: card_gt_0_iff)
    with Suc.prems have "card (taken_from t ?r) < f" by simp
    from Suc.IH [OF this] True show ?thesis by (simp add: Let_def)
  qed
qed simp

lemma get_unique_id_ex:
  "\<exists>n r'. get_unique_id t r = Some (t @ ''_'' @ nat_str n, r') \<and> \<not> hash_truthy r (t @ ''_'' @ nat_str n)
     \<and> hash r' = hash r \<and> rlength r' = rlength r"
proof -
  have "unique_loop (Suc (length proto_names + length (hash r))) t r \<noteq> None"
    using taken_bound [of t r] by (intro unique_loop_enough) simp
  then obtain i r' where u: "get_unique_id t r = Some (i, r')"
    by (auto simp: get_unique_id_def)
  from unique_loop_spec [OF this [unfolded get_unique_id_def]] u show ?thesis by blast
qed

text \<open>\<^verbatim>\<open>registry.getUniqueId\<close> returns for every type and every state of the registry, the id it
  returns is not taken, the table is left as it was, and the type's counter is at least one higher,
  so the id is never handed out again for that type even after its widget is destroyed.\<close>

theorem get_unique_id_total:
  fixes r :: "'w registry"
  shows "\<exists>i r' n. get_unique_id t r = Some (i, r') \<and> \<not> hash_truthy r i \<and> hash r' = hash r
     \<and> rlength r' = rlength r \<and> type_ctr r' t = Some n \<and> next_ctr t r \<le> n
     \<and> (\<forall>(r2 :: 'w registry) j r3 m. type_ctr r2 t = Some m \<and> n \<le> m
          \<and> get_unique_id t r2 = Some (j, r3) \<longrightarrow> j \<noteq> i)"
proof -
  have "unique_loop (Suc (length proto_names + length (hash r))) t r \<noteq> None"
    using taken_bound [of t r] by (intro unique_loop_enough) simp
  then obtain i r' where u: "get_unique_id t r = Some (i, r')"
    by (auto simp: get_unique_id_def)
  from unique_loop_spec [OF this [unfolded get_unique_id_def]] obtain n where
    n: "i = t @ ''_'' @ nat_str n" "\<not> hash_truthy r i" "hash r' = hash r" "rlength r' = rlength r"
      "type_ctr r' t = Some n" "next_ctr t r \<le> n" by blast
  have "j \<noteq> i" if "type_ctr r2 t = Some m" "n \<le> m" "get_unique_id t r2 = Some (j, r3)"
    for r2 :: "'w registry" and m j r3
  proof -
    from unique_loop_spec [OF that(3) [unfolded get_unique_id_def]] obtain n2 where
      "j = t @ ''_'' @ nat_str n2" "next_ctr t r2 \<le> n2" by blast
    with that(1,2) n(1) show ?thesis by (simp add: next_ctr_def)
  qed
  with u n show ?thesis by blast
qed

lemma get_unique_id_total_witness:
  "\<exists>i r'. get_unique_id ''w'' (empty_registry :: nat registry) = Some (i, r')
     \<and> \<not> hash_truthy (empty_registry :: nat registry) i"
  using get_unique_id_total [of "''w''" "empty_registry :: nat registry"] by blast

section \<open>The contract the page relies on\<close>

text \<open>A table of named slots: adding under a taken name is refused and changes nothing, a slot
  is free again once it is removed.\<close>

locale slot_table =
  fixes taken :: "'r \<Rightarrow> string \<Rightarrow> bool"
    and add :: "string \<Rightarrow> 'w \<Rightarrow> 'r \<Rightarrow> 'r \<times> js_error option"
    and rem :: "string \<Rightarrow> 'r \<Rightarrow> 'r"
    and reserved :: "string set"
  assumes add_taken: "taken r i \<Longrightarrow> fst (add i w r) = r \<and> snd (add i w r) \<noteq> None"
    and add_free: "\<not> taken r i \<Longrightarrow> snd (add i w r) = None
      \<and> (\<forall>j. taken (fst (add i w r)) j \<longleftrightarrow> j = i \<or> taken r j)"
    and rem_taken: "i \<notin> reserved \<Longrightarrow> taken (rem i r) j \<longleftrightarrow> j \<noteq> i \<and> taken r j"
begin

lemma add_makes_taken: "taken (fst (add i w r)) i"
  using add_taken add_free by (cases "taken r i") auto

lemma second_add_refused: "snd (add i v (fst (add i w r))) \<noteq> None"
  using add_makes_taken add_taken by blast

lemma second_add_keeps: "fst (add i v (fst (add i w r))) = fst (add i w r)"
  using add_makes_taken add_taken by blast

lemma add_after_rem: "i \<notin> reserved \<Longrightarrow> snd (add i v (rem i r)) = None"
  using rem_taken add_free by blast

lemma add_succeeds_iff: "snd (add i w r) = None \<longleftrightarrow> \<not> taken r i"
  using add_taken add_free by blast

end

interpretation reg: slot_table hash_truthy registry_add registry_remove "set proto_names"
  by unfold_locales
    (auto simp: registry_add_def registry_remove_def hash_truthy_def dup_error_def)

text \<open>of two widgets created under one id without a destroy in between the second is refused with
  an exception and the registry is left as it was, whatever the state; once the first is removed the
  id can be registered again, and no other id is affected.\<close>
theorem registry_one_per_id:
  "snd (registry_add i v (fst (registry_add i w r))) \<noteq> None
   \<and> fst (registry_add i v (fst (registry_add i w r))) = fst (registry_add i w r)
   \<and> (i \<notin> set proto_names \<longrightarrow> snd (registry_add i v (registry_remove i r)) = None
        \<and> (\<forall>j. hash_truthy (registry_remove i r) j \<longleftrightarrow> j \<noteq> i \<and> hash_truthy r j))"
  using reg.second_add_refused reg.second_add_keeps reg.add_after_rem reg.rem_taken by metis

lemma registry_one_per_id_witness:
  "snd (registry_add ''dialog'' (2::nat) (registry_remove ''dialog'' \<lparr>hash = [(''dialog'', 1 :: nat)], rlength = 1, type_ctr = Map.empty\<rparr>)) = None"
proof -
  have "''dialog'' \<notin> set proto_names" by code_simp
  then show ?thesis using registry_one_per_id [of "''dialog''" 2 1 "\<lparr>hash = [(''dialog'', 1 :: nat)], rlength = 1, type_ctr = Map.empty\<rparr>"] by blast
qed

text \<open>adding and removing keeps the registry consistent: one entry per id, no entry under an
  inherited name, and \<^verbatim>\<open>registry.length\<close> equal to the number of entries.\<close>

theorem registry_consistent:
  assumes "registry_ok r"
  shows "registry_ok (fst (registry_add i w r))
    \<and> (j \<notin> set proto_names \<longrightarrow> registry_ok (registry_remove j r))"
  using registry_ok_add [OF assms] registry_ok_remove [OF assms] by simp

lemma registry_consistent_witness:
  "registry_ok (fst (registry_add ''dialog'' (5 :: nat) empty_registry))
    \<and> registry_ok (registry_remove ''x'' (empty_registry :: nat registry))"
proof -
  have "''x'' \<notin> set proto_names" by code_simp
  then show ?thesis
    using registry_consistent [OF registry_ok_empty, of "''dialog''" "5 :: nat" "''x''"] by blast
qed

end
