(* ===== verification/Hub.thy ===== *)
theory Hub
  imports Prelude
begin

text \<open>
  The publish/subscribe hub: \<^verbatim>\<open>dojo/topic\<close> on \<^verbatim>\<open>dojo/Evented\<close> on the \<open>after\<close> advice of
  \<^verbatim>\<open>dojo/aspect\<close>. A dispatcher keeps its advice in a doubly linked list of signal objects; here a
  signal is a cell at the address given by its \<^verbatim>\<open>id\<close> (the module counter \<^verbatim>\<open>nextId\<close>), the head of
  topic \<open>t\<close>'s list is \<open>heads h t\<close> (\<^verbatim>\<open>dispatcher.after\<close> of the method \<open>on<t>\<close>).

  \<open>dll\<close> says that a pointer starts a proper list of given ids, \<open>hub_inv\<close> that every topic has one.
  \<open>subscribe\<close> and \<open>remove_signal\<close> are refined by appending to and deleting from these lists.
\<close>

record 'a signal =
  sg_topic :: string
  sg_advice :: 'a
  sg_next :: "nat option"
  sg_prev :: "nat option"

record 'a hub =
  cells :: "nat \<Rightarrow> 'a signal option"
  heads :: "string \<Rightarrow> nat option"
  next_id :: nat

definition empty_hub :: "'a hub" where
  "empty_hub = \<lparr>cells = (\<lambda>_. None), heads = (\<lambda>_. None), next_id = 0\<rparr>"

definition set_next :: "nat \<Rightarrow> nat option \<Rightarrow> (nat \<Rightarrow> 'a signal option) \<Rightarrow> nat \<Rightarrow> 'a signal option" where
  "set_next i n c = c(i := map_option (\<lambda>s. s\<lparr>sg_next := n\<rparr>) (c i))"

definition set_prev :: "nat \<Rightarrow> nat option \<Rightarrow> (nat \<Rightarrow> 'a signal option) \<Rightarrow> nat \<Rightarrow> 'a signal option" where
  "set_prev i n c = c(i := map_option (\<lambda>s. s\<lparr>sg_prev := n\<rparr>) (c i))"

text \<open>The walk to the end of the list in \<^verbatim>\<open>advise\<close>.\<close>

fun last_ptr :: "nat \<Rightarrow> (nat \<Rightarrow> 'a signal option) \<Rightarrow> nat \<Rightarrow> nat" where
  "last_ptr 0 c i = i"
| "last_ptr (Suc f) c i =
     (case c i of None \<Rightarrow> i
      | Some s \<Rightarrow> (case sg_next s of None \<Rightarrow> i | Some n \<Rightarrow> last_ptr f c n))"

definition advise_after :: "string \<Rightarrow> 'a \<Rightarrow> 'a hub \<Rightarrow> 'a hub" where
  "advise_after t a h =
     (let s = next_id h
      in case heads h t of
           None \<Rightarrow> h\<lparr>cells := (cells h)(s := Some \<lparr>sg_topic = t, sg_advice = a, sg_next = None, sg_prev = None\<rparr>),
                       heads := (heads h)(t := Some s), next_id := Suc s\<rparr>
         | Some q \<Rightarrow>
             let l = last_ptr s (cells h) q
             in h\<lparr>cells := (set_next l (Some s) (cells h))
                    (s := Some \<lparr>sg_topic = t, sg_advice = a, sg_next = None, sg_prev = Some l\<rparr>),
                  next_id := Suc s\<rparr>)"

definition remove_signal :: "nat \<Rightarrow> 'a hub \<Rightarrow> 'a hub" where
  "remove_signal s h =
     (case cells h s of
        None \<Rightarrow> h
      | Some c \<Rightarrow>
          if sg_next c = None \<and> sg_prev c = None then h\<lparr>heads := (heads h)(sg_topic c := None)\<rparr>
          else
            let h1 = (case sg_prev c of
                        Some p \<Rightarrow> h\<lparr>cells := set_next p (sg_next c) (cells h)\<rparr>
                      | None \<Rightarrow> h\<lparr>heads := (heads h)(sg_topic c := sg_next c)\<rparr>)
            in (case sg_next c of
                  Some n \<Rightarrow> h1\<lparr>cells := set_prev n (sg_prev c) (cells h1)\<rparr>
                | None \<Rightarrow> h1))"

section \<open>Subscribing and publishing\<close>

text \<open>\<^verbatim>\<open>on.parse\<close>: an event name with commas stands for several; the loop over the pieces stops at
  the first empty one.\<close>

definition event_names :: "string \<Rightarrow> string list" where
  "event_names t =
     (if CHR '','' \<in> set t
      then takeWhile (\<lambda>w. w \<noteq> [])
        (let ws = split_on CHR '','' t
         in map (\<lambda>i. let w = ws ! i;
                        w1 = (if 0 < i then dropWhile js_space w else w)
                    in if Suc i < length ws then rev (dropWhile js_space (rev w1)) else w1) [0..<length ws])
      else [t])"

definition subscribe :: "string \<Rightarrow> 'a \<Rightarrow> 'a hub \<Rightarrow> 'a hub" where
  "subscribe t a h = fold (\<lambda>n. advise_after n a) (event_names t) h"

fun walk :: "nat \<Rightarrow> (nat \<Rightarrow> 'a signal option) \<Rightarrow> nat option \<Rightarrow> nat list" where
  "walk 0 c q = []"
| "walk (Suc f) c q =
     (case q of None \<Rightarrow> []
      | Some i \<Rightarrow> (case c i of None \<Rightarrow> [] | Some s \<Rightarrow> i # walk f c (sg_next s)))"

definition ids :: "'a hub \<Rightarrow> string \<Rightarrow> nat list" where
  "ids h t = walk (next_id h) (cells h) (heads h t)"

definition listeners :: "'a hub \<Rightarrow> string \<Rightarrow> 'a list" where
  "listeners h t = List.map_filter (\<lambda>i. map_option sg_advice (cells h i)) (ids h t)"

text \<open>The dispatcher's loop: \<open>exec\<close> runs one listener, which may itself change the hub; the signals
  with an id below \<^verbatim>\<open>executionId\<close> are run, and an exception ends the loop. The ids that ran are
  returned too.\<close>

fun emit_loop :: "nat \<Rightarrow> ('a \<Rightarrow> 'a hub \<times> 's \<Rightarrow> ('a hub \<times> 's) \<times> js_error option) \<Rightarrow> nat \<Rightarrow> nat option
    \<Rightarrow> 'a hub \<times> 's \<Rightarrow> ('a hub \<times> 's) \<times> js_error option \<times> nat list" where
  "emit_loop 0 exec eid q st = (st, None, [])"
| "emit_loop (Suc f) exec eid q st =
     (case q of
        None \<Rightarrow> (st, None, [])
      | Some i \<Rightarrow>
          (case cells (fst st) i of
             None \<Rightarrow> (st, None, [])
           | Some s \<Rightarrow>
               if i < eid
               then (case exec (sg_advice s) st of
                       (st', Some e) \<Rightarrow> (st', Some e, [i])
                     | (st', None) \<Rightarrow>
                         (case cells (fst st') i of
                            None \<Rightarrow> (st', None, [i])
                          | Some s' \<Rightarrow>
                              (case emit_loop f exec eid (sg_next s') st' of
                                 (st2, e, is) \<Rightarrow> (st2, e, i # is))))
               else (st, None, [])))"

definition emit :: "('a \<Rightarrow> 'a hub \<times> 's \<Rightarrow> ('a hub \<times> 's) \<times> js_error option) \<Rightarrow> string
    \<Rightarrow> 'a hub \<times> 's \<Rightarrow> ('a hub \<times> 's) \<times> js_error option \<times> nat list" where
  "emit exec t st = emit_loop (next_id (fst st)) exec (next_id (fst st)) (heads (fst st) t) st"

section \<open>The lists the cells represent\<close>

fun dll :: "(nat \<Rightarrow> 'a signal option) \<Rightarrow> string \<Rightarrow> nat option \<Rightarrow> nat option \<Rightarrow> nat list \<Rightarrow> bool" where
  "dll c t p q [] = (q = None)"
| "dll c t p q (x # xs) =
     (q = Some x \<and>
      (case c x of None \<Rightarrow> False
       | Some s \<Rightarrow> sg_topic s = t \<and> sg_prev s = p \<and> dll c t (Some x) (sg_next s) xs))"

definition hub_rep :: "'a hub \<Rightarrow> (string \<Rightarrow> nat list) \<Rightarrow> bool" where
  "hub_rep h f \<longleftrightarrow> (\<forall>t. dll (cells h) t None (heads h t) (f t) \<and> sorted_wrt (<) (f t)
     \<and> (\<forall>x \<in> set (f t). x < next_id h))"

definition hub_inv :: "'a hub \<Rightarrow> bool" where
  "hub_inv h \<longleftrightarrow> (\<exists>f. hub_rep h f)"

lemma dll_cong: "(\<And>x. x \<in> set xs \<Longrightarrow> c' x = c x) \<Longrightarrow> dll c' t p q xs = dll c t p q xs"
  by (induction xs arbitrary: p q) (auto split: option.splits)

lemma dll_topic: "dll c t p q xs \<Longrightarrow> x \<in> set xs \<Longrightarrow> \<exists>s. c x = Some s \<and> sg_topic s = t"
  by (induction xs arbitrary: p q) (auto split: option.splits)

lemma walk_dll: "dll c t p q xs \<Longrightarrow> length xs \<le> n \<Longrightarrow> walk n c q = xs"
proof (induction xs arbitrary: p q n)
  case Nil
  then show ?case by (cases n) auto
next
  case (Cons x xs)
  then show ?case by (cases n) (auto split: option.splits)
qed

lemma sorted_below_length: "sorted_wrt (<) xs \<Longrightarrow> (\<forall>x \<in> set xs. x < n) \<Longrightarrow> length xs \<le> (n::nat)"
proof -
  assume a: "sorted_wrt (<) xs" "\<forall>x \<in> set xs. x < n"
  from a(1) have d: "distinct xs" using strict_sorted_iff by blast
  from a(2) have "set xs \<subseteq> {..<n}" by auto
  then have "card (set xs) \<le> n" using card_mono [of "{..<n}" "set xs"] by simp
  with d show "length xs \<le> n" by (simp add: distinct_card)
qed

lemma ids_rep: "hub_rep h f \<Longrightarrow> ids h t = f t"
  unfolding ids_def hub_rep_def using sorted_below_length walk_dll by metis

lemma last_ptr_dll: "dll c t p (Some q) xs \<Longrightarrow> length xs \<le> n \<Longrightarrow> last_ptr n c q = last xs"
proof (induction xs arbitrary: p q n)
  case (Cons x xs)
  then obtain m s where m: "n = Suc m" "c x = Some s" "dll c t (Some x) (sg_next s) xs" "q = x"
    by (cases n) (auto split: option.splits)
  show ?case
  proof (cases xs)
    case Nil
    with m show ?thesis by simp
  next
    case (Cons y ys)
    with m have "sg_next s = Some y" by simp
    with m Cons.prems Cons.IH [of "Some x" y m] Cons show ?thesis by simp
  qed
qed simp

lemma dll_snoc:
  assumes "dll c t p q xs" "s \<notin> set xs" "xs \<noteq> []" "distinct xs"
  shows "dll ((set_next (last xs) (Some s) c)
      (s := Some \<lparr>sg_topic = t, sg_advice = a, sg_next = None, sg_prev = Some (last xs)\<rparr>)) t p q (xs @ [s])"
  using assms
proof (induction xs arbitrary: p q)
  case (Cons x xs)
  then obtain y where y: "c x = Some y" "q = Some x" "sg_topic y = t" "sg_prev y = p"
    "dll c t (Some x) (sg_next y) xs" by (auto split: option.splits)
  show ?case
  proof (cases "xs = []")
    case True
    with y Cons.prems show ?thesis by (auto simp: set_next_def)
  next
    case False
    with Cons.prems have "x \<noteq> last xs" "x \<noteq> s" by auto
    with Cons False y show ?thesis by (simp add: set_next_def)
  qed
qed simp

lemma set_next_other [simp]: "i \<noteq> j \<Longrightarrow> set_next i n c j = c j"
  by (simp add: set_next_def)

lemma set_prev_other [simp]: "i \<noteq> j \<Longrightarrow> set_prev i n c j = c j"
  by (simp add: set_prev_def)

lemma dll_set_prev:
  assumes "dll c t p q (z # zs)" "distinct (z # zs)"
  shows "dll (set_prev z p' c) t p' q (z # zs)"
proof -
  have "dll (set_prev z p' c) t (Some z) n zs = dll c t (Some z) n zs" for n
    using assms(2) by (intro dll_cong) (auto simp: set_prev_def)
  with assms show ?thesis by (auto simp: set_prev_def split: option.splits)
qed

lemma dll_suffix: "dll c t p q (ws @ xs) \<Longrightarrow> \<exists>p q. dll c t p q xs"
proof (induction ws arbitrary: p q)
  case (Cons w ws)
  show ?case
  proof (cases "c w")
    case None
    with Cons.prems show ?thesis by simp
  next
    case (Some s)
    with Cons.prems have "dll c t (Some w) (sg_next s) (ws @ xs)" by simp
    then show ?thesis by (rule Cons.IH)
  qed
qed auto

lemma dll_next: "dll c t p q (x # xs) \<Longrightarrow> c x = Some s \<Longrightarrow> sg_next s = (case xs of [] \<Rightarrow> None | y # ys \<Rightarrow> Some y)"
  by (cases xs) (auto split: option.splits)

lemma dll_unlink_hd:
  assumes "dll c t None q (s # zs)" "c s = Some cs" "distinct (s # zs)"
  shows "sg_prev cs = None
    \<and> dll (case sg_next cs of Some n \<Rightarrow> set_prev n None c | None \<Rightarrow> c) t None (sg_next cs) zs"
proof (cases zs)
  case Nil
  with assms show ?thesis by auto
next
  case (Cons z zs')
  with assms have "sg_next cs = Some z" "dll c t (Some s) (Some z) (z # zs')" by auto
  with dll_set_prev [of c t "Some s" "Some z" z zs' None] assms Cons show ?thesis by auto
qed

definition unlinked :: "nat \<Rightarrow> nat option \<Rightarrow> (nat \<Rightarrow> 'a signal option) \<Rightarrow> nat \<Rightarrow> 'a signal option" where
  "unlinked l nx c = (case nx of Some n \<Rightarrow> set_prev n (Some l) (set_next l nx c) | None \<Rightarrow> set_next l nx c)"

lemma unlinked_other: "i \<noteq> l \<Longrightarrow> nx \<noteq> Some i \<Longrightarrow> unlinked l nx c i = c i"
  by (auto simp: unlinked_def set_prev_def set_next_def split: option.splits)

lemma dll_unlink:
  assumes "dll c t p q (ys @ s # zs)" "ys \<noteq> []" "distinct (ys @ s # zs)" "c s = Some cs"
  shows "sg_prev cs = Some (last ys) \<and> dll (unlinked (last ys) (sg_next cs) c) t p q (ys @ zs)"
  using assms
proof (induction ys arbitrary: p q)
  case (Cons y ys)
  then obtain sy where y: "c y = Some sy" "q = Some y" "sg_topic sy = t" "sg_prev sy = p"
    "dll c t (Some y) (sg_next sy) (ys @ s # zs)" by (auto split: option.splits)
  show ?case
  proof (cases ys)
    case Nil
    with y Cons.prems have s: "sg_prev cs = Some y" "dll c t (Some s) (sg_next cs) zs" by auto
    show ?thesis
    proof (cases zs)
      case Nil
      with s \<open>ys = []\<close> y show ?thesis by (simp add: unlinked_def set_next_def)
    next
      case (Cons z zs')
      with s have z: "sg_next cs = Some z" by simp
      have "z \<noteq> y" using Cons.prems Cons by auto
      let ?c = "set_next y (Some z) c"
      have "dll ?c t (Some s) (Some z) (z # zs')"
        using s Cons z Cons.prems by (subst dll_cong [of _ _ c]) (auto simp: set_next_def)
      from dll_set_prev [OF this, of "Some y"] Cons Cons.prems
      have "dll (set_prev z (Some y) ?c) t (Some y) (Some z) zs" by simp
      moreover have "set_prev z (Some y) ?c y = Some (sy\<lparr>sg_next := Some z\<rparr>)"
        using \<open>z \<noteq> y\<close> y(1) by (simp add: set_next_def)
      ultimately show ?thesis using \<open>ys = []\<close> y s z by (simp add: unlinked_def)
    qed
  next
    case (Cons w ws)
    with Cons.IH [of "Some y" "sg_next sy"] y Cons.prems
    have IH: "sg_prev cs = Some (last ys)" "dll (unlinked (last ys) (sg_next cs) c) t (Some y) (sg_next sy) (ys @ zs)"
      by auto
    have nx: "sg_next cs = (case zs of [] \<Rightarrow> None | z # zs' \<Rightarrow> Some z)"
    proof -
      from dll_suffix [OF y(5)] obtain p' q' where "dll c t p' q' (s # zs)" by blast
      from dll_next [OF this Cons.prems(4)] show ?thesis .
    qed
    have "y \<noteq> last ys" "sg_next cs \<noteq> Some y"
      using Cons.prems Cons nx by (auto split: list.splits)
    then have "unlinked (last ys) (sg_next cs) c y = c y" by (simp add: unlinked_other)
    with IH y Cons show ?thesis by simp
  qed
qed simp

text \<open>\<^verbatim>\<open>subscribe\<close> appends, \<^verbatim>\<open>remove\<close> deletes; no other topic's list is touched.\<close>

lemma advise_after_rep:
  assumes "hub_rep h f"
  shows "hub_rep (advise_after t a h) (f(t := f t @ [next_id h]))"
proof -
  let ?s = "next_id h"
  have r: "\<And>u. dll (cells h) u None (heads h u) (f u)" "\<And>u. sorted_wrt (<) (f u)"
    "\<And>u x. x \<in> set (f u) \<Longrightarrow> x < ?s" using assms by (auto simp: hub_rep_def)
  have other: "u = v" if "x \<in> set (f u)" "x \<in> set (f v)" for u v x
    using dll_topic [OF r(1) that(1)] dll_topic [OF r(1) that(2)] by auto
  have dist: "distinct (f t)" using r(2) strict_sorted_iff by blast
  have srt: "sorted_wrt (<) (f t @ [?s])" using r by (simp add: sorted_wrt_append)
  show ?thesis
  proof (cases "f t")
    case Nil
    with r(1) [of t] have "heads h t = None" by simp
    then have "cells (advise_after t a h) = (cells h)(?s := Some \<lparr>sg_topic = t, sg_advice = a, sg_next = None, sg_prev = None\<rparr>)"
      "heads (advise_after t a h) = (heads h)(t := Some ?s)" "next_id (advise_after t a h) = Suc ?s"
      by (simp_all add: advise_after_def Let_def)
    moreover have "dll ((cells h)(?s := v)) u None (heads h u) (f u)" for u v
      using r(1) [of u] r(3) [of _ u] by (subst dll_cong [of _ _ "cells h"]) auto
    ultimately show ?thesis using r Nil by (fastforce simp: hub_rep_def less_Suc_eq)
  next
    case (Cons x xs)
    with r(1) [of t] have hd: "heads h t = Some x" by simp
    have "last_ptr ?s (cells h) x = last (f t)"
      using r(1) [of t] hd sorted_below_length [OF r(2)] r(3) by (intro last_ptr_dll) auto
    then have eq: "cells (advise_after t a h) = (set_next (last (f t)) (Some ?s) (cells h))
        (?s := Some \<lparr>sg_topic = t, sg_advice = a, sg_next = None, sg_prev = Some (last (f t))\<rparr>)"
      "heads (advise_after t a h) = heads h" "next_id (advise_after t a h) = Suc ?s"
      using hd by (simp_all add: advise_after_def Let_def)
    have ft: "f t \<noteq> []" "?s \<notin> set (f t)" using Cons r(3) [of ?s t] by auto
    have "dll (cells (advise_after t a h)) t None (heads h t) (f t @ [?s])"
      unfolding eq by (rule dll_snoc [OF r(1) ft(2,1) dist])
    moreover have "dll (cells (advise_after t a h)) u None (heads h u) (f u)" if "u \<noteq> t" for u
    proof -
      have "last (f t) \<notin> set (f u)" using other [of "last (f t)" t u] ft that by auto
      then have "cells (advise_after t a h) x = cells h x" if "x \<in> set (f u)" for x
        unfolding eq using that r(3) [of x u] by (metis fun_upd_other less_irrefl set_next_other)
      then show ?thesis unfolding eq(2) using r(1) [of u] by (subst dll_cong [of _ _ "cells h"]) auto
    qed
    ultimately show ?thesis using r srt eq by (auto simp: hub_rep_def less_Suc_eq)
  qed
qed

lemma remove_signal_rep:
  assumes "hub_rep h f" "s \<in> set (f t)"
  shows "hub_rep (remove_signal s h) (f(t := remove1 s (f t)))"
proof -
  have r: "\<And>u. dll (cells h) u None (heads h u) (f u)" "\<And>u. sorted_wrt (<) (f u)"
    "\<And>u x. x \<in> set (f u) \<Longrightarrow> x < next_id h" using assms(1) by (auto simp: hub_rep_def)
  have other: "u = v" if "x \<in> set (f u)" "x \<in> set (f v)" for u v x
    using dll_topic [OF r(1) that(1)] dll_topic [OF r(1) that(2)] by auto
  have dist: "distinct (f t)" using r(2) strict_sorted_iff by blast
  obtain cs where cs: "cells h s = Some cs" "sg_topic cs = t" using dll_topic [OF r(1) assms(2)] by blast
  obtain ys zs where f: "f t = ys @ s # zs" using assms(2) by (auto simp: in_set_conv_decomp)
  have rem: "remove1 s (f t) = ys @ zs" using dist f by (simp add: remove1_append)
  have srt: "sorted_wrt (<) (ys @ zs)" using r(2) [of t] f by (auto simp: sorted_wrt_append)
  have nx: "sg_next cs = (case zs of [] \<Rightarrow> None | z # zs' \<Rightarrow> Some z)"
  proof -
    from dll_suffix [of _ _ _ _ ys "s # zs"] r(1) [of t] f
    obtain p' q' where "dll (cells h) t p' q' (s # zs)" by metis
    from dll_next [OF this cs(1)] show ?thesis .
  qed
  have frame: "dll c u None (heads h u) (f u)"
    if "u \<noteq> t" "\<And>x. x \<notin> set (f t) \<Longrightarrow> c x = cells h x" for u c
    using other that r(1) [of u] by (subst dll_cong [of _ _ "cells h"]) auto
  show ?thesis
  proof (cases ys)
    case Nil
    with r(1) [of t] f have d: "dll (cells h) t None (heads h t) (s # zs)" by simp
    from dll_unlink_hd [OF this cs(1)] dist f Nil have u: "sg_prev cs = None"
      "dll (case sg_next cs of Some n \<Rightarrow> set_prev n None (cells h) | None \<Rightarrow> cells h) t None (sg_next cs) zs" by auto
    have eq: "cells (remove_signal s h) = (case sg_next cs of Some n \<Rightarrow> set_prev n None (cells h) | None \<Rightarrow> cells h)"
      "heads (remove_signal s h) = (heads h)(t := sg_next cs)" "next_id (remove_signal s h) = next_id h"
      using u cs by (auto simp: remove_signal_def Let_def split: option.splits)
    have "\<And>x. x \<notin> set (f t) \<Longrightarrow> cells (remove_signal s h) x = cells h x"
      unfolding eq using nx f by (auto split: list.splits)
    moreover have "\<forall>x \<in> set zs. x < next_id h" using r(3) [of _ t] f by auto
    ultimately show ?thesis using frame u(2) r srt rem Nil f unfolding hub_rep_def eq by auto
  next
    case (Cons y ws)
    from r(1) [of t] f dist cs(1) dll_unlink [of "cells h" t None "heads h t" ys s zs cs] Cons
    have u: "sg_prev cs = Some (last ys)" "dll (unlinked (last ys) (sg_next cs) (cells h)) t None (heads h t) (ys @ zs)"
      by auto
    have eq: "cells (remove_signal s h) = unlinked (last ys) (sg_next cs) (cells h)"
      "heads (remove_signal s h) = heads h" "next_id (remove_signal s h) = next_id h"
      using u cs by (auto simp: remove_signal_def Let_def unlinked_def split: option.splits)
    have "\<And>x. x \<notin> set (f t) \<Longrightarrow> cells (remove_signal s h) x = cells h x"
      unfolding eq using nx f Cons by (auto intro!: unlinked_other split: list.splits)
    moreover have "\<forall>x \<in> set (ys @ zs). x < next_id h" using r(3) [of _ t] f by auto
    ultimately show ?thesis using frame u(2) r srt rem f unfolding hub_rep_def eq by auto
  qed
qed

lemma advice_of_set_next [simp]:
  "map_option sg_advice (set_next i n c j) = map_option sg_advice (c j)"
  by (cases "c j") (auto simp: set_next_def)

lemma advice_of_set_prev [simp]:
  "map_option sg_advice (set_prev i n c j) = map_option sg_advice (c j)"
  by (cases "c j") (auto simp: set_prev_def)

lemma advice_of_remove [simp]:
  "map_option sg_advice (cells (remove_signal s h) j) = map_option sg_advice (cells h j)"
  by (auto simp: remove_signal_def Let_def split: option.splits)

lemma advice_of_advise:
  "map_option sg_advice (cells (advise_after t a h) j)
    = (if j = next_id h then Some a else map_option sg_advice (cells h j))"
  by (auto simp: advise_after_def Let_def split: option.splits)

lemma next_id_advise [simp]: "next_id (advise_after t a h) = Suc (next_id h)"
  by (auto simp: advise_after_def Let_def split: option.splits)

lemma next_id_remove [simp]: "next_id (remove_signal s h) = next_id h"
  by (auto simp: remove_signal_def Let_def split: option.splits)

lemma hub_rep_ids: "hub_inv h \<Longrightarrow> hub_rep h (ids h)"
proof -
  assume "hub_inv h"
  then obtain f where f: "hub_rep h f" by (auto simp: hub_inv_def)
  then have "ids h = f" using ids_rep by (intro ext) blast
  with f show ?thesis by simp
qed

lemma hub_rep_imp: "hub_rep h f \<Longrightarrow> hub_inv h \<and> ids h = f"
  using ids_rep [of h f] by (auto simp: hub_inv_def)

lemma ids_below: "hub_inv h \<Longrightarrow> i \<in> set (ids h t) \<Longrightarrow> i < next_id h"
  using hub_rep_ids by (auto simp: hub_rep_def)

lemma ids_sorted: "hub_inv h \<Longrightarrow> sorted_wrt (<) (ids h t)"
  using hub_rep_ids by (auto simp: hub_rep_def)

lemma ids_topic: "hub_inv h \<Longrightarrow> i \<in> set (ids h t) \<Longrightarrow> \<exists>s. cells h i = Some s \<and> sg_topic s = t"
  using hub_rep_ids [of h] dll_topic unfolding hub_rep_def by metis

lemma advise_after_hub:
  "hub_inv h \<Longrightarrow> hub_inv (advise_after t a h)
    \<and> ids (advise_after t a h) = (ids h)(t := ids h t @ [next_id h])"
  by (rule hub_rep_imp [OF advise_after_rep [OF hub_rep_ids]])

lemma remove_signal_hub:
  "hub_inv h \<Longrightarrow> s \<in> set (ids h t) \<Longrightarrow> hub_inv (remove_signal s h)
    \<and> ids (remove_signal s h) = (ids h)(t := remove1 s (ids h t))"
  by (rule hub_rep_imp [OF remove_signal_rep [OF hub_rep_ids]])

lemma hub_inv_empty: "hub_inv empty_hub"
  by (auto simp: hub_inv_def hub_rep_def empty_hub_def intro!: exI [of _ "\<lambda>_. []"])


lemma map_filter_all: "(\<And>x. x \<in> set xs \<Longrightarrow> f x = Some (g x)) \<Longrightarrow> List.map_filter f xs = map g xs"
  by (induction xs) (auto simp: List.map_filter_simps)

lemma listeners_map: "hub_inv h \<Longrightarrow> listeners h t = map (\<lambda>i. sg_advice (the (cells h i))) (ids h t)"
  unfolding listeners_def by (rule map_filter_all) (force dest: ids_topic)

section \<open>The contract of a topic\<close>

locale pubsub =
  fixes inv :: "'h \<Rightarrow> bool"
    and sub :: "string \<Rightarrow> 'a \<Rightarrow> 'h \<Rightarrow> 'h"
    and unsub :: "nat \<Rightarrow> 'h \<Rightarrow> 'h"
    and subs :: "'h \<Rightarrow> string \<Rightarrow> nat list"
    and fresh :: "'h \<Rightarrow> nat"
  assumes sub_law: "inv h \<Longrightarrow> inv (sub t a h) \<and> subs (sub t a h) = (subs h)(t := subs h t @ [fresh h])"
    and unsub_law: "inv h \<Longrightarrow> s \<in> set (subs h t)
      \<Longrightarrow> inv (unsub s h) \<and> subs (unsub s h) = (subs h)(t := remove1 s (subs h t))"
    and below: "inv h \<Longrightarrow> s \<in> set (subs h t) \<Longrightarrow> s < fresh h"
begin

lemma fresh_not_subscribed: "inv h \<Longrightarrow> fresh h \<notin> set (subs h t)"
  using below by fastforce

lemma unsub_newest:
  assumes "inv h"
  shows "inv (unsub (fresh h) (sub t a h)) \<and> subs (unsub (fresh h) (sub t a h)) = subs h"
proof -
  have s: "inv (sub t a h)" "subs (sub t a h) = (subs h)(t := subs h t @ [fresh h])"
    using sub_law [OF assms] by auto
  then have "fresh h \<in> set (subs (sub t a h) t)" by simp
  from unsub_law [OF s(1) this] s(2) fresh_not_subscribed [OF assms, of t]
  show ?thesis by (auto simp: remove1_append remove1_idem)
qed

lemma sub_all:
  "inv h \<Longrightarrow> inv (fold (sub t) as h)
    \<and> (\<forall>u. u \<noteq> t \<longrightarrow> subs (fold (sub t) as h) u = subs h u)
    \<and> (\<exists>new. length new = length as \<and> subs (fold (sub t) as h) t = subs h t @ new)"
proof (induction as arbitrary: h)
  case (Cons a as)
  have s: "inv (sub t a h)" "subs (sub t a h) = (subs h)(t := subs h t @ [fresh h])"
    using sub_law [OF Cons.prems] by auto
  from Cons.IH [OF s(1)] obtain new where n: "inv (fold (sub t) as (sub t a h))"
    "\<forall>u. u \<noteq> t \<longrightarrow> subs (fold (sub t) as (sub t a h)) u = subs (sub t a h) u"
    "length new = length as" "subs (fold (sub t) as (sub t a h)) t = subs (sub t a h) t @ new" by blast
  show ?case using n s(2) by (auto intro!: exI [of _ "fresh h # new"])
qed simp

end

interpretation topic: pubsub hub_inv advise_after remove_signal ids next_id
  by unfold_locales (rule advise_after_hub remove_signal_hub ids_below; assumption)+

text \<open>subscribing appends one listener to the topic's list, after all that are there, and changes no
  other topic; removing the newest subscription gives back the lists as they were.\<close>

theorem hub_subscribe:
  assumes "hub_inv h"
  shows "hub_inv (advise_after t a h)
    \<and> listeners (advise_after t a h) = (listeners h)(t := listeners h t @ [a])
    \<and> ids (remove_signal (next_id h) (advise_after t a h)) = ids h"
proof -
  note s = topic.sub_law [OF assms, of t a]
  have "listeners (advise_after t a h) u = ((listeners h)(t := listeners h t @ [a])) u" for u
  proof -
    have old: "sg_advice (the (cells (advise_after t a h) i)) = sg_advice (the (cells h i))"
      if "i \<in> set (ids h v)" for i v
      using ids_topic [OF assms that] ids_below [OF assms that]
        ids_topic [of "advise_after t a h" i v] s that advice_of_advise [of t a h i] by auto
    have new: "sg_advice (the (cells (advise_after t a h) (next_id h))) = a"
      using advice_of_advise [of t a h "next_id h"] by auto
    show ?thesis using s old new by (simp add: listeners_map assms)
  qed
  with s topic.unsub_newest [OF assms, of t a] show ?thesis by blast
qed

lemma hub_subscribe_witness:
  "listeners (advise_after ''t'' (2::nat) (advise_after ''t'' 1 empty_hub)) ''t'' = [1, 2]"
proof -
  have "listeners (advise_after ''t'' (1::nat) empty_hub) ''t'' = [1]" by code_simp
  moreover have "hub_inv (advise_after ''t'' (1::nat) empty_hub)"
    by (simp add: advise_after_hub hub_inv_empty)
  note hub_subscribe [OF this, of "''t''" 2]
  ultimately show ?thesis by simp
qed

text \<open>removing a subscription takes out that listener alone, wherever it stands in its list, and
  keeps the list well linked in both directions.\<close>

theorem hub_unsubscribe:
  assumes "hub_inv h" "i \<in> set (ids h t)"
  shows "hub_inv (remove_signal i h) \<and> ids (remove_signal i h) = (ids h)(t := remove1 i (ids h t))
    \<and> (\<forall>u. u \<noteq> t \<longrightarrow> listeners (remove_signal i h) u = listeners h u)"
proof -
  note r = topic.unsub_law [OF assms]
  have "listeners (remove_signal i h) u = listeners h u" if "u \<noteq> t" for u
    using r that unfolding listeners_def by simp
  with r show ?thesis by blast
qed

definition sample_hub :: "nat hub" where
  "sample_hub = advise_after ''t'' 3 (advise_after ''u'' 2 (advise_after ''t'' 1 (advise_after ''t'' 0 empty_hub)))"

lemma hub_inv_sample: "hub_inv sample_hub"
  by (simp add: sample_hub_def advise_after_hub hub_inv_empty)

lemma hub_unsubscribe_witness:
  "ids (remove_signal 1 sample_hub) = (ids sample_hub)(''t'' := [0, 3])"
proof -
  have "ids sample_hub ''t'' = [0, 1, 3]" by code_simp
  with hub_unsubscribe [OF hub_inv_sample, of 1 "''t''"] show ?thesis by simp
qed


section \<open>A publish runs each listener at most once\<close>

text \<open>Also the pointers of a signal that was removed lead forward, so the loop ends whatever the
  listeners do to the hub while it runs.\<close>

definition hub_fwd :: "'a hub \<Rightarrow> bool" where
  "hub_fwd h \<longleftrightarrow> (\<forall>i s. cells h i = Some s \<longrightarrow> i < next_id h
     \<and> (\<forall>n. sg_next s = Some n \<longrightarrow> i < n \<and> n < next_id h)
     \<and> (\<forall>p. sg_prev s = Some p \<longrightarrow> p < i))
   \<and> (\<forall>t q. heads h t = Some q \<longrightarrow> q < next_id h)"

lemma hub_fwd_empty: "hub_fwd empty_hub"
  by (simp add: hub_fwd_def empty_hub_def)

lemma last_ptr_below:
  assumes "\<And>i s n. c i = Some s \<Longrightarrow> sg_next s = Some n \<Longrightarrow> n < b" "q < b"
  shows "last_ptr f c q < (b :: nat)"
  using assms(2) by (induction f arbitrary: q) (auto split: option.splits dest: assms(1))

lemma hub_fwd_advise: assumes "hub_fwd h" shows "hub_fwd (advise_after t a h)"
proof (cases "heads h t")
  case None
  with assms show ?thesis
    by (auto simp: hub_fwd_def advise_after_def Let_def less_Suc_eq split: option.splits)
next
  case (Some q)
  then have "last_ptr (next_id h) (cells h) q < next_id h"
    using assms by (intro last_ptr_below) (auto simp: hub_fwd_def)
  with Some assms show ?thesis
    by (auto simp: hub_fwd_def advise_after_def Let_def set_next_def less_Suc_eq split: option.splits if_splits)
qed

lemma hub_fwd_remove: assumes "hub_fwd h" shows "hub_fwd (remove_signal s h)"
proof (cases "cells h s")
  case None
  with assms show ?thesis by (simp add: remove_signal_def)
next
  case (Some c)
  with assms have c: "\<And>n. sg_next c = Some n \<Longrightarrow> s < n \<and> n < next_id h" "\<And>p. sg_prev c = Some p \<Longrightarrow> p < s"
    by (auto simp: hub_fwd_def)
  define h1 where "h1 = (case sg_prev c of Some p \<Rightarrow> h\<lparr>cells := set_next p (sg_next c) (cells h)\<rparr>
      | None \<Rightarrow> h\<lparr>heads := (heads h)(sg_topic c := sg_next c)\<rparr>)"
  have h1: "hub_fwd h1 \<and> next_id h1 = next_id h"
    using assms c by (fastforce simp: h1_def hub_fwd_def set_next_def split: option.splits if_splits)
  have "hub_fwd (case sg_next c of Some n \<Rightarrow> h1\<lparr>cells := set_prev n (sg_prev c) (cells h1)\<rparr> | None \<Rightarrow> h1)"
    using h1 c by (fastforce simp: hub_fwd_def set_prev_def split: option.splits if_splits)
  then show ?thesis using assms Some unfolding remove_signal_def h1_def Let_def
    by (auto simp: hub_fwd_def split: if_splits)
qed

lemma emit_loop_None [simp]: "emit_loop f exec eid None st = (st, None, [])"
  by (cases f) simp_all

lemma emit_cases:
  obtains (stop) "\<And>f. emit_loop f exec eid q st = (st, None, [])"
  | (last) i a st' e where "q = Some i" "i < eid" "fst (exec a st) = st'" "\<And>f. emit_loop (Suc f) exec eid q st = (st', e, [i])"
  | (more) i a st' s' where "q = Some i" "i < eid" "exec a st = (st', None)"
      "cells (fst st') i = Some s'"
      "\<And>f. emit_loop (Suc f) exec eid q st = (case emit_loop f exec eid (sg_next s') st' of (st2, e, js) \<Rightarrow> (st2, e, i # js))"
proof -
  show thesis
  proof (cases "\<exists>i s. q = Some i \<and> cells (fst st) i = Some s \<and> i < eid")
    case False
    have "emit_loop f exec eid q st = (st, None, [])" for f
      using False by (cases f) (auto split: option.splits)
    then show ?thesis by (rule stop)
  next
    case True
    then obtain i s where i: "q = Some i" "cells (fst st) i = Some s" "i < eid" by blast
    obtain st' r where r: "exec (sg_advice s) st = (st', r)" by fastforce
    show ?thesis
    proof (cases "r = None \<and> cells (fst st') i \<noteq> None")
      case True
      then obtain s' where s': "r = None" "cells (fst st') i = Some s'" by blast
      show ?thesis by (rule more [OF i(1,3) _ s'(2), of "sg_advice s"]) (use i r s' in auto)
    next
      case False
      show ?thesis by (rule last [OF i(1,3), of "sg_advice s" st' r]) (use False i r in \<open>auto split: option.splits\<close>)
    qed
  qed
qed

lemma emit_runs:
  assumes "\<And>a st'. hub_fwd (fst st') \<Longrightarrow> hub_fwd (fst (fst (exec a st')))" "hub_fwd (fst st)"
  shows "sorted_wrt (<) (snd (snd (emit_loop f exec eid q st)))
      \<and> (\<forall>i \<in> set (snd (snd (emit_loop f exec eid q st))). i < eid \<and> (\<forall>j. q = Some j \<longrightarrow> j \<le> i))"
  using assms(2)
proof (induction f arbitrary: q st)
  case (Suc f)
  show ?case
  proof (cases rule: emit_cases [of exec eid q st])
    case (more i a st' s')
    obtain st2 e js where l: "emit_loop f exec eid (sg_next s') st' = (st2, e, js)"
      by (cases "emit_loop f exec eid (sg_next s') st'") auto
    have fwd: "hub_fwd (fst st')" using assms(1) [OF Suc.prems, of a] more(3) by simp
    from Suc.IH [OF fwd, of "sg_next s'"] l
    have "sorted_wrt (<) js" "\<forall>k \<in> set js. k < eid \<and> (\<forall>j. sg_next s' = Some j \<longrightarrow> j \<le> k)" by auto
    moreover have "i < k" if "k \<in> set js" for k
    proof (cases "sg_next s'")
      case None
      then have "js = []" using l by (cases f) auto
      with that show ?thesis by simp
    next
      case (Some n)
      with fwd more(4) have "i < n" by (auto simp: hub_fwd_def)
      with Some that \<open>\<forall>k \<in> set js. k < eid \<and> (\<forall>j. sg_next s' = Some j \<longrightarrow> j \<le> k)\<close>
      show ?thesis by fastforce
    qed
    ultimately show ?thesis using more(1,2) l unfolding more(5) by (auto intro: less_imp_le)
  qed (simp_all del: emit_loop.simps)
qed simp

lemma emit_fuel:
  assumes "\<And>a st'. hub_fwd (fst st') \<Longrightarrow> hub_fwd (fst (fst (exec a st')))" "hub_fwd (fst st)"
    and "\<forall>j. q = Some j \<longrightarrow> eid \<le> f + j" "\<forall>j. q = Some j \<longrightarrow> eid \<le> g + j"
  shows "emit_loop f exec eid q st = emit_loop g exec eid q st"
  using assms(2-4)
proof (induction f arbitrary: q st g)
  case 0
  then have "emit_loop g' exec eid q st = (st, None, [])" for g'
    by (cases g') (auto split: option.splits)
  then show ?case by simp
next
  case (Suc f)
  show ?case
  proof (cases rule: emit_cases [of exec eid q st])
    case (last i a st' e)
    with Suc.prems(3) obtain g' where "g = Suc g'" by (cases g) auto
    then show ?thesis using last(4) by simp
  next
    case (more i a st' s')
    with Suc.prems(3) obtain g' where g: "g = Suc g'" by (cases g) auto
    have fwd: "hub_fwd (fst st')" using assms(1) [OF Suc.prems(1), of a] more(3) by simp
    then have "i < n" if "sg_next s' = Some n" for n using more(4) that by (auto simp: hub_fwd_def)
    then have "emit_loop f exec eid (sg_next s') st' = emit_loop g' exec eid (sg_next s') st'"
      using Suc.prems(2,3) more(1) g by (intro Suc.IH fwd) fastforce+
    then show ?thesis unfolding g more(5) by simp
  qed simp
qed

text \<open>C28: whatever the listeners do to the hub while they run (subscribe, unsubscribe themselves or
  others, throw), one publish runs every listener at most once, in the order of subscription, and
  runs none that was subscribed during the publish; the fuel of the loop is never used up.\<close>
theorem publish_once:
  assumes "hub_fwd (fst st)"
    and "\<And>a st'. hub_fwd (fst st') \<Longrightarrow> hub_fwd (fst (fst (exec a st')))"
  shows "sorted_wrt (<) (snd (snd (emit exec t st)))
    \<and> (\<forall>i \<in> set (snd (snd (emit exec t st))). i < next_id (fst st))
    \<and> (\<forall>f \<ge> next_id (fst st). emit_loop f exec (next_id (fst st)) (heads (fst st) t) st = emit exec t st)"
  using emit_runs [OF assms(2,1)] emit_fuel [OF assms(2,1)] unfolding emit_def by auto

text \<open>A listener that subscribes itself again, and one that removes the first signal.\<close>

definition sample_exec :: "nat \<Rightarrow> nat hub \<times> nat list \<Rightarrow> (nat hub \<times> nat list) \<times> js_error option" where
  "sample_exec a st =
     ((if a = 0 then advise_after ''t'' 7 (fst st) else if a = 1 then remove_signal 0 (fst st) else fst st,
       snd st @ [a]), None)"

lemma publish_once_witness:
  "sorted_wrt (<) (snd (snd (emit sample_exec ''t'' (sample_hub, []))))"
proof -
  have f: "hub_fwd (fst (sample_hub, [] :: nat list))"
    by (simp add: sample_hub_def hub_fwd_advise hub_fwd_empty)
  have "hub_fwd (fst (fst (sample_exec a st)))" if "hub_fwd (fst st)" for a st
    using that by (simp add: sample_exec_def hub_fwd_advise hub_fwd_remove)
  then show ?thesis by (rule publish_once [OF f, THEN conjunct1])
qed

text \<open>Listeners that leave the hub alone and do not throw are all run, in the order in which they
  subscribed, each on the state the one before it left.\<close>
theorem publish_runs_all:
  assumes "hub_inv h"
  shows "emit (\<lambda>a st. ((fst st, f a (snd st)), None)) t (h, s)
    = ((h, fold f (listeners h t) s), None, ids h t)"
proof -
  let ?e = "\<lambda>a st. ((fst st, f a (snd st)), None)"
  have "emit_loop n ?e eid q (h, s)
      = ((h, fold f (map (\<lambda>i. sg_advice (the (cells h i))) xs) s), None, xs)"
    if "dll (cells h) t p q xs" "\<forall>x \<in> set xs. x < eid" "length xs \<le> n" for n eid q xs p
    using that
  proof (induction xs arbitrary: p q n s)
    case Nil
    then show ?case by (cases n) auto
  next
    case (Cons x xs)
    then obtain m v where m: "n = Suc m" "cells h x = Some v" "dll (cells h) t (Some x) (sg_next v) xs" "q = Some x"
      by (cases n) (auto split: option.splits)
    with Cons show ?case by simp
  qed
  moreover have "dll (cells h) t None (heads h t) (ids h t)" using hub_rep_ids [OF assms] by (simp add: hub_rep_def)
  moreover have "\<forall>x \<in> set (ids h t). x < next_id h" using ids_below [OF assms] by blast
  moreover have "length (ids h t) \<le> next_id h"
    using sorted_below_length [OF ids_sorted [OF assms]] ids_below [OF assms] by blast
  ultimately show ?thesis by (simp add: emit_def listeners_map assms)
qed

lemma publish_runs_all_witness:
  "emit (\<lambda>a st. ((fst st, a + snd st), None)) ''t'' (sample_hub, 10 :: nat)
    = ((sample_hub, fold (+) (listeners sample_hub ''t'') 10), None, ids sample_hub ''t'')"
  by (rule publish_runs_all [OF hub_inv_sample])

text \<open>a subscription that is removed twice can take another listener with it: with \<open>a\<close> subscribed and
  removed and \<open>b\<close> subscribed after that, removing \<open>a\<close> once more empties the topic, \<open>b\<close> with it.\<close>

theorem double_remove_loses_listener:
  "let h = advise_after t b (remove_signal 0 (advise_after t a empty_hub))
   in listeners h t = [b] \<and> listeners (remove_signal 0 h) t = []"
  by (simp add: Let_def advise_after_def remove_signal_def empty_hub_def listeners_def ids_def
      List.map_filter_simps numeral_2_eq_2)

end
