(* ===== verification/Model.thy ===== *)
theory Model
  imports Registry Hub
begin

text \<open>
  The data the console shows (the JSON objects of the server's answers) and the names the
  components share: listeners of the topics, continuations of the requests.

  A continuation names the pair of callbacks a script passes to \<^verbatim>\<open>xhr(...).then\<close> together with
  the local variables these close over; a listener names the method that a script passes to
  \<^verbatim>\<open>topic.subscribe\<close> together with the fields of its widget that it reads.
\<close>

section \<open>Objects of the server's answers\<close>

record user =
  u_id :: string
  u_name :: "string option"
  u_fullname :: string
  u_email :: string
  u_username :: string
  u_role :: string
  u_online :: bool
  u_group :: "(string \<times> string) option"
  u_apps :: nat

record group =
  g_id :: string
  g_name :: string
  g_created :: int
  g_users :: "user list"

record host =
  h_name :: string
  h_ip :: string
  h_old_ip :: string

record volume =
  v_id :: string
  v_name :: string
  v_datastore :: bool

record storage =
  st_id :: string
  st_name :: string
  st_size :: string
  st_backing :: string
  st_volume :: string

record application =
  a_cluster :: string
  a_name :: string
  a_state :: string

text \<open>An answer has the fields its endpoint sends; the others are undefined (\<open>None\<close>).\<close>

record response =
  r_error :: bool
  r_msg :: "string option"
  r_groups :: "group list option"
  r_users :: "user list option"
  r_hosts :: "host list option"
  r_storages :: "storage list option"
  r_volumes :: "volume list option"
  r_apps :: "application list option"

text \<open>A request that fails gives \<^verbatim>\<open>error.response.data.msg\<close>: reading it throws when the answer had
  no data (\<open>Failed None\<close>).\<close>

datatype reply = Answer response | Failed "string option"

text \<open>Concatenating an undefined value, and \<^verbatim>\<open>dojo.forEach\<close> of one.\<close>

definition js_str :: "string option \<Rightarrow> string" where
  "js_str s = (case s of None \<Rightarrow> ''undefined'' | Some t \<Rightarrow> t)"

definition js_list :: "'a list option \<Rightarrow> 'a list" where
  "js_list xs = (case xs of None \<Rightarrow> [] | Some ys \<Rightarrow> ys)"

section \<open>What a request sends\<close>

datatype json = JStr string | JArr "json list" | JObj "(string \<times> json) list"

text \<open>\<^verbatim>\<open>dojo.toJson\<close> leaves out the fields that are undefined.\<close>

definition to_json :: "(string \<times> json option) list \<Rightarrow> json" where
  "to_json fs = JObj (List.map_filter (\<lambda>(k, v). map_option (Pair k) v) fs)"

section \<open>Listeners and continuations\<close>

datatype listener =
    ErrorToaster | InfoToaster
  | LGroupCreate | LGroupChange | LGroupDelete | LGroupsContent
  | LUserCreate | LUserChange | LUserDelete | LUsersContent "string list"
  | LHostCreate | LHostChange | LHostDelete
  | LStorageCreate bool | LStorageChange bool | LStorageDelete
  | LAppCreate bool | LAppChange bool

datatype cont =
    GroupListLoaded | GroupCreateForm | GroupModifyForm string string "string list"
  | GroupsDeleted "string list" | GroupsShown | GroupRowForm group
  | GroupAdded | GroupUpdated | GroupDeleted group | GroupUserRemoved | GroupUserMoved
  | GraphLoaded nat | GraphMoveForm "user list"
  | UserListLoaded "string list" | UserCreateForm "string list" | UserRowForm user "string list"
  | UsersShown "string list" | UserAdded "string list" | UserUpdated "string list" | UserDeleted user
  | HostListLoaded | HostAdded | HostUpdated | HostDeleted host
  | StorageListLoaded bool | StorageCreateForm | StorageRowForm storage
  | StorageAdded | StorageUpdated | StorageDeleted storage
  | AppListLoaded bool | AppCreateForm "string list" | AppChanged string string | AppAdded

record request =
  q_url :: string
  q_post :: bool
  q_data :: "json option"
  q_cont :: cont

text \<open>The requests that are sent under the loading overlay: both callbacks of each of them close it.\<close>

fun stops_load :: "cont \<Rightarrow> bool" where
  "stops_load GroupAdded = True"
| "stops_load GroupUpdated = True"
| "stops_load (GroupDeleted g) = True"
| "stops_load GroupUserRemoved = True"
| "stops_load GroupUserMoved = True"
| "stops_load (UserAdded rs) = True"
| "stops_load (UserUpdated rs) = True"
| "stops_load (UserDeleted u) = True"
| "stops_load HostAdded = True"
| "stops_load HostUpdated = True"
| "stops_load (HostDeleted h) = True"
| "stops_load StorageAdded = True"
| "stops_load StorageUpdated = True"
| "stops_load (StorageDeleted s) = True"
| "stops_load (AppChanged a op) = True"
| "stops_load AppAdded = True"
| "stops_load _ = False"

end
