(* ===== verification/GroupGraph.thy ===== *)
theory GroupGraph
  imports Model
begin

text \<open>
  The graph of groups and users (\<^verbatim>\<open>groups/group-content.js\<close>): the nodes and links made of the list
  of groups, and the selection a user makes by clicking on nodes. A d3 selection of one node is the
  node's position in the list of nodes, which is also the identity of the object it carries
  (\<^verbatim>\<open>__data__\<close>); \<open>gr_stroke\<close> holds the nodes drawn with a black stroke. The layout of the
  nodes (the d3 force) is not modelled.
\<close>

datatype gnode = GroupNode group | UserNode user

record graph =
  gr_nodes :: "gnode list"
  gr_links :: "(nat \<times> nat) list"
  gr_group :: "nat option"
  gr_users :: "nat list"
  gr_stroke :: "nat list"

definition new_graph :: graph where
  "new_graph = \<lparr>gr_nodes = [], gr_links = [], gr_group = None, gr_users = [], gr_stroke = []\<rparr>"

section \<open>The nodes and links\<close>

definition add_user :: "nat \<Rightarrow> gnode list \<times> (nat \<times> nat) list \<times> nat \<Rightarrow> user
    \<Rightarrow> gnode list \<times> (nat \<times> nat) list \<times> nat" where
  "add_user source st u =
     (case st of (ns, ls, target) \<Rightarrow> (ns @ [UserNode u], ls @ [(source, target)], target + 1))"

definition add_group :: "gnode list \<times> (nat \<times> nat) list \<times> nat \<times> nat \<Rightarrow> group
    \<Rightarrow> gnode list \<times> (nat \<times> nat) list \<times> nat \<times> nat" where
  "add_group st g =
     (case st of (ns, ls, source, target) \<Rightarrow>
        (case foldl (add_user source) (ns @ [GroupNode g], ls, target) (g_users g) of
           (ns', ls', target') \<Rightarrow> (ns', ls', target', target' + 1)))"

definition convert_to_d3 :: "group list \<Rightarrow> gnode list \<times> (nat \<times> nat) list" where
  "convert_to_d3 gs = (case foldl add_group ([], [], 0, 1) gs of (ns, ls, _, _) \<Rightarrow> (ns, ls))"

text \<open>What a group contributes.\<close>

definition group_nodes :: "group \<Rightarrow> gnode list" where
  "group_nodes g = GroupNode g # map UserNode (g_users g)"

lemma foldl_add_user:
  "foldl (add_user s) (ns, ls, t) us
     = (ns @ map UserNode us, ls @ map (Pair s) [t..<t + length us], t + length us)"
proof (induction us arbitrary: ns ls t)
  case (Cons u us)
  have "[t..<t + length (u # us)] = t # [Suc t..<Suc t + length us]"
    by (subst upt_conv_Cons) (simp_all del: upt_Suc)
  with Cons show ?case by (simp add: add_user_def del: upt_Suc)
qed (simp add: add_user_def)

text \<open>A link leads from a group's node to the node of one of its users.\<close>

definition link_ok :: "gnode list \<Rightarrow> nat \<times> nat \<Rightarrow> bool" where
  "link_ok ns l \<longleftrightarrow> fst l < length ns \<and> snd l < length ns
     \<and> (\<exists>g u. ns ! fst l = GroupNode g \<and> ns ! snd l = UserNode u \<and> u \<in> set (g_users g))"

definition user_at :: "gnode list \<Rightarrow> nat set" where
  "user_at ns = {t. t < length ns \<and> (\<exists>u. ns ! t = UserNode u)}"

lemma link_ok_append: "link_ok ns l \<Longrightarrow> link_ok (ns @ ms) l"
  by (auto simp: link_ok_def nth_append)

lemma user_at_append: "user_at (ns @ ms) = user_at ns \<union> (\<lambda>t. length ns + t) ` user_at ms"
proof -
  have "t \<in> user_at (ns @ ms) \<longleftrightarrow> t \<in> user_at ns \<union> (\<lambda>t. length ns + t) ` user_at ms" for t
  proof (cases "t < length ns")
    case False
    then obtain k where "t = length ns + k" using le_Suc_ex not_less by blast
    with False show ?thesis by (auto simp: user_at_def nth_append)
  qed (auto simp: user_at_def nth_append)
  then show ?thesis by blast
qed

lemma user_at_group: "user_at (group_nodes g) = {1..<Suc (length (g_users g))}"
  by (auto simp: user_at_def group_nodes_def nth_Cons')

lemma add_group_step:
  assumes "\<forall>l \<in> set ls. link_ok ns l" "distinct (map snd ls)" "set (map snd ls) = user_at ns"
    and "add_group (ns, ls, length ns, length ns + 1) g = (ns', ls', s', t')"
  shows "ns' = ns @ group_nodes g \<and> s' = length ns' \<and> t' = length ns' + 1
    \<and> (\<forall>l \<in> set ls'. link_ok ns' l) \<and> distinct (map snd ls') \<and> set (map snd ls') = user_at ns'"
proof -
  let ?n = "length ns"
  let ?new = "map (Pair ?n) [Suc ?n..<Suc ?n + length (g_users g)]"
  from assms(4) have e: "ns' = ns @ group_nodes g" "ls' = ls @ ?new"
    "s' = Suc ?n + length (g_users g)" "t' = s' + 1"
    by (auto simp: add_group_def foldl_add_user group_nodes_def)
  have len: "length ns' = Suc ?n + length (g_users g)" by (simp add: e group_nodes_def)
  have "link_ok ns' l" if l: "l \<in> set ?new" for l
  proof -
    obtain x where x: "l = (?n, x)" "Suc ?n \<le> x" "x < Suc ?n + length (g_users g)" using l by auto
    then obtain k where "x = Suc ?n + k" using le_Suc_ex by blast
    with x have k: "l = (?n, Suc ?n + k)" "k < length (g_users g)" by simp_all
    then have "ns' ! snd l = UserNode (g_users g ! k)" "ns' ! fst l = GroupNode g"
      by (auto simp: e group_nodes_def nth_append)
    with k len show ?thesis by (auto simp: link_ok_def)
  qed
  moreover have "link_ok ns' l" if "l \<in> set ls" for l
    using that assms(1) by (simp add: e link_ok_append)
  moreover have "user_at ns' = user_at ns \<union> {Suc ?n..<Suc ?n + length (g_users g)}"
    unfolding e(1) user_at_append user_at_group by (simp add: image_add_atLeastLessThan add.commute del: atLeastLessThan_iff)
  moreover have "user_at ns \<inter> {Suc ?n..<Suc ?n + length (g_users g)} = {}"
    by (auto simp: user_at_def)
  moreover have "map snd ?new = [Suc ?n..<Suc ?n + length (g_users g)]" by (simp add: o_def)
  ultimately show ?thesis
    using assms(2,3) e len by (auto simp del: upt_Suc)
qed

lemma foldl_add_group:
  assumes "\<forall>l \<in> set ls. link_ok ns l" "distinct (map snd ls)" "set (map snd ls) = user_at ns"
    and "foldl add_group (ns, ls, length ns, length ns + 1) gs = (ns', ls', s', t')"
  shows "ns' = ns @ concat (map group_nodes gs)
    \<and> (\<forall>l \<in> set ls'. link_ok ns' l) \<and> distinct (map snd ls') \<and> set (map snd ls') = user_at ns'"
  using assms
proof (induction gs arbitrary: ns ls)
  case (Cons g gs)
  obtain n1 l1 s1 t1 where a: "add_group (ns, ls, length ns, length ns + 1) g = (n1, l1, s1, t1)"
    by (cases "add_group (ns, ls, length ns, length ns + 1) g") auto
  from add_group_step [OF Cons.prems(1-3) this] have s: "n1 = ns @ group_nodes g" "s1 = length n1" "t1 = length n1 + 1"
    "\<forall>l \<in> set l1. link_ok n1 l" "distinct (map snd l1)" "set (map snd l1) = user_at n1" by auto
  from Cons.prems(4) a s have "foldl add_group (n1, l1, length n1, length n1 + 1) gs = (ns', ls', s', t')" by simp
  from Cons.IH [OF s(4-6)] this s show ?case by auto
qed simp

text \<open>C30: the graph drawn for a list of groups has one node per group followed by one per user of it, every
  link joins a group to one of its own users, and every user's node hangs on exactly one link.\<close>
theorem convert_to_d3_correct:
  "fst (convert_to_d3 gs) = concat (map group_nodes gs)
   \<and> list_all (link_ok (fst (convert_to_d3 gs))) (snd (convert_to_d3 gs))
   \<and> distinct (map snd (snd (convert_to_d3 gs)))
   \<and> set (map snd (snd (convert_to_d3 gs))) = user_at (fst (convert_to_d3 gs))"
proof -
  obtain ns ls s t where f: "foldl add_group ([], [], length ([] :: gnode list), length ([] :: gnode list) + 1) gs = (ns, ls, s, t)"
    by (cases "foldl add_group ([], [], length ([] :: gnode list), length ([] :: gnode list) + 1) gs") auto
  have "ns = [] @ concat (map group_nodes gs) \<and> (\<forall>l \<in> set ls. link_ok ns l)
      \<and> distinct (map snd ls) \<and> set (map snd ls) = user_at ns"
    by (rule foldl_add_group [OF _ _ _ f]) (simp_all add: user_at_def)
  moreover from f have "fst (convert_to_d3 gs) = ns" "snd (convert_to_d3 gs) = ls" by (simp_all add: convert_to_d3_def)
  ultimately show ?thesis unfolding list_all_iff by auto
qed

section \<open>Selecting nodes\<close>

definition init_user_selected :: "graph \<Rightarrow> graph" where
  "init_user_selected g =
     g\<lparr>gr_stroke := filter (\<lambda>i. i \<notin> set (gr_users g)) (gr_stroke g), gr_users := []\<rparr>"

definition init_group_selected :: "graph \<Rightarrow> graph" where
  "init_group_selected g =
     (case gr_group g of
        None \<Rightarrow> g\<lparr>gr_group := None\<rparr>
      | Some i \<Rightarrow> g\<lparr>gr_stroke := removeAll i (gr_stroke g), gr_group := None\<rparr>)"

definition contains_node :: "nat \<Rightarrow> graph \<Rightarrow> bool" where
  "contains_node i g \<longleftrightarrow> i \<in> set (gr_users g)"

definition remove_user_on_click :: "nat \<Rightarrow> graph \<Rightarrow> graph" where
  "remove_user_on_click i g = g\<lparr>gr_users := filter (\<lambda>j. j \<noteq> i) (gr_users g)\<rparr>"

fun node_group :: "gnode \<Rightarrow> string option" where
  "node_group (UserNode u) = map_option fst (u_group u)"
| "node_group (GroupNode g) = None"

text \<open>The click handler. Reading \<^verbatim>\<open>group.id\<close> of a node without a group throws.\<close>

definition click_user :: "nat \<Rightarrow> graph \<Rightarrow> graph" where
  "click_user i g =
     (let g2 = init_group_selected g
      in if \<not> contains_node i g2
         then g2\<lparr>gr_users := gr_users g2 @ [i], gr_stroke := List.insert i (gr_stroke g2)\<rparr>
         else remove_user_on_click i (g2\<lparr>gr_stroke := removeAll i (gr_stroke g2)\<rparr>))"

definition click :: "nat \<Rightarrow> graph \<Rightarrow> graph \<times> js_error option" where
  "click i g =
     (let g1 = (if gr_group g \<noteq> None then init_group_selected g else g)
      in case gr_nodes g ! i of
           GroupNode d \<Rightarrow>
             (let g2 = init_user_selected g1
              in (g2\<lparr>gr_group := Some i, gr_stroke := List.insert i (gr_stroke g2)\<rparr>, None))
         | UserNode d \<Rightarrow>
             (case gr_users g1 of
                [] \<Rightarrow> (click_user i g1, None)
              | j # _ \<Rightarrow>
                  (case (node_group (gr_nodes g ! j), node_group (UserNode d)) of
                     (Some a, Some b) \<Rightarrow> (click_user i (if a \<noteq> b then init_user_selected g1 else g1), None)
                   | _ \<Rightarrow> (g1, Some (TypeError ''group is undefined'')))))"

text \<open>What is selected: one group, or some users of one group; exactly that is highlighted.\<close>

definition selection_ok :: "graph \<Rightarrow> bool" where
  "selection_ok g \<longleftrightarrow> distinct (gr_users g)
     \<and> set (gr_stroke g) = set (gr_users g) \<union> set_option (gr_group g)
     \<and> (\<forall>i \<in> set (gr_users g). i < length (gr_nodes g) \<and> (\<exists>u. gr_nodes g ! i = UserNode u))
     \<and> (\<forall>i \<in> set (gr_users g). \<forall>j \<in> set (gr_users g). node_group (gr_nodes g ! i) = node_group (gr_nodes g ! j))
     \<and> (\<forall>i. gr_group g = Some i \<longrightarrow> i < length (gr_nodes g) \<and> gr_users g = [] \<and> (\<exists>d. gr_nodes g ! i = GroupNode d))"

lemma init_group_selected_simps [simp]:
  "gr_nodes (init_group_selected g) = gr_nodes g" "gr_users (init_group_selected g) = gr_users g"
  "gr_group (init_group_selected g) = None"
  "set (gr_stroke (init_group_selected g)) = set (gr_stroke g) - set_option (gr_group g)"
  by (auto simp: init_group_selected_def split: option.splits)

lemma init_user_selected_simps [simp]:
  "gr_nodes (init_user_selected g) = gr_nodes g" "gr_users (init_user_selected g) = []"
  "gr_group (init_user_selected g) = gr_group g"
  "set (gr_stroke (init_user_selected g)) = set (gr_stroke g) - set (gr_users g)"
  by (auto simp: init_user_selected_def)

lemma click_user_distinct [simp]: "distinct (gr_users g) \<Longrightarrow> distinct (gr_users (click_user i g))"
  by (auto simp: click_user_def contains_node_def remove_user_on_click_def Let_def)

lemma click_user_simps [simp]:
  "gr_nodes (click_user i g) = gr_nodes g" "gr_group (click_user i g) = None"
  "set (gr_users (click_user i g)) = (if i \<in> set (gr_users g) then set (gr_users g) - {i} else insert i (set (gr_users g)))"
  "set (gr_stroke (click_user i g)) = (if i \<in> set (gr_users g) then set (gr_stroke g) - set_option (gr_group g) - {i}
     else insert i (set (gr_stroke g) - set_option (gr_group g)))"
  by (auto simp: click_user_def contains_node_def remove_user_on_click_def Let_def)

lemma click_user_selection:
  assumes "distinct (gr_users g)" "gr_group g = None" "set (gr_stroke g) = set (gr_users g)"
    and "\<forall>k \<in> insert i (set (gr_users g)). k < length (gr_nodes g)
      \<and> (\<exists>u. gr_nodes g ! k = UserNode u) \<and> node_group (gr_nodes g ! k) = Some b"
  shows "selection_ok (click_user i g)"
  unfolding selection_ok_def click_user_simps using assms by simp

text \<open>Every user shown belongs to a group.\<close>

fun grouped :: "gnode \<Rightarrow> bool" where
  "grouped (UserNode u) = (u_group u \<noteq> None)"
| "grouped (GroupNode g) = True"

lemma grouped_nth: "list_all grouped ns \<Longrightarrow> i < length ns \<Longrightarrow> ns ! i = UserNode u \<Longrightarrow> u_group u \<noteq> None"
  by (metis grouped.simps(1) list_all_length)

text \<open>C27: clicking a group selects it alone; clicking a user of a group selects or unselects it among the
  selected users of the same group, and selects it alone when another group's users, or a group, were
  selected; what is highlighted is always what is selected, and the selection stays well formed.\<close>
theorem click_selects:
  assumes "selection_ok g" "i < length (gr_nodes g)"
    and "list_all grouped (gr_nodes g)"
  shows "snd (click i g) = None \<and> selection_ok (fst (click i g)) \<and> gr_nodes (fst (click i g)) = gr_nodes g
    \<and> (case gr_nodes g ! i of
         GroupNode d \<Rightarrow> gr_group (fst (click i g)) = Some i \<and> gr_users (fst (click i g)) = []
       | UserNode d \<Rightarrow> gr_group (fst (click i g)) = None
           \<and> set (gr_users (fst (click i g)))
             = (if \<forall>j \<in> set (gr_users g). node_group (gr_nodes g ! j) = node_group (UserNode d)
                then (if i \<in> set (gr_users g) then set (gr_users g) - {i} else insert i (set (gr_users g)))
                else {i}))"
proof (cases "gr_nodes g ! i")
  case (GroupNode d)
  with assms show ?thesis by (auto simp: click_def Let_def selection_ok_def)
next
  case (UserNode d)
  let ?g1 = "if gr_group g \<noteq> None then init_group_selected g else g"
  have g1: "gr_users ?g1 = gr_users g" "gr_nodes ?g1 = gr_nodes g" "gr_group ?g1 = None"
    "set (gr_stroke ?g1) = set (gr_users g)"
    using assms(1) by (auto simp: selection_ok_def)
  have d: "distinct (gr_users g)" using assms(1) by (simp add: selection_ok_def)
  obtain b where b: "node_group (UserNode d) = Some b" using grouped_nth [OF assms(3,2) UserNode] by auto
  show ?thesis
  proof (cases "gr_users g")
    case Nil
    with UserNode b g1 assms show ?thesis by (auto simp: click_def Let_def selection_ok_def)
  next
    case (Cons j js)
    then have j: "j \<in> set (gr_users g)" "j < length (gr_nodes g)" using assms(1) by (auto simp: selection_ok_def)
    then obtain v where v: "gr_nodes g ! j = UserNode v" using assms(1) by (auto simp: selection_ok_def)
    then obtain a where a: "node_group (gr_nodes g ! j) = Some a" using grouped_nth [OF assms(3) j(2) v] v by auto
    have "\<forall>k \<in> set (gr_users g). node_group (gr_nodes g ! k) = node_group (gr_nodes g ! j)"
      using assms(1) j(1) unfolding selection_ok_def by blast
    then have all_a: "\<forall>k \<in> set (gr_users g). node_group (gr_nodes g ! k) = Some a" using a by simp
    then have same: "(\<forall>k \<in> set (gr_users g). node_group (gr_nodes g ! k) = node_group (UserNode d)) \<longleftrightarrow> a = b"
      using j(1) b by (metis option.inject)
    define g2 where "g2 = (if a \<noteq> b then init_user_selected ?g1 else ?g1)"
    obtain n where "u_group d = Some (b, n)" using b by auto
    then have c: "click i g = (click_user i g2, None)"
      using UserNode a Cons by (simp add: click_def Let_def g2_def)
    have g2: "gr_nodes g2 = gr_nodes g" "gr_group g2 = None" "set (gr_stroke g2) = set (gr_users g2)"
      "gr_users g2 = (if a \<noteq> b then [] else gr_users g)"
      using g1 by (simp_all add: g2_def)
    have sub: "\<forall>k \<in> insert i (set (gr_users g2)). k < length (gr_nodes g2)
        \<and> (\<exists>u. gr_nodes g2 ! k = UserNode u) \<and> node_group (gr_nodes g2 ! k) = Some b"
    proof
      fix k
      assume k: "k \<in> insert i (set (gr_users g2))"
      show "k < length (gr_nodes g2) \<and> (\<exists>u. gr_nodes g2 ! k = UserNode u) \<and> node_group (gr_nodes g2 ! k) = Some b"
      proof (cases "k = i")
        case True
        with assms(2) UserNode b g2(1) show ?thesis by simp
      next
        case False
        with k g2(4) have k: "k \<in> set (gr_users g)" "a = b" by (auto split: if_splits)
        from assms(1) k(1) have "k < length (gr_nodes g)" "\<exists>u. gr_nodes g ! k = UserNode u"
          by (simp_all add: selection_ok_def)
        with same k b g2(1) show ?thesis by simp
      qed
    qed
    have d2: "distinct (gr_users g2)" using d g2(4) by simp
    note ok = click_user_selection [OF d2 g2(2,3) sub]
    have users: "set (gr_users (click_user i g2)) = (if a = b
        then (if i \<in> set (gr_users g) then set (gr_users g) - {i} else insert i (set (gr_users g))) else {i})"
      by (simp add: g2(4))
    show ?thesis unfolding c UserNode gnode.case same fst_conv snd_conv using ok users g2(1) by simp
  qed
qed


definition sample_user :: "string \<Rightarrow> string \<Rightarrow> user" where
  "sample_user i g = \<lparr>u_id = i, u_name = None, u_fullname = i, u_email = ''a@b.cd'', u_username = i,
     u_role = ''user'', u_online = True, u_group = Some (g, g), u_apps = 0\<rparr>"

definition sample_groups :: "group list" where
  "sample_groups =
     [\<lparr>g_id = ''7'', g_name = ''ops'', g_created = 0, g_users = [sample_user ''1'' ''7'', sample_user ''2'' ''7'']\<rparr>,
      \<lparr>g_id = ''8'', g_name = ''dev'', g_created = 0, g_users = [sample_user ''3'' ''8'']\<rparr>]"

definition sample_graph :: graph where
  "sample_graph = new_graph\<lparr>gr_nodes := fst (convert_to_d3 sample_groups), gr_users := [1], gr_stroke := [1]\<rparr>"

lemma click_selects_witness:
  "snd (click 2 sample_graph) = None \<and> selection_ok (fst (click 2 sample_graph))
    \<and> set (gr_users (fst (click 2 sample_graph))) = {1, 2}"
proof -
  have n: "gr_nodes sample_graph = concat (map group_nodes sample_groups)"
    by code_simp
  then have ns: "gr_nodes sample_graph = [GroupNode (sample_groups ! 0), UserNode (sample_user ''1'' ''7''),
      UserNode (sample_user ''2'' ''7''), GroupNode (sample_groups ! 1), UserNode (sample_user ''3'' ''8'')]"
    by (simp add: sample_groups_def group_nodes_def)
  have sel: "gr_users sample_graph = [1]" "gr_group sample_graph = None" "gr_stroke sample_graph = [1]"
    by (simp_all add: sample_graph_def new_graph_def)
  have ok: "selection_ok sample_graph" by (simp add: selection_ok_def ns sel)
  have "list_all grouped (gr_nodes sample_graph)" by (simp add: ns sample_user_def)
  from click_selects [OF ok _ this, of 2] show ?thesis
    by (auto simp: ns sel sample_user_def)
qed

section \<open>What the buttons act on\<close>

text \<open>\<open>Inr\<close> is the dialog that is opened, \<open>Inl\<close> the message published instead.\<close>

definition sel_users :: "graph \<Rightarrow> user list" where
  "sel_users g = List.map_filter (\<lambda>i. case gr_nodes g ! i of UserNode u \<Rightarrow> Some u | GroupNode d \<Rightarrow> None) (gr_users g)"

definition sel_group :: "graph \<Rightarrow> group option" where
  "sel_group g = (case gr_group g of None \<Rightarrow> None
     | Some i \<Rightarrow> (case gr_nodes g ! i of GroupNode d \<Rightarrow> Some d | UserNode u \<Rightarrow> None))"

text \<open>The groups offered to move the selected users to: all but their own.\<close>

fun other_groups :: "user list \<Rightarrow> group list \<Rightarrow> js_error + group list" where
  "other_groups [] gs = (if gs = [] then Inr [] else Inl (TypeError ''users[0] is undefined''))"
| "other_groups (u # us) gs =
     (case u_group u of
        None \<Rightarrow> if gs = [] then Inr [] else Inl (TypeError ''group is undefined'')
      | Some (i, n) \<Rightarrow> Inr (filter (\<lambda>g. g_id g \<noteq> i) gs))"

end
