(* ===== verification/Page.thy ===== *)
theory Page
  imports GroupGraph "HOL-Library.AList"
begin

text \<open>
  The state of the console's page and the steps its scripts are made of: creating, placing and
  destroying widgets (\<^verbatim>\<open>dijit/_WidgetBase\<close>, \<^verbatim>\<open>dojox/dtl/_Templated\<close>), the modal popup
  (\<^verbatim>\<open>jquery.lightbox_me\<close>), jQuery's changes of an element, topics, requests and the loading overlay.

  A script is an \<open>act\<close>: it returns the page it leaves and the exception it ends with, if any. \<open>acts\<close>
  runs a list of them up to the first exception, as a block of statements does.
\<close>

record page =
  pdoc :: doc
  fresh :: nat
  reg :: "(string \<times> nat) registry"
  hub :: "listener hub"
  boxes :: "(nat \<times> nat) list"
  loading :: "string option"
  reqs :: "request list"
  infos :: "string list"
  errlog :: "string list"
  graphs :: "(nat \<times> graph) list"
  plots :: "(string \<times> (string \<times> int) list) list"
  keyups :: nat
  slider :: "string list"

type_synonym act = "page \<Rightarrow> page \<times> js_error option"

definition ok :: act where
  "ok p = (p, None)"

definition throw :: "js_error \<Rightarrow> act" where
  "throw e p = (p, Some e)"

fun acts :: "act list \<Rightarrow> act" where
  "acts [] p = (p, None)"
| "acts (a # as) p = (case a p of (p', None) \<Rightarrow> acts as p' | (p', Some e) \<Rightarrow> (p', Some e))"

text \<open>\<open>ask f k\<close> reads \<open>f\<close> off the page and goes on with \<open>k\<close>.\<close>

definition ask :: "(page \<Rightarrow> 'a) \<Rightarrow> ('a \<Rightarrow> act) \<Rightarrow> act" where
  "ask f k p = k (f p) p"

definition on_doc :: "(doc \<Rightarrow> doc) \<Rightarrow> act" where
  "on_doc f p = (p\<lparr>pdoc := f (pdoc p)\<rparr>, None)"

lemma acts_append: "acts (as @ bs) p = (case acts as p of (q, None) \<Rightarrow> acts bs q | (q, Some e) \<Rightarrow> (q, Some e))"
  by (induction as arbitrary: p) (auto split: prod.splits option.splits)

lemma acts_single [simp]: "acts [a] p = a p"
  by (cases "a p") (auto split: option.splits)

section \<open>Elements\<close>

definition attr :: "elem \<Rightarrow> string \<Rightarrow> string option" where
  "attr e n = map_of (attrs e) n"

definition set_attr :: "string \<Rightarrow> string \<Rightarrow> elem \<Rightarrow> elem" where
  "set_attr n v e = e\<lparr>attrs := AList.update n v (attrs e)\<rparr>"

definition set_css :: "string \<Rightarrow> string \<Rightarrow> elem \<Rightarrow> elem" where
  "set_css n v e = e\<lparr>css := AList.update n v (css e)\<rparr>"

definition add_class :: "string \<Rightarrow> elem \<Rightarrow> elem" where
  "add_class c e = (if c \<in> set (classes e) then e else e\<lparr>classes := classes e @ [c]\<rparr>)"

definition remove_class :: "string \<Rightarrow> elem \<Rightarrow> elem" where
  "remove_class c e = e\<lparr>classes := removeAll c (classes e)\<rparr>"

definition elem_value :: "elem \<Rightarrow> string" where
  "elem_value e = (case attr e ''value'' of None \<Rightarrow> [] | Some v \<Rightarrow> v)"

text \<open>jQuery on \<open>#i\<close> changes the first element with that id and does nothing when there is none;
  \<^verbatim>\<open>val\<close> of it is then undefined, while \<^verbatim>\<open>dojo.byId(i).value\<close> throws.\<close>

definition jq_id :: "string \<Rightarrow> (elem \<Rightarrow> elem) \<Rightarrow> act" where
  "jq_id i f p =
     (case by_id i (pdoc p) of
        None \<Rightarrow> (p, None)
      | Some n \<Rightarrow> (p\<lparr>pdoc := upd_elem (nkey n) f (pdoc p)\<rparr>, None))"

definition jq_val :: "string \<Rightarrow> page \<Rightarrow> string option" where
  "jq_val i p = map_option (\<lambda>n. elem_value (ninfo n)) (by_id i (pdoc p))"

definition with_value :: "string \<Rightarrow> (string \<Rightarrow> act) \<Rightarrow> act" where
  "with_value i k p =
     (case by_id i (pdoc p) of
        None \<Rightarrow> (p, Some (TypeError (i @ '' is null'')))
      | Some n \<Rightarrow> k (elem_value (ninfo n)) p)"

text \<open>The checked inputs of a kind, in document order: \<^verbatim>\<open>dojo.query("#i input...")\<close> looks below every
  element with the id, \<^verbatim>\<open>$('input...', '#i')\<close> below the first.\<close>

fun inside :: "bool \<Rightarrow> string \<Rightarrow> doc \<Rightarrow> elem list" where
  "inside b i [] = []"
| "inside b i (Node k e ts # us) = (if b then [e] else []) @ inside (b \<or> ident e = i) i ts @ inside b i us"

definition is_checked :: "string \<Rightarrow> elem \<Rightarrow> bool" where
  "is_checked ty e \<longleftrightarrow> tag e = ''input'' \<and> attr e ''type'' = Some ty \<and> attr e ''checked'' \<noteq> None"

definition below :: "string \<Rightarrow> page \<Rightarrow> elem list" where
  "below i p = (case by_id i (pdoc p) of None \<Rightarrow> [] | Some n \<Rightarrow> map ninfo (nodes (kids n)))"

definition checked_values :: "string \<Rightarrow> string \<Rightarrow> page \<Rightarrow> string list" where
  "checked_values ty i p = map elem_value (filter (is_checked ty) (inside False i (pdoc p)))"

definition radio_value :: "string \<Rightarrow> string \<Rightarrow> page \<Rightarrow> string option" where
  "radio_value nm i p =
     (case filter (\<lambda>e. tag e = ''input'' \<and> attr e ''name'' = Some nm \<and> attr e ''checked'' \<noteq> None) (below i p) of
        [] \<Rightarrow> None
      | e # _ \<Rightarrow> Some (elem_value e))"

text \<open>\<^verbatim>\<open>$('div input:ty', #i).prop('checked', b)\<close>: every such input inside a div below the element. The
  templates put each input in a div of its own.\<close>

definition set_checked :: "bool \<Rightarrow> elem \<Rightarrow> elem" where
  "set_checked b e =
     (if b then set_attr ''checked'' ''checked'' e
      else e\<lparr>attrs := AList.delete ''checked'' (attrs e)\<rparr>)"

definition upd_where :: "(elem \<Rightarrow> bool) \<Rightarrow> (elem \<Rightarrow> elem) \<Rightarrow> nat list \<Rightarrow> doc \<Rightarrow> doc" where
  "upd_where P f ks d = fold (\<lambda>k. upd_elem k (\<lambda>e. if P e then f e else e)) ks d"

definition check_all :: "string \<Rightarrow> string \<Rightarrow> bool \<Rightarrow> act" where
  "check_all ty i b p =
     (case by_id i (pdoc p) of
        None \<Rightarrow> (p, None)
      | Some n \<Rightarrow>
          (p\<lparr>pdoc := upd_where (\<lambda>e. tag e = ''input'' \<and> attr e ''type'' = Some ty) (set_checked b)
               (keys (kids n)) (pdoc p)\<rparr>, None))"

text \<open>A selector list of ids reaches every element with one of them.\<close>

definition jq_all :: "string list \<Rightarrow> (elem \<Rightarrow> elem) \<Rightarrow> act" where
  "jq_all is f p =
     (p\<lparr>pdoc := upd_where (\<lambda>e. ident e \<in> set is) f (keys (pdoc p)) (pdoc p)\<rparr>, None)"

text \<open>The parent of an element, and \<^verbatim>\<open>$('#i').children().css(...)\<close>.\<close>

definition parent_of :: "nat \<Rightarrow> doc \<Rightarrow> node option" where
  "parent_of k d = find (\<lambda>n. k \<in> set (map nkey (kids n))) (nodes d)"

definition jq_parent :: "string \<Rightarrow> string \<Rightarrow> string \<Rightarrow> (elem \<Rightarrow> elem) \<Rightarrow> act" where
  "jq_parent i tg cls f p =
     (case by_id i (pdoc p) of
        None \<Rightarrow> (p, None)
      | Some n \<Rightarrow>
          (case parent_of (nkey n) (pdoc p) of
             None \<Rightarrow> (p, None)
           | Some m \<Rightarrow>
               (if tag (ninfo m) = tg \<and> cls \<in> set (classes (ninfo m))
                then (p\<lparr>pdoc := upd_elem (nkey m) f (pdoc p)\<rparr>, None) else (p, None))))"

definition jq_children :: "string \<Rightarrow> (elem \<Rightarrow> elem) \<Rightarrow> act" where
  "jq_children i f p =
     (case by_id i (pdoc p) of
        None \<Rightarrow> (p, None)
      | Some n \<Rightarrow> (p\<lparr>pdoc := upd_where (\<lambda>_. True) f (map nkey (kids n)) (pdoc p)\<rparr>, None))"

definition destroy_id :: "string \<Rightarrow> act" where
  "destroy_id i = on_doc (\<lambda>d. destroy (by_id i d) d)"

text \<open>\<^verbatim>\<open>dojo.query("." + c).forEach(dojo.destroy)\<close>\<close>

definition destroy_class :: "string \<Rightarrow> act" where
  "destroy_class c = on_doc (\<lambda>d. fold detach (map nkey (filter (\<lambda>n. c \<in> set (classes (ninfo n))) (nodes d))) d)"

section \<open>Templates\<close>

text \<open>A template is the tree of elements its HTML gives; the scripts reach only elements with an id or
  inside one, and decoration without children of that kind is left out.\<close>

datatype tmpl = T string string "string list" "(string \<times> string) list" "(string \<times> string) list" "tmpl list"

fun inst :: "nat \<Rightarrow> tmpl list \<Rightarrow> node list \<times> nat" where
  "inst n [] = ([], n)"
| "inst n (T tg i cs st ats ts # us) =
     (case inst (Suc n) ts of (ks, m) \<Rightarrow>
       (case inst m us of (vs, l) \<Rightarrow>
          (Node n \<lparr>tag = tg, ident = i, widget_id = [], classes = cs, css = st, attrs = ats\<rparr> ks # vs, l)))"

definition el :: "string \<Rightarrow> string \<Rightarrow> string list \<Rightarrow> (string \<times> string) list \<Rightarrow> tmpl list \<Rightarrow> tmpl" where
  "el tg i cs ats ts = T tg i cs [] ats ts"

definition dv :: "string \<Rightarrow> tmpl list \<Rightarrow> tmpl" where
  "dv i ts = el ''div'' i [] [] ts"

definition hidden_div :: "string \<Rightarrow> tmpl list \<Rightarrow> tmpl" where
  "hidden_div i ts = T ''div'' i [] [(''display'', ''none'')] [] ts"

definition input :: "string \<Rightarrow> string \<Rightarrow> (string \<times> string) list \<Rightarrow> tmpl" where
  "input ty i ats = el ''input'' i [] ((''type'', ty) # ats) []"

definition popup :: "string \<Rightarrow> tmpl list \<Rightarrow> tmpl" where
  "popup i ts = dv [] [el ''div'' i [''popup''] [] ts, dv [] []]"

section \<open>Widgets\<close>

text \<open>All widgets of the console are made by \<^verbatim>\<open>declare\<close> without a class name, so the type name of
  generated ids is the one they inherit from \<^verbatim>\<open>dojox/dtl/_Templated\<close>.\<close>

definition class_name :: string where
  "class_name = ''dojox_dtl__Templated''"

datatype place_ref = At string | AtNode string | AtKey nat

definition run_doc :: "(doc \<Rightarrow> doc \<times> js_error option) \<Rightarrow> act" where
  "run_doc f p = (case f (pdoc p) of (d, e) \<Rightarrow> (p\<lparr>pdoc := d\<rparr>, e))"

text \<open>\<^verbatim>\<open>placeAt\<close> with a string looks for a widget of that id first and for a node then; a widget whose
  node was taken out of the document receives the new one out of sight. \<open>AtNode i\<close> is
  \<^verbatim>\<open>placeAt(dojo.byId(i))\<close>, \<open>AtKey k\<close> is \<^verbatim>\<open>placeAt\<close> with a node at hand.\<close>

definition place_at :: "node \<Rightarrow> place_ref \<Rightarrow> pos \<Rightarrow> act" where
  "place_at t r ps p =
     (case r of
        At s \<Rightarrow>
          (case registry_by_id (reg p) s of
             None \<Rightarrow> run_doc (place t (by_id s (pdoc p)) ps) p
           | Some w \<Rightarrow>
               (case find_key (snd w) (pdoc p) of
                  None \<Rightarrow> (p, None)
                | Some n \<Rightarrow> run_doc (place t (Some n) ps) p))
      | AtNode s \<Rightarrow>
          (case by_id s (pdoc p) of
             None \<Rightarrow> (p, Some (TypeError ''reference is null''))
           | Some n \<Rightarrow> run_doc (place t (Some n) ps) p)
      | AtKey k \<Rightarrow>
          (case find_key k (pdoc p) of
             None \<Rightarrow> (p, None)
           | Some n \<Rightarrow> run_doc (place t (Some n) ps) p))"

definition own_node :: "string \<Rightarrow> node \<Rightarrow> node" where
  "own_node i n = Node (nkey n) ((ninfo n)\<lparr>ident := i, widget_id := i\<rparr>) (kids n)"

text \<open>\<^verbatim>\<open>create\<close>: take an id, register, render the template, then \<^verbatim>\<open>postCreate\<close>, which
  subscribes to \<open>subs\<close> before \<^verbatim>\<open>placeAt\<close>; \<open>fin\<close> changes the widget's node first (the host content
  renames it).\<close>

definition topic_subscribe :: "string \<times> listener \<Rightarrow> act" where
  "topic_subscribe s p = (p\<lparr>hub := subscribe (fst s) (snd s) (hub p)\<rparr>, None)"

definition new_widget ::
  "string \<Rightarrow> tmpl \<Rightarrow> (string \<times> listener) list \<Rightarrow> (elem \<Rightarrow> elem) \<Rightarrow> place_ref \<Rightarrow> pos \<Rightarrow> act" where
  "new_widget wid tm subs fin r ps p =
     (case (if wid = [] then get_unique_id class_name (reg p) else Some (wid, reg p)) of
        None \<Rightarrow> (p, Some (ErrorMsg ''no id''))
      | Some (i, g) \<Rightarrow>
          (case registry_add i (i, fresh p) g of
             (g', Some e) \<Rightarrow> (p\<lparr>reg := g'\<rparr>, Some e)
           | (g', None) \<Rightarrow>
               (case inst (fresh p) [tm] of
                  (ns, m) \<Rightarrow>
                    (let t = own_node i (hd ns); t' = Node (nkey t) (fin (ninfo t)) (kids t)
                     in acts (map topic_subscribe subs @ [place_at t' r ps]) (p\<lparr>reg := g', fresh := m\<rparr>)))))"

definition widget :: "tmpl \<Rightarrow> string \<Rightarrow> pos \<Rightarrow> act" where
  "widget tm ref ps = new_widget [] tm [] id (At ref) ps"

text \<open>\<^verbatim>\<open>destroy\<close>: the widgets found below the node first, then the node, then the registration. A widget
  whose own id occurs below it would recurse until the stack is full; the fuel is the number of
  registered widgets plus one.\<close>

fun destroy_widget :: "nat \<Rightarrow> string \<Rightarrow> act" where
  "destroy_widget 0 i p = (p, Some (ErrorMsg ''Maximum call stack size exceeded''))"
| "destroy_widget (Suc f) i p =
     (case registry_by_id (reg p) i of
        None \<Rightarrow> (p, None)
      | Some w \<Rightarrow>
          (case acts (map (\<lambda>v. destroy_widget f (fst v))
                  (case find_key (snd w) (pdoc p) of None \<Rightarrow> [] | Some n \<Rightarrow> find_widgets (reg p) None (kids n))) p of
             (q, Some e) \<Rightarrow> (q, Some e)
           | (q, None) \<Rightarrow>
               (q\<lparr>pdoc := detach (snd w) (pdoc q), reg := registry_remove i (reg q)\<rparr>, None)))"

text \<open>\<^verbatim>\<open>dc.create("div", {"class": c}, i)\<close>\<close>

definition create_div :: "string \<Rightarrow> string \<Rightarrow> act" where
  "create_div c i p =
     (case create \<lparr>tag = ''div'', ident = [], widget_id = [], classes = [c], css = [], attrs = []\<rparr>
             (Some (by_id i (pdoc p))) Last (fresh p) (pdoc p) of
        (d, e) \<Rightarrow> (p\<lparr>pdoc := d, fresh := Suc (fresh p)\<rparr>, e))"

section \<open>The modal popup\<close>

definition body_key :: "doc \<Rightarrow> nat option" where
  "body_key d = map_option nkey (find (\<lambda>n. tag (ninfo n) = ''body'') (nodes d))"

text \<open>\<^verbatim>\<open>$('#sel').lightbox_me(...)\<close> moves the element, hidden at first, and a new overlay to the end of
  the body; \<open>boxes\<close> pairs the two, as the closure of \<^verbatim>\<open>closeLightbox\<close> does.\<close>

definition lightbox :: "string \<Rightarrow> act" where
  "lightbox sel p =
     (case (by_id sel (pdoc p), body_key (pdoc p)) of
        (Some n, Some b) \<Rightarrow>
          (let d1 = fst (append_child n b (pdoc p));
               ov = Node (fresh p) \<lparr>tag = ''div'', ident = [], widget_id = [], classes = [''js_lb_overlay''], css = [], attrs = []\<rparr> [];
               d2 = fst (append_child ov b d1)
           in (p\<lparr>pdoc := d2, fresh := Suc (fresh p), boxes := boxes p @ [(nkey n, fresh p)]\<rparr>, None))
      | _ \<Rightarrow> (p, None))"

text \<open>\<^verbatim>\<open>onClose\<close> of every popup of the console: \<^verbatim>\<open>dijit.byId("dialog").destroy()\<close>.\<close>

definition dialog :: string where
  "dialog = ''dialog''"

definition on_close :: act where
  "on_close p =
     (case registry_by_id (reg p) dialog of
        None \<Rightarrow> (p, Some (TypeError ''byId(dialog) is undefined''))
      | Some w \<Rightarrow> destroy_widget (Suc (length (hash (reg p)))) dialog p)"

definition close_box :: "nat \<times> nat \<Rightarrow> act" where
  "close_box b p =
     on_close (p\<lparr>pdoc := detach (snd b) (detach (fst b) (pdoc p)), boxes := filter (\<lambda>c. c \<noteq> b) (boxes p)\<rparr>)"

text \<open>\<^verbatim>\<open>$('#sel').trigger('close')\<close> runs the handlers bound to that element, none when it is not open.\<close>

definition trigger_close :: "string \<Rightarrow> act" where
  "trigger_close sel p =
     (case by_id sel (pdoc p) of
        None \<Rightarrow> (p, None)
      | Some n \<Rightarrow> acts (map close_box (filter (\<lambda>b. fst b = nkey n) (boxes p))) p)"

text \<open>A click on the overlay, or the escape key, closes the newest popup.\<close>

definition dismiss :: act where
  "dismiss p = (if boxes p = [] then (p, None) else close_box (last (boxes p)) p)"

definition new_dialog :: "tmpl \<Rightarrow> string \<Rightarrow> act" where
  "new_dialog tm sel = acts [new_widget dialog tm [] id (AtNode dialog) Last, lightbox sel]"

section \<open>Topics, requests, messages\<close>

definition publish :: "(listener \<Rightarrow> act) \<Rightarrow> string \<Rightarrow> act" where
  "publish ex t p =
     (case emit (\<lambda>a st. (case ex a ((snd st)\<lparr>hub := fst st\<rparr>) of (q, e) \<Rightarrow> ((hub q, q), e))) t (hub p, p) of
        ((h, q), e, _) \<Rightarrow> (q\<lparr>hub := h\<rparr>, e))"

fun info_listener :: "string \<Rightarrow> listener \<Rightarrow> act" where
  "info_listener m InfoToaster p = (p\<lparr>infos := infos p @ [m]\<rparr>, None)"
| "info_listener m _ p = (p, None)"

definition info :: "string \<Rightarrow> act" where
  "info m = publish (info_listener m) ''/stomp/info''"

definition xhr :: "string \<Rightarrow> bool \<Rightarrow> json option \<Rightarrow> cont \<Rightarrow> act" where
  "xhr url post d c p =
     (p\<lparr>reqs := reqs p @ [\<lparr>q_url = url, q_post = post, q_data = d, q_cont = c\<rparr>]\<rparr>, None)"

definition console_error :: "string option \<Rightarrow> act" where
  "console_error m p =
     (case m of
        None \<Rightarrow> (p, Some (TypeError ''error.response.data is undefined''))
      | Some s \<Rightarrow> (p\<lparr>errlog := errlog p @ [s]\<rparr>, None))"

text \<open>\<^verbatim>\<open>util.start_load\<close> and \<^verbatim>\<open>util.stop_load\<close>; \<open>loading\<close> is the message the overlay shows.\<close>

definition start_load :: "string option \<Rightarrow> act" where
  "start_load msg =
     acts [\<lambda>p. (p\<lparr>loading := Some (case msg of None \<Rightarrow> ''Please Wait...'' | Some m \<Rightarrow> m)\<rparr>, None),
           jq_id ''loading'' (set_css ''text-align'' ''center''),
           on_doc (\<lambda>d. case body_key d of None \<Rightarrow> d | Some b \<Rightarrow> upd_elem b (set_css ''cursor'' ''wait'') d)]"

definition stop_load :: act where
  "stop_load =
     acts [\<lambda>p. (p\<lparr>loading := None\<rparr>, None),
           on_doc (\<lambda>d. case body_key d of None \<Rightarrow> d | Some b \<Rightarrow> upd_elem b (set_css ''cursor'' ''default'') d)]"

definition submit :: "string \<Rightarrow> string \<Rightarrow> json \<Rightarrow> cont \<Rightarrow> act" where
  "submit msg url d c = acts [start_load (Some msg), xhr url True (Some d) c]"

definition plot :: "string \<Rightarrow> (string \<times> int) list \<Rightarrow> act" where
  "plot i d p = (p\<lparr>plots := plots p @ [(i, d)]\<rparr>, None)"

text \<open>\<^verbatim>\<open>msgbox.js\<close>: a popup with a message; reading the message of a failed request comes first.\<close>

definition tnode :: "string \<Rightarrow> tmpl" where
  "tnode m = el ''#text'' [] [] [(''data'', m)] []"

definition msgbox_template :: "string \<Rightarrow> tmpl" where
  "msgbox_template m = dv [] [el ''div'' ''msgbox'' [''popup''] [] [el ''p'' [] [] [] [tnode m]]]"

definition msgbox :: "string \<Rightarrow> act" where
  "msgbox m = new_dialog (msgbox_template m) ''msgbox''"

definition msgbox_of :: "string option \<Rightarrow> act" where
  "msgbox_of m =
     (case m of None \<Rightarrow> throw (TypeError ''error.response.data is undefined'') | Some s \<Rightarrow> msgbox s)"

definition title_body :: "string \<Rightarrow> string option \<Rightarrow> string" where
  "title_body t m = ''<h3>'' @ t @ ''</h3>'' @ ''<p>'' @ js_str m @ ''</p>''"


section \<open>The page the server sends\<close>

text \<open>The part of \<^verbatim>\<open>home.html\<close> that the scripts address.\<close>

definition home_template :: tmpl where
  "home_template = el ''body'' [] [] []
     [dv ''dialog'' [],
      el ''div'' ''loading'' [''overlay''] [] [el ''p'' ''loading_msg'' [] [] []],
      el ''div'' ''control_panel'' [''sidebar-nav''] []
        [hidden_div [] (map (\<lambda>(i, t). el ''a'' (i @ ''_panel_button'') [''btn'', ''btn-primary''] [(''href'', t)] [])
           [(''dashboard'', ''#hosts_panel''), (''applications'', ''#applications_panel''), (''groups'', ''#groups_panel''),
            (''users'', ''#users_panel''), (''storages'', ''#storages_panel'')])],
      dv ''content'' []]"

definition home_page :: page where
  "home_page =
     \<lparr>pdoc = fst (inst 0 [home_template]), fresh = snd (inst 0 [home_template]), reg = empty_registry,
      hub = empty_hub, boxes = [], loading = None, reqs = [], infos = [], errlog = [], graphs = [], plots = [], keyups = 0, slider = []\<rparr>"

end
