(* ===== verification/PageInv.thy ===== *)
theory PageInv
  imports Page
begin

text \<open>
  Invariants of the page. \<open>presv I a\<close>: the script \<open>a\<close> keeps \<open>I\<close>, also when it ends with an exception.
  The locale \<open>page_core\<close> (\<open>page_steps\<close> with subscribing widgets, \<open>page_inv\<close> with the requests under
  the overlay, \<open>page_all\<close> with both) states the laws an invariant owes for the steps of \<^theory_text>\<open>Page\<close>; within it, and
  for the handlers of each component, the composed scripts keep it too.

  It is interpreted for \<open>page_ok\<close> (every node has its own identity, the registry and the topics are
  well formed), for \<open>one_dialog\<close> (at most one popup is open, and then the id \<open>dialog\<close> is taken)
  and for \<open>load_ok\<close> (while the loading overlay is shown, a request is under way that closes it).
\<close>

named_theorems presv

definition presv :: "(page \<Rightarrow> bool) \<Rightarrow> act \<Rightarrow> bool" where
  "presv I a \<longleftrightarrow> (\<forall>p. I p \<longrightarrow> I (fst (a p)))"

lemma presvI: "(\<And>p. I p \<Longrightarrow> I (fst (a p))) \<Longrightarrow> presv I a"
  by (simp add: presv_def)

lemma presvD: "presv I a \<Longrightarrow> I p \<Longrightarrow> I (fst (a p))"
  by (simp add: presv_def)

lemma presv_acts [presv, intro]: "(\<And>a. a \<in> set as \<Longrightarrow> presv I a) \<Longrightarrow> presv I (acts as)"
proof (induction as)
  case (Cons a as)
  show ?case
  proof (rule presvI)
    fix p
    assume "I p"
    with Cons.prems have "I (fst (a p))" by (auto dest: presvD)
    with Cons show "I (fst (acts (a # as) p))"
      by (auto split: prod.splits option.splits dest: presvD)
  qed
qed (simp add: presv_def)

lemma presv_ask [presv, intro]: "(\<And>x. presv I (k x)) \<Longrightarrow> presv I (ask f k)"
  by (simp add: presv_def ask_def)

lemma presv_ok [presv, simp]: "presv I ok"
  by (simp add: presv_def ok_def)

lemma presv_throw [presv, simp]: "presv I (throw e)"
  by (simp add: presv_def throw_def)

lemma presv_with_value [presv, intro]: "(\<And>v. presv I (k v)) \<Longrightarrow> presv I (with_value i k)"
  by (auto simp: presv_def with_value_def split: option.splits)

lemma presv_publish [presv, intro]:
  assumes "\<And>a. presv I (ex a)"
  shows "presv I (publish ex t)"
proof (rule presvI)
  fix p
  let ?e = "\<lambda>a st. (case ex a ((snd st)\<lparr>hub := fst st\<rparr>) of (q, e) \<Rightarrow> ((hub q, q), e))"
  have "I ((snd (fst (emit_loop f ?e eid q st)))\<lparr>hub := fst (fst (emit_loop f ?e eid q st))\<rparr>)"
    if "I ((snd st)\<lparr>hub := fst st\<rparr>)" for f eid q st
    using that
  proof (induction f arbitrary: q st)
    case (Suc f)
    show ?case
    proof (cases rule: emit_cases [of ?e eid q st])
      case stop
      with Suc.prems show ?thesis by simp
    next
      case (last i a st' e)
      have "I ((snd st')\<lparr>hub := fst st'\<rparr>)"
        using last(3) presvD [OF assms Suc.prems, of a] by (auto split: prod.splits)
      then show ?thesis unfolding last(4) by simp
    next
      case (more i a st' s')
      have "I ((snd st')\<lparr>hub := fst st'\<rparr>)"
        using more(3) presvD [OF assms Suc.prems, of a] by (auto split: prod.splits)
      from Suc.IH [OF this, of "sg_next s'"] show ?thesis
        unfolding more(5) by (auto split: prod.splits)
    qed
  qed simp
  moreover assume "I p"
  ultimately have "I ((snd (fst (emit ?e t (hub p, p))))\<lparr>hub := fst (fst (emit ?e t (hub p, p)))\<rparr>)"
    by (simp add: emit_def)
  then show "I (fst (publish ex t p))"
    by (auto simp: publish_def split: prod.splits)
qed

section \<open>The laws of an invariant\<close>

lemma widget_id_simps [simp]:
  "widget_id (set_attr n v e) = widget_id e" "widget_id (set_css n v e) = widget_id e"
  "widget_id (add_class c e) = widget_id e" "widget_id (remove_class c e) = widget_id e"
  "widget_id (set_checked b e) = widget_id e"
  by (simp_all add: set_attr_def set_css_def add_class_def remove_class_def set_checked_def)

locale page_core =
  fixes I :: "page \<Rightarrow> bool"
  assumes plain_widget_law: "wid \<noteq> dialog \<Longrightarrow> (\<And>e. widget_id (fin e) = widget_id e)
      \<Longrightarrow> presv I (new_widget wid tm [] fin r ps)"
    and new_dialog_law: "presv I (new_dialog tm sel)"
    and trigger_law: "presv I (trigger_close sel)"
    and dismiss_law: "presv I dismiss"
    and upd_law: "I p \<Longrightarrow> (\<And>e. widget_id (f e) = widget_id e) \<Longrightarrow> I (p\<lparr>pdoc := upd_elem k f (pdoc p)\<rparr>)"
    and detach_law: "I p \<Longrightarrow> I (p\<lparr>pdoc := detach k (pdoc p)\<rparr>)"
    and info_law: "I p \<Longrightarrow> I (p\<lparr>infos := xs\<rparr>)"
    and log_law: "I p \<Longrightarrow> I (p\<lparr>errlog := xs\<rparr>)"
    and graph_law: "I p \<Longrightarrow> I (p\<lparr>graphs := gs\<rparr>)"
    and plot_law: "I p \<Longrightarrow> I (p\<lparr>plots := xs'\<rparr>)"
    and keyup_law: "I p \<Longrightarrow> I (p\<lparr>keyups := n\<rparr>)"
    and create_law: "presv I (create_div cls i)"
    and slider_law: "I p \<Longrightarrow> I (p\<lparr>slider := ls\<rparr>)"
    and xhr_law: "presv I (xhr url post d c)"
    and stop_law: "presv I stop_load"
begin

lemmas basic = new_dialog_law trigger_law dismiss_law xhr_law stop_law create_law

lemma widget_presv: "presv I (widget tm r ps)"
  using plain_widget_law [of "[]"] by (simp add: widget_def dialog_def)

lemma jq_id_presv: "(\<And>e. widget_id (f e) = widget_id e) \<Longrightarrow> presv I (jq_id i f)"
  by (auto simp: presv_def jq_id_def upd_law split: option.splits)

lemma fold_upd: "I p \<Longrightarrow> (\<And>e. widget_id (f e) = widget_id e) \<Longrightarrow> I (p\<lparr>pdoc := fold (\<lambda>k. upd_elem k f) ks (pdoc p)\<rparr>)"
proof (induction ks arbitrary: p)
  case (Cons k ks)
  from Cons.IH [OF upd_law [OF Cons.prems] Cons.prems(2)] show ?case by simp
qed simp

lemma check_all_presv: "presv I (check_all ty i b)"
  by (auto simp: presv_def check_all_def upd_where_def fold_upd split: option.splits)

lemma jq_all_presv: "(\<And>e. widget_id (f e) = widget_id e) \<Longrightarrow> presv I (jq_all is f)"
  by (auto simp: presv_def jq_all_def upd_where_def fold_upd)

lemma jq_parent_presv: "(\<And>e. widget_id (f e) = widget_id e) \<Longrightarrow> presv I (jq_parent i tg c f)"
  by (auto simp: presv_def jq_parent_def upd_law split: option.splits)

lemma jq_children_presv: "(\<And>e. widget_id (f e) = widget_id e) \<Longrightarrow> presv I (jq_children i f)"
  by (auto simp: presv_def jq_children_def upd_where_def fold_upd split: option.splits)

lemma destroy_id_presv: "presv I (destroy_id i)"
proof (rule presvI)
  fix p
  assume "I p"
  then show "I (fst (destroy_id i p))"
    by (cases "by_id i (pdoc p)") (auto simp: destroy_id_def on_doc_def detach_law)
qed

lemma fold_detach: "I p \<Longrightarrow> I (p\<lparr>pdoc := fold detach ks (pdoc p)\<rparr>)"
proof (induction ks arbitrary: p)
  case (Cons k ks)
  from Cons.IH [OF detach_law [OF Cons.prems, of k]] show ?case by simp
qed simp

lemma destroy_class_presv: "presv I (destroy_class c)"
  by (auto simp: presv_def destroy_class_def on_doc_def fold_detach)

lemma info_presv: "presv I (info m)"
proof -
  have "presv I (info_listener m a)" for a
    by (cases a) (auto simp: presv_def info_law)
  then show ?thesis unfolding info_def by blast
qed

lemma console_error_presv: "presv I (console_error m)"
  by (auto simp: presv_def console_error_def log_law split: option.splits)

lemma plot_presv: "presv I (plot i d)"
  by (simp add: presv_def plot_def plot_law)

lemma msgbox_presv: "presv I (msgbox m)"
  by (simp add: msgbox_def new_dialog_law)

lemma msgbox_of_presv: "presv I (msgbox_of m)"
  by (cases m) (auto simp: msgbox_of_def msgbox_presv)

lemmas steps = basic widget_presv jq_id_presv check_all_presv jq_all_presv jq_parent_presv jq_children_presv
  destroy_id_presv destroy_class_presv info_presv
  console_error_presv plot_presv msgbox_presv msgbox_of_presv

end

text \<open>Widgets that subscribe are made at the start only, and requests under the overlay by the buttons only:
  what holds of the topics, or while the overlay is away, need not be kept by them.\<close>

locale page_steps = page_core +
  assumes new_widget_law: "wid \<noteq> dialog \<Longrightarrow> (\<And>e. widget_id (fin e) = widget_id e)
      \<Longrightarrow> presv I (new_widget wid tm subs fin r ps)"
    and subscribe_law: "presv I (topic_subscribe s)"

locale page_inv = page_core +
  assumes submit_law: "stops_load c \<Longrightarrow> presv I (submit msg url d' c)"

locale page_all = page_steps + page_inv


section \<open>The page is well formed\<close>

text \<open>\<open>widgets_ok d r\<close>: a node that carries a widget's id is the node of the widget registered under it.\<close>

definition widgets_ok :: "doc \<Rightarrow> (string \<times> nat) registry \<Rightarrow> bool" where
  "widgets_ok d r \<longleftrightarrow>
     (\<forall>(k, e) \<in> set (items d). widget_id e \<noteq> [] \<longrightarrow> registry_by_id r (widget_id e) = Some (widget_id e, k))"

definition page_ok :: "page \<Rightarrow> bool" where
  "page_ok p \<longleftrightarrow> distinct (keys (pdoc p)) \<and> (\<forall>k \<in> set (keys (pdoc p)). k < fresh p)
     \<and> registry_ok (reg p) \<and> hub_inv (hub p) \<and> widgets_ok (pdoc p) (reg p)"

lemma widgets_ok_subset: "widgets_ok d r \<Longrightarrow> set (items d') \<subseteq> set (items d) \<Longrightarrow> widgets_ok d' r"
  by (auto simp: widgets_ok_def)

lemma widgets_ok_detach: "widgets_ok d r \<Longrightarrow> widgets_ok (detach k d) r"
  by (rule widgets_ok_subset [OF _ detach_items_subset])

lemma widgets_ok_upd:
  "widgets_ok d r \<Longrightarrow> (\<And>e. widget_id (f e) = widget_id e) \<Longrightarrow> widgets_ok (upd_elem k f d) r"
  using upd_elem_items_subset [of k f d] by (fastforce simp: widgets_ok_def)

lemma widgets_ok_place:
  "widgets_ok d r \<Longrightarrow> widgets_ok [t] r \<Longrightarrow> widgets_ok (fst (place t q ps d)) r"
  using place_items_subset [of t q ps d] unfolding widgets_ok_def by blast

lemma widgets_ok_add:
  "widgets_ok d r \<Longrightarrow> widgets_ok d (fst (registry_add i w r))"
  by (auto simp: widgets_ok_def registry_add_def registry_by_id_def map_add_Some_iff map_add_def split: option.splits)

lemma map_of_filter_neq: "j \<noteq> i \<Longrightarrow> map_of (filter (\<lambda>(j, w). j \<noteq> i) xs) j = map_of xs j"
  by (induction xs) auto

lemma widgets_ok_remove:
  assumes "widgets_ok d r" "distinct (keys d)" "registry_by_id r i = Some w"
  shows "widgets_ok (detach (snd w) d) (registry_remove i r)"
  unfolding widgets_ok_def
proof clarify
  fix k e
  assume e: "(k, e) \<in> set (items (detach (snd w) d))" "widget_id e \<noteq> []"
  then have k: "registry_by_id r (widget_id e) = Some (widget_id e, k)"
    using widgets_ok_detach [OF assms(1), of "snd w"] by (auto simp: widgets_ok_def)
  have "k \<in> set (keys (detach (snd w) d))" using e(1) by (force simp: keys_def)
  with detach_gone [OF assms(2)] have "k \<noteq> snd w" by auto
  with k assms(3) have "widget_id e \<noteq> i" by auto
  with k show "registry_by_id (registry_remove i r) (widget_id e) = Some (widget_id e, k)"
    by (simp add: registry_by_id_def registry_remove_def map_of_filter_neq)
qed

lemma hub_inv_subscribe: "hub_inv h \<Longrightarrow> hub_inv (subscribe t a h)"
proof -
  have "hub_inv h \<Longrightarrow> hub_inv (fold (\<lambda>n. advise_after n a) ts h)" for ts h
    by (induction ts arbitrary: h) (auto simp: advise_after_hub)
  then show "hub_inv h \<Longrightarrow> hub_inv (subscribe t a h)" by (simp add: subscribe_def)
qed

lemma inst_keys: "inst n ts = (ns, m) \<Longrightarrow> keys ns = [n..<m] \<and> n \<le> m"
proof (induction n ts arbitrary: ns m rule: inst.induct)
  case (2 n tg i cs st ats ts us)
  obtain ks l where a: "inst (Suc n) ts = (ks, l)" by (cases "inst (Suc n) ts")
  obtain vs k where b: "inst l us = (vs, k)" by (cases "inst l us")
  from 2(1) [OF a] 2(2) [OF a [symmetric] b] have
    "keys ks = [Suc n..<l]" "Suc n \<le> l" "keys vs = [l..<k]" "l \<le> k" by auto
  moreover obtain d where "k = l + d" using \<open>l \<le> k\<close> le_Suc_ex by blast
  with upt_add_eq_append [OF \<open>Suc n \<le> l\<close>, of d] upt_conv_Cons [of n k] \<open>Suc n \<le> l\<close>
  have "[n..<k] = n # [Suc n..<l] @ [l..<k]" by (simp del: upt_Suc)
  moreover from a b 2(3) have
    "ns = Node n \<lparr>tag = tg, ident = i, widget_id = [], classes = cs, css = st, attrs = ats\<rparr> ks # vs" "m = k" by auto
  ultimately show ?case by auto
qed simp

lemma inst_plain: "inst n ts = (ns, m) \<Longrightarrow> (k, e) \<in> set (items ns) \<Longrightarrow> widget_id e = []"
  by (induction n ts arbitrary: ns m rule: inst.induct) (auto split: prod.splits)

text \<open>The tree of a new widget: fresh identities, and only its own node carries a widget's id.\<close>

lemma inst_own:
  fixes i :: string
  assumes "inst n [tm] = (ns, m)" "\<And>e. widget_id (fin e) = widget_id e"
  defines "t \<equiv> own_node i (hd ns)"
  defines "t' \<equiv> Node (nkey t) (fin (ninfo t)) (kids t)"
  shows "keys [t'] = [n..<m] \<and> n < m \<and> nkey t' = n
    \<and> (\<forall>(k, e) \<in> set (items [t']). widget_id e \<noteq> [] \<longrightarrow> k = n \<and> widget_id e = i)"
proof -
  obtain tg j cs st ats ts where tm: "tm = T tg j cs st ats ts" by (cases tm)
  obtain ks l where k: "inst (Suc n) ts = (ks, l)" by (cases "inst (Suc n) ts")
  with assms(1) tm have ns: "m = l"
    "ns = [Node n \<lparr>tag = tg, ident = j, widget_id = [], classes = cs, css = st, attrs = ats\<rparr> ks]" by auto
  from inst_keys [OF k] have "keys [t'] = [n..<m]" "n < m" using ns
    by (simp_all add: t'_def t_def own_node_def upt_conv_Cons)
  moreover have "\<forall>(k, e) \<in> set (items [t']). widget_id e \<noteq> [] \<longrightarrow> k = n \<and> widget_id e = i"
    using inst_plain [OF k] ns(2) assms(2) by (auto simp: t'_def t_def own_node_def)
  moreover have "nkey t' = n" using ns(2) by (simp add: t'_def t_def own_node_def)
  ultimately show ?thesis by blast
qed

lemma page_ok_place:
  assumes "page_ok p" "distinct (keys [t])" "set (keys [t]) \<subseteq> {..<fresh p}" "set (keys [t]) \<inter> set (keys (pdoc p)) = {}"
    and "widgets_ok [t] (reg p)"
  shows "page_ok (fst (place_at t r ps p))"
proof -
  have d: "distinct (keys (pdoc p))" using assms(1) by (simp add: page_ok_def)
  have "page_ok (fst (run_doc (place t q ps) p))" for q
    using place_distinct [OF d assms(2), of ps q] assms widgets_ok_place [of "pdoc p" "reg p" t q ps]
    by (cases "place t q ps (pdoc p)") (auto simp: page_ok_def run_doc_def)
  then show ?thesis using assms(1) by (auto simp: place_at_def split: place_ref.splits option.splits)
qed

lemma get_unique_id_registry:
  "get_unique_id t r = Some (i, r') \<Longrightarrow> hash r' = hash r \<and> rlength r' = rlength r"
  using unique_loop_spec unfolding get_unique_id_def by metis

lemma page_ok_subs:
  assumes "page_ok p"
  shows "page_ok (fst (acts (map topic_subscribe subs) p)) \<and> snd (acts (map topic_subscribe subs) p) = None
    \<and> pdoc (fst (acts (map topic_subscribe subs) p)) = pdoc p \<and> fresh (fst (acts (map topic_subscribe subs) p)) = fresh p
    \<and> reg (fst (acts (map topic_subscribe subs) p)) = reg p"
  using assms
proof (induction subs arbitrary: p)
  case (Cons s subs)
  then have "page_ok (fst (topic_subscribe s p))"
    by (simp add: page_ok_def topic_subscribe_def hub_inv_subscribe)
  from Cons.IH [OF this] show ?case by (simp add: topic_subscribe_def)
qed simp

lemma page_ok_new_widget:
  assumes fin: "\<And>e. widget_id (fin e) = widget_id e"
  shows "presv page_ok (new_widget wid tm subs fin r ps)"
proof (rule presvI)
  fix p
  assume p: "page_ok p"
  show "page_ok (fst (new_widget wid tm subs fin r ps p))"
  proof (cases "if wid = [] then get_unique_id class_name (reg p) else Some (wid, reg p)")
    case None
    with p show ?thesis by (simp add: new_widget_def)
  next
    case (Some x)
    obtain i g where x: "x = (i, g)" by (cases x)
    from Some x have "hash g = hash (reg p)" "rlength g = rlength (reg p)"
      by (auto split: if_splits dest: get_unique_id_registry)
    then have "registry_by_id g = registry_by_id (reg p)" "registry_ok g = registry_ok (reg p)"
      by (simp_all add: registry_ok_def registry_by_id_def fun_eq_iff)
    with p have g: "registry_ok g" "widgets_ok (pdoc p) g"
      by (simp_all add: page_ok_def widgets_ok_def)
    obtain g' e where a: "registry_add i (i, fresh p) g = (g', e)" by (cases "registry_add i (i, fresh p) g")
    with registry_ok_add [OF g(1), of i "(i, fresh p)"] widgets_ok_add [OF g(2), of i "(i, fresh p)"]
    have g': "registry_ok g'" "widgets_ok (pdoc p) g'" by simp_all
    obtain ns m where n: "inst (fresh p) [tm] = (ns, m)" by (cases "inst (fresh p) [tm]")
    define t' where "t' = Node (nkey (own_node i (hd ns))) (fin (ninfo (own_node i (hd ns)))) (kids (own_node i (hd ns)))"
    have t': "keys [t'] = [fresh p..<m]" "fresh p < m" "nkey t' = fresh p"
      "\<forall>(k, e) \<in> set (items [t']). widget_id e \<noteq> [] \<longrightarrow> k = fresh p \<and> widget_id e = i"
      using inst_own [OF n, of fin i] fin unfolding t'_def by blast+
    define q where "q = p\<lparr>reg := g', fresh := m\<rparr>"
    have q: "page_ok q" using p g' t'(2) by (force simp: page_ok_def q_def)
    note s = page_ok_subs [OF q, of subs]
    have "k < fresh p" if "k \<in> set (keys (pdoc p))" for k using p that by (simp add: page_ok_def)
    then have dis: "set (keys [t']) \<inter> set (keys (pdoc p)) = {}" using t' by (force simp: disjoint_iff)
    have "page_ok (fst (acts (map topic_subscribe subs @ [place_at t' r ps]) q))" if "e = None"
    proof -
      from a that have "registry_by_id g' i = Some (i, fresh p)"
        using map_of_eq_None_iff [of "hash g" i]
        by (auto simp: registry_add_def registry_by_id_def hash_truthy_def map_add_def split: if_splits option.splits)
      with t'(4) have "widgets_ok [t'] g'" by (auto simp: widgets_ok_def)
      then have "page_ok (fst (place_at t' r ps (fst (acts (map topic_subscribe subs) q))))"
        using s t' dis by (intro page_ok_place) (auto simp: q_def)
      then show ?thesis using s by (auto simp: acts_append split: prod.splits option.splits)
    qed
    moreover have "page_ok (p\<lparr>reg := g'\<rparr>)" using p g' by (simp add: page_ok_def)
    ultimately show ?thesis
      using Some x a n
      by (cases e) (simp_all add: new_widget_def Let_def t'_def q_def)
  qed
qed

lemma page_ok_detach: "page_ok p \<Longrightarrow> page_ok (p\<lparr>pdoc := detach k (pdoc p)\<rparr>)"
  using detach_distinct [of "pdoc p" k] by (auto simp: page_ok_def widgets_ok_detach)

text \<open>Destroying widgets only takes registrations away.\<close>

definition shrunk :: "(string \<times> nat) registry \<Rightarrow> page \<Rightarrow> bool" where
  "shrunk r p \<longleftrightarrow> (\<forall>j. registry_by_id (reg p) j = None \<or> registry_by_id (reg p) j = registry_by_id r j)"

lemma shrunk_remove: "shrunk r p \<Longrightarrow> shrunk r (p\<lparr>pdoc := d, reg := registry_remove i (reg p)\<rparr>)"
proof -
  have "map_of (filter (\<lambda>(j, w). j \<noteq> i) xs) i = None" for xs :: "(string \<times> string \<times> nat) list"
    by (induction xs) auto
  then show "shrunk r p \<Longrightarrow> shrunk r (p\<lparr>pdoc := d, reg := registry_remove i (reg p)\<rparr>)"
    unfolding shrunk_def registry_by_id_def registry_remove_def
    by (auto simp: map_of_filter_neq) (metis map_of_filter_neq)
qed

text \<open>One level of \<^verbatim>\<open>destroy\<close>, for any invariant that its last two steps keep.\<close>

lemma destroy_widget_presv:
  assumes step: "\<And>p q i w. I p \<Longrightarrow> I q \<Longrightarrow> registry_by_id (reg p) i = Some w \<Longrightarrow> shrunk (reg p) q
    \<Longrightarrow> I (q\<lparr>pdoc := detach (snd w) (pdoc q), reg := registry_remove i (reg q)\<rparr>)"
  shows "I p \<Longrightarrow> I (fst (destroy_widget f i p)) \<and> shrunk (reg p) (fst (destroy_widget f i p))"
proof (induction f arbitrary: i p)
  case (Suc f)
  show ?case
  proof (cases "registry_by_id (reg p) i")
    case (Some w)
    let ?ws = "case find_key (snd w) (pdoc p) of None \<Rightarrow> [] | Some n \<Rightarrow> find_widgets (reg p) None (kids n)"
    have nested: "I p' \<and> shrunk r p' \<Longrightarrow> I (fst (acts (map (\<lambda>v. destroy_widget f (fst v)) ws) p'))
        \<and> shrunk r (fst (acts (map (\<lambda>v. destroy_widget f (fst v)) ws) p'))" for ws r p'
    proof (induction ws arbitrary: p')
      case (Cons v ws)
      obtain q e where a: "destroy_widget f (fst v) p' = (q, e)" by (cases "destroy_widget f (fst v) p'")
      with Suc.IH [of p' "fst v"] Cons.prems have "I q" "shrunk (reg p') q" by auto
      moreover from this(2) Cons.prems have "shrunk r q" unfolding shrunk_def by metis
      ultimately show ?case using Cons.IH [of q] a by (cases e) auto
    qed simp
    have "shrunk (reg p) p" by (simp add: shrunk_def)
    obtain q e where a: "acts (map (\<lambda>v. destroy_widget f (fst v)) ?ws) p = (q, e)"
      by (cases "acts (map (\<lambda>v. destroy_widget f (fst v)) ?ws) p")
    with nested [of p "reg p" ?ws] Suc.prems \<open>shrunk (reg p) p\<close> have q: "I q" "shrunk (reg p) q" by auto
    from step [OF Suc.prems q(1) Some q(2)] shrunk_remove [OF q(2)] q a Some show ?thesis
      by (cases e) auto
  qed (simp add: Suc.prems shrunk_def)
qed (simp add: shrunk_def)

lemma page_ok_destroy_step:
  assumes p: "page_ok p" "page_ok q" "registry_by_id (reg p) i = Some w" "shrunk (reg p) q"
  shows "page_ok (q\<lparr>pdoc := detach (snd w) (pdoc q), reg := registry_remove i (reg q)\<rparr>)"
proof -
  have i: "i \<notin> set proto_names" using p(1,3) by_id_truthy [of "reg p" i] by (simp add: page_ok_def)
  have "widgets_ok (detach (snd w) (pdoc q)) (registry_remove i (reg q))"
  proof (cases "registry_by_id (reg q) i")
    case None
    then have "\<not> hash_truthy (reg q) i" using i by (auto simp: hash_truthy_def registry_by_id_def map_of_eq_None_iff)
    then show ?thesis using p(2) by (simp add: registry_remove_def page_ok_def widgets_ok_detach)
  next
    case (Some v)
    with p(3,4) have "registry_by_id (reg q) i = Some w" unfolding shrunk_def by (metis option.distinct(1))
    with widgets_ok_remove [OF _ _ this] p(2) show ?thesis by (simp add: page_ok_def)
  qed
  with page_ok_detach [OF p(2), of "snd w"] registry_ok_remove [OF _ i, of "reg q"] p(2)
  show ?thesis by (simp add: page_ok_def)
qed

lemma page_ok_destroy_widget: "presv page_ok (destroy_widget f i)"
  by (rule presvI, rule destroy_widget_presv [of page_ok, THEN conjunct1]) (rule page_ok_destroy_step; assumption)+

lemma page_ok_close: "presv page_ok (close_box b)"
proof (rule presvI)
  fix p
  assume p: "page_ok p"
  then have "page_ok (p\<lparr>pdoc := detach (snd b) (detach (fst b) (pdoc p)), boxes := filter (\<lambda>c. c \<noteq> b) (boxes p)\<rparr>)"
    using page_ok_detach [OF page_ok_detach [OF p], of "snd b" "fst b"] by (simp add: page_ok_def)
  with page_ok_destroy_widget show "page_ok (fst (close_box b p))"
    by (auto simp: close_box_def on_close_def presv_def simp del: destroy_widget.simps split: option.splits)
qed

lemma page_ok_lightbox: "presv page_ok (lightbox sel)"
proof (rule presvI)
  fix p
  assume p: "page_ok p"
  show "page_ok (fst (lightbox sel p))"
  proof (cases "by_id sel (pdoc p)")
    case (Some n)
    show ?thesis
    proof (cases "body_key (pdoc p)")
      case b: (Some b)
      have d: "distinct (keys (pdoc p))" "\<And>k. k \<in> set (keys (pdoc p)) \<Longrightarrow> k < fresh p" using p by (auto simp: page_ok_def)
      have fk: "find_key (nkey n) (pdoc p) = Some n" using by_id_Some [OF Some] find_key_nodes [OF d(1)] by simp
      have sub: "set (keys [n]) \<subseteq> set (keys (pdoc p))" using find_key_in_kids(3) [OF d(1) fk] .
      have pl: "placeable n (pdoc p)"
        using find_key_in_kids(1,2) [OF d(1) fk] fk by (simp add: placeable_def keys_kids)
      obtain d1 e1 where d1: "append_child n b (pdoc p) = (d1, e1)" by (cases "append_child n b (pdoc p)")
      from insert_distinct [where f = append_child, OF d(1) pl d1 [symmetric]] sub
      have k1: "distinct (keys d1)" "set (keys d1) \<subseteq> set (keys (pdoc p))" by auto
      let ?ov = "Node (fresh p) \<lparr>tag = ''div'', ident = [], widget_id = [], classes = [''js_lb_overlay''], css = [], attrs = []\<rparr> []"
      have po: "placeable ?ov d1" using k1(2) d(2) by (force simp: placeable_def)
      obtain d2 e2 where d2: "append_child ?ov b d1 = (d2, e2)" by (cases "append_child ?ov b d1")
      from insert_distinct [where f = append_child, OF k1(1) po d2 [symmetric]] k1(2)
      have k2: "distinct (keys d2)" "set (keys d2) \<subseteq> insert (fresh p) (set (keys (pdoc p)))" by auto
      have lt: "\<forall>k \<in> set (keys d2). k < Suc (fresh p)" using k2(2) d(2) less_Suc_eq by blast
      have "set (items d1) \<subseteq> set (items (pdoc p))"
        using insert_items_subset(1) [of n b "pdoc p"] items_of_node [of n "pdoc p"] by_id_Some [OF Some] d1 by auto
      with insert_items_subset(1) [of ?ov b d1] d2 p have "widgets_ok d2 (reg p)"
        by (fastforce simp: page_ok_def widgets_ok_def)
      then show ?thesis using p Some b d1 d2 k2(1) lt by (simp add: lightbox_def page_ok_def Let_def)
    qed (simp add: lightbox_def Some p)
  qed (simp add: lightbox_def p)
qed

lemma page_ok_create: "presv page_ok (create_div cls i)"
proof (rule presvI)
  fix p
  assume p: "page_ok p"
  let ?t = "Node (fresh p) \<lparr>tag = ''div'', ident = [], widget_id = [], classes = [cls], css = [], attrs = []\<rparr> []"
  show "page_ok (fst (create_div cls i p))"
  proof (cases "by_id i (pdoc p)")
    case None
    with p show ?thesis by (auto simp: create_div_def create_def page_ok_def)
  next
    case (Some n)
    obtain d e where d: "place ?t (Some n) Last (pdoc p) = (d, e)" by (cases "place ?t (Some n) Last (pdoc p)")
    have k: "distinct (keys (pdoc p))" "\<forall>k \<in> set (keys (pdoc p)). k < fresh p" using p by (auto simp: page_ok_def)
    with place_distinct [OF k(1), of ?t Last "Some n"] d have "distinct (keys d)"
      "set (keys d) \<subseteq> insert (fresh p) (set (keys (pdoc p)))" by auto
    moreover have "widgets_ok d (reg p)"
      using widgets_ok_place [of "pdoc p" "reg p" ?t "Some n" Last] p d by (simp add: page_ok_def widgets_ok_def)
    ultimately show ?thesis using p Some d k(2)
      by (fastforce simp: create_div_def create_def page_ok_def)
  qed
qed

lemma page_ok_upd:
  "page_ok p \<Longrightarrow> (\<And>e. widget_id (f e) = widget_id e) \<Longrightarrow> page_ok (p\<lparr>pdoc := upd_elem k f (pdoc p)\<rparr>)"
  using upd_elem_items [of "pdoc p" k f] by (simp add: page_ok_def widgets_ok_upd)

lemma on_body_presv:
  assumes "\<And>p k. I p \<Longrightarrow> I (p\<lparr>pdoc := upd_elem k f (pdoc p)\<rparr>)"
  shows "presv I (on_doc (\<lambda>d. case body_key d of None \<Rightarrow> d | Some b \<Rightarrow> upd_elem b f d))"
proof (rule presvI)
  fix p
  assume "I p"
  with assms show "I (fst (on_doc (\<lambda>d. case body_key d of None \<Rightarrow> d | Some b \<Rightarrow> upd_elem b f d) p))"
    by (cases "body_key (pdoc p)") (simp_all add: on_doc_def)
qed

interpretation ok: page_all page_ok
proof unfold_locales
  show "presv page_ok (new_dialog tm sel)" for tm sel
    using page_ok_new_widget page_ok_lightbox by (auto simp: new_dialog_def intro!: presv_acts)
  have "presv page_ok (acts (map close_box bs))" for bs
    by (intro presv_acts) (auto simp: page_ok_close)
  then show "presv page_ok (trigger_close sel)" for sel
    by (auto simp: presv_def trigger_close_def split: option.splits)
  show "presv page_ok dismiss" using page_ok_close by (auto simp: presv_def dismiss_def)
  show "presv page_ok (topic_subscribe s)" for s
    by (simp add: presv_def page_ok_def topic_subscribe_def hub_inv_subscribe)
  have l: "presv page_ok (\<lambda>p. (p\<lparr>loading := m\<rparr>, None))" for m by (simp add: presv_def page_ok_def)
  have j: "presv page_ok (jq_id i (set_css n v))" for i n v
    by (auto simp: presv_def jq_id_def page_ok_upd split: option.splits)
  have b: "presv page_ok (on_doc (\<lambda>d. case body_key d of None \<Rightarrow> d | Some b \<Rightarrow> upd_elem b (set_css n v) d))" for n v
    by (rule on_body_presv) (simp add: page_ok_upd)
  have "presv page_ok (start_load m)" for m
    unfolding start_load_def by (intro presv_acts) (auto intro: l j b)
  moreover have "presv page_ok (xhr url post d c)" for url post d c
    by (simp add: presv_def page_ok_def xhr_def)
  ultimately show "presv page_ok (xhr url post d c)" "presv page_ok (submit msg url d' c)" for url post d c msg d'
    by (auto simp: submit_def intro!: presv_acts)
  show "presv page_ok stop_load"
    unfolding stop_load_def by (intro presv_acts) (auto intro: l b)
qed (simp_all add: page_ok_new_widget page_ok_upd page_ok_detach page_ok_create, simp_all add: page_ok_def)


section \<open>One popup at a time\<close>

definition one_dialog :: "page \<Rightarrow> bool" where
  "one_dialog p \<longleftrightarrow> boxes p = [] \<or> (\<exists>b. boxes p = [b]) \<and> hash_truthy (reg p) dialog"

text \<open>What the popups and the loading overlay depend on, and the steps that leave it alone.\<close>

definition frame :: "page \<Rightarrow> (nat \<times> nat) list \<times> string option \<times> request list" where
  "frame p = (boxes p, loading p, reqs p)"

lemma frame_run_doc [simp]: "frame (fst (run_doc f p)) = frame p"
  by (simp add: frame_def run_doc_def split: prod.splits)

lemma frame_place_at [simp]: "frame (fst (place_at t r ps p)) = frame p"
  by (auto simp: place_at_def split: place_ref.splits option.splits)

lemma create_div_frame [simp]:
  "frame (fst (create_div cls i p)) = frame p" "reg (fst (create_div cls i p)) = reg p"
  by (auto simp: frame_def create_div_def split: prod.splits)

lemma reg_run_doc [simp]: "reg (fst (run_doc f p)) = reg p"
  by (simp add: run_doc_def split: prod.splits)

lemma reg_place_at [simp]: "reg (fst (place_at t r ps p)) = reg p"
  by (auto simp: place_at_def split: place_ref.splits option.splits)

lemma subs_frame:
  "frame (fst (acts (map topic_subscribe subs) p)) = frame p \<and> reg (fst (acts (map topic_subscribe subs) p)) = reg p
   \<and> snd (acts (map topic_subscribe subs) p) = None"
proof (induction subs arbitrary: p)
  case (Cons s subs)
  from Cons.IH [of "fst (topic_subscribe s p)"] show ?case by (simp add: topic_subscribe_def frame_def)
qed simp

text \<open>Creating a widget registers one id, its own or a generated one, or throws and registers none.\<close>

lemma new_widget_frame:
  "frame (fst (new_widget wid tm subs fin r ps p)) = frame p
   \<and> (\<forall>j. hash_truthy (reg p) j \<longrightarrow> hash_truthy (reg (fst (new_widget wid tm subs fin r ps p))) j)
   \<and> (wid \<noteq> [] \<and> hash_truthy (reg p) wid \<longrightarrow> snd (new_widget wid tm subs fin r ps p) \<noteq> None
        \<and> fst (new_widget wid tm subs fin r ps p) = p)
   \<and> (wid \<noteq> [] \<longrightarrow> hash_truthy (reg (fst (new_widget wid tm subs fin r ps p))) wid)"
proof (cases "if wid = [] then get_unique_id class_name (reg p) else Some (wid, reg p)")
  case None
  then show ?thesis by (auto simp: new_widget_def split: if_splits)
next
  case (Some x)
  obtain i g where x: "x = (i, g)" by (cases x)
  have h: "hash_truthy g = hash_truthy (reg p)"
    using Some x get_unique_id_registry [of class_name "reg p" i g]
    by (auto simp: hash_truthy_def fun_eq_iff split: if_splits)
  obtain g' e where a: "registry_add i (i, fresh p) g = (g', e)" by (cases "registry_add i (i, fresh p) g")
  obtain ns m where n: "inst (fresh p) [tm] = (ns, m)" by (cases "inst (fresh p) [tm]")
  have w: "wid \<noteq> [] \<Longrightarrow> i = wid \<and> g = reg p" using Some x by simp
  show ?thesis
  proof (cases "hash_truthy g i")
    case True
    with a have "g' = g" "e \<noteq> None" by (auto simp: registry_add_def)
    then show ?thesis using Some x a h w True by (auto simp: new_widget_def frame_def)
  next
    case False
    with a have e: "e = None" and t: "\<And>j. hash_truthy g' j \<longleftrightarrow> j = i \<or> hash_truthy g j"
      using reg.add_free [OF False, of "(i, fresh p)"] by auto
    let ?q = "p\<lparr>reg := g', fresh := m\<rparr>"
    have q: "frame ?q = frame p" "reg ?q = g'" by (simp_all add: frame_def)
    obtain s where s: "acts (map topic_subscribe subs) ?q = (s, None)" "frame s = frame p" "reg s = g'"
      using subs_frame [of subs ?q] q by (cases "acts (map topic_subscribe subs) ?q") auto
    obtain t' where "new_widget wid tm subs fin r ps p = acts (map topic_subscribe subs @ [place_at t' r ps]) ?q"
      using Some x a n e by (simp add: new_widget_def Let_def)
    then have "fst (new_widget wid tm subs fin r ps p) = fst (place_at t' r ps s)"
      using s(1) by (simp add: acts_append split: prod.splits option.splits)
    then show ?thesis using s(2,3) t h w False by auto
  qed
qed

lemma destroy_widget_frame: "presv (\<lambda>p. frame p = z) (destroy_widget f i)"
  using destroy_widget_presv [of "\<lambda>p. frame p = z"] by (simp add: presv_def frame_def)

lemma close_box_frame:
  "frame (fst (close_box b p)) = (filter (\<lambda>c. c \<noteq> b) (boxes p), loading p, reqs p)"
proof -
  let ?q = "p\<lparr>pdoc := detach (snd b) (detach (fst b) (pdoc p)), boxes := filter (\<lambda>c. c \<noteq> b) (boxes p)\<rparr>"
  have "frame (fst (on_close q)) = frame q" for q
    using presvD [OF destroy_widget_frame, of q "frame q"]
    by (auto simp: on_close_def simp del: destroy_widget.simps split: option.splits)
  then show ?thesis by (simp add: close_box_def frame_def)
qed

lemma close_boxes_frame:
  "loading (fst (acts (map close_box bs) p)) = loading p \<and> reqs (fst (acts (map close_box bs) p)) = reqs p"
proof (induction bs arbitrary: p)
  case (Cons b bs)
  obtain q e where a: "close_box b p = (q, e)" by (cases "close_box b p")
  with close_box_frame [of b p] have "loading q = loading p" "reqs q = reqs p" by (auto simp: frame_def)
  with Cons [of q] a show ?case by (cases e) simp_all
qed simp

lemma trigger_close_frame:
  "loading (fst (trigger_close sel p)) = loading p" "reqs (fst (trigger_close sel p)) = reqs p"
  by (simp_all add: trigger_close_def close_boxes_frame split: option.splits)

lemma dismiss_frame: "loading (fst (dismiss p)) = loading p" "reqs (fst (dismiss p)) = reqs p"
  using close_box_frame [of "last (boxes p)" p] by (auto simp: dismiss_def frame_def)

lemma one_dialog_frame:
  "one_dialog p \<Longrightarrow> frame q = frame p \<Longrightarrow> (hash_truthy (reg p) dialog \<longrightarrow> hash_truthy (reg q) dialog) \<Longrightarrow> one_dialog q"
  by (auto simp: one_dialog_def frame_def)

lemma lightbox_boxes:
  "boxes (fst (lightbox sel p)) = boxes p \<or> (\<exists>b. boxes (fst (lightbox sel p)) = boxes p @ [b])"
  "reg (fst (lightbox sel p)) = reg p" "loading (fst (lightbox sel p)) = loading p" "reqs (fst (lightbox sel p)) = reqs p"
  by (auto simp: lightbox_def Let_def split: option.splits)

lemma one_dialog_new_dialog: "presv one_dialog (new_dialog tm sel)"
proof (rule presvI)
  fix p
  assume p: "one_dialog p"
  let ?q = "fst (new_widget dialog tm [] id (AtNode dialog) Last p)"
  note f = new_widget_frame [of dialog tm "[]" id "AtNode dialog" Last p]
  have d: "dialog \<noteq> []" by (simp add: dialog_def)
  show "one_dialog (fst (new_dialog tm sel p))"
  proof (cases "hash_truthy (reg p) dialog")
    case True
    with f d have "fst (new_dialog tm sel p) = p"
      by (auto simp: new_dialog_def split: prod.splits option.splits)
    with p show ?thesis by simp
  next
    case False
    with p have "boxes p = []" by (auto simp: one_dialog_def)
    with f d have q: "boxes ?q = []" "hash_truthy (reg ?q) dialog" by (auto simp: frame_def)
    obtain q e where qe: "new_widget dialog tm [] id (AtNode dialog) Last p = (q, e)"
      by (cases "new_widget dialog tm [] id (AtNode dialog) Last p")
    with q have q: "boxes q = []" "hash_truthy (reg q) dialog" by simp_all
    have "one_dialog (fst (lightbox sel q))"
      using lightbox_boxes [of sel q] q by (auto simp: one_dialog_def)
    with qe q show ?thesis
      by (cases e) (auto simp: new_dialog_def one_dialog_def split: prod.splits option.splits)
  qed
qed

lemma one_dialog_closed: "one_dialog p \<Longrightarrow> b \<in> set (boxes p) \<Longrightarrow> one_dialog (fst (close_box b p))"
  using close_box_frame [of b p] by (auto simp: one_dialog_def frame_def)

interpretation dialogs: page_all one_dialog
proof unfold_locales
  show "presv one_dialog (create_div cls i)" for cls i by (auto simp: presv_def intro: one_dialog_frame)
  have w: "presv one_dialog (new_widget wid tm subs fin r ps)" for wid tm subs fin r ps
    using new_widget_frame [of wid tm subs fin r ps] by (auto simp: presv_def intro: one_dialog_frame)
  show "presv one_dialog (new_widget wid tm [] fin r ps)" for wid tm fin r ps by (rule w)
  show "presv one_dialog (new_widget wid tm subs fin r ps)" for wid tm subs fin r ps by (rule w)
  show "presv one_dialog (new_dialog tm sel)" for tm sel by (rule one_dialog_new_dialog)
  show "presv one_dialog (trigger_close sel)" for sel
  proof (rule presvI)
    fix p
    assume p: "one_dialog p"
    then show "one_dialog (fst (trigger_close sel p))"
      using one_dialog_closed [OF p]
      by (auto simp: trigger_close_def one_dialog_def split: option.splits prod.splits)
  qed
  show "presv one_dialog dismiss"
    by (auto simp: presv_def dismiss_def intro: one_dialog_closed)
  have "frame (fst (start_load m p)) = (boxes p, loading (fst (start_load m p)), reqs p) \<and> reg (fst (start_load m p)) = reg p" for m p
    by (auto simp: start_load_def on_doc_def jq_id_def frame_def split: option.splits)
  then have "presv one_dialog (start_load m)" for m
    by (auto simp: presv_def one_dialog_def frame_def)
  moreover have "presv one_dialog (xhr url post d c)" for url post d c
    by (simp add: presv_def one_dialog_def xhr_def)
  ultimately show "presv one_dialog (submit msg url d' c)" for msg url d' c
    unfolding submit_def by (intro presv_acts) auto
  show "presv one_dialog stop_load"
    by (auto simp: stop_load_def on_doc_def presv_def one_dialog_def)
qed (auto simp: presv_def one_dialog_def topic_subscribe_def xhr_def)

section \<open>The loading overlay\<close>

definition load_ok :: "page \<Rightarrow> bool" where
  "load_ok p \<longleftrightarrow> loading p \<noteq> None \<longrightarrow> list_ex (\<lambda>r. stops_load (q_cont r)) (reqs p)"

lemma load_ok_frame: "load_ok p \<Longrightarrow> loading q = loading p \<Longrightarrow> reqs q = reqs p \<Longrightarrow> load_ok q"
  by (simp add: load_ok_def)

interpretation loads: page_all load_ok
proof unfold_locales
  show "presv load_ok (create_div cls i)" for cls i
  proof (rule presvI)
    fix p
    assume "load_ok p"
    with create_div_frame(1) [of cls i p] show "load_ok (fst (create_div cls i p))"
      by (auto simp: frame_def intro: load_ok_frame)
  qed
  have w: "presv load_ok (new_widget wid tm subs fin r ps)" for wid tm subs fin r ps
    using new_widget_frame [of wid tm subs fin r ps] by (auto simp: presv_def frame_def intro: load_ok_frame)
  show "presv load_ok (new_widget wid tm [] fin r ps)" for wid tm fin r ps by (rule w)
  show "presv load_ok (new_widget wid tm subs fin r ps)" for wid tm subs fin r ps by (rule w)
  have "presv load_ok (lightbox sel)" for sel
    using lightbox_boxes by (auto simp: presv_def intro: load_ok_frame)
  with w show "presv load_ok (new_dialog tm sel)" for tm sel
    unfolding new_dialog_def by (intro presv_acts) auto
  show "presv load_ok (trigger_close sel)" for sel
    using trigger_close_frame by (auto simp: presv_def intro: load_ok_frame)
  show "presv load_ok dismiss"
    using dismiss_frame by (auto simp: presv_def intro: load_ok_frame)
  show "presv load_ok (submit msg url d c)" if "stops_load c" for msg url d c
    using that by (auto simp: presv_def submit_def load_ok_def xhr_def start_load_def on_doc_def jq_id_def
        split: option.splits prod.splits)
  show "presv load_ok stop_load"
    by (auto simp: stop_load_def on_doc_def presv_def load_ok_def)
qed (auto simp: presv_def load_ok_def topic_subscribe_def xhr_def)


lemma page_ok_home: "page_ok home_page"
proof -
  obtain ns m where n: "inst 0 [home_template] = (ns, m)" by (cases "inst 0 [home_template]")
  from inst_keys [OF n] inst_plain [OF n] have "keys ns = [0..<m]" "\<And>k e. (k, e) \<in> set (items ns) \<Longrightarrow> widget_id e = []"
    by auto
  then show ?thesis
    using n by (auto simp: page_ok_def home_page_def registry_ok_empty hub_inv_empty widgets_ok_def)
qed

lemma one_dialog_home: "one_dialog home_page" and load_ok_home: "load_ok home_page"
  by (simp_all add: one_dialog_def load_ok_def home_page_def)

end
