(* ===== verification/Closing.thy ===== *)
theory Closing
  imports PageInv
begin

text \<open>
  Closing a popup. In a page that is \<open>page_ok\<close> and \<open>one_dialog\<close> the close handler of
  \<^verbatim>\<open>jquery.lightbox_me\<close> never throws, leaves no popup open and frees the id \<open>dialog\<close>, so the next
  popup can be opened. The point is that \<^verbatim>\<open>destroy\<close> ends: the widgets below a widget's node have
  their own nodes below it (\<open>widgets_ok\<close>), so the recursion follows the nesting of widgets, which is
  bounded by the number of registrations.
\<close>

section \<open>The nesting of widgets\<close>

fun wdepth :: "doc \<Rightarrow> nat" where
  "wdepth [] = 0"
| "wdepth (Node k e ts # us) = max (if widget_id e \<noteq> [] then Suc (wdepth ts) else wdepth ts) (wdepth us)"

lemma wdepth_detach: "wdepth (detach j d) \<le> wdepth d"
  unfolding detach_def by (induction d rule: nodes.induct) auto

lemma wdepth_node: "m \<in> set (nodes d) \<Longrightarrow> widget_id (ninfo m) \<noteq> [] \<Longrightarrow> wdepth (kids m) < wdepth d"
  by (induction d rule: nodes.induct) (auto simp: less_max_iff_disj)

lemma wdepth_count: "wdepth d \<le> length (filter (\<lambda>(k, e). widget_id e \<noteq> []) (items d))"
  by (induction d rule: nodes.induct) auto

lemma wdepth_kids: "n \<in> set (nodes d) \<Longrightarrow> wdepth (kids n) \<le> wdepth d"
  by (induction d rule: nodes.induct) (auto simp: le_max_iff_disj)

definition doc_shrunk :: "doc \<Rightarrow> doc \<Rightarrow> bool" where
  "doc_shrunk d d' \<longleftrightarrow> (\<forall>k n'. find_key k d' = Some n' \<longrightarrow>
     (\<exists>n. find_key k d = Some n \<and> wdepth (kids n') \<le> wdepth (kids n)))"

lemma detach_nodes:
  "n' \<in> set (nodes (detach j d)) \<Longrightarrow> \<exists>n \<in> set (nodes d). nkey n = nkey n' \<and> wdepth (kids n') \<le> wdepth (kids n)"
proof (induction d rule: nodes.induct)
  case (2 k e ts us)
  have d: "detach j (Node k e ts # us) = (if k = j then [] else [Node k e (detach j ts)]) @ detach j us"
    by (simp add: detach_def)
  show ?case
  proof (cases "n' \<in> set (nodes (detach j us)) \<or> k \<noteq> j \<and> n' \<in> set (nodes (detach j ts))")
    case True
    with 2 show ?thesis by auto
  next
    case False
    with 2(3) d have "n' = Node k e (detach j ts)" by (auto split: if_splits)
    then show ?thesis using wdepth_detach [of j ts] by simp
  qed
qed (simp add: detach_def)

lemma doc_shrunk_detach: "distinct (keys d) \<Longrightarrow> doc_shrunk d0 d \<Longrightarrow> doc_shrunk d0 (detach j d)"
  unfolding doc_shrunk_def
proof (intro allI impI)
  fix k n'
  assume a: "distinct (keys d)" "\<forall>k n'. find_key k d = Some n' \<longrightarrow>
      (\<exists>n. find_key k d0 = Some n \<and> wdepth (kids n') \<le> wdepth (kids n))"
    "find_key k (detach j d) = Some n'"
  from find_key_nkey [OF a(3)] detach_nodes [of n' j d] obtain n where
    n: "n \<in> set (nodes d)" "nkey n = k" "wdepth (kids n') \<le> wdepth (kids n)" by auto
  from find_key_nodes [OF a(1) n(1)] n(2) a(2) obtain m where
    "find_key k d0 = Some m" "wdepth (kids n) \<le> wdepth (kids m)" by blast
  with n(3) show "\<exists>n. find_key k d0 = Some n \<and> wdepth (kids n') \<le> wdepth (kids n)" by auto
qed

section \<open>Destroying a widget ends\<close>

lemma find_widgets_in:
  "v \<in> set (find_widgets r None d) \<Longrightarrow>
   \<exists>m \<in> set (nodes d). widget_id (ninfo m) \<noteq> [] \<and> registry_by_id r (widget_id (ninfo m)) = Some v"
proof (induction d rule: nodes.induct)
  case (2 k e ts us)
  from 2(3) consider "v \<in> set (find_widgets r None us)" | "v \<in> set (find_widgets r None ts)"
    | "widget_id e \<noteq> []" "registry_by_id r (widget_id e) = Some v"
    by (auto split: if_splits option.splits)
  then show ?case using 2(1,2) by cases auto
qed simp

definition deep_ok :: "doc \<Rightarrow> page \<Rightarrow> bool" where
  "deep_ok d p \<longleftrightarrow> page_ok p \<and> doc_shrunk d (pdoc p)"

lemma deep_ok_destroy: "deep_ok d p \<Longrightarrow> deep_ok d (fst (destroy_widget f i p))
    \<and> shrunk (reg p) (fst (destroy_widget f i p))"
proof (rule destroy_widget_presv)
  fix p q i and w :: "string \<times> nat"
  assume a: "deep_ok d p" "deep_ok d q" "registry_by_id (reg p) i = Some w" "shrunk (reg p) q"
  then have "doc_shrunk d (detach (snd w) (pdoc q))"
    by (simp add: deep_ok_def page_ok_def doc_shrunk_detach)
  with a page_ok_destroy_step [of p q i w] show
    "deep_ok d (q\<lparr>pdoc := detach (snd w) (pdoc q), reg := registry_remove i (reg q)\<rparr>)"
    by (simp add: deep_ok_def)
qed

lemma destroy_widget_ends:
  assumes "page_ok p" "0 < f"
    and "\<And>w n. registry_by_id (reg p) i = Some w \<Longrightarrow> find_key (snd w) (pdoc p) = Some n \<Longrightarrow> wdepth (kids n) < f"
  shows "snd (destroy_widget f i p) = None"
  using assms
proof (induction f arbitrary: i p)
  case (Suc f)
  show ?case
  proof (cases "registry_by_id (reg p) i")
    case (Some w)
    show ?thesis
    proof (cases "find_key (snd w) (pdoc p)")
      case None
      with Some show ?thesis by simp
    next
      case n: (Some n)
      let ?d = "pdoc p"
      have dist: "distinct (keys ?d)" using Suc.prems(1) by (simp add: page_ok_def)
      have lt: "wdepth (kids n) < Suc f" using Suc.prems(3) [OF Some n] .
      have all: "snd (acts (map (\<lambda>v. destroy_widget f (fst v)) ws) q) = None"
        if "set ws \<subseteq> set (find_widgets (reg p) None (kids n))" "deep_ok ?d q" "shrunk (reg p) q" for ws q
        using that
      proof (induction ws arbitrary: q)
        case (Cons v ws)
        from Cons.prems(1) find_widgets_in [of v "reg p" "kids n"] obtain m where
          m: "m \<in> set (nodes (kids n))" "widget_id (ninfo m) \<noteq> []"
            "registry_by_id (reg p) (widget_id (ninfo m)) = Some v" by auto
        have md: "m \<in> set (nodes ?d)" using m(1) nodes_trans find_key_nkey [OF n] by blast
        then have "(nkey m, ninfo m) \<in> set (items ?d)" by (auto simp: items_def)
        with Suc.prems(1) m(2,3) have v: "v = (widget_id (ninfo m), nkey m)"
          by (auto simp: page_ok_def widgets_ok_def)
        have fm: "find_key (nkey m) ?d = Some m" by (rule find_key_nodes [OF dist md])
        have less: "wdepth (kids m) < f" using wdepth_node [OF m(1,2)] lt by simp
        have one: "snd (destroy_widget f (fst v) q) = None"
        proof (rule Suc.IH)
          show "page_ok q" using Cons.prems(2) by (simp add: deep_ok_def)
          show "0 < f" using less by simp
          fix w' n'
          assume a: "registry_by_id (reg q) (fst v) = Some w'" "find_key (snd w') (pdoc q) = Some n'"
          then have "w' = v" using Cons.prems(3) m(3) v unfolding shrunk_def by (metis fst_conv option.distinct(1) option.inject)
          with a(2) v Cons.prems(2) fm have "wdepth (kids n') \<le> wdepth (kids m)"
            unfolding deep_ok_def doc_shrunk_def by (metis option.inject snd_conv)
          with less show "wdepth (kids n') < f" by simp
        qed
        obtain q' where q': "destroy_widget f (fst v) q = (q', None)"
          using one by (cases "destroy_widget f (fst v) q") auto
        with deep_ok_destroy [OF Cons.prems(2), of f "fst v"] have "deep_ok ?d q'" "shrunk (reg q) q'" by auto
        moreover from this(2) Cons.prems(3) have "shrunk (reg p) q'" unfolding shrunk_def by metis
        ultimately have "snd (acts (map (\<lambda>v. destroy_widget f (fst v)) ws) q') = None"
          using Cons.prems(1) by (intro Cons.IH) auto
        with q' show ?case by simp
      qed simp
      have "deep_ok ?d p" "shrunk (reg p) p"
        using Suc.prems(1) by (auto simp: deep_ok_def doc_shrunk_def shrunk_def)
      from all [OF subset_refl this] Some n show ?thesis
        by (auto split: prod.splits option.splits)
    qed
  qed simp
qed simp

text \<open>The fuel of \<open>on_close\<close> is enough.\<close>

lemma wdepth_bound:
  assumes "page_ok p"
  shows "wdepth (pdoc p) \<le> length (hash (reg p))"
proof -
  let ?xs = "filter (\<lambda>(k, e). widget_id e \<noteq> []) (items (pdoc p))"
  let ?f = "\<lambda>(k, e). widget_id e"
  have reg: "registry_by_id (reg p) (widget_id e) = Some (widget_id e, k)" if "(k, e) \<in> set ?xs" for k e
    using assms that by (auto simp: page_ok_def widgets_ok_def)
  have "distinct (map fst (items (pdoc p)))" using assms by (simp add: page_ok_def keys_def)
  then have d: "distinct ?xs" "inj_on fst (set ?xs)"
    by (auto simp: distinct_map inj_on_def)
  have "inj_on ?f (set ?xs)"
  proof (rule inj_onI)
    fix x y
    assume a: "x \<in> set ?xs" "y \<in> set ?xs" "?f x = ?f y"
    obtain k e k' e' where xy: "x = (k, e)" "y = (k', e')" by (cases x, cases y)
    from a xy reg [of k e] reg [of k' e'] have "k = k'" by auto
    with a xy d(2) show "x = y" by (auto simp: inj_on_def)
  qed
  moreover have "?f ` set ?xs \<subseteq> fst ` set (hash (reg p))"
  proof
    fix i
    assume "i \<in> ?f ` set ?xs"
    then obtain k e where e: "(k, e) \<in> set ?xs" "i = widget_id e" by auto
    from reg [OF e(1)] e(2) have "registry_by_id (reg p) i \<noteq> None" by simp
    then show "i \<in> fst ` set (hash (reg p))" by (metis map_of_eq_None_iff registry_by_id_def)
  qed
  ultimately have "card (set ?xs) \<le> card (fst ` set (hash (reg p)))"
    by (metis List.finite_set card_image card_mono finite_imageI)
  also have "\<dots> \<le> length (hash (reg p))" by (metis card_image_le card_length List.finite_set le_trans)
  finally have "length ?xs \<le> length (hash (reg p))" unfolding distinct_card [OF d(1)] .
  with wdepth_count [of "pdoc p"] show ?thesis by (rule le_trans)
qed

lemma on_close_ends:
  assumes "page_ok p" "hash_truthy (reg p) dialog"
  shows "snd (on_close p) = None"
proof -
  have "dialog \<notin> set proto_names" by code_simp
  with assms obtain w where w: "registry_by_id (reg p) dialog = Some w"
    using by_id_truthy [of "reg p" dialog] by (auto simp: page_ok_def)
  have "wdepth (kids n) < Suc (length (hash (reg p)))" if "find_key k (pdoc p) = Some n" for k n
    using wdepth_kids find_key_nkey [OF that] wdepth_bound [OF assms(1)] by (meson le_trans less_Suc_eq_le)
  then have "snd (destroy_widget (Suc (length (hash (reg p)))) dialog p) = None"
    by (intro destroy_widget_ends [OF assms(1)]) auto
  with w show ?thesis by (simp add: on_close_def del: destroy_widget.simps)
qed

lemma destroy_widget_gone:
  assumes "snd (destroy_widget f i p) = None" "registry_ok (reg p)" "0 < f" "i \<notin> set proto_names"
  shows "\<not> hash_truthy (reg (fst (destroy_widget f i p))) i"
proof -
  obtain f' where f: "f = Suc f'" using assms(3) by (cases f) auto
  show ?thesis
  proof (cases "registry_by_id (reg p) i")
    case None
    with f have "destroy_widget f i p = (p, None)" by simp
    with None assms(4) show ?thesis by (auto simp: hash_truthy_def registry_by_id_def map_of_eq_None_iff)
  next
    case (Some w)
    with f assms(1) obtain q where "fst (destroy_widget f i p)
        = q\<lparr>pdoc := detach (snd w) (pdoc q), reg := registry_remove i (reg q)\<rparr>"
      by (auto split: prod.splits option.splits)
    then show ?thesis by (simp add: reg.rem_taken assms(4))
  qed
qed


lemma close_box_closes:
  assumes "page_ok p" "one_dialog p" "boxes p = [b]"
  shows "snd (close_box b p) = None \<and> boxes (fst (close_box b p)) = []
    \<and> \<not> hash_truthy (reg (fst (close_box b p))) dialog
    \<and> fst b \<notin> set (keys (pdoc (fst (close_box b p)))) \<and> snd b \<notin> set (keys (pdoc (fst (close_box b p))))"
proof -
  let ?q = "p\<lparr>pdoc := detach (snd b) (detach (fst b) (pdoc p)), boxes := filter (\<lambda>c. c \<noteq> b) (boxes p)\<rparr>"
  have q: "page_ok ?q" using page_ok_detach [OF page_ok_detach [OF assms(1)], of "snd b" "fst b"]
    by (simp add: page_ok_def)
  have t: "hash_truthy (reg p) dialog" using assms(2,3) by (simp add: one_dialog_def)
  have e: "snd (on_close ?q) = None" using on_close_ends [OF q] t by simp
  have n: "dialog \<notin> set proto_names" by code_simp
  have some: "registry_by_id (reg ?q) dialog \<noteq> None"
    using by_id_truthy [of "reg p" dialog] assms(1) t n by (simp add: page_ok_def)
  then have c: "on_close ?q = destroy_widget (Suc (length (hash (reg p)))) dialog ?q"
    by (auto simp: on_close_def simp del: destroy_widget.simps)
  have gone: "\<not> hash_truthy (reg (fst (on_close ?q))) dialog"
    using destroy_widget_gone [of "Suc (length (hash (reg p)))" dialog ?q] e q n unfolding c
    by (simp add: page_ok_def del: destroy_widget.simps)
  have "distinct (keys (pdoc p))" using assms(1) by (simp add: page_ok_def)
  then have "fst b \<notin> set (keys (pdoc ?q))" "snd b \<notin> set (keys (pdoc ?q))"
    using detach_gone detach_distinct by auto (metis detach_distinct(2) detach_gone subsetD)+
  moreover have "set (keys (pdoc (fst (on_close ?q)))) \<subseteq> set (keys (pdoc ?q))"
    unfolding c
  proof (rule destroy_widget_presv [where I = "\<lambda>r. set (keys (pdoc r)) \<subseteq> set (keys (pdoc ?q)) \<and> page_ok r", THEN conjunct1, THEN conjunct1])
    show "set (keys (pdoc ?q)) \<subseteq> set (keys (pdoc ?q)) \<and> page_ok ?q" using q by simp
    fix p1 q1 i and w :: "string \<times> nat"
    assume a: "set (keys (pdoc p1)) \<subseteq> set (keys (pdoc ?q)) \<and> page_ok p1" "set (keys (pdoc q1)) \<subseteq> set (keys (pdoc ?q)) \<and> page_ok q1"
      "registry_by_id (reg p1) i = Some w" "shrunk (reg p1) q1"
    with page_ok_destroy_step [of p1 q1 i w] detach_distinct(2) [of "pdoc q1" "snd w"]
    show "set (keys (pdoc (q1\<lparr>pdoc := detach (snd w) (pdoc q1), reg := registry_remove i (reg q1)\<rparr>))) \<subseteq> set (keys (pdoc ?q))
       \<and> page_ok (q1\<lparr>pdoc := detach (snd w) (pdoc q1), reg := registry_remove i (reg q1)\<rparr>)"
      by (auto simp: page_ok_def)
  qed
  moreover have "boxes (fst (close_box b p)) = []" using close_box_frame [of b p] assms(3) by (simp add: frame_def)
  ultimately show ?thesis using e gone by (auto simp: close_box_def)
qed

text \<open>C8: closing the open popup, from its button or by a click on the overlay, never throws, takes the
  popup and its overlay out of the document, and frees the id \<^verbatim>\<open>dialog\<close>: opening another popup then
  registers it. The recursion of \<^verbatim>\<open>destroy\<close> through nested widgets ends.\<close>
theorem closing_frees_dialog:
  assumes "page_ok p" "one_dialog p" "boxes p = [b]" "by_id sel (pdoc p) = Some n" "nkey n = fst b"
  shows "snd (trigger_close sel p) = None \<and> boxes (fst (trigger_close sel p)) = []
    \<and> \<not> hash_truthy (reg (fst (trigger_close sel p))) dialog
    \<and> fst b \<notin> set (keys (pdoc (fst (trigger_close sel p))))
    \<and> snd b \<notin> set (keys (pdoc (fst (trigger_close sel p))))
    \<and> trigger_close sel p = dismiss p"
proof -
  note c = close_box_closes [OF assms(1-3)]
  have "trigger_close sel p = close_box b p"
    using c assms(3-5) by (cases "close_box b p") (auto simp: trigger_close_def)
  with c assms(3) show ?thesis by (simp add: dismiss_def)
qed

lemma closing_frees_dialog_witness:
  "snd (trigger_close ''msgbox'' (fst (msgbox ''hello'' home_page))) = None
    \<and> \<not> hash_truthy (reg (fst (trigger_close ''msgbox'' (fst (msgbox ''hello'' home_page))))) dialog"
proof -
  let ?p = "fst (msgbox ''hello'' home_page)"
  have i: "page_ok ?p" "one_dialog ?p"
    using presvD [OF ok.msgbox_presv page_ok_home] presvD [OF dialogs.msgbox_presv one_dialog_home] .
  have "map fst (boxes ?p) = [13] \<and> map_option nkey (by_id ''msgbox'' (pdoc ?p)) = Some 13" by code_simp
  then obtain b n where "boxes ?p = [b]" "by_id ''msgbox'' (pdoc ?p) = Some n" "nkey n = fst b" by auto
  from closing_frees_dialog [OF i this] show ?thesis by blast
qed

text \<open>A trigger on an element that is not the open popup does nothing.\<close>

lemma trigger_close_ok: "page_ok p \<Longrightarrow> one_dialog p \<Longrightarrow> snd (trigger_close sel p) = None"
proof -
  assume a: "page_ok p" "one_dialog p"
  have "snd (close_box b p) = None" if "boxes p = [b]" for b
    using close_box_closes [OF a that] by simp
  with a show ?thesis
    by (auto simp: trigger_close_def one_dialog_def split: option.splits prod.splits)
qed

end
