(* ===== verification/GroupPanel.thy ===== *)
theory GroupPanel
  imports Closing
begin

text \<open>
  The groups panel (\<^verbatim>\<open>stomp/widgets/groups/\<close>): the list with its topics (\<^verbatim>\<open>group-list.js\<close>), a row of
  it (\<^verbatim>\<open>group-row.js\<close>), the content area with the graph (\<^verbatim>\<open>group-content.js\<close>, whose selection is
  \<^theory_text>\<open>GroupGraph\<close>) and the dialogs (\<^verbatim>\<open>group-opr.js\<close>). A method of a widget is an act; the callbacks of
  a request are one function of the reply, named like its continuation.
\<close>

section \<open>Templates\<close>

definition group_list_template :: tmpl where
  "group_list_template = el ''div'' ''groups_panel'' [''collapse''] [] [dv ''group_list'' []]"

definition group_row_template :: "group \<Rightarrow> tmpl" where
  "group_row_template g = dv [] [dv (g_id g @ ''_group_row'') [el ''a'' [] [] [] [tnode (g_name g)]]]"

definition graph_area :: "tmpl list" where
  "graph_area = [dv ''symbols'' [], dv ''group-content'' []]"

definition user_line :: "user \<Rightarrow> tmpl" where
  "user_line u = el ''tr'' [] [] [] [el ''td'' [] [] [] [tnode (u_email u)]]"

definition group_users_template :: "group \<Rightarrow> tmpl" where
  "group_users_template g = dv []
     [dv ''symbols'' [],
      dv ''group_users'' [el ''tbody'' ''grpup_ulist_body'' [] [] (map user_line (g_users g))]]"

definition user_box :: "string \<Rightarrow> user \<Rightarrow> tmpl" where
  "user_box i u = dv [] [input ''checkbox'' i [(''value'', u_id u)], tnode (u_fullname u)]"

definition user_choice :: "tmpl list \<Rightarrow> tmpl list" where
  "user_choice us =
     [dv ''user-list-in-group'' [dv [] [input ''checkbox'' [] [(''name'', ''selectALL'')]], dv ''group_users'' us],
      hidden_div ''user-list-warning'' []]"

text \<open>The dialogs, chosen in \<^verbatim>\<open>postMixInProperties\<close> by \<^verbatim>\<open>opr\<close>.\<close>

datatype group_opr =
    CreateGroup "user list"
  | ModifyGroup "user list" string string
  | DeleteGroup group
  | RemoveUsers "user list" "string list"
  | MoveUsers "group list" "user list"

fun group_opr_template :: "group_opr \<Rightarrow> tmpl" where
  "group_opr_template (CreateGroup us) =
     popup ''group_opr'' (input ''text'' ''group_name'' [] # user_choice (map (user_box []) us))"
| "group_opr_template (ModifyGroup us name i) =
     popup ''group_opr''
       ([input ''text'' ''group_name'' [(''value'', name)], input ''hidden'' ''group_id'' [(''value'', i)]]
        @ user_choice (map (\<lambda>u. user_box (u_id u) u) us))"
| "group_opr_template (DeleteGroup g) = popup ''group_opr'' [el ''h2'' [] [] [] [tnode (g_name g)]]"
| "group_opr_template (RemoveUsers us is) =
     popup ''group_opr'' [el ''ul'' [] [] [] (map (\<lambda>u. el ''li'' [] [] [] [tnode (u_fullname u)]) us)]"
| "group_opr_template (MoveUsers gs us) =
     popup ''group_opr''
       [el ''form'' ''user_groups_list'' [] []
          (map (\<lambda>g. dv [] [input ''radio'' [] [(''name'', ''group_id''), (''value'', g_id g)], tnode (g_name g)]) gs
           @ [hidden_div ''group_users_list''
                (map (\<lambda>u. input ''checkbox'' (u_id u) [(''value'', u_id u), (''checked'', ''checked'')]) us)])]"

definition new_group_opr :: "group_opr \<Rightarrow> act" where
  "new_group_opr opr = new_dialog (group_opr_template opr) ''group_opr''"

section \<open>The content area\<close>

definition set_graph :: "nat \<Rightarrow> graph \<Rightarrow> act" where
  "set_graph k g p = (p\<lparr>graphs := AList.update k g (graphs p)\<rparr>, None)"

definition graph_of :: "nat \<Rightarrow> page \<Rightarrow> graph option" where
  "graph_of k p = map_of (graphs p) k"

text \<open>A content widget is named by the identity of its node; \<open>initGroupContent\<close> asks for the list of
  groups, whose answer is \<open>graph_loaded\<close>.\<close>

definition init_group_content :: "nat \<Rightarrow> act" where
  "init_group_content k = acts [set_graph k new_graph, xhr ''group/list'' False None (GraphLoaded k)]"

definition new_group_content :: "string \<Rightarrow> string \<Rightarrow> pos \<Rightarrow> tmpl \<Rightarrow> bool \<Rightarrow> act" where
  "new_group_content wid ref ps tm with_graph =
     ask fresh (\<lambda>k. acts
       [new_widget wid tm [] id (At ref) ps,
        if with_graph then init_group_content k else ok])"

definition reset_container :: act where
  "reset_container = new_group_content [] ''groups'' Only (dv [] graph_area) True"

definition show_group_users :: "group \<Rightarrow> act" where
  "show_group_users g = new_group_content [] ''groups'' Only (group_users_template g) False"

definition groups_panel_content :: act where
  "groups_panel_content = new_group_content ''groups'' ''content'' Last (hidden_div [] graph_area) True"

definition graph_loaded :: "nat \<Rightarrow> reply \<Rightarrow> act" where
  "graph_loaded k r =
     (case r of
        Failed m \<Rightarrow> console_error m
      | Answer d \<Rightarrow>
          (case r_groups d of
             None \<Rightarrow> throw (TypeError ''groups is undefined'')
           | Some gs \<Rightarrow>
               ask (graph_of k) (\<lambda>g. case g of
                   None \<Rightarrow> ok
                 | Some g \<Rightarrow> (case convert_to_d3 gs of (ns, ls) \<Rightarrow> set_graph k (g\<lparr>gr_nodes := ns, gr_links := ls\<rparr>)))))"

text \<open>A click on node \<open>i\<close> of the graph, and the three buttons.\<close>

definition graph_click :: "nat \<Rightarrow> nat \<Rightarrow> act" where
  "graph_click k i =
     ask (graph_of k) (\<lambda>g. case g of
         None \<Rightarrow> ok
       | Some g \<Rightarrow>
           if i < length (gr_nodes g)
           then (case click i g of (g', e) \<Rightarrow> acts [set_graph k g', (case e of None \<Rightarrow> ok | Some x \<Rightarrow> throw x)])
           else ok)"

definition with_graph :: "nat \<Rightarrow> (graph \<Rightarrow> act) \<Rightarrow> act" where
  "with_graph k f = ask (graph_of k) (\<lambda>g. case g of None \<Rightarrow> ok | Some g \<Rightarrow> f g)"

definition remove_user :: "nat \<Rightarrow> act" where
  "remove_user k = with_graph k (\<lambda>g.
     if gr_users g \<noteq> []
     then new_group_opr (RemoveUsers (sel_users g) (map u_id (sel_users g)))
     else info (title_body ''Error'' (Some ''No user is selected to remove.'')))"

definition delete_group :: "nat \<Rightarrow> act" where
  "delete_group k = with_graph k (\<lambda>g.
     case sel_group g of
       None \<Rightarrow> info (title_body ''Error'' (Some ''No group is selected to delete.''))
     | Some d \<Rightarrow> new_group_opr (DeleteGroup d))"

definition update_user_group :: "nat \<Rightarrow> act" where
  "update_user_group k = with_graph k (\<lambda>g.
     if gr_users g \<noteq> []
     then xhr ''/group/list'' False None (GraphMoveForm (sel_users g))
     else info (title_body ''Error'' (Some ''No user is selected to update.'')))"

definition graph_move_form :: "user list \<Rightarrow> reply \<Rightarrow> act" where
  "graph_move_form us r =
     (case r of
        Failed m \<Rightarrow> console_error m
      | Answer d \<Rightarrow>
          (case r_groups d of
             None \<Rightarrow> throw (TypeError ''groups is undefined'')
           | Some gs \<Rightarrow>
               (case other_groups us gs of
                  Inl e \<Rightarrow> throw e
                | Inr gs' \<Rightarrow> new_group_opr (MoveUsers gs' us))))"

section \<open>Rows and the list\<close>

definition group_row :: "string \<Rightarrow> pos \<Rightarrow> group \<Rightarrow> act" where
  "group_row ref ps g = widget (group_row_template g) ref ps"

definition group_list_topics :: "(string \<times> listener) list" where
  "group_list_topics =
     [(''/stomp/group_create'', LGroupCreate), (''/stomp/group_change'', LGroupChange),
      (''/stomp/group_delete'', LGroupDelete), (''/stomp/groups_content'', LGroupsContent)]"

definition group_list_post_create :: act where
  "group_list_post_create = acts
     [new_widget ''groups_panel'' group_list_template group_list_topics id (At ''control_panel'') Last,
      xhr ''/group/list'' False None GroupListLoaded]"

definition group_list_loaded :: "reply \<Rightarrow> act" where
  "group_list_loaded r =
     (case r of
        Failed m \<Rightarrow> console_error m
      | Answer d \<Rightarrow> acts (map (group_row ''group_list'' Last) (js_list (r_groups d))))"

definition show_user_choice :: "user list option \<Rightarrow> act" where
  "show_user_choice us =
     (case us of
        None \<Rightarrow> throw (TypeError ''users is undefined'')
      | Some [] \<Rightarrow> acts [jq_id ''user-list-warning'' (set_css ''display'' ''block''),
                        jq_id ''user-list-in-group'' (set_css ''display'' ''none'')]
      | Some (u # _) \<Rightarrow> acts [jq_id ''user-list-in-group'' (set_css ''display'' ''block''),
                             jq_id ''user-list-warning'' (set_css ''display'' ''none'')])"

definition group_list_on_create :: act where
  "group_list_on_create = xhr ''/user/nongrouplist'' False None GroupCreateForm"

definition group_create_form :: "reply \<Rightarrow> act" where
  "group_create_form r =
     (case r of
        Failed m \<Rightarrow> console_error m
      | Answer d \<Rightarrow> acts [new_group_opr (CreateGroup (js_list (r_users d))), show_user_choice (r_users d)])"

definition jq_attr :: "string \<Rightarrow> string \<Rightarrow> page \<Rightarrow> string option" where
  "jq_attr i n p = (case by_id i (pdoc p) of None \<Rightarrow> None | Some m \<Rightarrow> attr (ninfo m) n)"

definition group_list_on_change :: act where
  "group_list_on_change =
     ask (checked_values ''checkbox'' ''group_list_table'') (\<lambda>groups. case groups of
         [] \<Rightarrow> msgbox ''No group selected''
       | [i] \<Rightarrow>
           ask (jq_attr (i @ ''_group_row_name'') ''name'') (\<lambda>name.
             ask (jq_attr (i @ ''_group_row_users'') ''name'') (\<lambda>us. case us of
                 None \<Rightarrow> throw (TypeError ''attr(name) is undefined'')
               | Some us \<Rightarrow>
                   xhr ''/user/list'' False None
                     (GroupModifyForm (case name of None \<Rightarrow> [] | Some n \<Rightarrow> n) i (split_on CHR '','' us))))
       | _ \<Rightarrow> msgbox ''Please select only one group to modify.'')"

definition group_modify_form :: "string \<Rightarrow> string \<Rightarrow> string list \<Rightarrow> reply \<Rightarrow> act" where
  "group_modify_form name i us r =
     (case r of
        Failed m \<Rightarrow> console_error m
      | Answer d \<Rightarrow> acts (new_group_opr (ModifyGroup (js_list (r_users d)) name i)
                     # map (\<lambda>u. jq_id u (set_checked True)) us))"

definition group_list_on_delete :: act where
  "group_list_on_delete =
     ask (checked_values ''checkbox'' ''group_list_table'') (\<lambda>groups.
       if groups = [] then msgbox ''No group selected''
       else xhr ''/group/delete'' True None (GroupsDeleted groups))"

definition groups_deleted :: "string list \<Rightarrow> reply \<Rightarrow> act" where
  "groups_deleted groups r =
     (case r of
        Failed m \<Rightarrow> console_error m
      | Answer d \<Rightarrow> acts (info (title_body ''Succussfully deleted'' (r_msg d))
                     # map (\<lambda>i. destroy_id (i @ ''_app_row'')) groups))"

text \<open>The listeners.\<close>

definition group_create :: "response \<Rightarrow> act" where
  "group_create d = acts
     (info (title_body (if r_error d then ''Error'' else ''Succussfully created'') (r_msg d))
      # (if r_error d then []
         else reset_container # map (group_row ''group_list'' Last) (js_list (r_groups d))))"

definition group_change :: "response \<Rightarrow> act" where
  "group_change d = acts
     (info (title_body (if r_error d then ''Error'' else ''Succussfully updated'') (r_msg d))
      # (if r_error d then []
         else reset_container
           # map (\<lambda>g. group_row (g_id g @ ''_group_row'') Replace g) (js_list (r_groups d))))"

definition group_delete :: "response \<Rightarrow> group \<Rightarrow> act" where
  "group_delete d g = acts
     [info (title_body ''Succussfully deleted'' (r_msg d)), reset_container, destroy_id (g_id g @ ''_group_row'')]"

definition groups_content :: act where
  "groups_content = xhr ''/group/list'' False None GroupsShown"

definition groups_shown :: "reply \<Rightarrow> act" where
  "groups_shown r = (case r of Failed m \<Rightarrow> console_error m | Answer d \<Rightarrow> reset_container)"

fun group_listener :: "response \<Rightarrow> group option \<Rightarrow> listener \<Rightarrow> act" where
  "group_listener d g LGroupCreate = group_create d"
| "group_listener d g LGroupChange = group_change d"
| "group_listener d None LGroupDelete = throw (TypeError ''group is undefined'')"
| "group_listener d (Some g) LGroupDelete = group_delete d g"
| "group_listener d g LGroupsContent = groups_content"
| "group_listener d g _ = ok"

definition no_data :: response where
  "no_data = \<lparr>r_error = False, r_msg = None, r_groups = None, r_users = None, r_hosts = None,
     r_storages = None, r_volumes = None, r_apps = None\<rparr>"

definition show_all_groups :: act where
  "show_all_groups = publish (group_listener no_data None) ''/stomp/groups_content''"

text \<open>The buttons of a row.\<close>

definition group_row_on_change :: "group \<Rightarrow> act" where
  "group_row_on_change g = xhr (''/user/nongrouplist/'' @ g_id g) False None (GroupRowForm g)"

definition group_row_form :: "group \<Rightarrow> reply \<Rightarrow> act" where
  "group_row_form g r =
     (case r of
        Failed m \<Rightarrow> console_error m
      | Answer d \<Rightarrow> acts (new_group_opr (ModifyGroup (js_list (r_users d)) (g_name g) (g_id g))
                     # map (\<lambda>u. jq_id (u_id u) (set_checked True)) (g_users g)
                     @ [show_user_choice (r_users d)]))"

definition group_row_on_delete :: "group \<Rightarrow> act" where
  "group_row_on_delete g = new_group_opr (DeleteGroup g)"

section \<open>The buttons of a dialog\<close>

text \<open>\<open>validate\<close> continues with \<open>k\<close> when it returns true. Its \<open>cleanup\<close> takes away the class
  \<^verbatim>\<open>err-highligh-input\<close>, a name nothing sets.\<close>

definition err_class :: string where
  "err_class = ''err-highlight-input''"

definition group_cleanup :: act where
  "group_cleanup = jq_id ''group_name'' (remove_class ''err-highligh-input'')"

definition group_validate :: "act \<Rightarrow> act" where
  "group_validate k = acts
     [group_cleanup,
      with_value ''group_name'' (\<lambda>v.
        if js_trim v = [] then jq_id ''group_name'' (add_class err_class) else k)]"

definition group_opr_add :: act where
  "group_opr_add = group_validate
     (ask (checked_values ''checkbox'' ''group_users'') (\<lambda>users.
       with_value ''group_name'' (\<lambda>name.
         submit ''Please wait while we create group'' ''/group/create''
           (to_json [(''name'', Some (JStr name)), (''users'', Some (JArr (map JStr users)))]) GroupAdded)))"

definition group_added :: "reply \<Rightarrow> act" where
  "group_added r =
     (case r of
        Answer d \<Rightarrow> acts [if r_error d then ok else trigger_close ''group_opr'', stop_load,
                         publish (group_listener d None) ''/stomp/group_create'']
      | Failed m \<Rightarrow> acts [stop_load, msgbox_of m])"

definition group_selectall :: "bool \<Rightarrow> act" where
  "group_selectall b = check_all ''checkbox'' ''group_users'' b"

definition group_opr_update :: act where
  "group_opr_update = group_validate
     (ask (checked_values ''checkbox'' ''group_users'') (\<lambda>users.
       ask (jq_val ''group_id'') (\<lambda>i.
         with_value ''group_name'' (\<lambda>name.
           submit ''Please wait while we update the group'' ''/group/update''
             (to_json [(''name'', Some (JStr name)), (''users'', Some (JArr (map JStr users))),
                       (''id'', map_option JStr i)]) GroupUpdated))))"

definition group_updated :: "reply \<Rightarrow> act" where
  "group_updated r =
     (case r of
        Answer d \<Rightarrow> acts [stop_load, publish (group_listener d None) ''/stomp/group_change'',
                         if r_error d then ok else trigger_close ''group_opr'']
      | Failed m \<Rightarrow> acts [stop_load, msgbox_of m])"

definition group_opr_del :: "group \<Rightarrow> act" where
  "group_opr_del g = submit ''Please wait while we delete the group'' ''/group/delete''
     (to_json [(''id'', Some (JStr (g_id g)))]) (GroupDeleted g)"

definition group_deleted :: "group \<Rightarrow> reply \<Rightarrow> act" where
  "group_deleted g r =
     (case r of
        Answer d \<Rightarrow> acts [stop_load, publish (group_listener d (Some g)) ''/stomp/group_delete'',
                         trigger_close ''group_opr'']
      | Failed m \<Rightarrow> acts [stop_load, msgbox_of m])"

text \<open>The overlay comes up before the group's id is read off the first user.\<close>

definition group_opr_remove_user :: "user list \<Rightarrow> string list \<Rightarrow> act" where
  "group_opr_remove_user us is =
     (case us of
        u # _ \<Rightarrow>
          (case u_group u of
             Some (i, n) \<Rightarrow>
               submit ''Please wait while we remove user from group'' ''/group/removeuser''
                 (to_json [(''id'', Some (JStr i)), (''users'', Some (JArr (map JStr is)))]) GroupUserRemoved
           | None \<Rightarrow> acts [start_load (Some ''Please wait while we remove user from group''),
                          throw (TypeError ''group is undefined'')])
      | [] \<Rightarrow> acts [start_load (Some ''Please wait while we remove user from group''),
                   throw (TypeError ''users[0] is undefined'')])"

definition group_user_removed :: "reply \<Rightarrow> act" where
  "group_user_removed r =
     (case r of
        Answer d \<Rightarrow> acts [stop_load, publish (group_listener d None) ''/stomp/groups_content'',
                         trigger_close ''group_opr'']
      | Failed m \<Rightarrow> acts [stop_load, msgbox_of m])"

definition group_opr_move_user :: act where
  "group_opr_move_user =
     ask (checked_values ''checkbox'' ''group_users_list'') (\<lambda>users.
       ask (radio_value ''group_id'' ''user_groups_list'') (\<lambda>i.
         submit ''Please wait while we update the user's group'' ''/group/addusertogroup''
           (to_json [(''users'', Some (JArr (map JStr users))), (''id'', map_option JStr i)]) GroupUserMoved))"

definition group_user_moved :: "reply \<Rightarrow> act" where
  "group_user_moved r =
     (case r of
        Answer d \<Rightarrow> acts [stop_load, publish (group_listener d None) ''/stomp/groups_content'',
                         if r_error d then ok else trigger_close ''group_opr'']
      | Failed m \<Rightarrow> acts [stop_load, msgbox_of m])"


section \<open>Every method keeps the invariants of the page\<close>

lemmas act_intros = presv_acts presv_ask presv_with_value presv_publish

context page_core begin

lemma set_graph_presv: "presv I (set_graph k g)"
  by (simp add: presv_def set_graph_def graph_law)

lemma new_group_content_presv: "wid \<noteq> dialog \<Longrightarrow> presv I (new_group_content wid ref ps tm b)"
  by (auto simp: new_group_content_def init_group_content_def intro!: act_intros plain_widget_law set_graph_presv steps)

lemma group_content_presv:
  "presv I reset_container" "presv I (show_group_users g)" "presv I groups_panel_content"
  unfolding reset_container_def show_group_users_def groups_panel_content_def
  by (rule new_group_content_presv, simp add: dialog_def)+

lemma new_group_opr_presv: "presv I (new_group_opr opr)"
  by (simp add: new_group_opr_def new_dialog_law)

lemma graph_presv:
  "presv I (graph_loaded k r)" "presv I (graph_click k i)" "presv I (remove_user k)"
  "presv I (delete_group k)" "presv I (update_user_group k)" "presv I (graph_move_form us r)"
  by (auto simp: graph_loaded_def graph_click_def with_graph_def remove_user_def delete_group_def
      update_user_group_def graph_move_form_def Let_def
      intro!: act_intros set_graph_presv new_group_opr_presv steps
      split: reply.splits option.splits sum.splits prod.splits)

lemma group_row_presv: "presv I (group_row ref ps g)"
  by (simp add: group_row_def widget_presv)

lemma group_list_presv:
  "presv I (group_list_loaded r)" "presv I group_list_on_create"
  "presv I (group_create_form r)" "presv I group_list_on_change" "presv I (group_modify_form n i us r)"
  "presv I group_list_on_delete" "presv I (groups_deleted gs r)" "presv I (groups_shown r)"
  "presv I (group_row_on_change g)" "presv I (group_row_form g r)" "presv I (group_row_on_delete g)"
  by (auto simp: group_list_loaded_def group_list_on_create_def group_create_form_def
      show_user_choice_def group_list_on_change_def group_modify_form_def group_list_on_delete_def
      groups_deleted_def groups_shown_def group_row_on_change_def group_row_form_def group_row_on_delete_def dialog_def
      intro!: act_intros plain_widget_law new_group_opr_presv group_row_presv group_content_presv steps
      split: reply.splits option.splits list.splits)

lemma group_listener_presv: "presv I (group_listener d g l)"
proof -
  have "presv I (group_create d)" "presv I (group_change d)" "presv I (group_delete d g)" "presv I groups_content" for g
    by (auto simp: group_create_def group_change_def group_delete_def groups_content_def
        intro!: act_intros group_row_presv group_content_presv steps)
  then show ?thesis by (cases l; cases g) auto
qed

lemma group_replies_presv:
  "presv I (group_added r)" "presv I (group_updated r)" "presv I (group_deleted g r)"
  "presv I (group_user_removed r)" "presv I (group_user_moved r)"
  by (auto simp: group_added_def group_updated_def group_deleted_def group_user_removed_def group_user_moved_def
      intro!: act_intros steps group_listener_presv split: reply.splits)

end

context page_steps begin

lemma group_list_post_create_presv: "presv I group_list_post_create"
  by (auto simp: group_list_post_create_def dialog_def intro!: act_intros new_widget_law subscribe_law steps split: option.splits)

end

context page_inv begin

lemma group_opr_presv:
  "presv I group_opr_add" "presv I (group_selectall b)" "presv I group_opr_update"
  "presv I (group_opr_del g)" "presv I group_opr_move_user" "presv I show_all_groups"
  by (auto simp: group_opr_add_def group_validate_def group_cleanup_def group_selectall_def group_opr_update_def
      group_opr_del_def group_opr_move_user_def show_all_groups_def
      intro!: act_intros steps submit_law group_listener_presv)

lemma group_opr_remove_presv:
  "us \<noteq> [] \<Longrightarrow> u_group (hd us) \<noteq> None \<Longrightarrow> presv I (group_opr_remove_user us is)"
  by (cases us) (auto simp: group_opr_remove_user_def intro!: submit_law)

end

end
