(* ===== verification/Regex.thy ===== *)
theory Regex
  imports Prelude
begin

text \<open>
  The regular expressions of JavaScript that the console's validators use, without captures: classes
  of characters, concatenation, alternatives, \<^verbatim>\<open>?\<close>, \<^verbatim>\<open>+\<close> and \<^verbatim>\<open>{m,n}\<close>. Every pattern of
  \<^verbatim>\<open>util.js\<close> is anchored at both ends, so \<^verbatim>\<open>test\<close> is the membership of the whole string, which
  \<open>re_test\<close> decides by taking derivatives; \<open>re_test_iff\<close> says so.
\<close>

datatype re = Zero | One | Cls "char list" | Seq re re | Alt re re | Star re

definition Opt :: "re \<Rightarrow> re" where "Opt r = Alt One r"
definition Plus :: "re \<Rightarrow> re" where "Plus r = Seq r (Star r)"

fun Rep :: "nat \<Rightarrow> nat \<Rightarrow> re \<Rightarrow> re" where
  "Rep (Suc m) k r = Seq r (Rep m k r)"
| "Rep 0 (Suc k) r = Opt (Seq r (Rep 0 k r))"
| "Rep 0 0 r = One"

fun lang :: "re \<Rightarrow> string set" where
  "lang Zero = {}"
| "lang One = {[]}"
| "lang (Cls cs) = {[c] | c. c \<in> set cs}"
| "lang (Seq r s) = {u @ v | u v. u \<in> lang r \<and> v \<in> lang s}"
| "lang (Alt r s) = lang r \<union> lang s"
| "lang (Star r) = {concat ws | ws. set ws \<subseteq> lang r}"

fun nullable :: "re \<Rightarrow> bool" where
  "nullable Zero = False"
| "nullable One = True"
| "nullable (Cls cs) = False"
| "nullable (Seq r s) = (nullable r \<and> nullable s)"
| "nullable (Alt r s) = (nullable r \<or> nullable s)"
| "nullable (Star r) = True"

fun deriv :: "char \<Rightarrow> re \<Rightarrow> re" where
  "deriv c Zero = Zero"
| "deriv c One = Zero"
| "deriv c (Cls cs) = (if c \<in> set cs then One else Zero)"
| "deriv c (Seq r s) = (if nullable r then Alt (Seq (deriv c r) s) (deriv c s) else Seq (deriv c r) s)"
| "deriv c (Alt r s) = Alt (deriv c r) (deriv c s)"
| "deriv c (Star r) = Seq (deriv c r) (Star r)"

definition re_test :: "re \<Rightarrow> string \<Rightarrow> bool" where
  "re_test r s = nullable (fold deriv s r)"

lemma nullable_lang: "nullable r \<longleftrightarrow> [] \<in> lang r"
  by (induction r) (auto intro: exI [of _ "[]"])

lemma star_Cons:
  "c # w \<in> lang (Star r) \<longleftrightarrow> (\<exists>u v. w = u @ v \<and> c # u \<in> lang r \<and> v \<in> lang (Star r))"
proof
  assume "c # w \<in> lang (Star r)"
  then obtain ws where ws: "c # w = concat ws" "set ws \<subseteq> lang r" by auto
  then show "\<exists>u v. w = u @ v \<and> c # u \<in> lang r \<and> v \<in> lang (Star r)"
  proof (induction ws)
    case (Cons x xs)
    show ?case
    proof (cases x)
      case Nil
      with Cons show ?thesis by simp
    next
      case (Cons d u)
      with Cons.prems have "w = u @ concat xs" "c # u \<in> lang r" "concat xs \<in> lang (Star r)" by auto
      then show ?thesis by blast
    qed
  qed simp
next
  assume "\<exists>u v. w = u @ v \<and> c # u \<in> lang r \<and> v \<in> lang (Star r)"
  then obtain u ws where "w = u @ concat ws" "c # u \<in> lang r" "set ws \<subseteq> lang r" by auto
  then have "c # w = concat ((c # u) # ws)" "set ((c # u) # ws) \<subseteq> lang r" by auto
  then show "c # w \<in> lang (Star r)" unfolding lang.simps by blast
qed

lemma seq_Cons:
  "c # w \<in> lang (Seq r s) \<longleftrightarrow>
     (\<exists>u v. w = u @ v \<and> c # u \<in> lang r \<and> v \<in> lang s) \<or> [] \<in> lang r \<and> c # w \<in> lang s"
  by (auto simp: Cons_eq_append_conv)

lemma deriv_lang: "w \<in> lang (deriv c r) \<longleftrightarrow> c # w \<in> lang r"
proof (induction r arbitrary: w)
  case (Seq r s)
  then show ?case by (auto simp: seq_Cons nullable_lang simp del: lang.simps(4)) (auto simp: Seq)
next
  case (Star r)
  have "w \<in> lang (deriv c (Star r)) \<longleftrightarrow> (\<exists>u v. w = u @ v \<and> c # u \<in> lang r \<and> v \<in> lang (Star r))"
    using Star by (auto simp del: lang.simps(6))
  then show ?case by (simp only: star_Cons)
qed auto

text \<open>\<^verbatim>\<open>test\<close> of an anchored pattern.\<close>

lemma re_test_iff: "re_test r s \<longleftrightarrow> s \<in> lang r"
  unfolding re_test_def by (induction s arbitrary: r) (auto simp: nullable_lang deriv_lang)

lemma seq_cls: "lang (Seq (Cls cs) s) = {c # v | c v. c \<in> set cs \<and> v \<in> lang s}"
proof -
  have "c # v \<in> lang (Seq (Cls cs) s)" if "c \<in> set cs" "v \<in> lang s" for c v
    using that by (auto simp: seq_Cons simp del: lang.simps(4) intro: exI [of _ "[]"])
  then show ?thesis by auto
qed

lemma lang_cls_star: "lang (Star (Cls cs)) = {w. set w \<subseteq> set cs}"
proof -
  have "w \<in> lang (Star (Cls cs))" if "set w \<subseteq> set cs" for w
  proof -
    have "w = concat (map (\<lambda>c. [c]) w)" "set (map (\<lambda>c. [c]) w) \<subseteq> lang (Cls cs)" using that by auto
    then show ?thesis unfolding lang.simps(6) by blast
  qed
  moreover have "set w \<subseteq> set cs" if "w \<in> lang (Star (Cls cs))" for w
    using that by fastforce
  ultimately show ?thesis by blast
qed

lemma lang_cls_plus: "lang (Plus (Cls cs)) = {w. w \<noteq> [] \<and> set w \<subseteq> set cs}"
  unfolding Plus_def seq_cls lang_cls_star by (force simp: neq_Nil_conv)

lemma lang_cls_rep: "w \<in> lang (Rep m k (Cls cs)) \<longleftrightarrow> m \<le> length w \<and> length w \<le> m + k \<and> set w \<subseteq> set cs"
proof (induction m k "Cls cs" arbitrary: w rule: Rep.induct)
  case (1 m k)
  then show ?case by (cases w) (auto simp: seq_cls simp del: lang.simps(4))
next
  case (2 k)
  then show ?case by (cases w) (auto simp: Opt_def seq_cls simp del: lang.simps(4))
qed auto

end
