(* ===== verification/StompUtil.thy ===== *)
theory StompUtil
  imports Complex_Main Regex
begin

text \<open>
  \<^verbatim>\<open>stomp/widgets/util.js\<close>: sizes, validators and dates. A JavaScript number is a rational
  (\<open>None\<close> is NaN): the sizes the console handles stay far below the range where doubles round.
  \<open>parse_float\<close> and \<open>parse_int\<close> are the language's functions but for \<^verbatim>\<open>Infinity\<close>.
\<close>

section \<open>Reading and writing numbers\<close>

definition split_sign :: "string \<Rightarrow> bool \<times> string" where
  "split_sign s = (case s of
     c # t \<Rightarrow> if c = CHR ''-'' then (True, t) else if c = CHR ''+'' then (False, t) else (False, s)
   | [] \<Rightarrow> (False, []))"

definition parse_float :: "string \<Rightarrow> rat option" where
  "parse_float str =
     (case split_sign (dropWhile js_space str) of (neg, s) \<Rightarrow>
       (let ip = takeWhile is_digit s;
            r = dropWhile is_digit s;
            dot = (r \<noteq> [] \<and> hd r = CHR ''.'');
            fp = (if dot then takeWhile is_digit (tl r) else []);
            r2 = (if dot then dropWhile is_digit (tl r) else r);
            ex = (if r2 \<noteq> [] \<and> hd r2 \<in> {CHR ''e'', CHR ''E''}
                  then (case split_sign (tl r2) of (n, t) \<Rightarrow>
                          (let e = int (digits_val 0 (takeWhile is_digit t)) in if n then - e else e))
                  else 0);
            v = (of_nat (digits_val 0 ip) + of_nat (digits_val 0 fp) / 10 ^ length fp) * (10 powi ex)
        in if ip = [] \<and> fp = [] then None else Some (if neg then - v else v)))"

definition hex_digit :: "char \<Rightarrow> nat option" where
  "hex_digit c =
     (let n = of_char c :: nat
      in if 48 \<le> n \<and> n \<le> 57 then Some (n - 48)
         else if 97 \<le> n \<and> n \<le> 102 then Some (n - 87)
         else if 65 \<le> n \<and> n \<le> 70 then Some (n - 55) else None)"

definition parse_int :: "string \<Rightarrow> int option" where
  "parse_int str =
     (case split_sign (dropWhile js_space str) of (neg, s) \<Rightarrow>
       (if take 2 s \<in> {''0x'', ''0X''}
        then (let ds = takeWhile (\<lambda>c. hex_digit c \<noteq> None) (drop 2 s);
                  v = int (foldl (\<lambda>a c. 16 * a + the (hex_digit c)) 0 ds)
              in if ds = [] then None else Some (if neg then - v else v))
        else (let ds = takeWhile is_digit s; v = int (digits_val 0 ds)
              in if ds = [] then None else Some (if neg then - v else v))))"

definition two_digits :: "nat \<Rightarrow> string" where
  "two_digits n = [digit_char (n div 10), digit_char (n mod 10)]"

definition to_fixed2 :: "rat \<Rightarrow> string" where
  "to_fixed2 x =
     (let n = nat \<lfloor>\<bar>x\<bar> * 100 + 1 / 2\<rfloor>
      in (if x < 0 then ''-'' else []) @ nat_str (n div 100) @ ''.'' @ two_digits (n mod 100))"

section \<open>Sizes\<close>

text \<open>\<^verbatim>\<open>%\<close> of numbers keeps the sign of the dividend; \<^verbatim>\<open>1 >> 10\<close> is 0.\<close>

definition js_mod :: "rat \<Rightarrow> rat \<Rightarrow> rat" where
  "js_mod a m = (let q = a / m in a - m * of_int (if q < 0 then \<lceil>q\<rceil> else \<lfloor>q\<rfloor>))"

definition get_mega_bytes :: "string \<Rightarrow> rat option" where
  "get_mega_bytes data =
     (let parts = split_on CHR '' '' data;
          val = parts ! 0;
          scale = (if 1 < length parts then parts ! 1 else ''undefined'')
      in if scale = ''TB'' then map_option (\<lambda>v. v * 2 ^ 20) (parse_float val)
         else if scale = ''GB'' then map_option (\<lambda>v. v * 2 ^ 10) (parse_float val)
         else if scale = ''MB'' then parse_float val
         else if scale = ''KB'' then map_option (\<lambda>v. js_mod v (2 ^ 10)) (parse_float val)
         else map_option (\<lambda>v. js_mod v (2 ^ 20)) (parse_float val))"

definition getusize_int :: "int \<Rightarrow> string" where
  "getusize_int n =
     (if 2 ^ 20 \<le> n then to_fixed2 (of_int n / 2 ^ 20) @ '' TB''
      else if 2 ^ 10 \<le> n then to_fixed2 (of_int n / 2 ^ 10) @ '' GB''
      else if 1 \<le> n then int_str n @ '' MB''
      else if n < 0 then int_str (n * 2 ^ 10) @ '' KB''
      else int_str (n * 2 ^ 20) @ '' B'')"

definition getusize :: "string \<Rightarrow> string" where
  "getusize data = (case parse_int data of None \<Rightarrow> ''NaN B'' | Some n \<Rightarrow> getusize_int n)"

section \<open>Validators\<close>

definition digit_cls :: "char list" where
  "digit_cls = ''0123456789''"

definition lower_cls :: "char list" where
  "lower_cls = ''abcdefghijklmnopqrstuvwxyz''"

definition upper_cls :: "char list" where
  "upper_cls = ''ABCDEFGHIJKLMNOPQRSTUVWXYZ''"

definition octet_re :: re where
  "octet_re =
     Alt (Seq (Cls ''2'') (Seq (Cls ''5'') (Cls ''012345'')))
    (Alt (Seq (Cls ''2'') (Seq (Cls ''01234'') (Cls digit_cls)))
         (Seq (Opt (Cls ''01'')) (Seq (Cls digit_cls) (Opt (Cls digit_cls)))))"

definition ip_re :: re where
  "ip_re = Seq octet_re (Seq (Cls ''.'') (Seq octet_re (Seq (Cls ''.'')
     (Seq octet_re (Seq (Cls ''.'') octet_re)))))"

definition is_valid_ip :: "string \<Rightarrow> bool" where
  "is_valid_ip data = re_test ip_re data"

definition email_re :: re where
  "email_re = Seq (Plus (Cls (lower_cls @ upper_cls @ digit_cls @ ''._-'')))
     (Seq (Cls ''@'') (Seq (Plus (Cls (lower_cls @ upper_cls @ digit_cls @ ''.-'')))
       (Seq (Cls ''.'') (Rep 2 4 (Cls (lower_cls @ upper_cls))))))"

definition is_valid_email :: "string \<Rightarrow> bool" where
  "is_valid_email data = re_test email_re data"

definition is_valid_username :: "string \<Rightarrow> bool" where
  "is_valid_username data = re_test (Plus (Cls (lower_cls @ digit_cls))) data"

text \<open>An octet in the usual sense: one to three digits of value at most 255.\<close>

definition is_octet :: "string \<Rightarrow> bool" where
  "is_octet w \<longleftrightarrow> w \<noteq> [] \<and> length w \<le> 3 \<and> list_all is_digit w \<and> digits_val 0 w \<le> 255"

lemma set_chars: "b \<le> 256 \<Longrightarrow> c \<in> set (map char_of [a..<b]) \<longleftrightarrow> a \<le> of_char c \<and> of_char c < (b :: nat)"
proof -
  assume b: "b \<le> 256"
  have "c \<in> char_of ` {a..<b} \<longleftrightarrow> of_char c \<in> {a..<b}"
  proof
    assume "c \<in> char_of ` {a..<b}"
    then obtain n where "c = char_of n" "n \<in> {a..<b}" by auto
    with b show "of_char c \<in> {a..<b}" by simp
  next
    assume "of_char c \<in> {a..<b}"
    then show "c \<in> char_of ` {a..<b}" by (metis char_of_char image_eqI)
  qed
  then show ?thesis by simp
qed

lemma class_ranges:
  "digit_cls = map char_of [48..<58 :: nat]" "''012345'' = map char_of [48..<54 :: nat]"
  "''01234'' = map char_of [48..<53 :: nat]" "''01'' = map char_of [48..<50 :: nat]"
  "''2'' = map char_of [50..<51 :: nat]" "''5'' = map char_of [53..<54 :: nat]"
  by code_simp+

lemma digit_cls: "c \<in> set digit_cls \<longleftrightarrow> is_digit c"
  unfolding class_ranges(1) set_chars [of 58 c 48, simplified] is_digit_def
  by (subst set_chars) auto

lemma digit_classes:
  "c \<in> set ''012345'' \<longleftrightarrow> is_digit c \<and> char_digit c \<le> 5"
  "c \<in> set ''01234'' \<longleftrightarrow> is_digit c \<and> char_digit c \<le> 4"
  "c \<in> set ''01'' \<longleftrightarrow> is_digit c \<and> char_digit c \<le> 1"
  "c \<in> set ''2'' \<longleftrightarrow> is_digit c \<and> char_digit c = 2"
  "c \<in> set ''5'' \<longleftrightarrow> is_digit c \<and> char_digit c = 5"
proof -
  show "c \<in> set ''012345'' \<longleftrightarrow> is_digit c \<and> char_digit c \<le> 5"
    by (subst class_ranges(2), subst set_chars) (auto simp: is_digit_def char_digit_def)
  show "c \<in> set ''01234'' \<longleftrightarrow> is_digit c \<and> char_digit c \<le> 4"
    by (subst class_ranges(3), subst set_chars) (auto simp: is_digit_def char_digit_def)
  show "c \<in> set ''01'' \<longleftrightarrow> is_digit c \<and> char_digit c \<le> 1"
    by (subst class_ranges(4), subst set_chars) (auto simp: is_digit_def char_digit_def)
  show "c \<in> set ''2'' \<longleftrightarrow> is_digit c \<and> char_digit c = 2"
    by (subst class_ranges(5), subst set_chars) (auto simp: is_digit_def char_digit_def)
  show "c \<in> set ''5'' \<longleftrightarrow> is_digit c \<and> char_digit c = 5"
    by (subst class_ranges(6), subst set_chars) (auto simp: is_digit_def char_digit_def)
qed

lemma char_digit_le: "is_digit c \<Longrightarrow> char_digit c \<le> 9"
  by (auto simp: is_digit_def char_digit_def)

lemma octet_iff: "w \<in> lang octet_re \<longleftrightarrow> is_octet w"
proof -
  have two: "c # v \<in> lang (Seq (Cls ''2'') r) \<longleftrightarrow> is_digit c \<and> char_digit c = 2 \<and> v \<in> lang r" for c v r
    using digit_classes(4) [of c] by (simp add: seq_cls del: lang.simps(4))
  have five: "c # v \<in> lang (Seq (Cls ''5'') r) \<longleftrightarrow> is_digit c \<and> char_digit c = 5 \<and> v \<in> lang r" for c v r
    using digit_classes(5) [of c] by (simp add: seq_cls del: lang.simps(4))
  have four: "c # v \<in> lang (Seq (Cls ''01234'') r) \<longleftrightarrow> is_digit c \<and> char_digit c \<le> 4 \<and> v \<in> lang r" for c v r
    using digit_classes(2) [of c] by (simp add: seq_cls del: lang.simps(4))
  have any: "c # v \<in> lang (Seq (Cls digit_cls) r) \<longleftrightarrow> is_digit c \<and> v \<in> lang r" for c v r
    by (simp add: seq_cls digit_cls del: lang.simps(4))
  have one: "c # v \<in> lang (Seq (Opt (Cls ''01'')) r) \<longleftrightarrow> is_digit c \<and> char_digit c \<le> 1 \<and> v \<in> lang r \<or> c # v \<in> lang r" for c v r
    using digit_classes(3) [of c] by (auto simp: seq_Cons Opt_def simp del: lang.simps(4))
  have nil: "[] \<notin> lang octet_re" by (simp add: octet_re_def nullable_lang [symmetric] Opt_def)
  have last: "v \<in> lang (Cls digit_cls) \<longleftrightarrow> (\<exists>c. v = [c] \<and> is_digit c)"
    "v \<in> lang (Cls ''012345'') \<longleftrightarrow> (\<exists>c. v = [c] \<and> is_digit c \<and> char_digit c \<le> 5)"
    "v \<in> lang (Opt (Cls digit_cls)) \<longleftrightarrow> v = [] \<or> (\<exists>c. v = [c] \<and> is_digit c)" for v
    using digit_classes(1) by (auto simp: digit_cls Opt_def)
  have nils: "[] \<notin> lang (Seq (Cls cs) r)" for cs r by (simp add: seq_cls del: lang.simps(4))
  show ?thesis
  proof (cases w)
    case Nil
    then show ?thesis using nil by (simp add: is_octet_def)
  next
    case (Cons a v)
    note a = this
    have w: "w \<in> lang octet_re \<longleftrightarrow>
        is_digit a \<and> char_digit a = 2 \<and> v \<in> lang (Seq (Cls ''5'') (Cls ''012345''))
      \<or> is_digit a \<and> char_digit a = 2 \<and> v \<in> lang (Seq (Cls ''01234'') (Cls digit_cls))
      \<or> is_digit a \<and> char_digit a \<le> 1 \<and> v \<in> lang (Seq (Cls digit_cls) (Opt (Cls digit_cls)))
      \<or> is_digit a \<and> (v = [] \<or> (\<exists>c. v = [c] \<and> is_digit c))"
      unfolding a octet_re_def by (simp only: lang.simps(5) Un_iff two one any last)
    show ?thesis
    proof (cases v)
      case Nil
      with w a show ?thesis using char_digit_le [of a] by (auto simp: is_octet_def nils simp del: lang.simps(4))
    next
      case (Cons b u)
      note b = this
      show ?thesis
      proof (cases u)
        case Nil
        with w a b show ?thesis
          using char_digit_le [of a] char_digit_le [of b]
          by (auto simp: is_octet_def five four any last simp del: lang.simps)
      next
        case (Cons c t)
        show ?thesis
        proof (cases t)
          case Nil
          have "w \<in> lang octet_re \<longleftrightarrow> is_digit a \<and> is_digit b \<and> is_digit c
            \<and> (char_digit a = 2 \<and> char_digit b = 5 \<and> char_digit c \<le> 5
               \<or> char_digit a = 2 \<and> char_digit b \<le> 4 \<or> char_digit a \<le> 1)"
            unfolding w b Cons Nil by (simp only: five four any last) auto
          then show ?thesis
            using char_digit_le [of a] char_digit_le [of b] char_digit_le [of c]
            unfolding a b Cons Nil by (auto simp: is_octet_def)
        next
          case (Cons d s)
          have "w \<notin> lang octet_re" unfolding w b \<open>u = c # t\<close> Cons by (simp only: five four any last) auto
          then show ?thesis unfolding a b \<open>u = c # t\<close> Cons by (simp add: is_octet_def)
        qed
      qed
    qed
  qed
qed

lemma octet_no_dot: "is_octet w \<Longrightarrow> CHR ''.'' \<notin> set w"
  by (auto simp: is_octet_def list_all_iff is_digit_def)

text \<open>C31: \<^verbatim>\<open>is_valid_ip\<close> accepts exactly the dotted quads: four parts between dots, each of one to three
  digits and of value at most 255.\<close>
theorem is_valid_ip_iff:
  "is_valid_ip s \<longleftrightarrow> length (split_on CHR ''.'' s) = 4 \<and> list_all is_octet (split_on CHR ''.'' s)"
proof -
  have dot: "w \<in> lang (Seq octet_re (Seq (Cls ''.'') r)) \<longleftrightarrow>
      (\<exists>u v. w = u @ CHR ''.'' # v \<and> is_octet u \<and> v \<in> lang r)" for w r
    by (auto simp: seq_cls octet_iff [symmetric] lang.simps(4) [of octet_re] simp del: lang.simps(4))
  have "is_valid_ip s \<longleftrightarrow> (\<exists>a b c d. s = a @ CHR ''.'' # b @ CHR ''.'' # c @ CHR ''.'' # d
      \<and> is_octet a \<and> is_octet b \<and> is_octet c \<and> is_octet d)"
    unfolding is_valid_ip_def re_test_iff ip_re_def dot octet_iff by blast
  also have "\<dots> \<longleftrightarrow> (\<exists>a b c d. split_on CHR ''.'' s = [a, b, c, d]
      \<and> is_octet a \<and> is_octet b \<and> is_octet c \<and> is_octet d)"
  proof -
    have "split_on CHR ''.'' s = [a, b, c, d]" if "s = a @ CHR ''.'' # b @ CHR ''.'' # c @ CHR ''.'' # d"
      "is_octet a" "is_octet b" "is_octet c" "is_octet d" for a b c d
      using that octet_no_dot by (simp add: split_on_append split_on_fresh)
    moreover have "s = a @ CHR ''.'' # b @ CHR ''.'' # c @ CHR ''.'' # d"
      if "split_on CHR ''.'' s = [a, b, c, d]" for a b c d
      using join_with_split_on [of "CHR ''.''" s] that by simp
    ultimately show ?thesis by blast
  qed
  also have "\<dots> \<longleftrightarrow> length (split_on CHR ''.'' s) = 4 \<and> list_all is_octet (split_on CHR ''.'' s)"
    by (auto simp: numeral_eq_Suc length_Suc_conv)
  finally show ?thesis .
qed

lemma email_parts:
  "(\<exists>u v. s = u @ x # v \<and> u \<noteq> [] \<and> set u \<subseteq> A
      \<and> (\<exists>u' v'. v = u' @ y # v' \<and> u' \<noteq> [] \<and> set u' \<subseteq> B \<and> 2 \<le> length v' \<and> length v' \<le> 2 + 4 \<and> set v' \<subseteq> C))
   \<longleftrightarrow> (\<exists>l d t. s = l @ [x] @ d @ [y] @ t \<and> l \<noteq> [] \<and> set l \<subseteq> A \<and> d \<noteq> [] \<and> set d \<subseteq> B
        \<and> 2 \<le> length t \<and> length t \<le> 6 \<and> set t \<subseteq> C)"
  by (simp, blast)

text \<open>an accepted e-mail address is a local part, \<^verbatim>\<open>@\<close>, and a domain whose last label has two to six
  letters; a user name is accepted when it is not empty and all of lower case letters and digits.\<close>

theorem validators_accept:
  "(is_valid_email s \<longleftrightarrow>
     (\<exists>l d t. s = l @ ''@'' @ d @ ''.'' @ t \<and> l \<noteq> [] \<and> set l \<subseteq> set (lower_cls @ upper_cls @ digit_cls @ ''._-'')
        \<and> d \<noteq> [] \<and> set d \<subseteq> set (lower_cls @ upper_cls @ digit_cls @ ''.-'')
        \<and> 2 \<le> length t \<and> length t \<le> 6 \<and> set t \<subseteq> set (lower_cls @ upper_cls)))
   \<and> (is_valid_username s \<longleftrightarrow> s \<noteq> [] \<and> set s \<subseteq> set (lower_cls @ digit_cls))"
proof (rule conjI)
  have sep: "w \<in> lang (Seq (Plus (Cls cs)) (Seq (Cls [x]) r)) \<longleftrightarrow>
      (\<exists>u v. w = u @ x # v \<and> u \<noteq> [] \<and> set u \<subseteq> set cs \<and> v \<in> lang r)" for w cs x r
    unfolding lang.simps(4) [of "Plus (Cls cs)"] seq_cls lang_cls_plus by auto
  show "is_valid_email s \<longleftrightarrow>
     (\<exists>l d t. s = l @ ''@'' @ d @ ''.'' @ t \<and> l \<noteq> [] \<and> set l \<subseteq> set (lower_cls @ upper_cls @ digit_cls @ ''._-'')
        \<and> d \<noteq> [] \<and> set d \<subseteq> set (lower_cls @ upper_cls @ digit_cls @ ''.-'')
        \<and> 2 \<le> length t \<and> length t \<le> 6 \<and> set t \<subseteq> set (lower_cls @ upper_cls))"
    unfolding is_valid_email_def re_test_iff email_re_def sep lang_cls_rep by (rule email_parts)
  show "is_valid_username s \<longleftrightarrow> s \<noteq> [] \<and> set s \<subseteq> set (lower_cls @ digit_cls)"
    unfolding is_valid_username_def re_test_iff lang_cls_plus by blast
qed


section \<open>Sizes read back\<close>

lemma digits_head:
  assumes "list_all is_digit ip" "ip \<noteq> []"
  shows "split_sign (dropWhile js_space (ip @ r)) = (False, ip @ r)"
proof -
  obtain c t where c: "ip = c # t" "is_digit c" using assms by (cases ip) auto
  then have "\<not> js_space c" by (auto simp: is_digit_def js_space_def)
  moreover have "c \<noteq> CHR ''-''" "c \<noteq> CHR ''+''" using c(2) by (auto simp: is_digit_def)
  ultimately show ?thesis by (simp add: c(1) split_sign_def)
qed

lemma digits_prefix:
  assumes "list_all is_digit ip" "r = [] \<or> \<not> is_digit (hd r)"
  shows "takeWhile is_digit (ip @ r) = ip" "dropWhile is_digit (ip @ r) = r"
proof -
  have "takeWhile is_digit r = [] \<and> dropWhile is_digit r = r" using assms(2) by (cases r) auto
  with assms(1) show "takeWhile is_digit (ip @ r) = ip" "dropWhile is_digit (ip @ r) = r"
    by (simp_all add: list_all_iff)
qed

lemma parse_float_digits:
  assumes "list_all is_digit ip" "ip \<noteq> []"
  shows "parse_float ip = Some (of_nat (digits_val 0 ip))"
  using digits_head [OF assms, of "[]"] digits_prefix [OF assms(1), of "[]"] assms(2)
  by (simp add: parse_float_def Let_def del: takeWhile_eq_all_conv dropWhile_eq_Nil_conv)

lemma parse_float_decimal:
  assumes "list_all is_digit ip" "ip \<noteq> []" "list_all is_digit fp"
  shows "parse_float (ip @ CHR ''.'' # fp)
    = Some (of_nat (digits_val 0 ip) + of_nat (digits_val 0 fp) / 10 ^ length fp)"
proof -
  have "\<not> is_digit CHR ''.''" by (simp add: is_digit_def)
  with digits_head [OF assms(1,2), of "CHR ''.'' # fp"] digits_prefix [OF assms(1), of "CHR ''.'' # fp"]
    digits_prefix [OF assms(3), of "[]"] assms(2)
  show ?thesis
    by (simp add: parse_float_def Let_def del: takeWhile_eq_all_conv dropWhile_eq_Nil_conv)
qed

lemma nat_str_all: "list_all is_digit (nat_str n)"
  using nat_str_digits by (auto simp: list_all_iff)

lemma two_digits: "n < 100 \<Longrightarrow> list_all is_digit (two_digits n) \<and> digits_val 0 (two_digits n) = n"
  by (auto simp: two_digits_def)

lemma split_size: "CHR '' '' \<notin> set s \<Longrightarrow> split_on CHR '' '' (s @ CHR '' '' # u) = s # split_on CHR '' '' u"
  by (rule split_on_append)

lemma no_space: "list_all is_digit w \<Longrightarrow> CHR '' '' \<notin> set w"
  by (auto simp: list_all_iff is_digit_def)

lemma to_fixed2_value:
  assumes "0 \<le> x"
  obtains v where "parse_float (to_fixed2 x) = Some v" "\<bar>v - x\<bar> \<le> 1 / 200" "CHR '' '' \<notin> set (to_fixed2 x)"
proof -
  define n where "n = nat \<lfloor>x * 100 + 1 / 2\<rfloor>"
  have f: "to_fixed2 x = nat_str (n div 100) @ CHR ''.'' # two_digits (n mod 100)"
    using assms by (simp add: to_fixed2_def n_def Let_def)
  have t: "list_all is_digit (two_digits (n mod 100))" "digits_val 0 (two_digits (n mod 100)) = n mod 100"
    "length (two_digits (n mod 100)) = 2"
    using two_digits [of "n mod 100"] by (auto simp: two_digits_def)
  have "parse_float (to_fixed2 x) = Some (of_nat (n div 100) + of_nat (n mod 100) / 10 ^ 2)"
    unfolding f using parse_float_decimal [OF nat_str_all _ t(1), of "n div 100"] t by simp
  also have "(of_nat (n div 100) + of_nat (n mod 100) / 10 ^ 2 :: rat) = of_nat n / 100"
  proof -
    have "(of_nat n :: rat) = of_nat (100 * (n div 100) + n mod 100)" by simp
    then show ?thesis by (simp only: of_nat_add of_nat_mult) simp
  qed
  finally have v: "parse_float (to_fixed2 x) = Some (of_nat n / 100)" .
  have "0 \<le> \<lfloor>x * 100 + 1 / 2\<rfloor>" using assms by simp
  then have n: "(of_nat n :: rat) = of_int \<lfloor>x * 100 + 1 / 2\<rfloor>" by (simp add: n_def)
  have "of_int \<lfloor>x * 100 + 1 / 2\<rfloor> \<le> x * 100 + 1 / 2" "x * 100 + 1 / 2 < of_int \<lfloor>x * 100 + 1 / 2\<rfloor> + 1"
    by linarith+
  then have "\<bar>of_nat n / 100 - x\<bar> \<le> 1 / 200" unfolding n by linarith
  moreover have "CHR '' '' \<notin> set (to_fixed2 x)" unfolding f using no_space [OF nat_str_all] no_space [OF t(1)] by auto
  ultimately show thesis using that v by blast
qed

text \<open>a size in megabytes that is written with its unit and read back is off by no more than the
  rounding to two decimals: exact below a gigabyte, within 1/200 GB (or TB) above.\<close>

theorem size_roundtrip:
  assumes "1 \<le> n"
  shows "\<exists>r. get_mega_bytes (getusize_int n) = Some r
    \<and> \<bar>r - of_int n\<bar> \<le> (if n < 2 ^ 10 then 0 else if n < 2 ^ 20 then 2 ^ 10 / 200 else 2 ^ 20 / 200)"
proof -
  have big: "\<exists>r. get_mega_bytes (to_fixed2 (of_int n / 2 ^ k) @ CHR '' '' # u) = Some r
      \<and> \<bar>r - of_int n\<bar> \<le> 2 ^ k / 200"
    if u: "u = ''GB'' \<and> k = 10 \<or> u = ''TB'' \<and> k = 20" for k u
  proof -
    have "(0 :: rat) \<le> of_int n / 2 ^ k" using assms by simp
    from to_fixed2_value [OF this] obtain v where
      v: "parse_float (to_fixed2 (of_int n / 2 ^ k)) = Some v" "\<bar>v - of_int n / 2 ^ k\<bar> \<le> 1 / 200"
        "CHR '' '' \<notin> set (to_fixed2 (of_int n / 2 ^ k))" .
    have "split_on CHR '' '' (to_fixed2 (of_int n / 2 ^ k) @ CHR '' '' # u) = [to_fixed2 (of_int n / 2 ^ k), u]"
      using u split_size [OF v(3), of u] by auto
    with u v(1) have "get_mega_bytes (to_fixed2 (of_int n / 2 ^ k) @ CHR '' '' # u) = Some (v * 2 ^ k)"
      by (auto simp: get_mega_bytes_def Let_def)
    moreover have "v * 2 ^ k - of_int n = (v - of_int n / 2 ^ k) * 2 ^ k" by (simp add: left_diff_distrib)
    then have "\<bar>v * 2 ^ k - of_int n\<bar> = \<bar>v - of_int n / 2 ^ k\<bar> * 2 ^ k" by (simp only: abs_mult) simp
    ultimately show ?thesis using mult_right_mono [OF v(2), of "2 ^ k"] by simp
  qed
  consider "2 ^ 20 \<le> n" | "2 ^ 10 \<le> n" "n < 2 ^ 20" | "n < 2 ^ 10" by linarith
  then show ?thesis
  proof cases
    case 1
    with big [of "''TB''" 20] show ?thesis by (simp add: getusize_int_def)
  next
    case 2
    with big [of "''GB''" 10] show ?thesis by (simp add: getusize_int_def)
  next
    case 3
    have s: "int_str n = nat_str (nat n)" using assms by (simp add: int_str_def)
    have "split_on CHR '' '' (nat_str (nat n) @ CHR '' '' # ''MB'') = [nat_str (nat n), ''MB'']"
      using split_size [OF no_space [OF nat_str_all], of "nat n" "''MB''"] by simp
    with parse_float_digits [OF nat_str_all, of "nat n"] assms 3 s show ?thesis
      by (simp add: getusize_int_def get_mega_bytes_def Let_def)
  qed
qed

lemma size_roundtrip_witness:
  "\<exists>r. get_mega_bytes (getusize_int 5000) = Some r \<and> \<bar>r - 5000\<bar> \<le> 2 ^ 10 / 200"
  using size_roundtrip [of 5000] by simp

text \<open>A size in kilobytes is read as the remainder of its number by 1024, not the quotient: 500 KB as
  500 megabytes, and a whole number of megabytes given in kilobytes as 0.\<close>
theorem kilobytes_misread:
  "get_mega_bytes (nat_str n @ '' KB'') = Some (of_nat (n mod 1024))"
proof -
  have "split_on CHR '' '' (nat_str n @ CHR '' '' # ''KB'') = [nat_str n, ''KB'']"
    using split_size [OF no_space [OF nat_str_all], of n "''KB''"] by simp
  moreover have "js_mod (of_nat n) (2 ^ 10) = of_nat (n mod 1024)"
  proof -
    have "\<lfloor>(of_nat n :: rat) / 1024\<rfloor> = int (n div 1024)"
      using floor_divide_of_nat_eq [of n 1024, where 'a = rat] by simp
    then have "js_mod (of_nat n) (2 ^ 10) = of_nat n - 1024 * of_nat (n div 1024)"
      by (simp add: js_mod_def)
    moreover have "(of_nat n :: rat) = of_nat (1024 * (n div 1024)) + of_nat (n mod 1024)"
      by (simp only: of_nat_add [symmetric] mult_div_mod_eq)
    ultimately show ?thesis by simp
  qed
  ultimately show ?thesis
    using parse_float_digits [OF nat_str_all, of n] by (simp add: get_mega_bytes_def Let_def)
qed

end
