(* ===== verification/Relabel.thy ===== *)
theory Relabel
  imports Page
begin

text \<open>
  Changes of elements that leave the tree as it is. \<open>relabel h d\<close> changes the element of every node by \<open>h\<close>;
  in a document with distinct identities all of jQuery's changes are of this form, so what they do to
  look-ups, parents and values is said once.
\<close>

fun relabel :: "(nat \<Rightarrow> elem \<Rightarrow> elem) \<Rightarrow> doc \<Rightarrow> doc" where
  "relabel h [] = []"
| "relabel h (Node k e ts # us) = Node k (h k e) (relabel h ts) # relabel h us"

definition renode :: "(nat \<Rightarrow> elem \<Rightarrow> elem) \<Rightarrow> node \<Rightarrow> node" where
  "renode h n = Node (nkey n) (h (nkey n) (ninfo n)) (relabel h (kids n))"

lemma renode_simps [simp]:
  "nkey (renode h n) = nkey n" "ninfo (renode h n) = h (nkey n) (ninfo n)" "kids (renode h n) = relabel h (kids n)"
  by (simp_all add: renode_def)

lemma relabel_map: "relabel h d = map (renode h) d"
  by (induction d rule: nodes.induct) (simp_all add: renode_def)

lemma nodes_relabel: "nodes (relabel h d) = map (renode h) (nodes d)"
  by (induction d rule: nodes.induct) (simp_all add: renode_def)

lemma keys_relabel [simp]: "keys (relabel h d) = keys d"
  by (simp add: keys_def items_def nodes_relabel comp_def)

lemma relabel_id: "(\<And>k e. k \<in> set (keys d) \<Longrightarrow> h k e = e) \<Longrightarrow> relabel h d = d"
  by (induction d rule: nodes.induct) auto

lemma relabel_relabel: "relabel g (relabel h d) = relabel (\<lambda>k e. g k (h k e)) d"
  by (induction d rule: nodes.induct) auto

lemma relabel_cong: "(\<And>k e. k \<in> set (keys d) \<Longrightarrow> g k e = h k e) \<Longrightarrow> relabel g d = relabel h d"
  by (induction d rule: nodes.induct) auto

lemma find_relabel: "find P (map f xs) = map_option f (find (\<lambda>x. P (f x)) xs)"
  by (induction xs) auto

lemma find_key_relabel [simp]: "find_key k (relabel h d) = map_option (renode h) (find_key k d)"
  by (simp add: find_key_def nodes_relabel find_relabel)

lemma by_id_relabel:
  "(\<And>k e. ident (h k e) = ident e) \<Longrightarrow> by_id i (relabel h d) = map_option (renode h) (by_id i d)"
  by (simp add: by_id_def nodes_relabel find_relabel)

lemma parent_of_relabel [simp]: "parent_of k (relabel h d) = map_option (renode h) (parent_of k d)"
proof -
  have "set (map nkey (relabel h ts)) = set (map nkey ts)" for ts by (simp add: relabel_map)
  then have "nkey ` set (relabel h ts) = nkey ` set ts" for ts by (simp only: set_map)
  then show ?thesis by (simp add: parent_of_def nodes_relabel find_relabel)
qed

lemma upd_elem_relabel:
  assumes "distinct (keys d)"
  shows "upd_elem k f d = relabel (\<lambda>j e. if j = k then f e else e) d"
  using assms
proof (induction d rule: nodes.induct)
  case (2 j e ts us)
  have u: "upd_elem k f (Node j e ts # us) = (if j = k then [Node j (f e) ts] else [Node j e (upd_elem k f ts)]) @ upd_elem k f us"
    by (simp add: upd_elem_def)
  show ?case
  proof (cases "j = k")
    case True
    with 2(3) have "relabel (\<lambda>j e. if j = k then f e else e) ts = ts" by (intro relabel_id) auto
    with True u 2 show ?thesis by simp
  qed (use u 2 in auto)
qed (simp add: upd_elem_def)

lemma upd_elems_relabel:
  assumes "distinct (keys d)" "\<And>e. f (f e) = f e"
  shows "fold (\<lambda>k. upd_elem k f) ks d = relabel (\<lambda>j e. if j \<in> set ks then f e else e) d"
  using assms(1)
proof (induction ks arbitrary: d)
  case Nil
  then show ?case by (simp add: relabel_id)
next
  case (Cons k ks)
  have "fold (\<lambda>k. upd_elem k f) ks (upd_elem k f d)
      = relabel (\<lambda>j e. if j \<in> set ks then f e else e) (upd_elem k f d)"
    using Cons.prems by (intro Cons.IH) (simp add: upd_elem_relabel)
  with Cons.prems show ?case
    by (simp add: upd_elem_relabel relabel_relabel assms(2)) (rule relabel_cong, simp add: assms(2))
qed

section \<open>Reading through a change\<close>

definition keeps_values :: "(nat \<Rightarrow> elem \<Rightarrow> elem) \<Rightarrow> bool" where
  "keeps_values h \<longleftrightarrow> (\<forall>k e. ident (h k e) = ident e \<and> tag (h k e) = tag e \<and> attrs (h k e) = attrs e)"

lemma keeps_values_ident: "keeps_values h \<Longrightarrow> ident (h k e) = ident e"
  by (simp add: keeps_values_def)

lemma elem_value_keeps: "keeps_values h \<Longrightarrow> elem_value (h k e) = elem_value e"
  by (simp add: keeps_values_def elem_value_def attr_def)

lemma jq_val_relabel:
  "keeps_values h \<Longrightarrow> jq_val i (p\<lparr>pdoc := relabel h (pdoc p)\<rparr>) = jq_val i p"
  by (simp add: jq_val_def by_id_relabel keeps_values_ident option.map_comp comp_def elem_value_keeps)

lemma filter_relabel:
  assumes "\<And>k e. P (h k e) = P e"
  shows "filter P (map ninfo (map (renode h) ns)) = map (\<lambda>n. h (nkey n) (ninfo n)) (filter (\<lambda>n. P (ninfo n)) ns)"
  using assms by (induction ns) auto

lemma radio_value_relabel:
  assumes "keeps_values h"
  shows "radio_value nm i (p\<lparr>pdoc := relabel h (pdoc p)\<rparr>) = radio_value nm i p"
proof (cases "by_id i (pdoc p)")
  case (Some n)
  let ?P = "\<lambda>e. tag e = ''input'' \<and> attr e ''name'' = Some nm \<and> attr e ''checked'' \<noteq> None"
  have P: "?P (h k e) = ?P e" for k e using assms by (simp add: keeps_values_def attr_def)
  have "filter ?P (below i (p\<lparr>pdoc := relabel h (pdoc p)\<rparr>))
      = map (\<lambda>n. h (nkey n) (ninfo n)) (filter (\<lambda>n. ?P (ninfo n)) (nodes (kids n)))"
    using filter_relabel [of ?P h "nodes (kids n)", OF P] Some assms
    by (simp add: below_def by_id_relabel keeps_values_ident nodes_relabel)
  moreover have "filter ?P (below i p) = map ninfo (filter (\<lambda>n. ?P (ninfo n)) (nodes (kids n)))"
    using Some by (simp add: below_def filter_map comp_def)
  ultimately show ?thesis
    unfolding radio_value_def by (cases "filter (\<lambda>n. ?P (ninfo n)) (nodes (kids n))") (simp_all add: elem_value_keeps assms)
qed (simp add: radio_value_def below_def by_id_relabel keeps_values_ident assms)

end
