(* ===== verification/UserPanel.thy ===== *)
theory UserPanel
  imports GroupPanel StompUtil Relabel
begin

text \<open>
  The users panel (\<^verbatim>\<open>stomp/widgets/users/\<close>): the list (\<^verbatim>\<open>user-list.js\<close>), its rows
  (\<^verbatim>\<open>user-row.js\<close>), the content area with its rows (\<^verbatim>\<open>user-content.js\<close>,
  \<^verbatim>\<open>user-content-row.js\<close>) and the dialogs (\<^verbatim>\<open>user-opr.js\<close>).
\<close>

section \<open>Templates\<close>

definition user_list_template :: tmpl where
  "user_list_template = el ''div'' ''users_panel'' [''collapse''] [] [dv ''user_list'' []]"

definition user_row_template :: "user \<Rightarrow> tmpl" where
  "user_row_template u = dv [] [dv (u_id u @ ''_user_row'') [el ''a'' [] [] [] [tnode (u_fullname u)]]]"

definition user_content_row_template :: "user \<Rightarrow> tmpl" where
  "user_content_row_template u =
     el ''tr'' [] [u_id u @ ''_user_content_row''] [] [el ''td'' [] [] [] [tnode (u_email u)]]"

definition user_listing :: tmpl where
  "user_listing = dv ''user_listing'' [el ''tbody'' ''ulist_body'' [] [] []]"

text \<open>The content area: its first form, hidden; all users; one user.\<close>

datatype user_view = FirstUsers | AllUsers "user list option" | OneUser user

fun user_content_template :: "user_view \<Rightarrow> tmpl" where
  "user_content_template FirstUsers =
     hidden_div [] [dv ''all_users_stats_pie_container'' [], dv ''all_users_stats_graph_container'' [], user_listing]"
| "user_content_template (AllUsers us) =
     dv [] [dv ''all_users_stats_pie_container'' [], dv ''all_users_stats_line_container'' [], user_listing]"
| "user_content_template (OneUser u) =
     dv [] [tnode (u_fullname u), dv ''user_app_stats'' [dv ''user_app_stat_container'' []], dv ''user-applications'' []]"

definition radio :: "string \<Rightarrow> string \<Rightarrow> string \<Rightarrow> bool \<Rightarrow> tmpl" where
  "radio i nm v b =
     dv [] [input ''radio'' i ([(''name'', nm), (''value'', v)] @ (if b then [(''checked'', ''checked'')] else []))]"

definition panel :: "tmpl \<Rightarrow> tmpl" where
  "panel t = el ''div'' [] [''col-md-6'', ''panel''] [] [t]"

text \<open>The templates write \<^verbatim>\<open>checked\<close> for every role that is not empty, for of their conditions
  (\<^verbatim>\<open>role=='user'\<close>, \<^verbatim>\<open>role == user.role\<close>) only \<^verbatim>\<open>role\<close> is read; of the radios of one name the browser
  keeps the last one checked.\<close>

fun role_radios :: "string list \<Rightarrow> tmpl list" where
  "role_radios [] = []"
| "role_radios (r # rs) = radio [] ''user_role'' r (r \<noteq> [] \<and> list_all (\<lambda>x. x = []) rs) # role_radios rs"

datatype user_opr = CreateUser "group list" "string list" | ModifyUser "group list" user "string list" | DeleteUser user

fun user_opr_template :: "user_opr \<Rightarrow> tmpl" where
  "user_opr_template (CreateUser gs roles) = popup ''user_opr''
     [input ''text'' ''user_email'' [], input ''text'' ''user_fullname'' [], input ''text'' ''user_name'' [],
      panel (el ''form'' ''user_roles'' [] [] (role_radios roles)),
      panel (el ''form'' ''user_groups'' [] [] (map (\<lambda>g. radio [] ''selected_group'' (g_id g) False) gs))]"
| "user_opr_template (ModifyUser gs u roles) = popup ''user_opr''
     [input ''text'' ''user_email'' [(''value'', u_email u)], input ''hidden'' ''user_id'' [(''value'', u_id u)],
      input ''text'' ''user_fullname'' [(''value'', u_fullname u)], input ''hidden'' ''user_id'' [(''value'', u_id u)],
      input ''text'' ''user_name'' [(''value'', u_username u)], input ''hidden'' ''user_id'' [(''value'', u_id u)],
      panel (el ''form'' ''user_roles'' [] [] (role_radios roles)),
      panel (el ''form'' ''user_groups'' [] [] (map (\<lambda>g. radio (g_id g) ''selected_group'' (g_id g) False) gs))]"
| "user_opr_template (DeleteUser u) = popup ''user_opr'' [el ''h2'' [] [] [] [tnode (u_fullname u)]]"

definition new_user_opr :: "user_opr \<Rightarrow> act" where
  "new_user_opr opr = new_dialog (user_opr_template opr) ''user_opr''"

section \<open>The content area\<close>

text \<open>The profile's bars are constants of the source, one series per state, named here by its colour.\<close>

definition container_bar :: "(string \<times> int) list" where
  "container_bar = [(''#3c763d'', 1), (''#ffff66'', 1), (''#a94442'', 2)]"

definition application_pie :: "user list \<Rightarrow> (string \<times> int) list" where
  "application_pie us = map (\<lambda>u. (u_fullname u, int (u_apps u))) us"

definition user_plots :: "user_view \<Rightarrow> act" where
  "user_plots v =
     (case v of
        FirstUsers \<Rightarrow> ok
      | AllUsers us \<Rightarrow>
          (case us of None \<Rightarrow> ok | Some us \<Rightarrow> plot ''all_users_stats_pie_container'' (application_pie us))
      | OneUser u \<Rightarrow> plot ''user_app_stat_container'' container_bar)"

definition new_user_content :: "string \<Rightarrow> string \<Rightarrow> pos \<Rightarrow> user_view \<Rightarrow> act" where
  "new_user_content wid ref ps v =
     acts [new_widget wid (user_content_template v) [] id (At ref) ps, user_plots v]"

definition users_panel_content :: act where
  "users_panel_content = new_user_content ''users'' ''content'' Last FirstUsers"

definition show_user_profile :: "user \<Rightarrow> act" where
  "show_user_profile u = new_user_content [] ''users'' Only (OneUser u)"

definition show_users :: "user list option \<Rightarrow> act" where
  "show_users us = new_user_content [] ''users'' Only (AllUsers us)"

section \<open>Rows and the list\<close>

definition user_row :: "string \<Rightarrow> pos \<Rightarrow> user \<Rightarrow> act" where
  "user_row ref ps u = widget (user_row_template u) ref ps"

definition user_content_row :: "user \<Rightarrow> act" where
  "user_content_row u = widget (user_content_row_template u) ''ulist_body'' Last"

definition user_list_topics :: "string list \<Rightarrow> (string \<times> listener) list" where
  "user_list_topics roles =
     [(''/stomp/user_create'', LUserCreate), (''/stomp/user_change'', LUserChange),
      (''/stomp/user_delete'', LUserDelete), (''/stomp/users_content'', LUsersContent roles)]"

text \<open>Copying roles that are undefined throws, after the list is placed.\<close>

definition user_list_post_create :: "string list option \<Rightarrow> act" where
  "user_list_post_create roles = acts
     [new_widget ''users_panel'' user_list_template (user_list_topics (js_list roles)) id (At ''control_panel'') Last,
      case roles of
        None \<Rightarrow> throw (ErrorMsg ''SyntaxError: JSON.parse'')
      | Some rs \<Rightarrow> xhr ''/user/list'' False None (UserListLoaded rs)]"

definition user_list_loaded :: "reply \<Rightarrow> act" where
  "user_list_loaded r =
     (case r of
        Failed m \<Rightarrow> console_error m
      | Answer d \<Rightarrow> acts
          (show_users (r_users d)
           # map (\<lambda>u. acts [user_row ''user_list'' Last u, user_content_row u]) (js_list (r_users d))))"

text \<open>Every click on the button binds one more handler to the document, for any dialog that has an
  e-mail field from then on.\<close>

definition user_list_on_create :: "string list \<Rightarrow> act" where
  "user_list_on_create roles = acts
     [xhr ''/group/list'' False None (UserCreateForm roles), \<lambda>p. (p\<lparr>keyups := Suc (keyups p)\<rparr>, None)]"

definition user_create_form :: "string list \<Rightarrow> reply \<Rightarrow> act" where
  "user_create_form roles r =
     (case r of
        Failed m \<Rightarrow> console_error m
      | Answer d \<Rightarrow> new_user_opr (CreateUser (js_list (r_groups d)) roles))"

definition special_chars :: "char list" where
  "special_chars = ''&/'' @ [char_of (92::nat)] @ ''#,+()@$~%.'' @ [char_of (39::nat)] @ '':*?<>{}'' @ [char_of (34::nat)]"

definition auto_fill_username :: "string \<Rightarrow> act" where
  "auto_fill_username s =
     (if CHR ''@'' \<notin> set s
      then jq_id ''user_name'' (set_attr ''value'' (filter (\<lambda>c. c \<notin> set special_chars) s)) else ok)"

definition email_keyup :: act where
  "email_keyup p =
     (case jq_val ''user_email'' p of
        None \<Rightarrow> (p, None)
      | Some s \<Rightarrow> acts (replicate (keyups p) (auto_fill_username s)) p)"

text \<open>The listeners.\<close>

definition user_create :: "response \<Rightarrow> act" where
  "user_create d = acts
     (info (title_body (if r_error d then ''Error'' else ''Succussfully created'') (r_msg d))
      # (if r_error d then []
         else map (\<lambda>u. acts [user_row ''user_list'' Last u, user_content_row u]) (js_list (r_users d))))"

definition user_change :: "response \<Rightarrow> act" where
  "user_change d = acts
     (info (title_body (if r_error d then ''Error'' else ''Succussfully updated'') (r_msg d))
      # (if r_error d then []
         else map (\<lambda>u. user_row (u_id u @ ''_user_row'') Replace u) (js_list (r_users d))))"

definition user_delete :: "response \<Rightarrow> user \<Rightarrow> act" where
  "user_delete d u = acts
     [info (title_body ''Succussfully deleted'' (r_msg d)), destroy_id (u_id u @ ''_user_row''),
      destroy_class (u_id u @ ''_user_content_row'')]"

definition users_content :: "string list \<Rightarrow> act" where
  "users_content roles = xhr ''/user/list'' False None (UsersShown roles)"

definition users_shown :: "reply \<Rightarrow> act" where
  "users_shown r =
     (case r of
        Failed m \<Rightarrow> console_error m
      | Answer d \<Rightarrow> acts (show_users (r_users d) # map user_content_row (js_list (r_users d))))"

fun user_listener :: "response \<Rightarrow> user option \<Rightarrow> listener \<Rightarrow> act" where
  "user_listener d u LUserCreate = user_create d"
| "user_listener d u LUserChange = user_change d"
| "user_listener d None LUserDelete = throw (TypeError ''user is undefined'')"
| "user_listener d (Some u) LUserDelete = user_delete d u"
| "user_listener d u (LUsersContent roles) = users_content roles"
| "user_listener d u _ = ok"

definition show_all_users :: act where
  "show_all_users = publish (user_listener no_data None) ''/stomp/users_content''"

text \<open>The buttons of a row. A user without a group makes the second step of \<open>user_row_form\<close> throw, with
  the dialog open.\<close>

definition user_row_on_change :: "user \<Rightarrow> string list \<Rightarrow> act" where
  "user_row_on_change u roles = xhr ''/group/list'' False None (UserRowForm u roles)"

definition user_row_form :: "user \<Rightarrow> string list \<Rightarrow> reply \<Rightarrow> act" where
  "user_row_form u roles r =
     (case r of
        Failed m \<Rightarrow> console_error m
      | Answer d \<Rightarrow> acts
          [new_user_opr (ModifyUser (js_list (r_groups d)) u roles),
           case u_group u of
             None \<Rightarrow> throw (TypeError ''user_group is undefined'')
           | Some (i, n) \<Rightarrow> jq_id i (set_checked True)])"

definition user_row_on_delete :: "user \<Rightarrow> act" where
  "user_row_on_delete u = new_user_opr (DeleteUser u)"

section \<open>The buttons of a dialog\<close>

definition user_cleanup :: act where
  "user_cleanup = acts
     [jq_all [''user_name'', ''user_email''] (remove_class err_class),
      jq_parent ''user_roles'' ''div'' ''panel'' (remove_class err_class)]"

definition user_validate :: "act \<Rightarrow> act" where
  "user_validate k = acts
     [user_cleanup,
      with_value ''user_email'' (\<lambda>email.
        if js_trim email = [] \<or> \<not> is_valid_email email then jq_id ''user_email'' (add_class err_class)
        else with_value ''user_name'' (\<lambda>name.
          if js_trim name = [] \<or> \<not> is_valid_username name then jq_id ''user_name'' (add_class err_class)
          else ask (radio_value ''user_role'' ''user_roles'') (\<lambda>role.
            if role = None then jq_parent ''user_roles'' ''div'' ''panel'' (add_class err_class) else k)))]"

definition user_opr_add :: "string list \<Rightarrow> act" where
  "user_opr_add roles = user_validate
     (ask (radio_value ''user_role'' ''user_roles'') (\<lambda>role.
       ask (radio_value ''selected_group'' ''user_groups'') (\<lambda>group.
         with_value ''user_email'' (\<lambda>email. with_value ''user_fullname'' (\<lambda>fullname. with_value ''user_name'' (\<lambda>name.
           submit ''Please wait while we create user'' ''/user/create''
             (to_json [(''role'', map_option JStr role), (''email'', Some (JStr email)),
                       (''group'', map_option JStr group), (''username'', Some (JStr name)),
                       (''fullname'', Some (JStr fullname))])
             (UserAdded roles)))))))"

definition user_added :: "reply \<Rightarrow> act" where
  "user_added r =
     (case r of
        Answer d \<Rightarrow> acts [stop_load, publish (user_listener d None) ''/stomp/user_create'',
                         if r_error d then ok else trigger_close ''user_opr'']
      | Failed m \<Rightarrow> acts [stop_load, trigger_close ''user_opr'', msgbox_of m])"

definition user_selectall :: "bool \<Rightarrow> act" where
  "user_selectall b = check_all ''radio'' ''user_users'' b"

definition user_opr_update :: "string list \<Rightarrow> act" where
  "user_opr_update roles = user_validate
     (ask (radio_value ''user_role'' ''user_roles'') (\<lambda>role.
       ask (radio_value ''selected_group'' ''user_groups'') (\<lambda>group.
         with_value ''user_email'' (\<lambda>email. ask (jq_val ''user_id'') (\<lambda>i.
           with_value ''user_fullname'' (\<lambda>fullname. with_value ''user_name'' (\<lambda>name.
             submit ''Please wait while we update the user'' ''/user/update''
               (to_json [(''id'', map_option JStr i), (''role'', map_option JStr role),
                         (''group'', map_option JStr group), (''email'', Some (JStr email)),
                         (''fullname'', Some (JStr fullname)), (''username'', Some (JStr name))])
               (UserUpdated roles))))))))"

text \<open>The error callback of \<^verbatim>\<open>update\<close> reads \<^verbatim>\<open>response\<close>, which it does not have.\<close>

definition user_updated :: "reply \<Rightarrow> act" where
  "user_updated r =
     (case r of
        Answer d \<Rightarrow> acts [stop_load, publish (user_listener d None) ''/stomp/user_change'',
                         if r_error d then ok else trigger_close ''user_opr'']
      | Failed m \<Rightarrow> acts [stop_load, throw (ReferenceError ''response is not defined'')])"

definition user_opr_del :: "user \<Rightarrow> act" where
  "user_opr_del u = acts
     [trigger_close ''user_opr'',
      submit (''Please wait while we remove '' @ js_str (u_name u)) ''/user/delete''
        (to_json [(''id'', Some (JStr (u_id u))), (''user_name'', map_option JStr (u_name u))]) (UserDeleted u)]"

definition user_deleted :: "user \<Rightarrow> reply \<Rightarrow> act" where
  "user_deleted u r =
     (case r of
        Answer d \<Rightarrow> acts [stop_load, publish (user_listener d (Some u)) ''/stomp/user_delete'']
      | Failed m \<Rightarrow> acts [stop_load, msgbox_of m])"

section \<open>Every method keeps the invariants of the page\<close>

context page_core begin

lemma keyups_presv: "presv I (\<lambda>p. (p\<lparr>keyups := Suc (keyups p)\<rparr>, None))"
  by (simp add: presv_def keyup_law)

lemma new_user_content_presv: "wid \<noteq> dialog \<Longrightarrow> presv I (new_user_content wid ref ps v)"
  by (auto simp: new_user_content_def user_plots_def intro!: act_intros plain_widget_law steps
      split: user_view.splits option.splits)

lemma user_content_presv:
  "presv I users_panel_content" "presv I (show_user_profile u)" "presv I (show_users us)"
  unfolding users_panel_content_def show_user_profile_def show_users_def
  by (rule new_user_content_presv, simp add: dialog_def)+

lemma user_row_presv: "presv I (user_row ref ps u)" "presv I (user_content_row u)"
  by (simp_all add: user_row_def user_content_row_def widget_presv)

lemma new_user_opr_presv: "presv I (new_user_opr opr)"
  by (simp add: new_user_opr_def new_dialog_law)

lemma auto_fill_presv: "presv I (auto_fill_username s)"
  by (auto simp: auto_fill_username_def intro!: steps)

lemma email_keyup_presv: "presv I email_keyup"
proof (rule presvI)
  fix p
  assume p: "I p"
  show "I (fst (email_keyup p))"
  proof (cases "jq_val ''user_email'' p")
    case (Some s)
    have "presv I (acts (replicate (keyups p) (auto_fill_username s)))"
      by (rule presv_acts) (auto simp: auto_fill_presv)
    with Some p show ?thesis by (simp add: email_keyup_def presv_def)
  qed (simp add: email_keyup_def p)
qed

lemma user_list_presv:
  "presv I (user_list_loaded r)" "presv I (user_list_on_create roles)"
  "presv I (user_create_form roles r)" "presv I (users_shown r)"
  "presv I (user_row_on_change u roles)" "presv I (user_row_form u roles r)" "presv I (user_row_on_delete u)"
  by (auto simp: user_list_loaded_def user_list_on_create_def user_create_form_def
      users_shown_def user_row_on_change_def user_row_form_def user_row_on_delete_def dialog_def
      intro!: act_intros plain_widget_law new_user_opr_presv user_row_presv user_content_presv keyups_presv steps
      split: reply.splits option.splits)

lemma user_listener_presv: "presv I (user_listener d u l)"
proof -
  have "presv I (user_create d)" "presv I (user_change d)" "presv I (user_delete d u)" "presv I (users_content roles)" for u roles
    by (auto simp: user_create_def user_change_def user_delete_def users_content_def
        intro!: act_intros user_row_presv steps)
  then show ?thesis by (cases l; cases u) auto
qed

lemma user_validate_presv: "presv I k \<Longrightarrow> presv I (user_validate k)"
  by (auto simp: user_validate_def user_cleanup_def intro!: act_intros steps)

lemma user_replies_presv:
  "presv I (user_added r)" "presv I (user_updated r)" "presv I (user_deleted u r)"
  by (auto simp: user_added_def user_updated_def user_deleted_def
      intro!: act_intros steps user_listener_presv split: reply.splits)

end

context page_steps begin

lemma user_list_post_create_presv: "presv I (user_list_post_create oroles)"
  by (auto simp: user_list_post_create_def dialog_def intro!: act_intros new_widget_law subscribe_law steps split: option.splits)

end

context page_inv begin

lemma user_opr_presv:
  "presv I (user_opr_add roles)" "presv I (user_selectall b)" "presv I (user_opr_update roles)"
  "presv I (user_opr_del u)" "presv I show_all_users"
  by (auto simp: user_opr_add_def user_selectall_def user_opr_update_def user_opr_del_def show_all_users_def
      intro!: user_validate_presv act_intros steps submit_law user_listener_presv)

end

section \<open>User names made from e-mail addresses\<close>

text \<open>Once the button for a new user was pressed, typing an address without an at sign in any dialog that
  has the two fields, the one for changing a user included, replaces the user name, whatever it was, by
  the characters typed so far, less the special ones.\<close>
theorem typing_replaces_username:
  assumes "distinct (keys (pdoc p))" "keyups p > 0" "jq_val ''user_email'' p = Some s" "CHR ''@'' \<notin> set s"
    "by_id ''user_name'' (pdoc p) = Some n"
  shows "jq_val ''user_name'' (fst (email_keyup p)) = Some (filter (\<lambda>c. c \<notin> set special_chars) s)"
proof -
  let ?v = "filter (\<lambda>c. c \<notin> set special_chars) s"
  let ?a = "auto_fill_username s"
  have a: "?a q = jq_id ''user_name'' (set_attr ''value'' ?v) q" for q
    using assms(4) by (simp add: auto_fill_username_def)
  have once: "jq_val ''user_name'' (fst (?a q)) = Some ?v \<and> distinct (keys (pdoc (fst (?a q)))) \<and> snd (?a q) = None"
    if "distinct (keys (pdoc q))" "by_id ''user_name'' (pdoc q) \<noteq> None" for q
  proof -
    from that(2) obtain m where m: "by_id ''user_name'' (pdoc q) = Some m" by blast
    have "by_id ''user_name'' (upd_elem (nkey m) (set_attr ''value'' ?v) (pdoc q))
        = Some (Node (nkey m) (set_attr ''value'' ?v (ninfo m)) (kids m))"
      unfolding upd_elem_def
      by (rule by_id_subst_self [OF that(1) m, where h = "\<lambda>x. Node (nkey x) (set_attr ''value'' ?v (ninfo x)) (kids x)"])
        (simp add: set_attr_def)
    then show ?thesis using m that(1)
      by (simp add: a jq_id_def jq_val_def elem_value_def attr_def set_attr_def update_conv' upd_elem_relabel)
  qed
  have many: "jq_val ''user_name'' (fst (acts (replicate (Suc k) ?a) q)) = Some ?v"
    if "distinct (keys (pdoc q))" "by_id ''user_name'' (pdoc q) \<noteq> None" for k q
    using that
  proof (induction k arbitrary: q)
    case 0
    with once show ?case by (simp del: acts.simps)
  next
    case (Suc k)
    obtain r where r: "?a q = (r, None)" using once [OF Suc.prems] by (cases "?a q") auto
    with once [OF Suc.prems] have "distinct (keys (pdoc r))" "by_id ''user_name'' (pdoc r) \<noteq> None"
      by (auto simp: jq_val_def)
    note ih = Suc.IH [OF this]
    have "replicate (Suc (Suc k)) ?a = ?a # replicate (Suc k) ?a" by simp
    then show ?case using ih by (simp only: acts.simps r prod.case option.case)
  qed
  from assms(2) obtain k where "keyups p = Suc k" by (cases "keyups p") auto
  with many [OF assms(1)] assms(3,5) show ?thesis by (simp add: email_keyup_def del: replicate_Suc)
qed

definition modify_form :: page where
  "modify_form = (let u = \<lparr>u_id = ''7'', u_name = None, u_fullname = ''Ann'', u_email = ''ann.s'', u_username = ''ann'',
     u_role = ''user'', u_online = True, u_group = None, u_apps = 0\<rparr>
   in fst (acts [user_list_on_create [''user''], new_user_opr (ModifyUser [] u [''user''])] home_page))"

lemma typing_replaces_username_witness:
  "jq_val ''user_name'' modify_form = Some ''ann'' \<and> jq_val ''user_name'' (fst (email_keyup modify_form)) = Some ''anns''"
proof -
  have v: "distinct (keys (pdoc modify_form))" "keyups modify_form > 0" "jq_val ''user_email'' modify_form = Some ''ann.s''"
    "jq_val ''user_name'' modify_form = Some ''ann''"
    "filter (\<lambda>c. c \<notin> set special_chars) ''ann.s'' = ''anns''" "CHR ''@'' \<notin> set ''ann.s''"
    by code_simp+
  then obtain n where "by_id ''user_name'' (pdoc modify_form) = Some n" by (auto simp: jq_val_def)
  from typing_replaces_username [OF v(1-3) v(6) this] v(4,5) show ?thesis by simp
qed

end
