(* ===== verification/HostPanel.thy ===== *)
theory HostPanel
  imports GroupPanel StompUtil
begin

text \<open>
  The hosts panel (\<^verbatim>\<open>stomp/widgets/hosts/\<close>): the list (\<^verbatim>\<open>host-list.js\<close>), its rows
  (\<^verbatim>\<open>host-row.js\<close>), the page of one host (\<^verbatim>\<open>host-content.js\<close>) and the dialogs
  (\<^verbatim>\<open>host-opr.js\<close>).
\<close>

section \<open>Templates\<close>

definition host_list_template :: tmpl where
  "host_list_template = el ''div'' ''hosts_panel'' [''collapse''] [] [dv ''host_list'' []]"

definition host_row_template :: "host \<Rightarrow> tmpl" where
  "host_row_template h =
     dv [] [dv (h_ip h @ ''_host_row'') [el ''a'' [] [] [] [tnode (h_name h @ '' ('' @ h_ip h @ '')'')]]]"

text \<open>\<^verbatim>\<open>host.ipaddress.split('.').join("")\<close>\<close>

definition ip_unique :: "host \<Rightarrow> string" where
  "ip_unique h = join_with [] (split_on CHR ''.'' (h_ip h))"

definition host_gauges :: "string list" where
  "host_gauges = [''cpu'', ''storage'', ''network'', ''memory'']"

definition gauge_span :: "string \<Rightarrow> tmpl" where
  "gauge_span i = el ''div'' [] [''gauge-div''] [] [el ''span'' i [] [] []]"

definition host_gauge_id :: "host \<Rightarrow> string \<Rightarrow> string" where
  "host_gauge_id h name = name @ ''HostGaugeContainer_'' @ ip_unique h"

definition host_content_template :: "host \<Rightarrow> tmpl" where
  "host_content_template h = dv [] [dv []
     (map (\<lambda>g. gauge_span (host_gauge_id h g)) host_gauges
      @ [el ''div'' ''summary'' [''summary''] [] [dv (''containers_'' @ ip_unique h) []], dv ''policy_distribution'' []])]"

datatype host_opr = CreateHost | ModifyHost host | DeleteHost host

fun host_opr_template :: "host_opr \<Rightarrow> tmpl" where
  "host_opr_template CreateHost = popup ''host_opr'' [input ''text'' ''host_name'' [], input ''text'' ''host_ip'' []]"
| "host_opr_template (ModifyHost h) = popup ''host_opr''
     [input ''text'' ''host_name'' [(''value'', h_name h)], input ''hidden'' ''host.ipaddress'' [(''value'', h_ip h)],
      input ''text'' ''host_ip'' [(''value'', h_ip h)], input ''hidden'' ''host_old_ip'' [(''value'', h_ip h)]]"
| "host_opr_template (DeleteHost h) =
     popup ''host_opr'' [el ''h2'' [] [] [] [tnode (h_name h @ '' ('' @ h_ip h @ '')'')]]"

definition new_host_opr :: "host_opr \<Rightarrow> act" where
  "new_host_opr opr = new_dialog (host_opr_template opr) ''host_opr''"

section \<open>The page of one host\<close>

definition set_ident :: "string \<Rightarrow> elem \<Rightarrow> elem" where
  "set_ident i e = e\<lparr>ident := i\<rparr>"

definition create_gauge :: "string \<Rightarrow> string \<Rightarrow> act" where
  "create_gauge i label = plot i [(label, 0)]"

definition host_update_stats :: "host \<Rightarrow> int \<Rightarrow> int \<Rightarrow> int \<Rightarrow> int \<Rightarrow> act" where
  "host_update_stats h cpu storage network memory = acts
     [plot (host_gauge_id h ''cpu'') [(''value'', cpu)], plot (host_gauge_id h ''storage'') [(''value'', storage)],
      plot (host_gauge_id h ''network'') [(''value'', network)], plot (host_gauge_id h ''memory'') [(''value'', memory)]]"

definition plot_host_stats :: "host \<Rightarrow> int \<Rightarrow> int \<Rightarrow> int \<Rightarrow> int \<Rightarrow> act" where
  "plot_host_stats h cpu storage network memory = acts
     [create_gauge (host_gauge_id h ''memory'') ''Memory'', create_gauge (host_gauge_id h ''cpu'') ''CPU'',
      create_gauge (host_gauge_id h ''network'') ''Network'', create_gauge (host_gauge_id h ''storage'') ''Storage'',
      host_update_stats h cpu storage network memory]"

text \<open>The bars of the source, a series each, named by their place on the axis.\<close>

definition sample_bars :: "(string \<times> int) list" where
  "sample_bars = [(''0'', 45), (''1'', 3), (''2'', 5)]"

definition plot_host_bar :: "host \<Rightarrow> (string \<times> int) list \<Rightarrow> act" where
  "plot_host_bar h d = plot (''containers_'' @ ip_unique h) d"

definition new_host_content :: "host \<Rightarrow> act" where
  "new_host_content h = acts
     [new_widget [] (host_content_template h) [] (set_ident (h_ip h @ ''_content'')) (At ''dashcontent'') Last,
      plot_host_stats h 78 83 45 26, plot_host_bar h sample_bars]"

definition host_timer :: "host \<Rightarrow> act" where
  "host_timer h = host_update_stats h 79 93 15 56"

definition show_host :: "host \<Rightarrow> act" where
  "show_host h = ask (\<lambda>p. by_id (h_ip h @ ''_content'') (pdoc p)) (\<lambda>elem. acts
     [jq_children ''dashcontent'' (set_css ''display'' ''none''),
      case elem of
        Some n \<Rightarrow> on_doc (upd_elem (nkey n) (set_css ''display'' ''block''))
      | None \<Rightarrow> new_host_content h])"

section \<open>Rows and the list\<close>

definition host_row :: "string \<Rightarrow> pos \<Rightarrow> host \<Rightarrow> act" where
  "host_row ref ps h = widget (host_row_template h) ref ps"

definition host_list_topics :: "(string \<times> listener) list" where
  "host_list_topics =
     [(''/stomp/host_create'', LHostCreate), (''/stomp/host_change'', LHostChange), (''/stomp/host_delete'', LHostDelete)]"

text \<open>This list subscribes after it is placed.\<close>

definition host_list_post_create :: act where
  "host_list_post_create = acts
     (new_widget ''hosts_panel'' host_list_template [] id (At ''control_panel'') Last
      # map topic_subscribe host_list_topics
      @ [xhr ''/host/list'' False None HostListLoaded])"

definition host_list_loaded :: "reply \<Rightarrow> act" where
  "host_list_loaded r =
     (case r of
        Failed m \<Rightarrow> console_error m
      | Answer d \<Rightarrow> acts (map (host_row ''host_list'' Last) (js_list (r_hosts d))))"

definition host_list_on_create :: act where
  "host_list_on_create = new_host_opr CreateHost"

definition host_create :: "response \<Rightarrow> act" where
  "host_create d = acts
     (info (title_body ''Succussfully created'' (r_msg d)) # map (host_row ''host_list'' Last) (js_list (r_hosts d)))"

definition host_change :: "response \<Rightarrow> act" where
  "host_change d = acts
     (info (title_body ''Succussfully updated'' (r_msg d))
      # map (\<lambda>h. host_row (h_old_ip h @ ''_host_row'') Replace h) (js_list (r_hosts d)))"

definition host_delete :: "response \<Rightarrow> string \<Rightarrow> act" where
  "host_delete d ip = acts [info (title_body ''Succussfully deleted'' (r_msg d)), destroy_id (ip @ ''_host_row'')]"

fun host_listener :: "response \<Rightarrow> string option \<Rightarrow> listener \<Rightarrow> act" where
  "host_listener d ip LHostCreate = host_create d"
| "host_listener d ip LHostChange = host_change d"
| "host_listener d ip LHostDelete = host_delete d (js_str ip)"
| "host_listener d ip _ = ok"

definition host_row_change :: "host \<Rightarrow> act" where
  "host_row_change h = new_host_opr (ModifyHost h)"

definition host_row_delete :: "host \<Rightarrow> act" where
  "host_row_delete h = new_host_opr (DeleteHost h)"

section \<open>The buttons of a dialog\<close>

definition host_cleanup :: act where
  "host_cleanup = jq_all [''host_name'', ''host_ip''] (remove_class err_class)"

definition host_validate :: "act \<Rightarrow> act" where
  "host_validate k = acts
     [host_cleanup,
      with_value ''host_name'' (\<lambda>name. with_value ''host_ip'' (\<lambda>ip.
        if js_trim name = [] then jq_id ''host_name'' (add_class err_class)
        else if ip = [] then jq_id ''host_ip'' (add_class err_class)
        else if \<not> is_valid_ip ip then jq_id ''host_ip'' (add_class err_class)
        else k))]"

definition host_opr_add :: act where
  "host_opr_add = host_validate
     (with_value ''host_name'' (\<lambda>name. with_value ''host_ip'' (\<lambda>ip. acts
        [trigger_close ''host_opr'',
         submit ''Please wait while we add host'' ''/host/create''
           (to_json [(''host_name'', Some (JStr name)), (''host_ip'', Some (JStr ip))]) HostAdded])))"

definition host_added :: "reply \<Rightarrow> act" where
  "host_added r =
     (case r of
        Answer d \<Rightarrow> acts [stop_load, publish (host_listener d None) ''/stomp/host_create'']
      | Failed m \<Rightarrow> acts [stop_load, msgbox_of m])"

definition host_opr_update :: act where
  "host_opr_update = host_validate
     (ask (jq_val ''host_old_ip'') (\<lambda>old. ask (jq_val ''host_ip'') (\<lambda>ip. ask (jq_val ''host_name'') (\<lambda>name. acts
        [trigger_close ''host_opr'',
         submit ''Please wait while we update'' ''/host/update''
           (to_json [(''host_name'', map_option JStr name), (''host_ip'', map_option JStr ip),
                     (''host_old_ip'', map_option JStr old)]) HostUpdated]))))"

definition host_updated :: "reply \<Rightarrow> act" where
  "host_updated r =
     (case r of
        Answer d \<Rightarrow> acts [stop_load, publish (host_listener d None) ''/stomp/host_change'']
      | Failed m \<Rightarrow> acts [stop_load, msgbox_of m])"

definition host_opr_del :: "host \<Rightarrow> act" where
  "host_opr_del h = acts
     [trigger_close ''host_opr'',
      submit ''Please wait while we remove the host'' ''/host/delete''
        (to_json [(''host_name'', Some (JStr (h_name h))), (''host_ip'', Some (JStr (h_ip h)))]) (HostDeleted h)]"

definition host_deleted :: "host \<Rightarrow> reply \<Rightarrow> act" where
  "host_deleted h r =
     (case r of
        Answer d \<Rightarrow> acts [stop_load, publish (host_listener d (Some (h_ip h))) ''/stomp/host_delete'']
      | Failed m \<Rightarrow> acts [stop_load, msgbox_of m])"

section \<open>Every method keeps the invariants of the page\<close>

context page_core begin

lemma host_stats_presv:
  "presv I (host_update_stats h a b c d)" "presv I (plot_host_stats h a b c d)" "presv I (plot_host_bar h xs)"
  "presv I (host_timer h)"
  by (auto simp: host_update_stats_def plot_host_stats_def plot_host_bar_def host_timer_def create_gauge_def
      intro!: act_intros steps)

lemma new_host_content_presv: "presv I (new_host_content h)"
  by (auto simp: new_host_content_def set_ident_def dialog_def intro!: act_intros plain_widget_law host_stats_presv)

lemma show_host_presv: "presv I (show_host h)"
proof -
  have "presv I (on_doc (upd_elem k (set_css n v)))" for k n v
    by (simp add: presv_def on_doc_def upd_law)
  then show ?thesis
    by (auto simp: show_host_def intro!: act_intros steps new_host_content_presv split: option.splits)
qed

lemma host_row_presv: "presv I (host_row ref ps h)"
  by (simp add: host_row_def widget_presv)

lemma new_host_opr_presv: "presv I (new_host_opr opr)"
  by (simp add: new_host_opr_def new_dialog_law)

lemma host_list_presv:
  "presv I (host_list_loaded r)" "presv I host_list_on_create"
  "presv I (host_row_change h)" "presv I (host_row_delete h)"
  by (auto simp: host_list_loaded_def host_list_on_create_def host_row_change_def
      host_row_delete_def dialog_def
      intro!: act_intros plain_widget_law new_host_opr_presv host_row_presv steps split: reply.splits)

lemma host_listener_presv: "presv I (host_listener d ip l)"
proof -
  have "presv I (host_create d)" "presv I (host_change d)" "presv I (host_delete d i)" for i
    by (auto simp: host_create_def host_change_def host_delete_def intro!: act_intros host_row_presv steps)
  then show ?thesis by (cases l) auto
qed

lemma host_validate_presv: "presv I k \<Longrightarrow> presv I (host_validate k)"
  by (auto simp: host_validate_def host_cleanup_def intro!: act_intros steps)

lemma host_replies_presv:
  "presv I (host_added r)" "presv I (host_updated r)" "presv I (host_deleted h r)"
  by (auto simp: host_added_def host_updated_def host_deleted_def
      intro!: act_intros steps host_listener_presv split: reply.splits)

end

context page_steps begin

lemma host_list_post_create_presv: "presv I host_list_post_create"
  by (auto simp: host_list_post_create_def dialog_def intro!: act_intros new_widget_law subscribe_law steps split: option.splits)

end

context page_inv begin

lemma host_opr_presv:
  "presv I host_opr_add" "presv I host_opr_update" "presv I (host_opr_del h)"
  by (auto simp: host_opr_add_def host_opr_update_def host_opr_del_def
      intro!: host_validate_presv act_intros steps submit_law)

end

end
