(* ===== verification/Dashboard.thy ===== *)
theory Dashboard
  imports HostPanel Relabel
begin

text \<open>
  The dashboard (\<^verbatim>\<open>stomp/widgets/dashboard.js\<close>) and the widgets on it: the cluster's gauges
  (\<^verbatim>\<open>reports/cluster-stats.js\<close>), the workload manager (\<^verbatim>\<open>policy/workload-manager.js\<close>), the
  metrics (\<^verbatim>\<open>reports/metrics.js\<close>), the event log (\<^verbatim>\<open>reports/event-logs.js\<close>) and the running
  applications (\<^verbatim>\<open>application/application-usage.js\<close>). What they draw is recorded in \<open>plots\<close>.
\<close>

section \<open>The dashboard\<close>

definition dashboard_template :: tmpl where
  "dashboard_template = dv ''dashboard'' [el ''div'' [] [''main-content''] [] [dv ''dashcontent'' []]]"

definition css_of :: "string \<Rightarrow> string \<Rightarrow> elem \<Rightarrow> string" where
  "css_of n v e = (case map_of (css e) n of None \<Rightarrow> v | Some s \<Rightarrow> s)"

definition jq_css :: "string \<Rightarrow> string \<Rightarrow> string \<Rightarrow> page \<Rightarrow> string option" where
  "jq_css i n v p = map_option (\<lambda>m. css_of n v (ninfo m)) (by_id i (pdoc p))"

definition show_dashboard :: act where
  "show_dashboard =
     ask (jq_css ''dashboard'' ''display'' ''block'') (\<lambda>d.
       ask (jq_css ''dashboard'' ''visibility'' ''visible'') (\<lambda>v.
         case (d, v) of
           (Some d, Some v) \<Rightarrow> acts
             ((if d = ''none''
               then [jq_id ''dashboard'' (set_css ''display'' ''block''), jq_id ''dashboard'' (set_css ''visibility'' ''hidden'')]
               else [])
              @ [jq_id ''dashboard'' (set_css ''display'' d), jq_id ''dashboard'' (set_css ''visibility'' v)])
         | _ \<Rightarrow> ok))"

definition new_dashboard :: act where
  "new_dashboard = acts [new_widget ''dashboard'' dashboard_template [] id (At ''content'') Last, show_dashboard]"

section \<open>Cluster statistics\<close>

definition cluster_stats_template :: tmpl where
  "cluster_stats_template = dv [] [dv []
     (map (\<lambda>g. gauge_span (g @ ''GaugeContainer'')) host_gauges
      @ [el ''div'' ''summary'' [''summary''] [] [dv ''application_distribution'' []]])]"

definition cluster_update_stats :: "int \<Rightarrow> int \<Rightarrow> int \<Rightarrow> int \<Rightarrow> act" where
  "cluster_update_stats cpu storage network memory = acts
     [plot ''cpuGaugeContainer'' [(''value'', cpu)], plot ''storageGaugeContainer'' [(''value'', storage)],
      plot ''networkGaugeContainer'' [(''value'', network)], plot ''memoryGaugeContainer'' [(''value'', memory)]]"

definition plot_cluster_stats :: "int \<Rightarrow> int \<Rightarrow> int \<Rightarrow> int \<Rightarrow> act" where
  "plot_cluster_stats cpu storage network memory = acts
     [create_gauge ''memoryGaugeContainer'' ''Memory'', create_gauge ''cpuGaugeContainer'' ''CPU'',
      create_gauge ''networkGaugeContainer'' ''Network'', create_gauge ''storageGaugeContainer'' ''Storage'',
      cluster_update_stats cpu storage network memory]"

definition plot_workload_bar :: "(string \<times> int) list \<Rightarrow> act" where
  "plot_workload_bar d = plot ''application_distribution'' d"

definition new_cluster_stats :: "nat \<Rightarrow> act" where
  "new_cluster_stats k = acts
     [new_widget ''clusterstats'' cluster_stats_template [] id (AtKey k) Last,
      plot_cluster_stats 78 83 45 26, plot_workload_bar sample_bars]"

definition cluster_timer :: act where
  "cluster_timer = cluster_update_stats 79 93 15 56"

text \<open>The colour of a radial, by its value.\<close>

definition apply_class :: "string \<Rightarrow> int \<Rightarrow> act" where
  "apply_class i value = acts
     (if value > 80 then
        [jq_id i (remove_class ''green''), jq_id i (remove_class ''orange''), jq_id i (add_class ''red'')]
      else if value > 60 then
        [jq_id i (remove_class ''green''), jq_id i (remove_class ''red''), jq_id i (add_class ''orange'')]
      else if value > 30 then
        [jq_id i (remove_class ''red''), jq_id i (remove_class ''orange''), jq_id i (add_class ''green'')]
      else
        [jq_id i (remove_class ''green''), jq_id i (remove_class ''orange''), jq_id i (remove_class ''red'')])"

definition plot_radial :: "int \<Rightarrow> int \<Rightarrow> int \<Rightarrow> int \<Rightarrow> act" where
  "plot_radial cpu storage network memory = acts
     [apply_class ''cpu_usage'' cpu, apply_class ''storage_usage'' storage, apply_class ''network_usage'' network,
      apply_class ''memory_usage'' memory,
      plot ''cpu_usage'' [(''CPU USAGE'', cpu)], plot ''storage_usage'' [(''STORAGE USED'', storage)],
      plot ''network_usage'' [(''NETWORK USAGE'', network)], plot ''memory_usage'' [(''MEMORY USED'', memory)]]"

section \<open>Other panels\<close>

definition workload_template :: tmpl where
  "workload_template = el ''div'' [] [''col-md-12''] [] [dv ''policy_distribution'' []]"

definition plot_policy_distribution :: "(string \<times> int) list \<Rightarrow> act" where
  "plot_policy_distribution stats = plot ''policy_distribution'' stats"

definition new_workload_manager :: "nat \<Rightarrow> act" where
  "new_workload_manager k = acts
     [new_widget ''workloadmanager'' workload_template [] id (AtKey k) Last,
      plot_policy_distribution [(''platinum'', 12), (''gold'', 32), (''silver'', 23), (''bronze'', 31)]]"

definition metric_value :: "int \<Rightarrow> int" where
  "metric_value j =
     (if j < 10 then 2
      else if j > 10 \<and> j < 20 then 5
      else if j > 30 \<and> j < 40 then 3
      else if j > 40 \<and> j < 45 then 8
      else if j > 45 \<and> j < 80 then 3
      else 1)"

text \<open>The loop, by the number of points still to come.\<close>

fun metric_loop :: "nat \<Rightarrow> nat \<Rightarrow> (string \<times> int) list \<Rightarrow> (string \<times> int) list" where
  "metric_loop 0 j d = d"
| "metric_loop (Suc n) j d = metric_loop n (Suc j) (d @ [(nat_str j, metric_value (int j))])"

definition new_metrics :: "nat \<Rightarrow> act" where
  "new_metrics k = acts
     [new_widget ''metrics'' (dv [] [el ''select'' ''metric'' [] [(''value'', ''running_job'')] [], dv ''chart'' []]) []
        id (AtKey k) Last,
      plot ''chart'' (metric_loop 100 0 [])]"

definition new_event_logs :: "nat \<Rightarrow> act" where
  "new_event_logs k = new_widget ''eventlogs'' (dv [] [dv [] []]) [] id (AtKey k) Last"

definition new_application_usage :: "nat \<Rightarrow> act" where
  "new_application_usage k = new_widget [] (el ''div'' [] [''col-md-5''] [] []) [] id (AtKey k) Last"

section \<open>They keep the invariants of the page\<close>

context page_core begin

lemma show_dashboard_presv: "presv I show_dashboard"
  by (auto simp: show_dashboard_def intro!: act_intros steps split: option.splits)

lemma apply_class_presv: "presv I (apply_class i v)"
  unfolding apply_class_def by (rule presv_acts) (auto intro!: jq_id_presv split: if_splits)

lemma cluster_stats_presv:
  "presv I (cluster_update_stats a b c d)" "presv I (plot_cluster_stats a b c d)" "presv I (plot_workload_bar xs)"
  "presv I cluster_timer" "presv I (plot_radial a b c d)"
  unfolding cluster_update_stats_def plot_cluster_stats_def plot_workload_bar_def create_gauge_def
    cluster_timer_def plot_radial_def
  by (auto intro!: act_intros steps apply_class_presv)

lemma dashboard_presv:
  "presv I new_dashboard" "presv I (new_cluster_stats k)" "presv I (new_workload_manager k)"
  "presv I (new_metrics k)" "presv I (new_event_logs k)" "presv I (new_application_usage k)"
  by (auto simp: new_dashboard_def new_cluster_stats_def new_workload_manager_def new_metrics_def new_event_logs_def
      new_application_usage_def plot_policy_distribution_def dialog_def
      intro!: act_intros plain_widget_law show_dashboard_presv cluster_stats_presv steps)

end

section \<open>The colour of a radial\<close>

lemma classes_jq_id:
  assumes "distinct (keys (pdoc p))" "by_id i (pdoc p) = Some n" "\<And>e. ident (f e) = ident e"
  shows "\<exists>q. jq_id i f p = (q, None) \<and> distinct (keys (pdoc q))
    \<and> (\<exists>m. by_id i (pdoc q) = Some m \<and> classes (ninfo m) = classes (f (ninfo n)))"
proof -
  have "by_id i (upd_elem (nkey n) f (pdoc p)) = Some (Node (nkey n) (f (ninfo n)) (kids n))"
    unfolding upd_elem_def by (rule by_id_subst_self [OF assms(1,2), where h = "\<lambda>m. Node (nkey m) (f (ninfo m)) (kids m)"])
      (simp add: assms(3))
  moreover have "distinct (keys (upd_elem (nkey n) f (pdoc p)))"
    using assms(1) by (simp add: upd_elem_relabel [OF assms(1)])
  ultimately show ?thesis using assms(2) by (simp add: jq_id_def)
qed

lemma three_changes:
  assumes "distinct (keys (pdoc p))" "by_id i (pdoc p) = Some n"
    "\<And>e. ident (f e) = ident e" "\<And>e. ident (g e) = ident e" "\<And>e. ident (h e) = ident e"
    "\<And>e. set (classes (f e)) = F (set (classes e))" "\<And>e. set (classes (g e)) = G (set (classes e))"
    "\<And>e. set (classes (h e)) = H (set (classes e))"
  shows "\<exists>q m. acts [jq_id i f, jq_id i g, jq_id i h] p = (q, None) \<and> by_id i (pdoc q) = Some m
    \<and> set (classes (ninfo m)) = H (G (F (set (classes (ninfo n)))))"
proof -
  from classes_jq_id [OF assms(1-3)] obtain a x where
    a: "jq_id i f p = (a, None)" "distinct (keys (pdoc a))" "by_id i (pdoc a) = Some x" "classes (ninfo x) = classes (f (ninfo n))"
    by blast
  from classes_jq_id [OF a(2,3) assms(4)] obtain b y where
    b: "jq_id i g a = (b, None)" "distinct (keys (pdoc b))" "by_id i (pdoc b) = Some y" "classes (ninfo y) = classes (g (ninfo x))"
    by blast
  from classes_jq_id [OF b(2,3) assms(5)] obtain c z where
    "jq_id i h b = (c, None)" "by_id i (pdoc c) = Some z" "classes (ninfo z) = classes (h (ninfo y))"
    by blast
  with a b assms(6-8) show ?thesis by auto
qed

definition colours :: "int \<Rightarrow> string set" where
  "colours v = (if v > 80 then {''red''} else if v > 60 then {''orange''} else if v > 30 then {''green''} else {})"

text \<open>A radial has the one colour of its value, red above 80, orange above 60, green above 30 and none
  below, whatever colour it had before, and its other classes are left alone.\<close>
theorem radial_colour:
  assumes "distinct (keys (pdoc p))" "by_id i (pdoc p) = Some n"
  shows "\<exists>q m. apply_class i v p = (q, None) \<and> by_id i (pdoc q) = Some m
    \<and> set (classes (ninfo m)) = (set (classes (ninfo n)) - {''green'', ''orange'', ''red''}) \<union> colours v"
proof -
  have id: "ident (add_class c e) = ident e" "ident (remove_class c e) = ident e" for c e
    by (simp_all add: add_class_def remove_class_def)
  have cl: "set (classes (add_class c e)) = insert c (set (classes e))" "set (classes (remove_class c e)) = set (classes e) - {c}"
    for c e by (auto simp: add_class_def remove_class_def)
  note t = three_changes [OF assms]
  consider "v > 80" | "60 < v" "v \<le> 80" | "30 < v" "v \<le> 60" | "v \<le> 30" by linarith
  then show ?thesis
  proof cases
    case 1
    have e: "apply_class i v p = acts [jq_id i (remove_class ''green''), jq_id i (remove_class ''orange''), jq_id i (add_class ''red'')] p"
      using 1 by (simp add: apply_class_def del: acts.simps)
    have c: "insert ''red'' (set (classes (ninfo n)) - {''green''} - {''orange''})
        = set (classes (ninfo n)) - {''green'', ''orange'', ''red''} \<union> colours v"
      using 1 by (auto simp: colours_def)
    show ?thesis unfolding e c [symmetric] by (rule t) (simp_all add: id cl)
  next
    case 2
    have e: "apply_class i v p = acts [jq_id i (remove_class ''green''), jq_id i (remove_class ''red''), jq_id i (add_class ''orange'')] p"
      using 2 by (simp add: apply_class_def del: acts.simps)
    have c: "insert ''orange'' (set (classes (ninfo n)) - {''green''} - {''red''})
        = set (classes (ninfo n)) - {''green'', ''orange'', ''red''} \<union> colours v"
      using 2 by (auto simp: colours_def)
    show ?thesis unfolding e c [symmetric] by (rule t) (simp_all add: id cl)
  next
    case 3
    have e: "apply_class i v p = acts [jq_id i (remove_class ''red''), jq_id i (remove_class ''orange''), jq_id i (add_class ''green'')] p"
      using 3 by (simp add: apply_class_def del: acts.simps)
    have c: "insert ''green'' (set (classes (ninfo n)) - {''red''} - {''orange''})
        = set (classes (ninfo n)) - {''green'', ''orange'', ''red''} \<union> colours v"
      using 3 by (auto simp: colours_def)
    show ?thesis unfolding e c [symmetric] by (rule t) (simp_all add: id cl)
  next
    case 4
    have e: "apply_class i v p = acts [jq_id i (remove_class ''green''), jq_id i (remove_class ''orange''), jq_id i (remove_class ''red'')] p"
      using 4 by (simp add: apply_class_def del: acts.simps)
    have c: "set (classes (ninfo n)) - {''green''} - {''orange''} - {''red''}
        = set (classes (ninfo n)) - {''green'', ''orange'', ''red''} \<union> colours v"
      using 4 by (auto simp: colours_def)
    show ?thesis unfolding e c [symmetric] by (rule t) (simp_all add: id cl)
  qed
qed

definition radial_page :: page where
  "radial_page = home_page\<lparr>pdoc := [Node 0 \<lparr>tag = ''div'', ident = ''cpu_usage'', widget_id = [], classes = [''radial'', ''green''],
     css = [], attrs = []\<rparr> []]\<rparr>"

lemma radial_colour_witness:
  "\<exists>q m. apply_class ''cpu_usage'' 93 radial_page = (q, None) \<and> by_id ''cpu_usage'' (pdoc q) = Some m
    \<and> set (classes (ninfo m)) = {''radial'', ''red''}"
proof -
  have "distinct (keys (pdoc radial_page))"
    "by_id ''cpu_usage'' (pdoc radial_page) = Some (Node 0 \<lparr>tag = ''div'', ident = ''cpu_usage'', widget_id = [],
       classes = [''radial'', ''green''], css = [], attrs = []\<rparr> [])"
    by code_simp+
  from radial_colour [OF this, of 93] show ?thesis by (auto simp: colours_def insert_commute)
qed

section \<open>The page of one host, in another's\<close>

definition host_a :: host where
  "host_a = \<lparr>h_name = ''a'', h_ip = ''1.11.1.1'', h_old_ip = []\<rparr>"

definition host_b :: host where
  "host_b = \<lparr>h_name = ''b'', h_ip = ''11.1.1.1'', h_old_ip = []\<rparr>"

definition two_hosts :: page where
  "two_hosts = fst (acts [new_dashboard, show_host host_a, show_host host_b] home_page)"

definition ids_within :: "string \<Rightarrow> page \<Rightarrow> string list" where
  "ids_within i p = (case by_id i (pdoc p) of None \<Rightarrow> [] | Some n \<Rightarrow> idents (kids n))"

definition first_within :: "string \<Rightarrow> string \<Rightarrow> page \<Rightarrow> bool" where
  "first_within j i p =
     (case (by_id i (pdoc p), by_id j (pdoc p)) of
        (Some n, Some m) \<Rightarrow> nkey m \<in> set (keys (kids n)) | _ \<Rightarrow> False)"

text \<open>\<open>drawn_in b a p\<close>: the page has gauges of \<open>b\<close> on \<open>b\<close>'s page, but what is drawn into them goes to those
  on \<open>a\<close>'s.\<close>

definition drawn_in :: "host \<Rightarrow> host \<Rightarrow> page \<Rightarrow> bool" where
  "drawn_in b a p = list_all (\<lambda>g. host_gauge_id b g \<in> set (ids_within (h_ip b @ ''_content'') p)
     \<and> first_within (host_gauge_id b g) (h_ip a @ ''_content'') p) host_gauges"

definition both_drawn :: "page \<Rightarrow> bool" where
  "both_drawn p \<longleftrightarrow> drawn_in host_a host_a p \<and> drawn_in host_b host_a p"

text \<open>two hosts whose addresses differ only in where the dots are get the same ids for their gauges: on a
  page that shows first the one and then the other, each statistic of the second is drawn into the gauges
  of the first, although both addresses are valid and each has its own page.\<close>

theorem host_pages_collide:
  "is_valid_ip (h_ip host_a) \<and> is_valid_ip (h_ip host_b) \<and> h_ip host_a \<noteq> h_ip host_b
   \<and> drawn_in host_a host_a two_hosts \<and> drawn_in host_b host_a two_hosts"
proof -
  have "is_valid_ip (h_ip host_a) \<and> is_valid_ip (h_ip host_b)"
    by code_simp
  moreover have "both_drawn two_hosts" by code_simp
  ultimately show ?thesis by (simp add: both_drawn_def) (simp add: host_a_def host_b_def)
qed

end
