(* ===== verification/StoragePanel.thy ===== *)
theory StoragePanel
  imports GroupPanel
begin

text \<open>
  The datastores panel (\<^verbatim>\<open>stomp/widgets/storage/\<close>): the list (\<^verbatim>\<open>storage-list.js\<close>), its rows
  (\<^verbatim>\<open>storage-row.js\<close>), the content area (\<^verbatim>\<open>storage-content.js\<close>) and the dialogs
  (\<^verbatim>\<open>storage-opr.js\<close>). The role is true for an administrator; only then the buttons are there.
\<close>

section \<open>Templates\<close>

definition storage_list_template :: "bool \<Rightarrow> tmpl" where
  "storage_list_template role = el ''div'' ''storages_panel'' [''collapse''] []
     [el ''button'' [] [''btn''] (if role then [(''onclick'', ''onCreate'')] else []) [], dv ''datastore_list'' []]"

definition storage_row_template :: "bool \<Rightarrow> storage \<Rightarrow> tmpl" where
  "storage_row_template role s = dv [] [dv (st_id s @ ''_storage_row'')
     (el ''a'' [] [] [] [tnode (st_name s @ '' ('' @ st_size s @ '')'')]
      # (if role then [el ''a'' [] [] [(''onclick'', ''onChange'')] [], el ''a'' [] [] [(''onclick'', ''onDelete'')] []]
         else []))]"

definition storage_content_template :: tmpl where
  "storage_content_template = hidden_div [] [dv ''storage_graphs'' []]"

definition volume_box :: "string \<Rightarrow> volume \<Rightarrow> tmpl" where
  "volume_box i v = dv [] [dv [] [input ''checkbox'' i [(''value'', v_id v)], tnode (v_name v)]]"

datatype storage_opr = CreateStorage "volume list" | ModifyStorage "volume list" storage string string | DeleteStorage storage

text \<open>A new datastore takes a volume that has none. A changed one is meant to also keep its own, but of the
  template's condition \<^verbatim>\<open>storage.volume_id == volume.id\<close> only \<^verbatim>\<open>storage.volume_id\<close> is read: when the datastore
  names a volume, every volume is offered.\<close>

fun storage_opr_template :: "storage_opr \<Rightarrow> tmpl" where
  "storage_opr_template (CreateStorage vs) = popup ''storage_opr''
     [input ''text'' ''storage_name'' [], dv [] [input ''checkbox'' [] [(''name'', ''selectALL'')]],
      dv ''storage_volumes'' (map (volume_box []) (filter (\<lambda>v. \<not> v_datastore v) vs))]"
| "storage_opr_template (ModifyStorage vs s name i) = popup ''storage_opr''
     [input ''text'' ''storage_name'' [(''value'', name)], input ''hidden'' ''storage_id'' [(''value'', i)],
      dv ''storage_volumes''
        (map (\<lambda>v. volume_box (v_id v) v) (filter (\<lambda>v. \<not> v_datastore v \<or> st_volume s \<noteq> []) vs))]"
| "storage_opr_template (DeleteStorage s) = popup ''storage_opr'' [el ''h2'' [] [] [] [tnode (st_name s)]]"

definition new_storage_opr :: "storage_opr \<Rightarrow> act" where
  "new_storage_opr opr = new_dialog (storage_opr_template opr) ''storage_opr''"

section \<open>Rows and the list\<close>

definition storages_panel_content :: act where
  "storages_panel_content = new_widget ''storages'' storage_content_template [] id (At ''content'') Last"

definition storage_row :: "bool \<Rightarrow> string \<Rightarrow> pos \<Rightarrow> storage \<Rightarrow> act" where
  "storage_row role ref ps s = widget (storage_row_template role s) ref ps"

definition storage_list_topics :: "bool \<Rightarrow> (string \<times> listener) list" where
  "storage_list_topics role =
     [(''/stomp/storage_create'', LStorageCreate role), (''/stomp/storage_change'', LStorageChange role),
      (''/stomp/storage_delete'', LStorageDelete)]"

definition storage_list_post_create :: "bool \<Rightarrow> act" where
  "storage_list_post_create role = acts
     [new_widget ''storages_panel'' (storage_list_template role) (storage_list_topics role) id (At ''control_panel'') Last,
      xhr ''/storage/list'' False None (StorageListLoaded role)]"

definition storage_list_loaded :: "bool \<Rightarrow> reply \<Rightarrow> act" where
  "storage_list_loaded role r =
     (case r of
        Failed m \<Rightarrow> console_error m
      | Answer d \<Rightarrow> acts (map (storage_row role ''datastore_list'' Last) (js_list (r_storages d))))"

definition storage_list_on_create :: act where
  "storage_list_on_create = xhr ''/storage/volume/list'' False None StorageCreateForm"

definition storage_create_form :: "reply \<Rightarrow> act" where
  "storage_create_form r =
     (case r of
        Failed m \<Rightarrow> console_error m
      | Answer d \<Rightarrow> new_storage_opr (CreateStorage (js_list (r_volumes d))))"

definition storage_create :: "bool \<Rightarrow> response \<Rightarrow> act" where
  "storage_create role d = acts
     (info (title_body ''Succussfully created'' (r_msg d))
      # map (storage_row role ''datastore_list'' Last) (js_list (r_storages d)))"

definition storage_change :: "bool \<Rightarrow> response \<Rightarrow> act" where
  "storage_change role d = acts
     (info (title_body ''Succussfully updated'' (r_msg d))
      # map (\<lambda>s. storage_row role (st_id s @ ''_storage_row'') Replace s) (js_list (r_storages d)))"

definition storage_delete :: "response \<Rightarrow> storage \<Rightarrow> act" where
  "storage_delete d s = acts
     [info (title_body ''Succussfully deleted'' (r_msg d)), destroy_id (st_id s @ ''_storage_row'')]"

fun storage_listener :: "response \<Rightarrow> storage option \<Rightarrow> listener \<Rightarrow> act" where
  "storage_listener d s (LStorageCreate role) = storage_create role d"
| "storage_listener d s (LStorageChange role) = storage_change role d"
| "storage_listener d None LStorageDelete = throw (TypeError ''storage is undefined'')"
| "storage_listener d (Some s) LStorageDelete = storage_delete d s"
| "storage_listener d s _ = ok"

definition storage_row_on_change :: "storage \<Rightarrow> act" where
  "storage_row_on_change s = xhr ''/storage/volume/list'' False None (StorageRowForm s)"

definition storage_row_form :: "storage \<Rightarrow> reply \<Rightarrow> act" where
  "storage_row_form s r =
     (case r of
        Failed m \<Rightarrow> console_error m
      | Answer d \<Rightarrow> acts
          (new_storage_opr (ModifyStorage (js_list (r_volumes d)) s (st_name s) (st_id s))
           # map (\<lambda>v. jq_id v (set_checked True)) (split_on CHR '','' (st_backing s))))"

definition storage_row_on_delete :: "storage \<Rightarrow> act" where
  "storage_row_on_delete s = new_storage_opr (DeleteStorage s)"

section \<open>The buttons of a dialog\<close>

definition storage_opr_add :: act where
  "storage_opr_add =
     ask (checked_values ''checkbox'' ''storage_volumes'') (\<lambda>volumes.
       with_value ''storage_name'' (\<lambda>name. acts
         [trigger_close ''storage_opr'',
          submit ''Please wait while we create application'' ''/storage/create''
            (to_json [(''storage_name'', Some (JStr name)), (''storage_volumes'', Some (JArr (map JStr volumes)))])
            StorageAdded]))"

definition storage_added :: "reply \<Rightarrow> act" where
  "storage_added r =
     (case r of
        Answer d \<Rightarrow> acts [stop_load, publish (storage_listener d None) ''/stomp/storage_create'']
      | Failed m \<Rightarrow> acts [stop_load, msgbox_of m])"

definition storage_selectall :: "bool \<Rightarrow> act" where
  "storage_selectall b = check_all ''checkbox'' ''storage_volumes'' b"

definition storage_opr_update :: act where
  "storage_opr_update =
     ask (checked_values ''checkbox'' ''storage_volumes'') (\<lambda>volumes.
       ask (jq_val ''storage_id'') (\<lambda>i.
         with_value ''storage_name'' (\<lambda>name. acts
           [trigger_close ''storage_opr'',
            submit ''Please wait while we create application'' ''/storage/update''
              (to_json [(''storage_name'', Some (JStr name)), (''storage_volumes'', Some (JArr (map JStr volumes))),
                        (''storage_id'', map_option JStr i)]) StorageUpdated])))"

definition storage_updated :: "reply \<Rightarrow> act" where
  "storage_updated r =
     (case r of
        Answer d \<Rightarrow> acts [stop_load, publish (storage_listener d None) ''/stomp/storage_change'']
      | Failed m \<Rightarrow> acts [stop_load, msgbox_of m])"

definition storage_opr_del :: "storage \<Rightarrow> act" where
  "storage_opr_del s = acts
     [trigger_close ''storage_opr'',
      submit ''Please wait while we remove the storage'' ''/storage/delete''
        (to_json [(''storage_id'', Some (JStr (st_id s)))]) (StorageDeleted s)]"

definition storage_deleted :: "storage \<Rightarrow> reply \<Rightarrow> act" where
  "storage_deleted s r =
     (case r of
        Answer d \<Rightarrow> acts [stop_load, publish (storage_listener d (Some s)) ''/stomp/storage_delete'']
      | Failed m \<Rightarrow> acts [stop_load, msgbox_of m])"

section \<open>Every method keeps the invariants of the page\<close>

context page_core begin

lemma new_storage_opr_presv: "presv I (new_storage_opr opr)"
  by (simp add: new_storage_opr_def new_dialog_law)

lemma storage_row_presv: "presv I (storage_row role ref ps s)"
  by (simp add: storage_row_def widget_presv)

lemma storage_list_presv:
  "presv I storages_panel_content" "presv I (storage_list_loaded role r)"
  "presv I storage_list_on_create" "presv I (storage_create_form r)" "presv I (storage_row_on_change s)"
  "presv I (storage_row_form s r)" "presv I (storage_row_on_delete s)"
  by (auto simp: storages_panel_content_def storage_list_loaded_def
      storage_list_on_create_def storage_create_form_def storage_row_on_change_def storage_row_form_def
      storage_row_on_delete_def dialog_def
      intro!: act_intros plain_widget_law new_storage_opr_presv storage_row_presv steps split: reply.splits)

lemma storage_listener_presv: "presv I (storage_listener d s l)"
proof -
  have "presv I (storage_create role d)" "presv I (storage_change role d)" "presv I (storage_delete d s)" for role s
    by (auto simp: storage_create_def storage_change_def storage_delete_def intro!: act_intros storage_row_presv steps)
  then show ?thesis by (cases l; cases s) auto
qed

lemma storage_replies_presv:
  "presv I (storage_added r)" "presv I (storage_updated r)" "presv I (storage_deleted s r)"
  by (auto simp: storage_added_def storage_updated_def storage_deleted_def
      intro!: act_intros steps storage_listener_presv split: reply.splits)

end

context page_steps begin

lemma storage_list_post_create_presv: "presv I (storage_list_post_create role)"
  by (auto simp: storage_list_post_create_def dialog_def intro!: act_intros new_widget_law subscribe_law steps split: option.splits)

end

context page_inv begin

lemma storage_opr_presv:
  "presv I storage_opr_add" "presv I (storage_selectall b)" "presv I storage_opr_update" "presv I (storage_opr_del s)"
  by (auto simp: storage_opr_add_def storage_selectall_def storage_opr_update_def storage_opr_del_def
      intro!: act_intros steps submit_law)

end

end
