(* ===== verification/AppPanel.thy ===== *)
theory AppPanel
  imports GroupPanel StompUtil
begin

text \<open>
  The applications panel (\<^verbatim>\<open>stomp/widgets/application/\<close>): the list (\<^verbatim>\<open>application-list.js\<close>), the
  content area, which asks for the same list again (\<^verbatim>\<open>application-content.js\<close>), the rows
  (\<^verbatim>\<open>application-row.js\<close>) and the dialog (\<^verbatim>\<open>application-add.js\<close>). The role is true for an
  administrator.
\<close>

section \<open>Templates\<close>

definition app_list_template :: "bool \<Rightarrow> tmpl" where
  "app_list_template role = el ''div'' ''application_panel'' [''collapse''] []
     [el ''button'' [] [''btn''] (if role then [] else [(''onclick'', ''onCreate'')]) [], dv ''application_list'' []]"

definition app_content_template :: tmpl where
  "app_content_template = hidden_div [] [dv ''applications_graphs'' []]"

text \<open>The button of a row carries its arguments in one attribute, which the click on its icon reads.\<close>

definition row_args :: "application \<Rightarrow> string \<Rightarrow> string" where
  "row_args a opr = join_with ''|'' [a_cluster a, a_name a, opr]"

definition row_button :: "application \<Rightarrow> string \<Rightarrow> string \<Rightarrow> tmpl" where
  "row_button a opr icon = el ''a'' [] [] [(''name'', row_args a opr)] [el ''i'' [] [''fa'', ''fa-'' @ icon] [] []]"

definition app_row_template :: "bool \<Rightarrow> string \<Rightarrow> application \<Rightarrow> tmpl" where
  "app_row_template role opr a = dv [] [dv (a_cluster a @ ''_app_row'')
     ([el ''a'' [] [] [] [tnode (a_name a)], row_button a opr opr] @ (if role then [] else [row_button a ''delete'' ''trash-o'']))]"

definition app_add_template :: "string list \<Rightarrow> storage list \<Rightarrow> tmpl" where
  "app_add_template apps sts = popup ''add_application''
     [el ''select'' ''select_application'' [] (if apps = [] then [] else [(''value'', hd apps)])
        (map (\<lambda>a. el ''option'' [] [] [(''value'', a)] [tnode a]) apps),
      input ''text'' ''application_name'' [],
      el ''select'' [] [] []
        (map (\<lambda>s. el ''option'' [] [] [(''value'', st_id s @ '','' @ st_size s)] [tnode (st_name s)]) sts),
      el ''div'' [] [''slider''] [] [], input ''hidden'' ''storage_size'' [(''value'', ''1 GB'')]]"

section \<open>Rows and the list\<close>

definition app_opr :: "application \<Rightarrow> string" where
  "app_opr a = (if a_state a \<noteq> ''running'' then ''play'' else ''pause'')"

definition app_row :: "bool \<Rightarrow> string \<Rightarrow> pos \<Rightarrow> application \<Rightarrow> act" where
  "app_row role ref ps a = widget (app_row_template role (app_opr a) a) ref ps"

definition app_list_topics :: "bool \<Rightarrow> (string \<times> listener) list" where
  "app_list_topics role = [(''/stomp/app_create'', LAppCreate role), (''/stomp/app_change'', LAppChange role)]"

definition app_list_post_create :: "bool \<Rightarrow> act" where
  "app_list_post_create role = acts
     [new_widget ''applications_panel'' (app_list_template role) (app_list_topics role) id (At ''control_panel'') Last,
      xhr ''/application/list'' False None (AppListLoaded role)]"

text \<open>The content area passes on a role it does not have.\<close>

definition apps_panel_content :: act where
  "apps_panel_content = acts
     [new_widget ''applications'' app_content_template [] id (At ''content'') Last,
      xhr ''/application/list'' False None (AppListLoaded False)]"

definition app_list_loaded :: "bool \<Rightarrow> reply \<Rightarrow> act" where
  "app_list_loaded role r =
     (case r of
        Failed m \<Rightarrow> console_error m
      | Answer d \<Rightarrow> acts (map (app_row role ''application_list'' Last) (js_list (r_apps d))))"

definition app_types :: "string list" where
  "app_types = [''mapreduce'', ''spark'', ''hadoop'', ''hive'', ''pig'']"

definition app_list_on_create :: act where
  "app_list_on_create = xhr ''/storage/list'' False None (AppCreateForm app_types)"

definition app_create :: "bool \<Rightarrow> response \<Rightarrow> act" where
  "app_create role d = acts
     (info (title_body ''Succussfully created'' (r_msg d))
      # map (app_row role ''application_list'' Last) (js_list (r_apps d)))"

definition app_change :: "bool \<Rightarrow> response \<Rightarrow> act" where
  "app_change role d = acts
     (info (title_body ''Succussfully updated'' (r_msg d))
      # map (\<lambda>a. app_row role (a_cluster a @ ''_app_row'') Replace a) (js_list (r_apps d)))"

fun app_listener :: "response \<Rightarrow> listener \<Rightarrow> act" where
  "app_listener d (LAppCreate role) = app_create role d"
| "app_listener d (LAppChange role) = app_change role d"
| "app_listener d _ = ok"

section \<open>The buttons of a row\<close>

definition nth_or_undefined :: "nat \<Rightarrow> string list \<Rightarrow> string" where
  "nth_or_undefined n xs = (if n < length xs then xs ! n else ''undefined'')"

definition app_row_on_change :: "string \<Rightarrow> act" where
  "app_row_on_change name =
     (let parts = split_on CHR ''|'' name;
          app_id = parts ! 0;
          op = nth_or_undefined 2 parts;
          op = (if op = ''play'' then ''start'' else op)
      in submit (''Please wait while we '' @ op @ '' application'') (''/application/'' @ op)
           (to_json [(''apps'', Some (JArr [JStr app_id]))]) (AppChanged app_id op))"

definition app_changed :: "string \<Rightarrow> string \<Rightarrow> reply \<Rightarrow> act" where
  "app_changed app_id op r =
     (case r of
        Answer d \<Rightarrow> acts [stop_load, publish (app_listener d) ''/stomp/app_change'',
                         if op = ''delete'' then destroy_id (app_id @ ''_app_row'') else ok]
      | Failed m \<Rightarrow> acts [stop_load, msgbox_of m])"

section \<open>The dialog\<close>

text \<open>The sizes the slider offers: the multiples of a fifth of the datastore's. The quotient is cut by
  \<^verbatim>\<open>parseInt\<close>, which reads it as decimal digits (sizes below \<open>10 ^ 21\<close> megabytes); \<open>None\<close> is NaN.\<close>

definition size_bucket :: "rat option \<Rightarrow> int option" where
  "size_bucket m = map_option (\<lambda>m. let q = m / 5 in if q < 0 then \<lceil>q\<rceil> else \<lfloor>q\<rfloor>) m"

fun push_buckets :: "nat \<Rightarrow> nat \<Rightarrow> int \<Rightarrow> int list \<Rightarrow> int list" where
  "push_buckets 0 i b bs = bs"
| "push_buckets (Suc n) i b bs = push_buckets n (Suc i) b (bs @ [bs ! i + b])"

definition storage_labels :: "rat option \<Rightarrow> string list" where
  "storage_labels m =
     (case size_bucket m of
        None \<Rightarrow> replicate 5 ''NaN B''
      | Some b \<Rightarrow> (let buckets = push_buckets 5 0 b [b] in map getusize_int (take (length buckets - 1) buckets)))"

definition set_slider :: "string list \<Rightarrow> act" where
  "set_slider ls p = (p\<lparr>slider := ls\<rparr>, None)"

text \<open>Handlers of earlier choices run first; the last one decides.\<close>

definition slide_change :: "nat \<Rightarrow> act" where
  "slide_change v p =
     (if v < length (slider p) then jq_id ''storage_size'' (set_attr ''value'' (slider p ! v)) p else (p, None))"

definition app_create_form :: "string list \<Rightarrow> reply \<Rightarrow> act" where
  "app_create_form apps r =
     (case r of
        Failed m \<Rightarrow> console_error m
      | Answer d \<Rightarrow> acts
          [new_dialog (app_add_template apps (js_list (r_storages d))) ''add_application'',
           case js_list (r_storages d) of
             [] \<Rightarrow> throw (TypeError ''storages[0] is undefined'')
           | s # _ \<Rightarrow> set_slider (storage_labels (get_mega_bytes (st_size s)))])"

definition on_datastore_select :: "string \<Rightarrow> act" where
  "on_datastore_select selected =
     (let parts = split_on CHR '','' selected
      in if 1 < length parts then set_slider (storage_labels (get_mega_bytes (parts ! 1)))
         else throw (TypeError ''storage_size is undefined''))"

definition app_opr_add :: act where
  "app_opr_add =
     with_value ''select_application'' (\<lambda>ty. with_value ''application_name'' (\<lambda>name.
       with_value ''storage_size'' (\<lambda>size. acts
         [trigger_close ''add_application'',
          submit ''Please wait while we create application'' ''/application/create''
            (to_json [(''app_type'', Some (JStr ty)), (''app_name'', Some (JStr name)),
                      (''app_storage'', Some (JStr size))]) AppAdded])))"

definition app_added :: "reply \<Rightarrow> act" where
  "app_added r =
     (case r of
        Answer d \<Rightarrow> acts [stop_load, publish (app_listener d) ''/stomp/app_create'']
      | Failed m \<Rightarrow> acts [stop_load, msgbox_of m])"

section \<open>Every method keeps the invariants of the page\<close>

context page_core begin

lemma app_row_presv: "presv I (app_row role ref ps a)"
  by (simp add: app_row_def widget_presv)

lemma set_slider_presv: "presv I (set_slider ls)"
  by (simp add: presv_def set_slider_def slider_law)

lemma slide_change_presv: "presv I (slide_change v)"
proof (rule presvI)
  fix p
  assume p: "I p"
  have "presv I (jq_id ''storage_size'' (set_attr ''value'' (slider p ! v)))" by (rule jq_id_presv) simp
  with p show "I (fst (slide_change v p))" by (simp add: slide_change_def presv_def)
qed

lemma app_list_presv:
  "presv I apps_panel_content" "presv I (app_list_loaded role r)"
  "presv I app_list_on_create" "presv I (app_create_form apps r)" "presv I (on_datastore_select s)"
  by (auto simp: apps_panel_content_def app_list_loaded_def app_list_on_create_def
      app_create_form_def on_datastore_select_def dialog_def Let_def
      intro!: act_intros plain_widget_law app_row_presv set_slider_presv steps split: reply.splits list.splits)

lemma app_listener_presv: "presv I (app_listener d l)"
proof -
  have "presv I (app_create role d)" "presv I (app_change role d)" for role
    by (auto simp: app_create_def app_change_def intro!: act_intros app_row_presv steps)
  then show ?thesis by (cases l) auto
qed

lemma app_replies_presv: "presv I (app_changed i op r)" "presv I (app_added r)"
  by (auto simp: app_changed_def app_added_def
      intro!: act_intros steps app_listener_presv split: reply.splits)

end

context page_steps begin

lemma app_list_post_create_presv: "presv I (app_list_post_create role)"
  by (auto simp: app_list_post_create_def dialog_def intro!: act_intros new_widget_law subscribe_law steps split: option.splits)

end

context page_inv begin

lemma app_opr_presv: "presv I app_opr_add" "presv I (app_row_on_change name)"
  by (auto simp: app_opr_add_def app_row_on_change_def Let_def intro!: act_intros steps submit_law)

end

section \<open>What the buttons of a row send\<close>

lemma split_on_pipe:
  assumes "CHR ''|'' \<notin> set c" "CHR ''|'' \<notin> set opr"
  shows "split_on CHR ''|'' (row_args \<lparr>a_cluster = c, a_name = n, a_state = s\<rparr> opr)
    = c # split_on CHR ''|'' n @ [opr]"
proof -
  have "split_on x (w @ x # v) = split_on x w @ split_on x v" for x :: char and w v
    by (induction w) (auto split: list.splits)
  from this [of "CHR ''|''" n opr] show ?thesis using assms
    by (simp add: row_args_def split_on_append split_on_fresh)
qed

definition row_request :: "string \<Rightarrow> string \<Rightarrow> request" where
  "row_request app_id op =
     (let op = (if op = ''play'' then ''start'' else op)
      in \<lparr>q_url = ''/application/'' @ op, q_post = True, q_data = Some (JObj [(''apps'', JArr [JStr app_id])]),
          q_cont = AppChanged app_id op\<rparr>)"

lemma row_sends:
  "reqs (fst (app_row_on_change name p)) = reqs p @
     [row_request (split_on CHR ''|'' name ! 0) (nth_or_undefined 2 (split_on CHR ''|'' name))]"
  by (simp add: app_row_on_change_def row_request_def Let_def submit_def start_load_def xhr_def jq_id_def on_doc_def
      to_json_def map_filter_simps split: option.split)

text \<open>what a row's button was made for is what it asks for: as long as neither the cluster's id nor the
  application's name contains a bar, one request is sent, for the row's cluster and the button's operation
  (start for play), however the page looks.\<close>

theorem row_button_request:
  assumes "CHR ''|'' \<notin> set (a_cluster a)" "CHR ''|'' \<notin> set (a_name a)" "CHR ''|'' \<notin> set opr"
  shows "reqs (fst (app_row_on_change (row_args a opr) p)) = reqs p @ [row_request (a_cluster a) opr]"
  using split_on_pipe [OF assms(1,3), of "a_name a" "a_state a"] split_on_fresh [OF assms(2)]
  by (cases a) (simp add: row_sends nth_or_undefined_def)

lemma row_button_request_witness:
  "map q_url (reqs (fst (app_row_on_change (row_args \<lparr>a_cluster = ''c1'', a_name = ''sort'', a_state = ''stopped''\<rparr> ''play'') home_page)))
     = [''/application/start'']"
  using row_button_request [of "\<lparr>a_cluster = ''c1'', a_name = ''sort'', a_state = ''stopped''\<rparr>" "''play''" home_page]
  by (simp add: row_request_def Let_def) (simp add: home_page_def)

text \<open>C38: the name of an application decides what its buttons do. If the name contains a bar, then what stands
  between the first and the second bar of the name (or after the first, if there is no second) is the operation
  that every button of the row asks for, for the row's cluster and in one request: a name with \<open>|delete\<close> at that
  place has the application deleted by the button that starts it.\<close>
theorem name_decides_operation:
  assumes "CHR ''|'' \<notin> set (a_cluster a)" "CHR ''|'' \<notin> set n" "CHR ''|'' \<notin> set op"
    and "a_name a = n @ ''|'' @ op" "rest = [] \<or> hd rest = CHR ''|''"
  shows "reqs (fst (app_row_on_change (row_args (a\<lparr>a_name := a_name a @ rest\<rparr>) opr) p)) = reqs p @
    [\<lparr>q_url = ''/application/'' @ (if op = ''play'' then ''start'' else op), q_post = True,
      q_data = Some (JObj [(''apps'', JArr [JStr (a_cluster a)])]),
      q_cont = AppChanged (a_cluster a) (if op = ''play'' then ''start'' else op)\<rparr>]"
proof -
  let ?args = "row_args (a\<lparr>a_name := a_name a @ rest\<rparr>) opr"
  obtain rest' where r: "rest @ ''|'' @ opr = CHR ''|'' # rest'" using assms(5) by (cases rest) auto
  have "?args = a_cluster a @ CHR ''|'' # n @ CHR ''|'' # op @ (rest @ ''|'' @ opr)" by (simp add: row_args_def assms(4))
  then have "?args = a_cluster a @ CHR ''|'' # n @ CHR ''|'' # op @ CHR ''|'' # rest'" by (simp only: r)
  then have "split_on CHR ''|'' ?args = a_cluster a # n # op # split_on CHR ''|'' rest'"
    by (simp add: split_on_append assms(1-3))
  then show ?thesis by (simp add: row_sends nth_or_undefined_def row_request_def Let_def)
qed

lemma name_decides_operation_witness:
  "map q_url (reqs (fst (app_row_on_change
     (row_args \<lparr>a_cluster = ''c1'', a_name = ''sort|delete|2'', a_state = ''stopped''\<rparr> ''play'') home_page)))
   = [''/application/delete'']"
  using name_decides_operation [of "\<lparr>a_cluster = ''c1'', a_name = ''sort|delete'', a_state = ''stopped''\<rparr>" "''sort''" "''delete''"
      "''|2''" "''play''" home_page] by simp (simp add: home_page_def)

section \<open>The sizes of the slider\<close>

lemma push_buckets_multiples:
  assumes "bs = map (\<lambda>k. int (Suc k) * b) [0..<Suc i]"
  shows "push_buckets n i b bs = map (\<lambda>k. int (Suc k) * b) [0..<Suc i + n]"
  using assms
proof (induction n arbitrary: i bs)
  case (Suc n)
  have "bs @ [bs ! i + b] = map (\<lambda>k. int (Suc k) * b) [0..<Suc (Suc i)]"
    using Suc.prems by (simp add: nth_append algebra_simps)
  from Suc.IH [OF this] show ?case by simp
qed simp

text \<open>the slider offers the five multiples of a fifth of the datastore's size, rounded down to whole
  megabytes, in increasing order, and none of them is larger than the datastore.\<close>

theorem slider_sizes:
  assumes "0 \<le> m" "size_bucket (Some m) = Some b"
  shows "storage_labels (Some m) = map (\<lambda>k. getusize_int (k * b)) [1, 2, 3, 4, 5] \<and> 0 \<le> b \<and> of_int (5 * b) \<le> m"
proof -
  have b: "b = \<lfloor>m / 5\<rfloor>" using assms by (auto simp: size_bucket_def Let_def)
  have "storage_labels (Some m) = map getusize_int (take 5 (push_buckets 5 0 b [b]))"
    using push_buckets_multiples [of "[b]" b 0 5] assms(2) by (simp add: storage_labels_def Let_def)
  also have "\<dots> = map (\<lambda>k. getusize_int (k * b)) [1, 2, 3, 4, 5]"
    using push_buckets_multiples [of "[b]" b 0 5] by (simp add: upt_rec)
  finally have "storage_labels (Some m) = map (\<lambda>k. getusize_int (k * b)) [1, 2, 3, 4, 5]" .
  moreover have "of_int b \<le> m / 5" unfolding b by (rule of_int_floor_le)
  moreover have "0 \<le> b" using assms(1) by (simp add: b)
  ultimately show ?thesis by (simp add: field_simps)
qed

lemma slider_sizes_witness:
  "storage_labels (Some 1024) = map (\<lambda>k. getusize_int (k * 204)) [1, 2, 3, 4, 5]"
proof -
  have "\<lfloor>1024 / 5 :: rat\<rfloor> = 204" by (rule floor_unique) simp_all
  then show ?thesis using slider_sizes [of 1024 204] by (simp add: size_bucket_def)
qed

end
