(* ===== verification/Console.thy ===== *)
theory Console
  imports UserPanel Dashboard StoragePanel AppPanel
begin

text \<open>
  The console as a whole (\<^verbatim>\<open>stomp.js\<close>): what \<^verbatim>\<open>initialize\<close> builds, the menu (\<^verbatim>\<open>show_content\<close>)
  with the fades it starts, and the steps a session takes: a button is pressed, something is typed, a
  request is answered (in any order, with any answer), a fade ends.
\<close>

section \<open>Answers\<close>

fun run_cont :: "cont \<Rightarrow> reply \<Rightarrow> act" where
  "run_cont GroupListLoaded r = group_list_loaded r"
| "run_cont GroupCreateForm r = group_create_form r"
| "run_cont (GroupModifyForm n i us) r = group_modify_form n i us r"
| "run_cont (GroupsDeleted gs) r = groups_deleted gs r"
| "run_cont GroupsShown r = groups_shown r"
| "run_cont (GroupRowForm g) r = group_row_form g r"
| "run_cont GroupAdded r = group_added r"
| "run_cont GroupUpdated r = group_updated r"
| "run_cont (GroupDeleted g) r = group_deleted g r"
| "run_cont GroupUserRemoved r = group_user_removed r"
| "run_cont GroupUserMoved r = group_user_moved r"
| "run_cont (GraphLoaded k) r = graph_loaded k r"
| "run_cont (GraphMoveForm us) r = graph_move_form us r"
| "run_cont (UserListLoaded roles) r = user_list_loaded r"
| "run_cont (UserCreateForm roles) r = user_create_form roles r"
| "run_cont (UserRowForm u roles) r = user_row_form u roles r"
| "run_cont (UsersShown roles) r = users_shown r"
| "run_cont (UserAdded roles) r = user_added r"
| "run_cont (UserUpdated roles) r = user_updated r"
| "run_cont (UserDeleted u) r = user_deleted u r"
| "run_cont HostListLoaded r = host_list_loaded r"
| "run_cont HostAdded r = host_added r"
| "run_cont HostUpdated r = host_updated r"
| "run_cont (HostDeleted h) r = host_deleted h r"
| "run_cont (StorageListLoaded role) r = storage_list_loaded role r"
| "run_cont StorageCreateForm r = storage_create_form r"
| "run_cont (StorageRowForm s) r = storage_row_form s r"
| "run_cont StorageAdded r = storage_added r"
| "run_cont StorageUpdated r = storage_updated r"
| "run_cont (StorageDeleted s) r = storage_deleted s r"
| "run_cont (AppListLoaded role) r = app_list_loaded role r"
| "run_cont (AppCreateForm apps) r = app_create_form apps r"
| "run_cont (AppChanged i op) r = app_changed i op r"
| "run_cont AppAdded r = app_added r"

text \<open>The answer to the request at place \<open>i\<close> of those under way.\<close>

definition respond :: "nat \<Rightarrow> reply \<Rightarrow> act" where
  "respond i r p =
     (if i < length (reqs p)
      then run_cont (q_cont (reqs p ! i)) r (p\<lparr>reqs := remove_nth i (reqs p)\<rparr>) else (p, None))"

section \<open>Start\<close>

text \<open>A click on a panel's button toggles the class \<^verbatim>\<open>in\<close> of the panel it links to (bootstrap's
  \<^verbatim>\<open>collapse\<close>).\<close>

definition toggle_class :: "string \<Rightarrow> elem \<Rightarrow> elem" where
  "toggle_class c e = (if c \<in> set (classes e) then remove_class c e else add_class c e)"

definition panel_button_click :: "string \<Rightarrow> act" where
  "panel_button_click i =
     ask (jq_attr (i @ ''_panel_button'') ''href'') (\<lambda>t. case t of
         None \<Rightarrow> ok
       | Some t \<Rightarrow> jq_id (tl t) (toggle_class ''in''))"

definition start_dashboard :: act where
  "start_dashboard = ask fresh (\<lambda>k. acts [create_div ''row'' ''dashcontent'', new_cluster_stats k, new_workload_manager k])"

definition initialize :: "bool \<Rightarrow> string list option \<Rightarrow> act" where
  "initialize role roles = acts
     ([start_load (Some ''Initializing dashboard...''),
       topic_subscribe (''/stomp/error'', ErrorToaster), topic_subscribe (''/stomp/info'', InfoToaster),
       new_dashboard]
      @ (if role then
           [apps_panel_content, groups_panel_content, users_panel_content, host_list_post_create,
            panel_button_click ''dashboard'',
            app_list_post_create role, group_list_post_create, user_list_post_create roles, start_dashboard]
         else
           [app_list_post_create role, panel_button_click ''applications'', apps_panel_content,
            jq_id ''dashboard'' (set_css ''display'' ''none'')])
      @ [storage_list_post_create role, storages_panel_content, stop_load])"

section \<open>The menu\<close>

text \<open>Fades of an element are queued. A fade that has nothing to do ends at once; a fade-out hides the element
  when it ends, a fade-in shows it when it starts.\<close>

datatype effect = FadeIn | FadeOut | Showing | Hiding

record console =
  cpage :: page
  admin :: bool
  menu :: string
  fx :: "nat \<Rightarrow> effect list"

definition visible :: "nat \<Rightarrow> doc \<Rightarrow> bool" where
  "visible k d = (case find_key k d of None \<Rightarrow> False | Some n \<Rightarrow> css_of ''display'' ''block'' (ninfo n) \<noteq> ''none'')"

definition display :: "string \<Rightarrow> nat \<Rightarrow> doc \<Rightarrow> doc" where
  "display v k d = upd_elem k (set_css ''display'' v) d"

fun run_effects :: "nat \<Rightarrow> effect list \<Rightarrow> doc \<Rightarrow> effect list \<times> doc" where
  "run_effects k (FadeIn # q) d = (if visible k d then run_effects k q d else (Showing # q, display ''block'' k d))"
| "run_effects k (FadeOut # q) d = (if visible k d then (Hiding # q, d) else run_effects k q d)"
| "run_effects k q d = (q, d)"

definition fade :: "effect \<Rightarrow> nat \<Rightarrow> console \<Rightarrow> console" where
  "fade e k c =
     (if fx c k = []
      then (case run_effects k [e] (pdoc (cpage c)) of
              (q, d) \<Rightarrow> c\<lparr>fx := (fx c)(k := q), cpage := (cpage c)\<lparr>pdoc := d\<rparr>\<rparr>)
      else c\<lparr>fx := (fx c)(k := fx c k @ [e])\<rparr>)"

definition fade_ends :: "nat \<Rightarrow> console \<Rightarrow> console" where
  "fade_ends k c =
     (case fx c k of
        [] \<Rightarrow> c
      | e # q \<Rightarrow>
          (let d = pdoc (cpage c); d1 = (if e = Hiding then display ''none'' k d else d)
           in (case run_effects k q d1 of
                 (q', d2) \<Rightarrow> c\<lparr>fx := (fx c)(k := q'), cpage := (cpage c)\<lparr>pdoc := d2\<rparr>\<rparr>)))"

definition siblings :: "nat \<Rightarrow> doc \<Rightarrow> nat list" where
  "siblings k d = (case parent_of k d of None \<Rightarrow> [] | Some m \<Rightarrow> filter (\<lambda>j. j \<noteq> k) (map nkey (kids m)))"

text \<open>\<^verbatim>\<open>$("#id_panel_button").parent("div").parent("div").children("div").siblings()\<close>\<close>

definition div_parent :: "nat \<Rightarrow> doc \<Rightarrow> node option" where
  "div_parent k d =
     (case parent_of k d of None \<Rightarrow> None | Some m \<Rightarrow> if tag (ninfo m) = ''div'' then Some m else None)"

definition side_panels :: "string \<Rightarrow> doc \<Rightarrow> nat list" where
  "side_panels i d =
     (case by_id (i @ ''_panel_button'') d of
        None \<Rightarrow> []
      | Some n \<Rightarrow>
          (case div_parent (nkey n) d of
             None \<Rightarrow> []
           | Some m \<Rightarrow>
               (case div_parent (nkey m) d of
                  None \<Rightarrow> []
                | Some s \<Rightarrow>
                    (let ds = map nkey (filter (\<lambda>x. tag (ninfo x) = ''div'') (kids s))
                     in filter (\<lambda>k. \<exists>j \<in> set ds. j \<noteq> k) (map nkey (kids s))))))"

definition inner_blocks :: "nat \<Rightarrow> doc \<Rightarrow> nat list" where
  "inner_blocks k d =
     (case find_key k d of
        None \<Rightarrow> []
      | Some n \<Rightarrow> map nkey (concat (map kids (concat (map kids (kids n))))))"

definition displays :: "string \<Rightarrow> nat list \<Rightarrow> doc \<Rightarrow> doc" where
  "displays v ks d = fold (display v) ks d"

definition show_blocks :: "string \<Rightarrow> doc \<Rightarrow> doc" where
  "show_blocks i d =
     (case by_id i d of
        None \<Rightarrow> d
      | Some n \<Rightarrow>
          (let k = nkey n;
               d1 = display ''block'' k (displays ''none'' (siblings k d) d);
               bs = inner_blocks k d1;
               d2 = displays ''none'' bs d1
           in (case bs of [] \<Rightarrow> d2 | b # _ \<Rightarrow> display ''block'' b d2)))"

text \<open>The panels lose the class \<^verbatim>\<open>in\<close> and are hidden by that, so the fade that follows has nothing to do.\<close>

definition switch_panel :: "string \<Rightarrow> act" where
  "switch_panel i = acts
     [on_doc (\<lambda>d. fold (\<lambda>k. upd_elem k (remove_class ''in'')) (side_panels i d) d), panel_button_click i]"

definition show_content :: "string \<Rightarrow> console \<Rightarrow> console" where
  "show_content i c =
     (let c1 = (case by_id i (pdoc (cpage c)) of
                  None \<Rightarrow> c
                | Some n \<Rightarrow>
                    (let c0 = fade FadeIn (nkey n) c
                     in fold (fade FadeOut)
                          (filter (\<lambda>k. visible k (pdoc (cpage c0))) (siblings (nkey n) (pdoc (cpage c0)))) c0));
          user = (\<not> admin c \<and> i = ''dashboard'');
          sel = (if user \<and> menu c = ''dashboard'' then ''applications'' else menu c);
          j = (if user then ''applications'' else i);
          p = (if j \<noteq> sel then fst (switch_panel j (cpage c1)) else cpage c1)
      in c1\<lparr>cpage := p\<lparr>pdoc := show_blocks j (pdoc p)\<rparr>, menu := j\<rparr>)"

section \<open>Sessions\<close>

text \<open>What a person can do on the page. The buttons of a row or a dialog come with the data that widget was
  made for, so any data will do; only the dialog for taking users out of their group is taken to be made
  for users that have one, as the server sends them (what it does otherwise is part of \<^theory_text>\<open>Failures\<close>).\<close>

inductive button :: "act \<Rightarrow> bool" where
  "button group_list_on_create"
| "button group_list_on_change"
| "button group_list_on_delete"
| "button (group_row_on_change g)"
| "button (group_row_on_delete g)"
| "button (show_group_users g)"
| "button group_opr_add"
| "button (group_selectall b)"
| "button group_opr_update"
| "button (group_opr_del g)"
| "us \<noteq> [] \<Longrightarrow> u_group (hd us) \<noteq> None \<Longrightarrow> button (group_opr_remove_user us (map u_id us))"
| "button group_opr_move_user"
| "button (graph_click k i)"
| "button (remove_user k)"
| "button (delete_group k)"
| "button (update_user_group k)"
| "button show_all_groups"
| "button (user_list_on_create roles)"
| "button (user_row_on_change u roles)"
| "button (user_row_on_delete u)"
| "button (show_user_profile u)"
| "button (user_opr_add roles)"
| "button (user_selectall b)"
| "button (user_opr_update roles)"
| "button (user_opr_del u)"
| "button show_all_users"
| "button host_list_on_create"
| "button (host_row_change h)"
| "button (host_row_delete h)"
| "button (show_host h)"
| "button (host_timer h)"
| "button host_opr_add"
| "button host_opr_update"
| "button (host_opr_del h)"
| "button storage_list_on_create"
| "button (storage_row_on_change s)"
| "button (storage_row_on_delete s)"
| "button storage_opr_add"
| "button (storage_selectall b)"
| "button storage_opr_update"
| "button (storage_opr_del s)"
| "button app_list_on_create"
| "button (app_row_on_change name)"
| "button (on_datastore_select sel)"
| "button (slide_change v)"
| "button app_opr_add"
| "button cluster_timer"
| "button (trigger_close sel)"
| "button dismiss"
| "button (jq_id i (set_attr ''value'' v))"
| "button (jq_id i (set_checked b))"
| "button email_keyup"

inductive step :: "console \<Rightarrow> console \<Rightarrow> bool" where
  press: "button a \<Longrightarrow> step c (c\<lparr>cpage := fst (a (cpage c))\<rparr>)"
| answer: "i < length (reqs (cpage c)) \<Longrightarrow> step c (c\<lparr>cpage := fst (respond i r (cpage c))\<rparr>)"
| menu_click: "step c (show_content i c)"
| fade_end: "step c (fade_ends k c)"

definition start :: "bool \<Rightarrow> string list \<Rightarrow> console" where
  "start role roles =
     \<lparr>cpage = fst (initialize role (Some roles) home_page), admin = role, menu = ''dashboard'', fx = (\<lambda>_. [])\<rparr>"

inductive reach :: "bool \<Rightarrow> string list \<Rightarrow> console \<Rightarrow> bool" for role roles where
  init: "reach role roles (start role roles)"
| more: "reach role roles c \<Longrightarrow> step c c' \<Longrightarrow> reach role roles c'"

section \<open>Every step keeps the invariants\<close>

lemma run_effects_doc: "snd (run_effects k q d) = d \<or> snd (run_effects k q d) = display ''block'' k d"
  by (induction k q d rule: run_effects.induct) auto

context page_core begin

lemma run_cont_presv: "presv I (run_cont c r)"
  by (cases c)
    (simp_all add: group_list_presv group_replies_presv graph_presv user_list_presv user_replies_presv
      host_list_presv host_replies_presv storage_list_presv storage_replies_presv app_list_presv app_replies_presv)

lemma panel_button_presv: "presv I (panel_button_click i)"
  by (auto simp: panel_button_click_def toggle_class_def intro!: act_intros jq_id_presv split: option.splits)

lemma display_law: "I p \<Longrightarrow> I (p\<lparr>pdoc := display v k (pdoc p)\<rparr>)"
  by (simp add: display_def upd_law)

lemma displays_law: "I p \<Longrightarrow> I (p\<lparr>pdoc := displays v ks (pdoc p)\<rparr>)"
  unfolding displays_def display_def by (rule fold_upd) simp_all

lemma show_blocks_law: "I p \<Longrightarrow> I (p\<lparr>pdoc := show_blocks i (pdoc p)\<rparr>)"
proof (cases "by_id i (pdoc p)")
  case (Some n)
  assume p: "I p"
  define d1 where "d1 = display ''block'' (nkey n) (displays ''none'' (siblings (nkey n) (pdoc p)) (pdoc p))"
  have d1: "I (p\<lparr>pdoc := d1\<rparr>)" using display_law [OF displays_law [OF p]] by (simp add: d1_def)
  from displays_law [OF d1] have d2: "I (p\<lparr>pdoc := displays ''none'' bs d1\<rparr>)" for bs by simp
  from display_law [OF d2] have "I (p\<lparr>pdoc := display ''block'' b (displays ''none'' bs d1)\<rparr>)" for b bs by simp
  with d2 show ?thesis by (simp add: show_blocks_def Some Let_def d1_def [symmetric] split: list.splits)
qed (simp add: show_blocks_def)

lemma fade_law: "I (cpage c) \<Longrightarrow> I (cpage (fade e k c))"
  using run_effects_doc [of k "[e]" "pdoc (cpage c)"] display_law [of "cpage c" "''block''" k]
  by (auto simp: fade_def split: prod.splits)

lemma fades_law: "I (cpage c) \<Longrightarrow> I (cpage (fold (fade e) ks c))"
  by (induction ks arbitrary: c) (simp_all add: fade_law)

lemma fade_ends_law: "I (cpage c) \<Longrightarrow> I (cpage (fade_ends k c))"
proof (cases "fx c k")
  case (Cons e q)
  assume i: "I (cpage c)"
  define d1 where "d1 = (if e = Hiding then display ''none'' k (pdoc (cpage c)) else pdoc (cpage c))"
  have d1: "I ((cpage c)\<lparr>pdoc := d1\<rparr>)" using i display_law [OF i] by (simp add: d1_def)
  from display_law [OF d1, of "''block''" k] d1 run_effects_doc [of k q d1]
  show ?thesis by (auto simp: fade_ends_def Cons Let_def d1_def [symmetric] split: prod.splits)
qed (simp add: fade_ends_def)

lemma switch_panel_presv: "presv I (switch_panel i)"
proof -
  have "presv I (on_doc (\<lambda>d. fold (\<lambda>k. upd_elem k (remove_class ''in'')) (side_panels i d) d))"
    by (simp add: presv_def on_doc_def fold_upd)
  then show ?thesis unfolding switch_panel_def by (auto intro!: act_intros panel_button_presv)
qed

lemma show_content_law: "I (cpage c) \<Longrightarrow> I (cpage (show_content i c))"
proof -
  assume i: "I (cpage c)"
  define c1 where "c1 = (case by_id i (pdoc (cpage c)) of None \<Rightarrow> c
     | Some n \<Rightarrow> (let c0 = fade FadeIn (nkey n) c in fold (fade FadeOut)
          (filter (\<lambda>k. visible k (pdoc (cpage c0))) (siblings (nkey n) (pdoc (cpage c0)))) c0))"
  have c1: "I (cpage c1)" using i by (auto simp: c1_def Let_def fade_law fades_law split: option.splits)
  have "I (fst (switch_panel j (cpage c1)))" for j using switch_panel_presv c1 by (simp add: presv_def)
  with c1 show ?thesis
    by (simp add: show_content_def Let_def c1_def [symmetric] show_blocks_law)
qed

lemma start_presv: "presv I start_dashboard"
  unfolding start_dashboard_def
  by (intro act_intros) (auto simp: dashboard_presv create_law)

end

text \<open>The overlay is another matter in \<open>initialize\<close> and in \<open>respond\<close>, which take requests away.\<close>

context page_inv begin

lemma button_presv: "button a \<Longrightarrow> presv I a"
proof (induction rule: button.induct)
  case (11 us)
  then show ?case by (rule group_opr_remove_presv)
qed (simp_all add: group_list_presv group_content_presv group_opr_presv graph_presv user_list_presv user_content_presv
    user_opr_presv host_list_presv show_host_presv host_stats_presv host_opr_presv storage_list_presv storage_opr_presv
    app_list_presv app_opr_presv slide_change_presv cluster_stats_presv trigger_law dismiss_law jq_id_presv
    email_keyup_presv)

end

locale page_inv_free = page_all +
  assumes load_law: "I p \<Longrightarrow> I (p\<lparr>loading := m\<rparr>)"
    and reqs_law: "I p \<Longrightarrow> I (p\<lparr>reqs := rs\<rparr>)"
begin

lemma respond_presv: "presv I (respond i r)"
  using run_cont_presv by (auto simp: presv_def respond_def reqs_law)

lemma start_load_presv: "presv I (start_load m)"
proof -
  have "presv I (on_doc (\<lambda>d. case body_key d of None \<Rightarrow> d | Some b \<Rightarrow> upd_elem b (set_css n v) d))" for n v
    by (rule on_body_presv) (simp add: upd_law)
  then show ?thesis unfolding start_load_def
    by (intro act_intros) (auto simp: presv_def load_law jq_id_presv [unfolded presv_def])
qed

lemma initialize_presv: "presv I (initialize role roles)"
  unfolding initialize_def
  by (intro act_intros)
    (auto simp: start_load_presv subscribe_law stop_law start_presv dashboard_presv app_list_presv group_content_presv
      user_content_presv host_list_post_create_presv panel_button_presv group_list_post_create_presv
      app_list_post_create_presv user_list_post_create_presv storage_list_post_create_presv storage_list_presv jq_id_presv
      split: if_splits)

lemma reach_inv:
  assumes "reach role roles c" "I home_page"
  shows "I (cpage c)"
  using assms
proof (induction rule: reach.induct)
  case init
  then show ?case using initialize_presv by (simp add: start_def presv_def)
next
  case (more c c')
  from more(2) show ?case
  proof cases
    case (press a)
    with more button_presv [of a] show ?thesis by (simp add: presv_def)
  next
    case (answer i r)
    with more respond_presv [of i r] show ?thesis by (simp add: presv_def)
  qed (use more in \<open>auto simp: show_content_law fade_ends_law\<close>)
qed

end

lemma page_ok_free: "page_ok p \<Longrightarrow> page_ok (p\<lparr>loading := m\<rparr>)" "page_ok p \<Longrightarrow> page_ok (p\<lparr>reqs := rs\<rparr>)"
  by (simp_all add: page_ok_def)

lemma one_dialog_free: "one_dialog p \<Longrightarrow> one_dialog (p\<lparr>loading := m\<rparr>)" "one_dialog p \<Longrightarrow> one_dialog (p\<lparr>reqs := rs\<rparr>)"
  by (simp_all add: one_dialog_def)

interpretation okf: page_inv_free page_ok
  by unfold_locales (rule page_ok_free, assumption)+

interpretation dialogsf: page_inv_free one_dialog
  by unfold_locales (rule one_dialog_free, assumption)+

end
