(* ===== verification/Session.thy ===== *)
theory Session
  imports Console
begin

text \<open>
  What holds in every session of the console: the page stays well formed and shows one popup at most, the
  loading overlay never stays without a request that takes it away, and each topic keeps the one
  listener \<^verbatim>\<open>initialize\<close> gave it.
\<close>

section \<open>While the overlay is away\<close>

lemma stop_load_quiet: "snd (stop_load p) = None \<and> loading (fst (stop_load p)) = None"
  by (simp add: stop_load_def on_doc_def)

interpretation quiet: page_core "\<lambda>p. loading p = None"
proof unfold_locales
  show "presv (\<lambda>p. loading p = None) (new_widget wid tm [] fin r ps)" for wid tm fin r ps
    using new_widget_frame [of wid tm "[]" fin r ps] by (auto simp: presv_def frame_def)
  have "presv (\<lambda>p. loading p = None) (new_widget wid tm [] fin r ps)" for wid tm fin r ps
    using new_widget_frame [of wid tm "[]" fin r ps] by (auto simp: presv_def frame_def)
  moreover have "presv (\<lambda>p. loading p = None) (lightbox sel)" for sel
    using lightbox_boxes by (auto simp: presv_def)
  ultimately show "presv (\<lambda>p. loading p = None) (new_dialog tm sel)" for tm sel
    unfolding new_dialog_def by (intro presv_acts) auto
  show "presv (\<lambda>p. loading p = None) (trigger_close sel)" for sel using trigger_close_frame by (auto simp: presv_def)
  show "presv (\<lambda>p. loading p = None) dismiss" using dismiss_frame by (auto simp: presv_def)
  show "presv (\<lambda>p. loading p = None) stop_load" using stop_load_quiet by (auto simp: presv_def)
  show "presv (\<lambda>p. loading p = None) (create_div cls i)" for cls i
    using create_div_frame(1) by (fastforce simp: presv_def frame_def)
qed (simp_all add: presv_def xhr_def)

section \<open>The topics\<close>

lemma hub_new_widget: "hub (fst (new_widget wid tm [] fin r ps p)) = hub p"
proof -
  have "hub (fst (place_at t r ps q)) = hub q" for t q
    by (auto simp: place_at_def run_doc_def split: place_ref.splits option.splits prod.splits)
  then show ?thesis
    by (simp add: new_widget_def Let_def del: acts.simps split: prod.split option.split)
qed

lemma hub_close: "hub (fst (close_box b p)) = hub p"
  using destroy_widget_presv [of "\<lambda>q. hub q = hub p"]
  by (auto simp: close_box_def on_close_def simp del: destroy_widget.simps split: option.splits)

lemma hub_closes: "hub (fst (acts (map close_box bs) p)) = hub p"
proof (induction bs arbitrary: p)
  case (Cons b bs)
  obtain q e where q: "close_box b p = (q, e)" by (cases "close_box b p")
  with Cons [of q] hub_close [of b p] show ?case by (cases e) simp_all
qed simp

interpretation wiring: page_inv "\<lambda>p. hub p = h" for h
proof unfold_locales
  have n: "presv (\<lambda>p. hub p = h) (new_widget wid tm [] fin r ps)" for wid tm fin r ps
    by (simp add: presv_def hub_new_widget)
  then show "presv (\<lambda>p. hub p = h) (new_widget wid tm [] fin r ps)" for wid tm fin r ps .
  have "presv (\<lambda>p. hub p = h) (lightbox sel)" for sel
    by (auto simp: presv_def lightbox_def Let_def split: option.splits)
  with n show "presv (\<lambda>p. hub p = h) (new_dialog tm sel)" for tm sel
    unfolding new_dialog_def by (intro presv_acts) auto
  show "presv (\<lambda>p. hub p = h) (trigger_close sel)" for sel
    by (auto simp: presv_def trigger_close_def hub_closes split: option.splits)
  show "presv (\<lambda>p. hub p = h) dismiss" by (auto simp: presv_def dismiss_def hub_close)
  show "presv (\<lambda>p. hub p = h) (submit msg url d c)" for msg url d c
    by (auto simp: presv_def submit_def start_load_def on_doc_def jq_id_def xhr_def split: option.splits)
  show "presv (\<lambda>p. hub p = h) stop_load" by (simp add: presv_def stop_load_def on_doc_def)
  show "presv (\<lambda>p. hub p = h) (create_div cls i)" for cls i
    by (auto simp: presv_def create_div_def split: prod.splits)
qed (simp_all add: presv_def xhr_def)

section \<open>The overlay goes away\<close>

lemma stop_then:
  assumes "\<And>a. a \<in> set as \<Longrightarrow> presv (\<lambda>p. loading p = None) a"
  shows "loading (fst (acts (stop_load # as) p)) = None"
proof -
  obtain q where q: "stop_load p = (q, None)" "loading q = None"
    using stop_load_quiet [of p] by (cases "stop_load p") auto
  have "presv (\<lambda>p. loading p = None) (acts as)" using assms by (rule presv_acts)
  with q show ?thesis by (simp add: presv_def)
qed

lemma group_replies_stop:
  "loading (fst (group_updated r p)) = None" "loading (fst (group_deleted g r p)) = None"
  "loading (fst (group_user_removed r p)) = None" "loading (fst (group_user_moved r p)) = None"
  by (cases r; simp only: group_updated_def group_deleted_def group_user_removed_def group_user_moved_def reply.case;
      rule stop_then; auto intro!: act_intros quiet.steps quiet.group_listener_presv)+

lemma group_added_stop:
  assumes "page_ok p" "one_dialog p"
  shows "loading (fst (group_added r p)) = None"
proof (cases r)
  case (Answer d)
  have c: "snd (trigger_close ''group_opr'' p) = None" using trigger_close_ok assms by blast
  obtain q where q: "(if r_error d then ok else trigger_close ''group_opr'') p = (q, None)"
    using c by (cases "r_error d"; cases "trigger_close ''group_opr'' p") (auto simp: ok_def)
  have "loading (fst (acts [stop_load, publish (group_listener d None) ''/stomp/group_create''] q)) = None"
    by (rule stop_then) (auto intro!: act_intros quiet.steps quiet.group_listener_presv)
  with q Answer show ?thesis by (simp add: group_added_def)
next
  case (Failed m)
  then show ?thesis
    by (simp only: group_added_def reply.case) (rule stop_then, auto intro!: quiet.steps)
qed

lemma user_replies_stop:
  "loading (fst (user_added r p)) = None" "loading (fst (user_updated r p)) = None" "loading (fst (user_deleted u r p)) = None"
  by (cases r; simp only: user_added_def user_updated_def user_deleted_def reply.case;
      rule stop_then; auto intro!: act_intros quiet.steps quiet.user_listener_presv)+

lemma host_replies_stop:
  "loading (fst (host_added r p)) = None" "loading (fst (host_updated r p)) = None" "loading (fst (host_deleted h r p)) = None"
  by (cases r; simp only: host_added_def host_updated_def host_deleted_def reply.case;
      rule stop_then; auto intro!: act_intros quiet.steps quiet.host_listener_presv)+

lemma storage_replies_stop:
  "loading (fst (storage_added r p)) = None" "loading (fst (storage_updated r p)) = None"
  "loading (fst (storage_deleted s r p)) = None"
  by (cases r; simp only: storage_added_def storage_updated_def storage_deleted_def reply.case;
      rule stop_then; auto intro!: act_intros quiet.steps quiet.storage_listener_presv)+

lemma app_replies_stop:
  "loading (fst (app_changed i op r p)) = None" "loading (fst (app_added r p)) = None"
  by (cases r; simp only: app_changed_def app_added_def reply.case;
      rule stop_then; auto intro!: act_intros quiet.steps quiet.app_listener_presv)+

lemma stopper_quiet:
  assumes "stops_load c" "page_ok p" "one_dialog p"
  shows "loading (fst (run_cont c r p)) = None"
  using assms
  by (cases c) (simp_all add: group_replies_stop group_added_stop user_replies_stop host_replies_stop
      storage_replies_stop app_replies_stop)

lemma remove_nth_other:
  assumes "list_ex P xs" "i < length xs" "\<not> P (xs ! i)"
  shows "list_ex P (remove_nth i xs)"
proof -
  from assms(1) obtain j where j: "j < length xs" "P (xs ! j)" by (auto simp: list_ex_length)
  with assms(3) have "j \<noteq> i" by auto
  then consider "j < i" | "i < j" by linarith
  then have "xs ! j \<in> set (take i xs @ drop (Suc i) xs)"
  proof cases
    case 1
    then show ?thesis using j assms(2) by (auto simp: in_set_conv_nth intro!: exI [of _ j])
  next
    case 2
    then have "drop (Suc i) xs ! (j - Suc i) = xs ! j" "j - Suc i < length (drop (Suc i) xs)" using j by auto
    then show ?thesis by (metis Un_iff nth_mem set_append)
  qed
  with j show ?thesis by (auto simp: remove_nth_def list_ex_iff)
qed

lemma load_ok_respond:
  assumes "page_ok p" "one_dialog p" "load_ok p"
  shows "load_ok (fst (respond i r p))"
proof (cases "i < length (reqs p)")
  case True
  let ?q = "reqs p ! i" and ?p = "p\<lparr>reqs := remove_nth i (reqs p)\<rparr>"
  have p: "page_ok ?p" "one_dialog ?p" using assms by (simp_all add: page_ok_free one_dialog_free)
  show ?thesis
  proof (cases "stops_load (q_cont ?q)")
    case True
    from stopper_quiet [OF True p, of r] \<open>i < length (reqs p)\<close> show ?thesis by (simp add: respond_def load_ok_def)
  next
    case False
    with assms(3) True remove_nth_other [of "\<lambda>r. stops_load (q_cont r)" "reqs p" i] have "load_ok ?p"
      by (auto simp: load_ok_def)
    with loads.run_cont_presv [of "q_cont ?q" r] True show ?thesis by (simp add: respond_def presv_def)
  qed
qed (use assms in \<open>simp add: respond_def\<close>)

lemma initialize_ends: "snd (initialize role (Some roles) home_page) = None"
proof -
  have "snd (initialize True (Some roles) home_page) = None" "snd (initialize False (Some roles) home_page) = None"
    by code_simp+
  then show ?thesis by (cases role) auto
qed

lemma acts_snoc: "snd (acts (as @ [a]) p) = None \<Longrightarrow> \<exists>q. fst (acts (as @ [a]) p) = fst (a q)"
  by (cases "acts as p"; cases "snd (acts as p)") (auto simp: acts_append simp del: acts.simps)

lemma load_ok_start: "load_ok (fst (initialize role (Some roles) home_page))"
proof -
  obtain as where "initialize role (Some roles) = acts (as @ [stop_load])"
    by (simp add: initialize_def) (metis append.assoc append_Cons append_Nil)
  with initialize_ends [of role roles] acts_snoc [of as stop_load home_page] stop_load_quiet
  show ?thesis by (auto simp: load_ok_def)
qed

lemma reach_page: "reach role roles c \<Longrightarrow> page_ok (cpage c) \<and> one_dialog (cpage c)"
  using okf.reach_inv dialogsf.reach_inv page_ok_home one_dialog_home by blast

lemma reach_load:
  assumes "reach role roles c"
  shows "load_ok (cpage c)"
  using assms
proof (induction rule: reach.induct)
  case init
  show ?case by (simp add: start_def load_ok_start)
next
  case (more c c')
  from more(2) show ?case
  proof cases
    case (press a)
    with more(3) loads.button_presv [of a] show ?thesis by (simp add: presv_def)
  next
    case (answer i r)
    with load_ok_respond more reach_page [OF more(1)] show ?thesis by simp
  qed (use more(3) in \<open>auto simp: loads.show_content_law loads.fade_ends_law\<close>)
qed

text \<open>C1: in every session, whatever is pressed and however the requests are answered, every node has an
  identity of its own, each node that carries a widget's id is the node of the widget registered under
  it, the topics' lists are intact, and at most one popup is open.\<close>
theorem session_page_ok:
  assumes "reach role roles c"
  shows "page_ok (cpage c) \<and> one_dialog (cpage c)"
  using reach_page [OF assms] .

text \<open>C2: the loading overlay never gets stuck in a session whose users to be taken out of a group come with
  their group (the one case in which it does is stated with the failures): whenever it is shown there is
  a request under way whose answer, be it a success, a failure or one without data, takes it away.\<close>
theorem overlay_closes:
  assumes "reach role roles c" "loading (cpage c) \<noteq> None"
  shows "\<exists>i < length (reqs (cpage c)). \<forall>r. loading (fst (respond i r (cpage c))) = None"
proof -
  from reach_load [OF assms(1)] assms(2) obtain i where
    i: "i < length (reqs (cpage c))" "stops_load (q_cont (reqs (cpage c) ! i))"
    by (auto simp: load_ok_def list_ex_length)
  let ?p = "(cpage c)\<lparr>reqs := remove_nth i (reqs (cpage c))\<rparr>"
  have "page_ok ?p" "one_dialog ?p" using reach_page [OF assms(1)] by (simp_all add: page_ok_free one_dialog_free)
  from stopper_quiet [OF i(2) this] i(1) show ?thesis by (auto simp: respond_def)
qed

text \<open>A session of an administrator in which a row's button was pressed.\<close>

definition sample_session :: console where
  "sample_session =
     (let c = start True [''admin'', ''user'']
      in c\<lparr>cpage := fst (app_row_on_change ''7|job|play'' (cpage c))\<rparr>)"

lemma reach_sample: "reach True [''admin'', ''user''] sample_session"
  unfolding sample_session_def Let_def
  by (rule reach.more [OF reach.init step.press]) (rule button.intros)

lemma session_page_ok_witness: "page_ok (cpage sample_session) \<and> one_dialog (cpage sample_session)"
  by (rule session_page_ok [OF reach_sample])

lemma overlay_closes_witness:
  "\<exists>i < length (reqs (cpage sample_session)). \<forall>r. loading (fst (respond i r (cpage sample_session))) = None"
proof (rule overlay_closes [OF reach_sample])
  show "loading (cpage sample_session) \<noteq> None"
    by (simp add: sample_session_def Let_def app_row_on_change_def submit_def start_load_def xhr_def jq_id_def on_doc_def
        split: option.splits prod.splits)
qed

end
