(* ===== verification/Menu.thy ===== *)
theory Menu
  imports Session Relabel
begin

text \<open>
  The menu. A click sets what is displayed at once and starts fades that end later; \<open>eventual\<close> is the
  visibility an element has once its queue of fades has run, and the invariant \<open>menu_ok\<close> speaks of that.
\<close>

section \<open>Displays\<close>

lemma visible_display:
  assumes "distinct (keys d)"
  shows "visible k (display v j d) = (if k = j then k \<in> set (keys d) \<and> v \<noteq> ''none'' else visible k d)"
proof (cases "find_key k d")
  case None
  with find_key_None [of k d] show ?thesis
    by (auto simp: visible_def display_def upd_elem_relabel assms)
next
  case (Some n)
  have "css_of ''display'' ''block'' (set_css ''display'' v e) = v" for e
    by (simp add: css_of_def set_css_def update_conv')
  with Some find_key_None [of k d] find_key_nkey [OF Some] show ?thesis
    by (auto simp: visible_def display_def upd_elem_relabel assms)
qed

text \<open>Two documents of one shape: only classes and styles differ.\<close>

definition same_shape :: "doc \<Rightarrow> doc \<Rightarrow> bool" where
  "same_shape d d' \<longleftrightarrow> (\<exists>h. keeps_values h \<and> d' = relabel h d)"

lemma same_shape_refl [simp]: "same_shape d d"
  unfolding same_shape_def by (rule exI [of _ "\<lambda>k e. e"]) (simp add: keeps_values_def relabel_id)

lemma same_shape_trans: "same_shape a b \<Longrightarrow> same_shape b c \<Longrightarrow> same_shape a c"
proof -
  assume "same_shape a b" "same_shape b c"
  then obtain g h where gh: "keeps_values g" "keeps_values h" "b = relabel g a" "c = relabel h b"
    by (auto simp: same_shape_def)
  have "keeps_values (\<lambda>k e. h k (g k e))" using gh by (simp add: keeps_values_def)
  then show ?thesis using gh(3,4) unfolding same_shape_def by (auto simp: relabel_relabel)
qed

lemma same_shape_keys: "same_shape d d' \<Longrightarrow> keys d' = keys d"
  by (auto simp: same_shape_def)

lemma same_shape_upd:
  assumes "distinct (keys d)" "\<And>e. ident (f e) = ident e \<and> tag (f e) = tag e \<and> attrs (f e) = attrs e"
  shows "same_shape d (upd_elem k f d)"
  unfolding same_shape_def upd_elem_relabel [OF assms(1)]
  by (rule exI [of _ "\<lambda>j e. if j = k then f e else e"]) (simp add: keeps_values_def assms(2))

lemma same_shape_upds:
  assumes "distinct (keys d)" "\<And>e. ident (f e) = ident e \<and> tag (f e) = tag e \<and> attrs (f e) = attrs e"
  shows "same_shape d (fold (\<lambda>k. upd_elem k f) ks d)"
  using assms(1)
proof (induction ks arbitrary: d)
  case (Cons k ks)
  have s: "same_shape d (upd_elem k f d)" by (rule same_shape_upd [OF Cons.prems assms(2)])
  then have "same_shape (upd_elem k f d) (fold (\<lambda>k. upd_elem k f) ks (upd_elem k f d))"
    using Cons by (simp add: same_shape_keys)
  with s show ?case by (auto intro: same_shape_trans)
qed simp

lemma same_shape_display: "distinct (keys d) \<Longrightarrow> same_shape d (display v k d)"
  unfolding display_def by (rule same_shape_upd) (simp_all add: set_css_def)

lemma same_shape_displays: "distinct (keys d) \<Longrightarrow> same_shape d (displays v ks d)"
  unfolding displays_def display_def by (rule same_shape_upds) (simp_all add: set_css_def)

lemma visible_displays:
  assumes "distinct (keys d)"
  shows "visible k (displays v ks d) = (if k \<in> set ks then k \<in> set (keys d) \<and> v \<noteq> ''none'' else visible k d)"
  using assms
proof (induction ks arbitrary: d)
  case (Cons j ks)
  have "keys (display v j d) = keys d" by (rule same_shape_keys [OF same_shape_display [OF Cons.prems]])
  with Cons show ?case by (auto simp: displays_def visible_display)
qed (simp add: displays_def)

lemma same_shape_by_id: "same_shape d d' \<Longrightarrow> map_option nkey (by_id i d') = map_option nkey (by_id i d)"
  by (auto simp: same_shape_def by_id_relabel keeps_values_ident option.map_comp comp_def)

lemma nkeys_relabel [simp]: "map nkey (relabel h d) = map nkey d"
  by (simp add: relabel_map comp_def)

lemma same_shape_siblings: "same_shape d d' \<Longrightarrow> siblings k d' = siblings k d"
  by (auto simp: same_shape_def siblings_def split: option.splits)

section \<open>Fades\<close>

fun eventually_visible :: "effect \<Rightarrow> bool \<Rightarrow> bool" where
  "eventually_visible FadeIn v = True"
| "eventually_visible FadeOut v = False"
| "eventually_visible Showing v = v"
| "eventually_visible Hiding v = False"

definition eventual :: "nat \<Rightarrow> console \<Rightarrow> bool" where
  "eventual k c = fold eventually_visible (fx c k) (visible k (pdoc (cpage c)))"

text \<open>A queue that runs starts with the fade under way; the others wait.\<close>

fun queue_ok :: "effect list \<Rightarrow> bool" where
  "queue_ok [] = True"
| "queue_ok (e # q) = (e \<in> {Showing, Hiding} \<and> set q \<subseteq> {FadeIn, FadeOut})"

lemma eventual_mono: "fold eventually_visible q v \<Longrightarrow> v \<le> w \<Longrightarrow> fold eventually_visible q w"
proof (induction q arbitrary: v w)
  case (Cons e q)
  have "eventually_visible e v \<le> eventually_visible e w" using Cons.prems(2) by (cases e) auto
  with Cons show ?case by auto
qed auto

lemma run_effects_visible:
  assumes "distinct (keys d)" "k \<in> set (keys d)" "set q \<subseteq> {FadeIn, FadeOut}" "run_effects k q d = (q', d')"
  shows "queue_ok q' \<and> same_shape d d' \<and> (\<forall>j. j \<noteq> k \<longrightarrow> visible j d' = visible j d)
    \<and> fold eventually_visible q' (visible k d') = fold eventually_visible q (visible k d)
    \<and> (fold eventually_visible q (visible k d) \<longrightarrow> visible k d') \<and> length q' \<le> length q"
  using assms
proof (induction k q d rule: run_effects.induct)
  case (1 k q d)
  then show ?case
    by (cases "visible k d") (auto simp: visible_display same_shape_display)
next
  case (2 k q d)
  then show ?case by (cases "visible k d") auto
qed auto

definition running :: "console \<Rightarrow> bool" where
  "running c \<longleftrightarrow> distinct (keys (pdoc (cpage c))) \<and> (\<forall>k. queue_ok (fx c k))"

abbreviation cdoc :: "console \<Rightarrow> doc" where
  "cdoc c \<equiv> pdoc (cpage c)"

lemma fade_eventual:
  assumes "running c" "k \<in> set (keys (cdoc c))" "e = FadeIn \<or> e = FadeOut"
  shows "running (fade e k c)" "same_shape (cdoc c) (cdoc (fade e k c))"
    "eventual j (fade e k c) = (if j = k then e = FadeIn else eventual j c)"
    "visible j (cdoc c) \<longrightarrow> visible j (cdoc (fade e k c))"
    "e = FadeOut \<or> j \<noteq> k \<Longrightarrow> visible j (cdoc (fade e k c)) = visible j (cdoc c)"
    "admin (fade e k c) = admin c" "menu (fade e k c) = menu c"
    "j \<noteq> k \<Longrightarrow> fx (fade e k c) j = fx c j"
proof -
  obtain q d where r: "run_effects k [e] (cdoc c) = (q, d)" by (cases "run_effects k [e] (cdoc c)")
  note re = run_effects_visible [OF _ assms(2) _ r]
  have d: "distinct (keys (cdoc c))" using assms(1) by (simp add: running_def)
  have e: "set [e] \<subseteq> {FadeIn, FadeOut}" using assms(3) by auto
  note re = re [OF d e]
  have kd: "keys d = keys (cdoc c)" using re same_shape_keys by blast
  show "running (fade e k c)"
  proof (cases "fx c k = []")
    case True
    with re kd assms(1) r show ?thesis by (auto simp: running_def fade_def)
  next
    case False
    then obtain x xs where "fx c k = x # xs" by (cases "fx c k") auto
    moreover have "queue_ok (fx c k)" using assms(1) by (simp add: running_def)
    ultimately show ?thesis using assms(1,3) by (auto simp: running_def fade_def)
  qed
  show "same_shape (cdoc c) (cdoc (fade e k c))" using re r by (auto simp: fade_def)
  show "eventual j (fade e k c) = (if j = k then e = FadeIn else eventual j c)"
    using re r assms(3) by (auto simp: fade_def eventual_def)
  show "visible j (cdoc c) \<longrightarrow> visible j (cdoc (fade e k c))"
    using r run_effects_doc [of k "[e]" "cdoc c"] by (auto simp: fade_def visible_display [OF d] assms(2))
  show "visible j (cdoc (fade e k c)) = visible j (cdoc c)" if "e = FadeOut \<or> j \<noteq> k"
    using that r re by (auto simp: fade_def split: if_splits)
  show "admin (fade e k c) = admin c" "menu (fade e k c) = menu c" using r by (simp_all add: fade_def)
  show "fx (fade e k c) j = fx c j" if "j \<noteq> k" using that r by (simp add: fade_def)
qed

lemma fades_eventual:
  assumes "running c" "set ks \<subseteq> set (keys (cdoc c))"
  shows "running (fold (fade FadeOut) ks c) \<and> same_shape (cdoc c) (cdoc (fold (fade FadeOut) ks c))
    \<and> (\<forall>j. eventual j (fold (fade FadeOut) ks c) = (j \<notin> set ks \<and> eventual j c))
    \<and> (\<forall>j. visible j (cdoc (fold (fade FadeOut) ks c)) = visible j (cdoc c))
    \<and> admin (fold (fade FadeOut) ks c) = admin c \<and> menu (fold (fade FadeOut) ks c) = menu c
    \<and> (\<forall>j. j \<notin> set ks \<longrightarrow> fx (fold (fade FadeOut) ks c) j = fx c j)"
  using assms
proof (induction ks arbitrary: c)
  case (Cons k ks)
  let ?c = "fade FadeOut k c"
  from Cons.prems have k: "k \<in> set (keys (cdoc c))" by simp
  note f = fade_eventual [OF Cons.prems(1) k, of FadeOut, simplified]
  have "set ks \<subseteq> set (keys (cdoc ?c))" using Cons.prems(2) same_shape_keys [OF f(2)] by simp
  with Cons.IH [OF f(1)] have ih: "running (fold (fade FadeOut) ks ?c)
    \<and> same_shape (cdoc ?c) (cdoc (fold (fade FadeOut) ks ?c))
    \<and> (\<forall>j. eventual j (fold (fade FadeOut) ks ?c) = (j \<notin> set ks \<and> eventual j ?c))
    \<and> (\<forall>j. visible j (cdoc (fold (fade FadeOut) ks ?c)) = visible j (cdoc ?c))
    \<and> admin (fold (fade FadeOut) ks ?c) = admin ?c \<and> menu (fold (fade FadeOut) ks ?c) = menu ?c
    \<and> (\<forall>j. j \<notin> set ks \<longrightarrow> fx (fold (fade FadeOut) ks ?c) j = fx ?c j)" by blast
  then show ?case using f(2) same_shape_trans by (auto simp: f(3,5-8))
qed simp

lemma fade_ends_eventual:
  assumes "running c" "k \<in> set (keys (cdoc c))"
  shows "running (fade_ends k c)" "same_shape (cdoc c) (cdoc (fade_ends k c))"
    "eventual j (fade_ends k c) = eventual j c"
    "eventual j c \<Longrightarrow> visible j (cdoc c) \<Longrightarrow> visible j (cdoc (fade_ends k c))"
    "admin (fade_ends k c) = admin c" "menu (fade_ends k c) = menu c"
proof -
  have *: "running (fade_ends k c) \<and> same_shape (cdoc c) (cdoc (fade_ends k c))
    \<and> eventual j (fade_ends k c) = eventual j c
    \<and> (eventual j c \<longrightarrow> visible j (cdoc c) \<longrightarrow> visible j (cdoc (fade_ends k c)))
    \<and> admin (fade_ends k c) = admin c \<and> menu (fade_ends k c) = menu c" for j
  proof (cases "fx c k")
    case Nil
    then show ?thesis using assms(1) by (simp add: fade_ends_def)
  next
    case (Cons e q)
    have d: "distinct (keys (cdoc c))" and o: "queue_ok (e # q)"
      using assms(1) unfolding running_def by (blast, metis Cons)
    define d1 where "d1 = (if e = Hiding then display ''none'' k (cdoc c) else cdoc c)"
    have s1: "same_shape (cdoc c) d1" using same_shape_display [OF d] by (simp add: d1_def)
    have d1': "distinct (keys d1)" "k \<in> set (keys d1)" using same_shape_keys [OF s1] d assms(2) by simp_all
    have v1: "visible j d1 = (if j = k \<and> e = Hiding then False else visible j (cdoc c))" for j
      by (simp add: d1_def visible_display [OF d])
    obtain q' d2 where r: "run_effects k q d1 = (q', d2)" by (cases "run_effects k q d1")
    have qs: "set q \<subseteq> {FadeIn, FadeOut}" using o by simp
    note re = run_effects_visible [OF d1' qs r]
    have c': "fade_ends k c = c\<lparr>fx := (fx c)(k := q'), cpage := (cpage c)\<lparr>pdoc := d2\<rparr>\<rparr>"
      using Cons r by (simp add: fade_ends_def Let_def d1_def)
    have s2: "same_shape (cdoc c) d2" using re s1 same_shape_trans by blast
    have "eventual k (fade_ends k c) = fold eventually_visible q (visible k d1)" using re by (simp add: c' eventual_def)
    also have "\<dots> = eventual k c" using Cons o by (auto simp: eventual_def v1)
    finally have ek: "eventual k (fade_ends k c) = eventual k c" .
    have "fold eventually_visible q (visible k d1) = eventual k c" using Cons o by (auto simp: eventual_def v1)
    with re have "eventual k c \<longrightarrow> visible k d2" by simp
    moreover have "eventual j (fade_ends k c) = eventual j c" using ek re v1 by (cases "j = k") (simp_all add: c' eventual_def)
    moreover have "running (fade_ends k c)" using assms(1) re same_shape_keys [OF s2] d by (simp add: running_def c')
    ultimately show ?thesis using s2 re v1 by (cases "j = k") (simp_all add: c')
  qed
  show "running (fade_ends k c)" "same_shape (cdoc c) (cdoc (fade_ends k c))"
    "eventual j (fade_ends k c) = eventual j c"
    "eventual j c \<Longrightarrow> visible j (cdoc c) \<Longrightarrow> visible j (cdoc (fade_ends k c))"
    "admin (fade_ends k c) = admin c" "menu (fade_ends k c) = menu c"
    using * by blast+
qed

section \<open>The contents and what is inside them\<close>

definition contents :: "doc \<Rightarrow> nat list" where
  "contents d = (case by_id ''content'' d of None \<Rightarrow> [] | Some m \<Rightarrow> map nkey (kids m))"

definition key_of :: "string \<Rightarrow> doc \<Rightarrow> nat option" where
  "key_of i d = map_option nkey (by_id i d)"

lemma same_shape_key_of: "same_shape d d' \<Longrightarrow> key_of i d' = key_of i d"
  by (simp add: key_of_def same_shape_by_id)

lemma same_shape_contents: "same_shape d d' \<Longrightarrow> contents d' = contents d"
  by (auto simp: same_shape_def contents_def by_id_relabel keeps_values_ident split: option.splits)

lemma keys_below: "m \<in> set (nodes d) \<Longrightarrow> set (keys (kids m)) \<subseteq> set (keys d)"
  using nodes_trans [of m d] by (auto simp: keys_def items_def)

lemma top_not_below:
  assumes "distinct (keys ts)" "s \<in> set ts" "m \<in> set (nodes ts)"
  shows "nkey s \<notin> set (keys (kids m))"
  using assms
proof (induction ts rule: nodes.induct)
  case (2 k e as bs)
  note dist = 2(3)
  have s: "s = Node k e as \<or> nkey s \<in> set (keys bs)" using 2(4) kids_in_nodes nkey_in_keys by fastforce
  consider "m = Node k e as" | "m \<in> set (nodes as)" | "m \<in> set (nodes bs)" using 2(5) by auto
  then show ?case
  proof cases
    case 1
    with s dist show ?thesis by auto
  next
    case 2
    with s dist keys_below [OF 2] show ?thesis by auto
  next
    case 3
    show ?thesis
    proof (cases "s = Node k e as")
      case True
      with dist keys_below [OF 3] show ?thesis by auto
    next
      case False
      with 2 3 show ?thesis by auto
    qed
  qed
qed simp

lemma parent_of_child:
  assumes "distinct (keys d)" "m \<in> set (nodes d)" "t \<in> set (kids m)"
  shows "parent_of (nkey t) d = Some m"
  using assms
proof (induction d rule: nodes.induct)
  case (2 k e ts us)
  note dist = 2(3) and ih = 2(1,2) and tk = 2(5)
  have tm: "nkey t \<in> set (keys (kids m))" using nkey_in_keys kids_in_nodes 2(5) by blast
  consider "m = Node k e ts" | "m \<in> set (nodes ts)" | "m \<in> set (nodes us)" using 2(4) by auto
  then show ?case
  proof cases
    case 1
    with 2(5) show ?thesis by (simp add: parent_of_def)
  next
    case 2
    have "nkey t \<notin> nkey ` set ts" using top_not_below [OF _ _ 2] tm dist by fastforce
    with 2 dist tk ih(1) show ?thesis by (simp add: parent_of_def find_append)
  next
    case 3
    have "nkey t \<in> set (keys us)" using keys_below [OF 3] tm by auto
    then have n: "nkey t \<notin> set (keys ts)" using dist by auto
    then have "nkey t \<notin> nkey ` set ts" using kids_in_nodes nkey_in_keys by fastforce
    moreover have "find (\<lambda>n. nkey t \<in> set (map nkey (kids n))) (nodes ts) = None"
      using n keys_below kids_in_nodes nkey_in_keys by (fastforce simp: find_None_iff)
    ultimately show ?thesis using 3 dist tk ih(2) by (simp add: parent_of_def find_append)
  qed
qed simp

lemma contents_cases:
  assumes "k \<in> set (contents d)"
  obtains m t where "by_id ''content'' d = Some m" "t \<in> set (kids m)" "k = nkey t" "m \<in> set (nodes d)"
proof (cases "by_id ''content'' d")
  case (Some m)
  with assms obtain t where "t \<in> set (kids m)" "k = nkey t" by (auto simp: contents_def)
  with that Some by_id_Some [OF Some] show ?thesis by blast
qed (use assms in \<open>simp add: contents_def\<close>)

lemma siblings_content:
  assumes "distinct (keys d)" "k \<in> set (contents d)"
  shows "siblings k d = filter (\<lambda>j. j \<noteq> k) (contents d)"
proof -
  from assms(2) obtain m t where m: "by_id ''content'' d = Some m" "t \<in> set (kids m)" "k = nkey t" "m \<in> set (nodes d)"
    by (rule contents_cases)
  from parent_of_child [OF assms(1) m(4,2)] m show ?thesis
    by (simp add: siblings_def contents_def)
qed

lemma contents_keys: "set (contents d) \<subseteq> set (keys d)"
proof
  fix k assume "k \<in> set (contents d)"
  then obtain m t where "t \<in> set (kids m)" "k = nkey t" "m \<in> set (nodes d)" by (rule contents_cases)
  then show "k \<in> set (keys d)" using nodes_trans [of m d] kids_in_nodes nkey_in_keys by blast
qed

lemma kid_in_nodes: "n \<in> set (nodes d) \<Longrightarrow> c \<in> set (kids n) \<Longrightarrow> c \<in> set (nodes d)"
  using nodes_trans kids_in_nodes by blast

lemma inner_blocks_content:
  assumes "distinct (keys d)" "k \<in> set (contents d)" "j \<in> set (contents d)"
  shows "j \<notin> set (inner_blocks k d)"
proof -
  from assms(2) obtain m t where mt: "by_id ''content'' d = Some m" "t \<in> set (kids m)" "k = nkey t" "m \<in> set (nodes d)"
    by (rule contents_cases)
  from assms(3) obtain s where "s \<in> set (kids m)" "j = nkey s" using mt(1) by (auto elim: contents_cases)
  note m = mt(1-3) this and mn = mt(4)
  then have t: "find_key k d = Some t" using nodes_trans [OF mn] kids_in_nodes [OF m(2)] find_key_nodes [OF assms(1)] m(3) by blast
  have "distinct (keys (kids m))" using find_key_in_kids(1) [OF assms(1) find_key_nodes [OF assms(1) mn]] .
  from top_not_below [OF this m(4) kids_in_nodes [OF m(2)]] have n: "j \<notin> set (keys (kids t))" using m(5) by simp
  have "set (map nkey (concat (map kids (concat (map kids (kids t)))))) \<subseteq> set (keys (kids t))"
  proof
    fix x assume "x \<in> set (map nkey (concat (map kids (concat (map kids (kids t))))))"
    then obtain a b c where "a \<in> set (kids t)" "b \<in> set (kids a)" "c \<in> set (kids b)" "x = nkey c" by auto
    then show "x \<in> set (keys (kids t))" using kid_in_nodes kids_in_nodes nkey_in_keys by metis
  qed
  with n t show ?thesis by (auto simp: inner_blocks_def)
qed

lemma show_blocks_visible:
  assumes "distinct (keys d)" "key_of i d = Some k" "k \<in> set (contents d)"
  shows "same_shape d (show_blocks i d)" "j \<in> set (contents d) \<Longrightarrow> visible j (show_blocks i d) = (j = k)"
proof -
  from assms(2) obtain n where n: "by_id i d = Some n" "nkey n = k" by (auto simp: key_of_def)
  define d0 where "d0 = displays ''none'' (siblings k d) d"
  define d1 where "d1 = display ''block'' k d0"
  define bs where "bs = inner_blocks k d1"
  define d2 where "d2 = displays ''none'' bs d1"
  have e: "show_blocks i d = (case bs of [] \<Rightarrow> d2 | b # _ \<Rightarrow> display ''block'' b d2)"
    using n by (simp add: show_blocks_def Let_def d0_def d1_def d2_def bs_def split: list.split)
  have s0: "same_shape d d0" unfolding d0_def by (rule same_shape_displays [OF assms(1)])
  then have t0: "distinct (keys d0)" using assms(1) by (simp add: same_shape_keys)
  have s1: "same_shape d d1" using s0 same_shape_display [OF t0] unfolding d1_def by (rule same_shape_trans)
  then have t1: "distinct (keys d1)" using assms(1) by (simp add: same_shape_keys)
  have s2: "same_shape d d2" using s1 same_shape_displays [OF t1] unfolding d2_def by (rule same_shape_trans)
  then have t2: "distinct (keys d2)" using assms(1) by (simp add: same_shape_keys)
  show "same_shape d (show_blocks i d)"
    using s2 same_shape_trans [OF s2 same_shape_display [OF t2]] by (simp add: e split: list.split)
  assume j: "j \<in> set (contents d)"
  have "contents d1 = contents d" using s1 by (rule same_shape_contents)
  then have nb: "j \<notin> set bs" using inner_blocks_content [OF t1] j assms(3) by (simp add: bs_def)
  have k: "k \<in> set (keys d)" using contents_keys assms(3) by blast
  have "visible j d0 = False" if "j \<noteq> k"
    using that j by (simp add: d0_def visible_displays [OF assms(1)] siblings_content [OF assms(1,3)])
  then have "visible j d1 = (j = k)"
    using k by (auto simp: d1_def visible_display [OF t0] same_shape_keys [OF s0])
  then have "visible j d2 = (j = k)" using nb by (simp add: d2_def visible_displays [OF t1])
  with nb show "visible j (show_blocks i d) = (j = k)"
    by (auto simp: e visible_display [OF t2] split: list.split)
qed

lemma css_remove_class: "css (remove_class c e) = css e"
  by (simp add: remove_class_def)

lemma switch_panel_visible:
  assumes "distinct (keys (pdoc p))"
  shows "same_shape (pdoc p) (pdoc (fst (switch_panel i p)))" "visible k (pdoc (fst (switch_panel i p))) = visible k (pdoc p)"
proof -
  have v: "visible k (upd_elem j f d) = visible k d"
    if "distinct (keys d)" "\<And>e. css (f e) = css e" for d k j f
    by (simp add: visible_def upd_elem_relabel [OF that(1)] css_of_def that(2) split: option.split)
  have vs: "visible k (fold (\<lambda>k. upd_elem k (remove_class ''in'')) ks d) = visible k d \<and> same_shape d (fold (\<lambda>k. upd_elem k (remove_class ''in'')) ks d)"
    if "distinct (keys d)" for d k ks
    using that
  proof (induction ks arbitrary: d)
    case (Cons j ks)
    have s: "same_shape d (upd_elem j (remove_class ''in'') d)"
      by (rule same_shape_upd [OF Cons.prems]) (simp add: remove_class_def)
    then have "distinct (keys (upd_elem j (remove_class ''in'') d))" using Cons.prems by (simp add: same_shape_keys)
    from Cons.IH [OF this] s v [OF Cons.prems, of "remove_class ''in''" k j, OF css_remove_class] show ?case
      by (auto intro: same_shape_trans)
  qed simp
  define d1 where "d1 = fold (\<lambda>k. upd_elem k (remove_class ''in'')) (side_panels i (pdoc p)) (pdoc p)"
  have s1: "same_shape (pdoc p) d1" "visible k d1 = visible k (pdoc p)" for k using vs [OF assms] by (simp_all add: d1_def)
  then have t1: "distinct (keys d1)" using assms same_shape_keys by metis
  have sw: "fst (switch_panel i p) = fst (panel_button_click i (p\<lparr>pdoc := d1\<rparr>))"
    by (simp add: switch_panel_def on_doc_def d1_def split: prod.split option.split)
  have t: "css (toggle_class ''in'' e) = css e \<and> ident (toggle_class ''in'' e) = ident e
      \<and> tag (toggle_class ''in'' e) = tag e \<and> attrs (toggle_class ''in'' e) = attrs e" for e
    by (simp add: toggle_class_def add_class_def remove_class_def)
  have "pdoc (fst (panel_button_click i (p\<lparr>pdoc := d1\<rparr>))) = d1
      \<or> (\<exists>m. pdoc (fst (panel_button_click i (p\<lparr>pdoc := d1\<rparr>))) = upd_elem m (toggle_class ''in'') d1)"
    by (auto simp: panel_button_click_def ask_def ok_def jq_id_def split: option.splits)
  moreover have "same_shape d1 (upd_elem m (toggle_class ''in'') d1)" for m
    by (rule same_shape_upd [OF t1]) (simp add: t)
  moreover have "visible k (upd_elem m (toggle_class ''in'') d1) = visible k d1" for m k
    by (rule v [OF t1]) (simp add: t)
  ultimately show "same_shape (pdoc p) (pdoc (fst (switch_panel i p)))"
    "visible k (pdoc (fst (switch_panel i p))) = visible k (pdoc p)"
    using s1 same_shape_trans by (auto simp: sw)
qed

section \<open>A click\<close>

definition menu_ok :: "string \<Rightarrow> console \<Rightarrow> bool" where
  "menu_ok i c \<longleftrightarrow> running c \<and> (\<exists>k. key_of i (cdoc c) = Some k \<and> k \<in> set (contents (cdoc c)) \<and> visible k (cdoc c)
     \<and> (\<forall>j \<in> set (contents (cdoc c)). eventual j c = (j = k)))"

definition content_id :: "console \<Rightarrow> string \<Rightarrow> bool" where
  "content_id c i = (case key_of i (cdoc c) of None \<Rightarrow> False | Some k \<Rightarrow> k \<in> set (contents (cdoc c)))"

text \<open>The fades a click starts, for element \<open>k\<close> of the contents.\<close>

definition start_fades :: "nat \<Rightarrow> console \<Rightarrow> console" where
  "start_fades k c =
     (let c0 = fade FadeIn k c
      in fold (fade FadeOut) (filter (\<lambda>j. visible j (cdoc c0)) (siblings k (cdoc c0))) c0)"

lemma start_fades_eventual:
  assumes "running c" "k \<in> set (contents (cdoc c))"
  shows "running (start_fades k c)" "same_shape (cdoc c) (cdoc (start_fades k c))"
    "eventual k (start_fades k c)"
    "j \<in> set (contents (cdoc c)) \<Longrightarrow> j \<noteq> k \<Longrightarrow>
      eventual j (start_fades k c) = (\<not> visible j (cdoc c) \<and> eventual j c)
      \<and> visible j (cdoc (start_fades k c)) = visible j (cdoc c)"
    "admin (start_fades k c) = admin c" "menu (start_fades k c) = menu c"
    "fx c k = [] \<Longrightarrow> visible k (cdoc (start_fades k c))"
proof -
  let ?c0 = "fade FadeIn k c"
  have kk: "k \<in> set (keys (cdoc c))" using assms(2) contents_keys by blast
  note f = fade_eventual [OF assms(1) kk, of FadeIn, simplified]
  have ct: "contents (cdoc ?c0) = contents (cdoc c)" by (rule same_shape_contents [OF f(2)])
  have d0: "distinct (keys (cdoc ?c0))" using f(1) by (simp add: running_def)
  have sb: "siblings k (cdoc ?c0) = filter (\<lambda>j. j \<noteq> k) (contents (cdoc c))"
    using siblings_content [OF d0] assms(2) ct by simp
  let ?ks = "filter (\<lambda>j. visible j (cdoc ?c0)) (siblings k (cdoc ?c0))"
  have "set ?ks \<subseteq> set (keys (cdoc ?c0))" using contents_keys [of "cdoc ?c0"] by (auto simp: sb ct)
  note g = fades_eventual [OF f(1) this]
  have e: "start_fades k c = fold (fade FadeOut) ?ks ?c0" by (simp only: start_fades_def Let_def)
  show "running (start_fades k c)" "eventual k (start_fades k c)" "admin (start_fades k c) = admin c"
    "menu (start_fades k c) = menu c"
    using g f(6,7) f(3) [of k] by (auto simp: e sb)
  show "same_shape (cdoc c) (cdoc (start_fades k c))" using g f(2) same_shape_trans unfolding e by blast
  show "eventual j (start_fades k c) = (\<not> visible j (cdoc c) \<and> eventual j c)
      \<and> visible j (cdoc (start_fades k c)) = visible j (cdoc c)"
    if "j \<in> set (contents (cdoc c))" "j \<noteq> k"
    using that g f(3) [of j] f(5) [OF that(2)] by (auto simp: e sb)
  show "visible k (cdoc (start_fades k c))" if "fx c k = []"
    using that g kk assms(1) by (auto simp: e fade_def running_def visible_display)
qed

lemma show_content_step:
  assumes "running c" "key_of i (cdoc c) = Some k" "k \<in> set (contents (cdoc c))"
    "j = (if \<not> admin c \<and> i = ''dashboard'' then ''applications'' else i)"
    "key_of j (cdoc c) = Some l" "l \<in> set (contents (cdoc c))"
  shows "running (show_content i c)" "same_shape (cdoc c) (cdoc (show_content i c))"
    "m \<in> set (contents (cdoc c)) \<Longrightarrow> visible m (cdoc (show_content i c)) = (m = l)"
    "fx (show_content i c) = fx (start_fades k c)" "admin (show_content i c) = admin c" "menu (show_content i c) = j"
proof -
  from assms(2) obtain n where n: "by_id i (cdoc c) = Some n" "nkey n = k" by (auto simp: key_of_def)
  let ?c1 = "start_fades k c"
  note f = start_fades_eventual [OF assms(1,3)]
  obtain p where p: "show_content i c = ?c1\<lparr>cpage := p\<lparr>pdoc := show_blocks j (pdoc p)\<rparr>, menu := j\<rparr>"
    "p = fst (switch_panel j (cpage ?c1)) \<or> p = cpage ?c1"
    using n assms(4) by (simp add: show_content_def Let_def start_fades_def)
  have d1: "distinct (keys (cdoc ?c1))" using f(1) by (simp add: running_def)
  have s: "same_shape (cdoc ?c1) (pdoc p)" using p(2) switch_panel_visible(1) [OF d1] by auto
  then have sp: "same_shape (cdoc c) (pdoc p)" by (rule same_shape_trans [OF f(2)])
  have dp: "distinct (keys (pdoc p))" using same_shape_keys [OF s] d1 by simp
  note b = show_blocks_visible [OF dp, of j l, unfolded same_shape_contents [OF sp] same_shape_key_of [OF sp], OF assms(5,6)]
  show sc: "same_shape (cdoc c) (cdoc (show_content i c))" using same_shape_trans [OF sp b(1)] by (simp add: p(1))
  show "visible m (cdoc (show_content i c)) = (m = l)" if "m \<in> set (contents (cdoc c))"
    using b(2) [OF that] by (simp add: p(1))
  show "fx (show_content i c) = fx ?c1" "admin (show_content i c) = admin c" "menu (show_content i c) = j"
    using f(5) by (simp_all add: p(1))
  show "running (show_content i c)" using f(1) same_shape_keys [OF sc] assms(1) by (simp add: running_def p(1))
qed

lemma admin_click:
  assumes "menu_ok l c" "admin c" "content_id c i"
  shows "menu_ok i (show_content i c) \<and> same_shape (cdoc c) (cdoc (show_content i c)) \<and> admin (show_content i c)"
proof -
  from assms(3) obtain k where k: "key_of i (cdoc c) = Some k" "k \<in> set (contents (cdoc c))"
    by (auto simp: content_id_def split: option.splits)
  from assms(1) obtain kl where r: "running c" and l: "kl \<in> set (contents (cdoc c))" "visible kl (cdoc c)"
    "\<forall>j \<in> set (contents (cdoc c)). eventual j c = (j = kl)" by (auto simp: menu_ok_def)
  note f = start_fades_eventual [OF r k(2)]
  have j: "i = (if \<not> admin c \<and> i = ''dashboard'' then ''applications'' else i)" using assms(2) by simp
  note s = show_content_step [OF r k j k]
  have "eventual j (show_content i c) = (j = k)" if j: "j \<in> set (contents (cdoc c))" for j
  proof (cases "j = k")
    case True
    have "fold eventually_visible (fx (start_fades k c) k) (visible k (cdoc (start_fades k c)))"
      using f(3) by (simp add: eventual_def)
    then have "fold eventually_visible (fx (start_fades k c) k) True" by (rule eventual_mono) simp
    with True s(3,4) k(2) show ?thesis by (simp add: eventual_def)
  next
    case False
    have "\<not> eventual j (start_fades k c)" using f(4) [OF j False] l j by auto
    then have "\<not> fold eventually_visible (fx (start_fades k c) j) (visible j (cdoc (start_fades k c)))"
      by (simp add: eventual_def)
    then have "\<not> fold eventually_visible (fx (start_fades k c) j) False"
      using eventual_mono [of "fx (start_fades k c) j" False "visible j (cdoc (start_fades k c))"] by auto
    with False s(3) [OF j] s(4) show ?thesis by (simp add: eventual_def)
  qed
  moreover have "contents (cdoc (show_content i c)) = contents (cdoc c)" "key_of i (cdoc (show_content i c)) = Some k"
    using same_shape_contents [OF s(2)] same_shape_key_of [OF s(2)] k(1) by auto
  moreover have "visible k (cdoc (show_content i c))" using s(3) [OF k(2)] by blast
  ultimately have "menu_ok i (show_content i c)" unfolding menu_ok_def using s(1) k(2) by metis
  with s(2,5) assms(2) show ?thesis by blast
qed

lemma menu_fade_end:
  assumes "menu_ok i c" "k \<in> set (keys (cdoc c))"
  shows "menu_ok i (fade_ends k c) \<and> same_shape (cdoc c) (cdoc (fade_ends k c)) \<and> admin (fade_ends k c) = admin c"
  using assms fade_ends_eventual [of c k] same_shape_contents [of "cdoc c" "cdoc (fade_ends k c)"]
    same_shape_key_of [of "cdoc c" "cdoc (fade_ends k c)"]
  by (auto simp: menu_ok_def)

section \<open>Clicks and fades in any order\<close>

datatype menu_event = Click string | Fade_Ends nat

fun menu_step :: "menu_event \<Rightarrow> console \<Rightarrow> console" where
  "menu_step (Click i) c = show_content i c"
| "menu_step (Fade_Ends k) c = fade_ends k c"

fun last_click :: "string \<Rightarrow> menu_event list \<Rightarrow> string" where
  "last_click i [] = i"
| "last_click i (Click j # es) = last_click j es"
| "last_click i (Fade_Ends k # es) = last_click i es"

definition clicks_exist :: "console \<Rightarrow> menu_event list \<Rightarrow> bool" where
  "clicks_exist c = list_all (\<lambda>e. case e of Click i \<Rightarrow> content_id c i | Fade_Ends k \<Rightarrow> k \<in> set (keys (cdoc c)))"

definition settled :: "console \<Rightarrow> bool" where
  "settled c = list_all (\<lambda>k. fx c k = []) (contents (cdoc c))"

definition shown :: "console \<Rightarrow> nat list" where
  "shown c = filter (\<lambda>k. visible k (cdoc c)) (contents (cdoc c))"

lemma clicks_exist_shape: "same_shape (cdoc c) (cdoc c') \<Longrightarrow> clicks_exist c' es = clicks_exist c es"
  by (auto simp: clicks_exist_def content_id_def same_shape_key_of same_shape_contents same_shape_keys list_all_iff
      split: menu_event.splits option.splits)

lemma menu_run:
  assumes "menu_ok i c" "admin c" "clicks_exist c es"
  shows "menu_ok (last_click i es) (fold menu_step es c) \<and> same_shape (cdoc c) (cdoc (fold menu_step es c))"
  using assms
proof (induction es arbitrary: i c)
  case (Cons e es)
  have *: "menu_ok (last_click i [e]) (menu_step e c) \<and> same_shape (cdoc c) (cdoc (menu_step e c)) \<and> admin (menu_step e c)"
    using Cons.prems admin_click menu_fade_end by (cases e) (auto simp: clicks_exist_def)
  then have "clicks_exist (menu_step e c) es" using Cons.prems(3) clicks_exist_shape by (auto simp: clicks_exist_def)
  with * Cons.IH [of "last_click i [e]" "menu_step e c"] show ?case
    by (cases e) (auto intro: same_shape_trans)
qed simp

lemma distinct_contents: "distinct (keys d) \<Longrightarrow> distinct (contents d)"
proof (cases "by_id ''content'' d")
  case (Some m)
  assume d: "distinct (keys d)"
  have "distinct (keys (kids m))" by (rule find_key_in_kids(1) [OF d find_key_nodes [OF d]]) (use by_id_Some [OF Some] in simp)
  moreover have "distinct (keys ts) \<Longrightarrow> distinct (map nkey ts)" for ts
  proof (induction ts)
    case (Cons t ts)
    have k: "keys (t # ts) = nkey t # keys (kids t) @ keys ts" by (cases t) simp
    with Cons.prems have "distinct (keys ts)" "nkey t \<notin> set (keys ts)" by auto
    moreover have "nkey ` set ts \<subseteq> set (keys ts)" using kids_in_nodes nkey_in_keys by fastforce
    ultimately show ?case using Cons.IH by auto
  qed simp
  ultimately show ?thesis by (simp add: contents_def Some)
qed (simp add: contents_def)

lemma filter_one: "distinct xs \<Longrightarrow> x \<in> set xs \<Longrightarrow> filter (\<lambda>y. y = x) xs = [x]"
  by (induction xs) (auto simp: filter_empty_conv)

lemma settled_shown:
  assumes "menu_ok i c" "settled c"
  shows "map Some (shown c) = [key_of i (cdoc c)]"
proof -
  from assms(1) obtain k where k: "key_of i (cdoc c) = Some k" "k \<in> set (contents (cdoc c))" "running c"
    "\<forall>j \<in> set (contents (cdoc c)). eventual j c = (j = k)" by (auto simp: menu_ok_def)
  have "visible j (cdoc c) = (j = k)" if "j \<in> set (contents (cdoc c))" for j
    using that k(4) assms(2) by (auto simp: settled_def eventual_def list_all_iff)
  then have "shown c = filter (\<lambda>y. y = k) (contents (cdoc c))" unfolding shown_def by (rule filter_cong [OF refl])
  with filter_one [OF distinct_contents k(2)] k(1,3) show ?thesis by (simp add: running_def)
qed

text \<open>C3: in an administrator's session, after any clicks on the menu with the fades ending at any time in
  between, however fast the clicks follow each other, once the fades have ended exactly one content area
  is displayed, that of the last click.\<close>
theorem menu_shows_last_click:
  assumes "menu_ok i c" "admin c" "clicks_exist c es" "settled (fold menu_step es c)"
  shows "map Some (shown (fold menu_step es c)) = [key_of (last_click i es) (cdoc c)]"
  using menu_run [OF assms(1-3)] settled_shown [OF _ assms(4)] same_shape_key_of by metis

section \<open>Fades end\<close>

definition pending :: "console \<Rightarrow> nat" where
  "pending c = sum_list (map (\<lambda>k. length (fx c k)) (contents (cdoc c)))"

lemma fade_ends_shorter:
  assumes "running c" "k \<in> set (keys (cdoc c))" "fx c k \<noteq> []"
  shows "length (fx (fade_ends k c) k) < length (fx c k) \<and> (\<forall>j. j \<noteq> k \<longrightarrow> fx (fade_ends k c) j = fx c j)"
proof -
  have "length (fst (run_effects k q d)) \<le> length q" for q d
    by (induction k q d rule: run_effects.induct) auto
  moreover obtain e q where "fx c k = e # q" using assms(3) by (cases "fx c k") auto
  ultimately show ?thesis
    by (auto simp: fade_ends_def Let_def less_Suc_eq_le split: prod.split) (metis fst_conv)+
qed

lemma sum_less:
  fixes f g :: "nat \<Rightarrow> nat"
  shows "distinct xs \<Longrightarrow> x \<in> set xs \<Longrightarrow> f x < g x \<Longrightarrow> (\<And>y. y \<noteq> x \<Longrightarrow> f y = g y) \<Longrightarrow>
    sum_list (map f xs) < sum_list (map g xs)"
proof (induction xs)
  case (Cons y ys)
  show ?case
  proof (cases "y = x")
    case True
    with Cons.prems have "map f ys = map g ys" by (intro map_cong [OF refl]) fastforce
    then have "sum_list (map f ys) = sum_list (map g ys)" by (simp only:)
    with True Cons.prems(3) show ?thesis by simp
  next
    case False
    with Cons show ?thesis by simp
  qed
qed simp

lemma fade_ends_pending:
  assumes "running c" "k \<in> set (contents (cdoc c))" "fx c k \<noteq> []"
  shows "pending (fade_ends k c) < pending c"
proof -
  have d: "distinct (keys (cdoc c))" using assms(1) by (simp add: running_def)
  have kk: "k \<in> set (keys (cdoc c))" using contents_keys assms(2) by blast
  have ct: "contents (cdoc (fade_ends k c)) = contents (cdoc c)"
    by (rule same_shape_contents [OF fade_ends_eventual(2) [OF assms(1) kk]])
  show ?thesis unfolding pending_def ct
    by (rule sum_less [OF distinct_contents [OF d] assms(2)]) (use fade_ends_shorter [OF assms(1) kk assms(3)] in auto)
qed

lemma fades_end:
  assumes "running c"
  shows "\<exists>ks. set ks \<subseteq> set (contents (cdoc c)) \<and> length ks \<le> pending c \<and> settled (fold fade_ends ks c)"
  using assms
proof (induction "pending c" arbitrary: c rule: less_induct)
  case less
  show ?case
  proof (cases "settled c")
    case False
    then obtain k where k: "k \<in> set (contents (cdoc c))" "fx c k \<noteq> []" by (auto simp: settled_def list_all_iff)
    have kk: "k \<in> set (keys (cdoc c))" using contents_keys k(1) by blast
    note e = fade_ends_eventual [OF less.prems kk]
    have ct: "contents (cdoc (fade_ends k c)) = contents (cdoc c)" by (rule same_shape_contents [OF e(2)])
    have p: "pending (fade_ends k c) < pending c" by (rule fade_ends_pending [OF less.prems k])
    from less.hyps [OF p e(1)] obtain ks where
      "set ks \<subseteq> set (contents (cdoc c))" "length ks \<le> pending (fade_ends k c)" "settled (fold fade_ends ks (fade_ends k c))"
      unfolding ct by blast
    with k(1) p show ?thesis by (intro exI [of _ "k # ks"]) simp
  qed (auto intro!: exI [of _ "[]"])
qed

text \<open>the fades always come to an end: whichever of the pending ones ends next, fewer are left, so after
  finitely many ends, no more than are pending, the contents have settled.\<close>

theorem fades_settle:
  assumes "running c"
  shows "(k \<in> set (contents (cdoc c)) \<longrightarrow> fx c k \<noteq> [] \<longrightarrow> pending (fade_ends k c) < pending c)
    \<and> (\<exists>ks. set ks \<subseteq> set (contents (cdoc c)) \<and> length ks \<le> pending c \<and> settled (fold fade_ends ks c))"
  using fade_ends_pending [OF assms] fades_end [OF assms] by blast

section \<open>A user's dashboard\<close>

lemma fades_fx_other: "k \<notin> set ks \<Longrightarrow> fx (fold (fade e) ks c) k = fx c k"
proof (induction ks arbitrary: c)
  case (Cons j ks)
  then have "fx (fade e j c) k = fx c k" by (auto simp: fade_def split: prod.split)
  with Cons show ?case by simp
qed simp

lemma start_fades_fx:
  assumes "running c" "k \<in> set (contents (cdoc c))"
  shows "fx (start_fades k c) k = fx (fade FadeIn k c) k"
proof -
  have kk: "k \<in> set (keys (cdoc c))" using assms(2) contents_keys by blast
  note f = fade_eventual [OF assms(1) kk, of FadeIn, simplified]
  have d0: "distinct (keys (cdoc (fade FadeIn k c)))" using f(1) by (simp add: running_def)
  have "siblings k (cdoc (fade FadeIn k c)) = filter (\<lambda>j. j \<noteq> k) (contents (cdoc c))"
    using siblings_content [OF d0] assms(2) same_shape_contents [OF f(2)] by simp
  then show ?thesis using fades_fx_other [of k] by (simp add: start_fades_def Let_def)
qed

lemma fades_end_eventual:
  assumes "running c" "list_all (\<lambda>k. k \<in> set (keys (cdoc c))) ks" "\<forall>m \<in> set (contents (cdoc c)). \<not> eventual m c"
  shows "\<forall>m \<in> set (contents (cdoc (fold fade_ends ks c))). \<not> eventual m (fold fade_ends ks c)"
  using assms
proof (induction ks arbitrary: c)
  case (Cons k ks)
  from Cons.prems(2) have k: "k \<in> set (keys (cdoc c))" by simp
  note e = fade_ends_eventual [OF Cons.prems(1) k]
  show ?case unfolding fold_simps
    by (rule Cons.IH) (use Cons.prems e(1,3) same_shape_keys [OF e(2)] same_shape_contents [OF e(2)] in simp_all)
qed simp

lemma key_of_inj: "key_of i d = Some k \<Longrightarrow> key_of j d = Some k \<Longrightarrow> distinct (keys d) \<Longrightarrow> i = j"
  using by_id_Some [of i d] by_id_Some [of j d] find_key_nodes [of d]
  by (auto simp: key_of_def) (metis option.inject)

text \<open>a user who is no administrator and looks at the applications gets an empty page by clicking on the
  dashboard: the click fades the applications out and then displays them, and the fade that ends later
  hides them again.\<close>

theorem user_dashboard_blank:
  assumes "menu_ok ''applications'' c" "settled c" "\<not> admin c" "content_id c ''dashboard''"
    "list_all (\<lambda>k. k \<in> set (keys (cdoc c))) ks" "settled (fold fade_ends ks (show_content ''dashboard'' c))"
  shows "shown (fold fade_ends ks (show_content ''dashboard'' c)) = []"
proof -
  from assms(4) obtain k where k: "key_of ''dashboard'' (cdoc c) = Some k" "k \<in> set (contents (cdoc c))"
    by (auto simp: content_id_def split: option.splits)
  from assms(1) obtain l where r: "running c" and l: "key_of ''applications'' (cdoc c) = Some l" "l \<in> set (contents (cdoc c))"
    "visible l (cdoc c)" "\<forall>j \<in> set (contents (cdoc c)). eventual j c = (j = l)" by (auto simp: menu_ok_def)
  let ?c = "show_content ''dashboard'' c"
  have d: "distinct (keys (cdoc c))" using r by (simp add: running_def)
  have kl: "k \<noteq> l" using key_of_inj [OF k(1) _ d] l(1) by auto
  note f = start_fades_eventual [OF r k(2)]
  have j: "''applications'' = (if \<not> admin c \<and> ''dashboard'' = ''dashboard'' then ''applications'' else ''dashboard'')"
    using assms(3) by simp
  note s = show_content_step [OF r k j l(1,2)]
  have q: "fx c m = []" if "m \<in> set (contents (cdoc c))" for m
    using that assms(2) by (simp add: settled_def list_all_iff)
  then have v: "visible m (cdoc c) = (m = l)" if "m \<in> set (contents (cdoc c))" for m
    using that l(4) by (auto simp: eventual_def)
  have fk: "fx (start_fades k c) k = [Showing]"
    using start_fades_fx [OF r k(2)] q [OF k(2)] v [OF k(2)] kl by (simp add: fade_def)
  have "\<not> eventual m ?c" if m: "m \<in> set (contents (cdoc c))" for m
  proof (cases "m = k")
    case True
    with fk s(3) [OF k(2)] s(4) kl show ?thesis by (simp add: eventual_def)
  next
    case False
    have "\<not> eventual m (start_fades k c)" "visible m (cdoc (start_fades k c)) = (m = l)"
      using f(4) [OF m False] v [OF m] l(4) m by auto
    then show ?thesis using s(3) [OF m] s(4) by (simp add: eventual_def)
  qed
  moreover have "contents (cdoc ?c) = contents (cdoc c)" by (rule same_shape_contents [OF s(2)])
  ultimately have "\<forall>m \<in> set (contents (cdoc ?c)). \<not> eventual m ?c" by simp
  moreover have "list_all (\<lambda>k. k \<in> set (keys (cdoc ?c))) ks" using assms(5) same_shape_keys [OF s(2)] by simp
  ultimately have "\<forall>m \<in> set (contents (cdoc (fold fade_ends ks ?c))). \<not> eventual m (fold fade_ends ks ?c)"
    using s(1) fades_end_eventual by blast
  with assms(6) show ?thesis by (simp add: shown_def settled_def eventual_def list_all_iff filter_empty_conv)
qed

section \<open>The menu at the start\<close>

definition menu_probe :: "console \<Rightarrow> (nat \<times> bool \<times> effect list) list \<times> nat option list" where
  "menu_probe c = (map (\<lambda>k. (k, visible k (cdoc c), fx c k)) (contents (cdoc c)),
     map (\<lambda>i. key_of i (cdoc c)) [''dashboard'', ''applications'', ''groups'', ''users''])"

lemma start_running: "running (start role roles)"
  using reach_page [OF reach.init, of role roles] by (simp add: running_def page_ok_def start_def)

lemma admin_probe:
  "menu_probe (start True roles) = ([(12, True, []), (15, False, []), (17, False, []), (20, False, []), (52, False, [])],
     [Some 12, Some 15, Some 17, Some 20])"
  by code_simp

lemma admin_menu_start: "menu_ok ''dashboard'' (start True roles)"
  using admin_probe [of roles] start_running by (auto simp: menu_ok_def menu_probe_def eventual_def map_eq_Cons_conv)

section \<open>Examples\<close>

text \<open>A page with four content areas of which one, \<open>i\<close>, is displayed.\<close>

definition menu_page :: "bool \<Rightarrow> string \<Rightarrow> console" where
  "menu_page role i =
     \<lparr>cpage = home_page\<lparr>pdoc := fst (inst 0 [el ''body'' [] [] [] [dv ''content''
        (map (\<lambda>j. if j = i then dv j [] else hidden_div j []) [''dashboard'', ''applications'', ''groups'', ''users''])]])\<rparr>,
      admin = role, menu = i, fx = (\<lambda>_. [])\<rparr>"

definition busy_clicks :: "menu_event list" where
  "busy_clicks = [Click ''groups'', Click ''users'', Fade_Ends 2, Fade_Ends 4, Fade_Ends 5]"

definition page_probe :: "console \<Rightarrow> bool \<times> (nat \<times> bool \<times> effect list) list \<times> nat option list" where
  "page_probe c = (distinct (keys (cdoc c)), menu_probe c)"

lemma page_probes:
  "page_probe (menu_page True ''dashboard'')
     = (True, [(2, True, []), (3, False, []), (4, False, []), (5, False, [])], [Some 2, Some 3, Some 4, Some 5])"
  "page_probe (menu_page False ''applications'')
     = (True, [(2, False, []), (3, True, []), (4, False, []), (5, False, [])], [Some 2, Some 3, Some 4, Some 5])"
  by code_simp+

lemma menu_page_ok: "menu_ok ''dashboard'' (menu_page True ''dashboard'')" "menu_ok ''applications'' (menu_page False ''applications'')"
proof -
  have "running (menu_page True ''dashboard'')" "running (menu_page False ''applications'')"
    using page_probes by (simp_all add: running_def page_probe_def) (simp_all add: menu_page_def)
  with page_probes show "menu_ok ''dashboard'' (menu_page True ''dashboard'')" "menu_ok ''applications'' (menu_page False ''applications'')"
    by (auto simp: menu_ok_def page_probe_def menu_probe_def eventual_def map_eq_Cons_conv)
qed

lemma busy_clicks_exist: "clicks_exist (menu_page True ''dashboard'') busy_clicks"
  using page_probes(1) contents_keys [of "cdoc (menu_page True ''dashboard'')"]
  by (auto simp: page_probe_def menu_probe_def clicks_exist_def content_id_def busy_clicks_def map_eq_Cons_conv)

lemma menu_shows_last_click_witness:
  "map Some (shown (fold menu_step busy_clicks (menu_page True ''dashboard''))) = [Some 5]"
proof -
  have "settled (fold menu_step busy_clicks (menu_page True ''dashboard''))" "admin (menu_page True ''dashboard'')" by code_simp+
  from menu_shows_last_click [OF menu_page_ok(1) this(2) busy_clicks_exist this(1)] page_probes(1) show ?thesis
    by (simp add: busy_clicks_def page_probe_def menu_probe_def)
qed

lemma fades_settle_witness:
  "\<exists>ks. settled (fold fade_ends ks (fold menu_step busy_clicks (menu_page True ''dashboard'')))"
proof -
  have "admin (menu_page True ''dashboard'')" by code_simp
  with menu_run [OF menu_page_ok(1) _ busy_clicks_exist]
  have "running (fold menu_step busy_clicks (menu_page True ''dashboard''))" by (auto simp: menu_ok_def)
  from fades_settle [OF this] show ?thesis by blast
qed

lemma user_dashboard_blank_witness:
  "shown (fold fade_ends [2, 3] (show_content ''dashboard'' (menu_page False ''applications''))) = []"
proof (rule user_dashboard_blank)
  note p = page_probes(2)
  show "menu_ok ''applications'' (menu_page False ''applications'')" by (rule menu_page_ok)
  show "settled (menu_page False ''applications'')" "content_id (menu_page False ''applications'') ''dashboard''"
    using p by (auto simp: page_probe_def menu_probe_def settled_def content_id_def map_eq_Cons_conv)
  show "\<not> admin (menu_page False ''applications'')"
    "settled (fold fade_ends [2, 3] (show_content ''dashboard'' (menu_page False ''applications'')))" by code_simp+
  show "list_all (\<lambda>k. k \<in> set (keys (cdoc (menu_page False ''applications'')))) [2, 3]"
    using p contents_keys [of "cdoc (menu_page False ''applications'')"] by (auto simp: page_probe_def menu_probe_def map_eq_Cons_conv)
qed

end
