(* ===== verification/Wiring.thy ===== *)
theory Wiring
  imports Session
begin

text \<open>
  The topics in a session: \<open>wiring\<close> is the table of topics and listeners that \<^verbatim>\<open>initialize\<close> sets up; it
  is the same in every state of a session, so publishing a topic runs one known listener.
\<close>

definition wiring :: "bool \<Rightarrow> string list \<Rightarrow> (string \<times> listener) list" where
  "wiring role roles =
     [(''/stomp/error'', ErrorToaster), (''/stomp/info'', InfoToaster)]
     @ (if role then host_list_topics else []) @ app_list_topics role
     @ (if role then group_list_topics @ user_list_topics roles else []) @ storage_list_topics role"

lemma reach_hub: "reach role roles c \<Longrightarrow> hub (cpage c) = hub (cpage (start role roles))"
proof (induction rule: reach.induct)
  case (more c c')
  let ?h = "hub (cpage (start role roles))"
  from more(2) show ?case
  proof cases
    case (press a)
    with more(3) wiring.button_presv [of a ?h] show ?thesis by (simp add: presv_def)
  next
    case (answer i r)
    have "hub (fst (respond i r p)) = hub p" for p
      using wiring.run_cont_presv [of "hub p" "q_cont (reqs p ! i)" r] by (simp add: respond_def presv_def)
    with answer more(3) show ?thesis by simp
  qed (use more(3) wiring.show_content_law wiring.fade_ends_law in auto)
qed simp

definition wired :: "bool \<Rightarrow> string list \<Rightarrow> page \<Rightarrow> bool" where
  "wired role roles p \<longleftrightarrow> list_all (\<lambda>(t, l). listeners (hub p) t = [l]) (wiring role roles)"

lemma start_wired: "wired role roles (cpage (start role roles))"
proof -
  have "wired True roles (fst (initialize True (Some roles) home_page))"
    "wired False roles (fst (initialize False (Some roles) home_page))"
    by code_simp+
  then show ?thesis by (cases role) (simp_all add: start_def)
qed

section \<open>Publishing to one listener\<close>

lemma publish_single:
  assumes "hub_inv (hub p)" "listeners (hub p) t = [l]" "hub (fst (ex l p)) = hub p"
  shows "publish ex t p = ex l p"
proof -
  let ?h = "hub p"
  obtain i where i: "ids ?h t = [i]"
    using assms(1,2) by (auto simp: listeners_map map_eq_Cons_conv)
  have "dll (cells ?h) t None (heads ?h t) (ids ?h t)" using hub_rep_ids [OF assms(1)] by (simp add: hub_rep_def)
  then have "dll (cells ?h) t None (heads ?h t) [i]" "i < next_id ?h"
    using ids_below [OF assms(1), of i t] i by simp_all
  then obtain s where s: "heads ?h t = Some i" "cells ?h i = Some s" "sg_next s = None"
    by (auto split: option.splits)
  moreover have "sg_advice s = l" using assms(1,2) i s(2) by (simp add: listeners_map)
  moreover obtain n where "next_id ?h = Suc n" using \<open>i < next_id ?h\<close> by (cases "next_id ?h") auto
  moreover obtain q e where q: "ex l p = (q, e)" by (cases "ex l p")
  moreover have "hub q = ?h" using assms(3) q by simp
  moreover from this have "q\<lparr>hub := ?h\<rparr> = q" by (metis page.surjective page.update_convs(4))
  ultimately show ?thesis
    using \<open>i < next_id ?h\<close> by (cases e) (simp_all add: publish_def emit_def)
qed

text \<open>C4: in every session each topic has the one listener that \<^verbatim>\<open>initialize\<close> gave it, so what is published to
  it runs exactly that panel's method, once, and ends as that method ends (for methods that leave the
  topics alone, as all of the console's do).\<close>
theorem topics_wired:
  assumes "reach role roles c" "(t, l) \<in> set (wiring role roles)" "\<And>p. hub (fst (ex l p)) = hub p"
  shows "listeners (hub (cpage c)) t = [l] \<and> publish ex t (cpage c) = ex l (cpage c)"
proof -
  have "listeners (hub (cpage c)) t = [l]"
    using start_wired [of role roles] assms(2) reach_hub [OF assms(1)] by (auto simp: wired_def list_all_iff)
  moreover have "hub_inv (hub (cpage c))" using reach_page [OF assms(1)] by (simp add: page_ok_def)
  ultimately show ?thesis using publish_single assms(3) by blast
qed

lemma topics_wired_witness:
  "listeners (hub (cpage sample_session)) ''/stomp/info'' = [InfoToaster]
   \<and> publish (info_listener ''m'') ''/stomp/info'' (cpage sample_session)
     = ((cpage sample_session)\<lparr>infos := infos (cpage sample_session) @ [''m'']\<rparr>, None)"
  using topics_wired [OF reach_sample, of "''/stomp/info''" InfoToaster "info_listener ''m''"]
  by (simp add: wiring_def)

end
