(* ===== verification/Rows.thy ===== *)
theory Rows
  imports Wiring
begin

text \<open>
  What the lists show. A row is an instance of its template (\<open>row_of\<close>, up to the generated id of the
  outer element); the methods that add rows append one per object, in order, and touch nothing else
  of the list. From that follow the end-to-end statements: what the page shows after an answer.
\<close>

section \<open>Instances of templates\<close>

fun same :: "tmpl \<Rightarrow> node \<Rightarrow> bool" where
  "same (T tg i cs st ats ts) (Node k e us) \<longleftrightarrow>
     e = \<lparr>tag = tg, ident = i, widget_id = [], classes = cs, css = st, attrs = ats\<rparr> \<and> list_all2 same ts us"

fun row_of :: "tmpl \<Rightarrow> node \<Rightarrow> bool" where
  "row_of (T tg i cs st ats ts) (Node k e us) \<longleftrightarrow>
     tag e = tg \<and> classes e = cs \<and> css e = st \<and> attrs e = ats \<and> ident e = widget_id e \<and> list_all2 same ts us"

lemma inst_same: "inst n ts = (ns, m) \<Longrightarrow> list_all2 same ts ns"
  by (induction n ts arbitrary: ns m rule: inst.induct) (auto split: prod.splits)

lemma inst_row: "inst n [tm] = (ns, m) \<Longrightarrow> row_of tm (own_node i (hd ns))"
  by (cases tm) (auto simp: own_node_def split: prod.splits dest: inst_same)

section \<open>Appending rows\<close>

text \<open>\<open>list_at ref ks p\<close>: the document is one body, and its first element with id \<open>ref\<close>, which is not a
  widget's, holds \<open>ks\<close>.\<close>

definition rooted :: "doc \<Rightarrow> bool" where
  "rooted d = (case d of [Node b e us] \<Rightarrow> tag e = ''body'' | _ \<Rightarrow> False)"

definition list_at :: "string \<Rightarrow> node list \<Rightarrow> page \<Rightarrow> bool" where
  "list_at ref ks p \<longleftrightarrow> page_ok p \<and> rooted (pdoc p) \<and> registry_by_id (reg p) ref = None
     \<and> map_option kids (by_id ref (pdoc p)) = Some ks \<and> take 2 ref \<noteq> ''do''"

lemma rooted_upd_kids: "rooted d \<Longrightarrow> rooted (upd_kids k f d)"
  by (auto simp: rooted_def upd_kids_def split: list.splits node.splits)

lemma list_at_page_ok: "list_at ref ks p \<Longrightarrow> page_ok p"
  by (simp add: list_at_def)

lemma append_fresh:
  assumes "distinct (keys d)" "by_id ref d = Some n" "set (keys [t]) \<inter> set (keys d) = {}"
  shows "\<exists>d'. place t (Some n) Last d = (d', None) \<and> by_id ref d' = Some (Node (nkey n) (ninfo n) (kids n @ [t]))
    \<and> (rooted d \<longrightarrow> rooted d')"
proof -
  have n: "nkey n \<in> set (keys d)" by (rule by_id_key [OF assms(2)])
  with assms(3) have "nkey n \<notin> set (keys [t])" "nkey t \<notin> set (keys d)" by (auto simp: keys_kids)
  then have "place t (Some n) Last d = (upd_kids (nkey n) (\<lambda>ks. ks @ [t]) d, None)"
    by (simp add: append_child_def detach_notin)
  moreover have "by_id ref (upd_kids (nkey n) (\<lambda>ks. ks @ [t]) d) = Some (Node (nkey n) (ninfo n) (kids n @ [t]))"
    unfolding upd_kids_def
    by (rule by_id_subst_self [OF assms(1,2), where h = "\<lambda>m. Node (nkey m) (ninfo m) (kids m @ [t])"]) simp
  ultimately show ?thesis using rooted_upd_kids by blast
qed

lemma widget_appends:
  assumes "list_at ref ks p"
  shows "\<exists>q t. widget tm ref Last p = (q, None) \<and> list_at ref (ks @ [t]) q \<and> row_of tm t
    \<and> infos q = infos p \<and> frame q = frame p \<and> hub q = hub p"
proof -
  from assms obtain n where p: "page_ok p" "registry_by_id (reg p) ref = None" "by_id ref (pdoc p) = Some n"
    "kids n = ks" "take 2 ref \<noteq> ''do''" "rooted (pdoc p)" by (auto simp: list_at_def)
  obtain k g where g: "get_unique_id class_name (reg p) = Some (class_name @ ''_'' @ nat_str k, g)"
    "\<not> hash_truthy (reg p) (class_name @ ''_'' @ nat_str k)" "hash g = hash (reg p)"
    using get_unique_id_ex [of class_name "reg p"] by blast
  define i where "i = class_name @ ''_'' @ nat_str k"
  have ne: "ref \<noteq> i" using p(5) by (auto simp: i_def class_name_def)
  have ht: "\<not> hash_truthy g i" using g(2,3) by (simp add: hash_truthy_def i_def)
  then have add: "registry_add i (i, fresh p) g = (g\<lparr>hash := hash g @ [(i, (i, fresh p))], rlength := rlength g + 1\<rparr>, None)"
    by (simp add: registry_add_def)
  obtain ns m where ns: "inst (fresh p) [tm] = (ns, m)" by (cases "inst (fresh p) [tm]")
  define t where "t = own_node i (hd ns)"
  have tt: "Node (nkey t) (ninfo t) (kids t) = t" by (cases t) simp
  have kt: "keys [t] = [fresh p..<m]" using inst_own [OF ns, of id i] tt by (simp add: t_def)
  have fr: "distinct (keys (pdoc p))" "\<forall>k \<in> set (keys (pdoc p)). k < fresh p" using p(1) by (auto simp: page_ok_def)
  have "set (keys [t]) \<inter> set (keys (pdoc p)) = {}" using fr(2) by (auto simp: kt)
  from append_fresh [OF fr(1) p(3) this] obtain d' where
    d': "place t (Some n) Last (pdoc p) = (d', None)" "by_id ref d' = Some (Node (nkey n) (ninfo n) (kids n @ [t]))" "rooted d'"
    using p(6) by blast
  let ?g = "g\<lparr>hash := hash g @ [(i, (i, fresh p))], rlength := rlength g + 1\<rparr>"
  have r: "registry_by_id ?g ref = None"
    using p(2) g(3) ne by (simp add: registry_by_id_def)
  have w: "widget tm ref Last p = (p\<lparr>reg := ?g, fresh := m, pdoc := d'\<rparr>, None)"
    using g(1) [folded i_def] add ns d'(1) r p(3) tt
    by (simp add: widget_def new_widget_def Let_def t_def [symmetric] place_at_def run_doc_def del: place.simps)
  moreover have "page_ok (fst (widget tm ref Last p))"
    using ok.widget_presv [of tm ref Last] p(1) by (simp add: presv_def)
  ultimately have "list_at ref (ks @ [t]) (fst (widget tm ref Last p))"
    using r d'(2,3) p(4,5) by (simp add: list_at_def)
  with w inst_row [OF ns, of i] show ?thesis by (auto simp: t_def frame_def)
qed

lemma rows_append:
  assumes "list_at ref ks p"
  shows "\<exists>q ts. acts (map (\<lambda>x. widget (tm x) ref Last) xs) p = (q, None) \<and> list_at ref (ks @ ts) q
    \<and> list_all2 (\<lambda>x. row_of (tm x)) xs ts \<and> infos q = infos p \<and> frame q = frame p \<and> hub q = hub p"
  using assms
proof (induction xs arbitrary: ks p)
  case Nil
  then show ?case by auto
next
  case (Cons x xs)
  from widget_appends [OF Cons.prems, of "tm x"] obtain q t where
    q: "widget (tm x) ref Last p = (q, None)" "list_at ref (ks @ [t]) q" "row_of (tm x) t"
      "infos q = infos p" "frame q = frame p" "hub q = hub p" by blast
  from Cons.IH [OF q(2)] obtain q' ts where
    "acts (map (\<lambda>x. widget (tm x) ref Last) xs) q = (q', None)" "list_at ref ((ks @ [t]) @ ts) q'"
    "list_all2 (\<lambda>x. row_of (tm x)) xs ts" "infos q' = infos q" "frame q' = frame q" "hub q' = hub q" by blast
  with q show ?case by (auto intro!: exI [of _ "t # ts"])
qed

section \<open>Around the rows\<close>

lemma body_key_rooted: "rooted d \<Longrightarrow> \<exists>b e us. d = [Node b e us] \<and> body_key d = Some b"
  by (auto simp: rooted_def body_key_def split: list.splits node.splits)

lemma list_at_stop:
  assumes "list_at ref ks p"
  shows "list_at ref ks (fst (stop_load p))"
proof -
  from assms have p: "page_ok p" "rooted (pdoc p)" "map_option kids (by_id ref (pdoc p)) = Some ks" by (auto simp: list_at_def)
  from body_key_rooted [OF p(2)] obtain b e us where d: "pdoc p = [Node b e us]" "body_key (pdoc p) = Some b" by blast
  have "b \<notin> set (keys us)" using p(1) d(1) by (auto simp: page_ok_def)
  then have q: "pdoc (fst (stop_load p)) = [Node b (set_css ''cursor'' ''default'' e) us]"
    using d by (simp add: stop_load_def on_doc_def upd_elem_def subst_notin)
  moreover have "by_id ref [Node b (set_css ''cursor'' ''default'' e) us] \<noteq> None
      \<and> map_option kids (by_id ref [Node b (set_css ''cursor'' ''default'' e) us]) = Some ks"
    using p(3) d(1) by (auto simp: by_id_def set_css_def)
  moreover have "page_ok (fst (stop_load p))" using ok.stop_law p(1) by (simp add: presv_def)
  moreover have "reg (fst (stop_load p)) = reg p" by (simp add: stop_load_def on_doc_def)
  moreover have "rooted (pdoc (fst (stop_load p)))" using q d(1) p(2) by (simp add: rooted_def set_css_def)
  ultimately show ?thesis using assms by (simp add: list_at_def)
qed

lemma stop_load_keeps:
  "infos (fst (stop_load p)) = infos p" "hub (fst (stop_load p)) = hub p" "reqs (fst (stop_load p)) = reqs p"
  by (simp_all add: stop_load_def on_doc_def)

lemma info_wired:
  assumes "page_ok p" "listeners (hub p) ''/stomp/info'' = [InfoToaster]"
  shows "info m p = (p\<lparr>infos := infos p @ [m]\<rparr>, None)"
  using publish_single [OF _ assms(2), of "info_listener m"] assms(1) by (simp add: info_def page_ok_def)

lemma list_at_infos: "list_at ref ks (p\<lparr>infos := xs\<rparr>) = list_at ref ks p"
  by (simp add: list_at_def page_ok_def)

lemma created_rows:
  assumes "list_at ref ks p" "listeners (hub p) ''/stomp/info'' = [InfoToaster]"
  shows "\<exists>q ts. acts (info m # map (\<lambda>x. widget (tm x) ref Last) xs) p = (q, None) \<and> list_at ref (ks @ ts) q
    \<and> list_all2 (\<lambda>x. row_of (tm x)) xs ts \<and> infos q = infos p @ [m] \<and> frame q = frame p"
proof -
  have i: "info m p = (p\<lparr>infos := infos p @ [m]\<rparr>, None)" using info_wired assms list_at_page_ok by blast
  have "list_at ref ks (p\<lparr>infos := infos p @ [m]\<rparr>)" using assms(1) by (simp add: list_at_infos)
  from rows_append [OF this, of tm xs] i show ?thesis by (auto simp: frame_def)
qed

lemma answered_rows:
  assumes "list_at ref ks p" "listeners (hub p) ''/stomp/info'' = [InfoToaster]" "listeners (hub p) t = [l]"
    "\<And>q. ex l q = acts (info m # map (\<lambda>x. widget (tm x) ref Last) xs) q" "\<And>q. hub (fst (ex l q)) = hub q"
  shows "\<exists>q ts. acts [stop_load, publish ex t] p = (q, None) \<and> list_at ref (ks @ ts) q
    \<and> list_all2 (\<lambda>x. row_of (tm x)) xs ts \<and> infos q = infos p @ [m] \<and> loading q = None \<and> reqs q = reqs p"
proof -
  obtain s where s: "stop_load p = (s, None)" "loading s = None" using stop_load_quiet [of p] by (cases "stop_load p") auto
  have k: "list_at ref ks s" "hub s = hub p" "infos s = infos p" "reqs s = reqs p"
    using list_at_stop [OF assms(1)] stop_load_keeps [of p] s(1) by simp_all
  have "hub_inv (hub s)" using list_at_page_ok [OF k(1)] by (simp add: page_ok_def)
  then have "publish ex t s = ex l s" by (rule publish_single) (simp_all add: k(2) assms(3,5))
  with created_rows [OF k(1), of m tm xs] assms(2,4) k s show ?thesis by (auto simp: frame_def)
qed

section \<open>What the page shows\<close>

text \<open>C7: when the server confirms a new host, the overlay goes away, one toast with the server's message
  is shown, and the hosts of the answer are appended to the list, a row each, in order, whatever the
  list held before.\<close>
theorem host_added_shows:
  assumes "list_at ''host_list'' ks p" "listeners (hub p) ''/stomp/info'' = [InfoToaster]"
    "listeners (hub p) ''/stomp/host_create'' = [LHostCreate]"
  shows "\<exists>q ts. host_added (Answer d) p = (q, None) \<and> list_at ''host_list'' (ks @ ts) q
    \<and> list_all2 (\<lambda>h. row_of (host_row_template h)) (js_list (r_hosts d)) ts
    \<and> infos q = infos p @ [title_body ''Succussfully created'' (r_msg d)] \<and> loading q = None \<and> reqs q = reqs p"
proof -
  have e: "host_listener d None LHostCreate q = acts (info (title_body ''Succussfully created'' (r_msg d))
      # map (\<lambda>h. widget (host_row_template h) ''host_list'' Last) (js_list (r_hosts d))) q" for q
    by (simp add: host_create_def host_row_def [abs_def] del: acts.simps)
  have h: "hub (fst (host_listener d None LHostCreate q)) = hub q" for q
    using wiring.host_listener_presv [of "hub q" d None LHostCreate] by (simp add: presv_def)
  from answered_rows [where ex = "host_listener d None" and l = LHostCreate, OF assms e h] show ?thesis by (simp add: host_added_def del: acts.simps)
qed

section \<open>The page at the start\<close>

definition started :: "bool \<Rightarrow> string list \<Rightarrow> page" where
  "started role roles = cpage (start role roles)"

definition start_probe :: "page \<Rightarrow> bool \<times> bool \<times> node list option \<times> node list option \<times> cont list" where
  "start_probe p =
     (rooted (pdoc p), registry_by_id (reg p) ''application_list'' = None \<and> registry_by_id (reg p) ''host_list'' = None,
      map_option kids (by_id ''application_list'' (pdoc p)), map_option kids (by_id ''host_list'' (pdoc p)),
      map q_cont (reqs p))"

lemma admin_start:
  "start_probe (started True roles) = (True, True, Some [], Some [],
     [AppListLoaded False, GraphLoaded 17, HostListLoaded, AppListLoaded True, GroupListLoaded,
      UserListLoaded roles, StorageListLoaded True])"
  by code_simp

lemma admin_lists:
  "list_at ''application_list'' [] (started True roles)" "list_at ''host_list'' [] (started True roles)"
  using admin_start [of roles] reach_page [OF reach.init, of True roles] by (simp_all add: list_at_def started_def start_probe_def)

lemma admin_wired:
  "(t, l) \<in> set (wiring True roles) \<Longrightarrow> listeners (hub (started True roles)) t = [l]"
  using start_wired [of True roles] by (auto simp: wired_def list_all_iff started_def)

lemma host_added_shows_witness:
  "\<exists>q ts. host_added (Answer (no_data\<lparr>r_msg := Some ''ok'', r_hosts := Some [\<lparr>h_name = ''n1'', h_ip = ''10.0.0.1'', h_old_ip = []\<rparr>]\<rparr>))
       (started True [''user'']) = (q, None) \<and> list_at ''host_list'' ts q \<and> length ts = 1"
  using host_added_shows [of "[]" "started True [''user'']"
      "no_data\<lparr>r_msg := Some ''ok'', r_hosts := Some [\<lparr>h_name = ''n1'', h_ip = ''10.0.0.1'', h_old_ip = []\<rparr>]\<rparr>",
      OF admin_lists(2) admin_wired admin_wired]
  by (fastforce simp: wiring_def host_list_topics_def js_list_def dest: list_all2_lengthD)

lemma app_rows:
  assumes "list_at ''application_list'' ks p"
  shows "\<exists>q ts. app_list_loaded role (Answer d) p = (q, None) \<and> list_at ''application_list'' (ks @ ts) q
    \<and> list_all2 (\<lambda>a. row_of (app_row_template role (app_opr a) a)) (js_list (r_apps d)) ts"
  using rows_append [OF assms, of "\<lambda>a. app_row_template role (app_opr a) a" "js_list (r_apps d)"]
  by (auto simp: app_list_loaded_def app_row_def [abs_def])

text \<open>the list and the content area of the applications both ask for the applications when an
  administrator logs in, and each answer fills the same list: it shows every application twice, the
  second time with the button for deleting it that administrators are not meant to have.\<close>

theorem admin_apps_twice:
  "AppListLoaded False \<in> q_cont ` set (reqs (started True roles)) \<and> AppListLoaded True \<in> q_cont ` set (reqs (started True roles))
   \<and> (\<exists>q ts us. acts [run_cont (AppListLoaded True) (Answer d), run_cont (AppListLoaded False) (Answer d)] (started True roles)
         = (q, None)
       \<and> list_at ''application_list'' (ts @ us) q
       \<and> list_all2 (\<lambda>a. row_of (app_row_template True (app_opr a) a)) (js_list (r_apps d)) ts
       \<and> list_all2 (\<lambda>a. row_of (app_row_template False (app_opr a) a)) (js_list (r_apps d)) us)"
proof -
  from app_rows [OF admin_lists(1), of True d roles] obtain q ts where
    q: "app_list_loaded True (Answer d) (started True roles) = (q, None)" "list_at ''application_list'' ts q"
      "list_all2 (\<lambda>a. row_of (app_row_template True (app_opr a) a)) (js_list (r_apps d)) ts" by auto
  moreover from app_rows [OF q(2), of False d] obtain q' us where
    "app_list_loaded False (Answer d) q = (q', None)" "list_at ''application_list'' (ts @ us) q'"
      "list_all2 (\<lambda>a. row_of (app_row_template False (app_opr a) a)) (js_list (r_apps d)) us" by auto
  moreover have "set (map q_cont (reqs (started True roles))) = {AppListLoaded False, GraphLoaded 17, HostListLoaded,
      AppListLoaded True, GroupListLoaded, UserListLoaded roles, StorageListLoaded True}"
    using admin_start [of roles] by (simp add: start_probe_def)
  ultimately show ?thesis by (simp del: set_map add: set_map [symmetric]) blast
qed

end
