(* ===== verification/Forms.thy ===== *)
theory Forms
  imports Rows Relabel
begin

text \<open>
  The dialogs: what their buttons send. \<open>Relabel\<close> says that a form's \<^verbatim>\<open>cleanup\<close> and the marking of a wrong
  field change classes only, so the fields read afterwards have the values validated before.
\<close>

section \<open>Marks\<close>

definition restyle :: "(nat \<Rightarrow> elem \<Rightarrow> elem) \<Rightarrow> page \<Rightarrow> page" where
  "restyle h p = p\<lparr>pdoc := relabel h (pdoc p)\<rparr>"

definition marked :: "string \<Rightarrow> page \<Rightarrow> bool" where
  "marked i p = (case by_id i (pdoc p) of None \<Rightarrow> False | Some n \<Rightarrow> err_class \<in> set (classes (ninfo n)))"

lemma restyle_simps [simp]:
  "frame (restyle h p) = frame p" "reg (restyle h p) = reg p" "hub (restyle h p) = hub p"
  "reqs (restyle h p) = reqs p" "loading (restyle h p) = loading p" "pdoc (restyle h p) = relabel h (pdoc p)"
  "fresh (restyle h p) = fresh p" "infos (restyle h p) = infos p"
  by (simp_all add: restyle_def frame_def)

lemma jq_id_restyle:
  assumes "distinct (keys (pdoc p))"
  shows "jq_id i f p = (restyle (\<lambda>j e. if Some j = map_option nkey (by_id i (pdoc p)) then f e else e) p, None)"
proof (cases "by_id i (pdoc p)")
  case None
  then show ?thesis by (simp add: jq_id_def restyle_def relabel_id)
next
  case (Some n)
  with upd_elem_relabel [OF assms] show ?thesis by (simp add: jq_id_def restyle_def)
qed

lemma jq_all_restyle:
  assumes "distinct (keys (pdoc p))" "\<And>e. ident (f e) = ident e" "\<And>e. f (f e) = f e"
  shows "jq_all is f p = (restyle (\<lambda>j e. if ident e \<in> set is then f e else e) p, None)"
proof -
  have "upd_where (\<lambda>e. ident e \<in> set is) f (keys (pdoc p)) (pdoc p)
      = relabel (\<lambda>j e. if j \<in> set (keys (pdoc p)) then (if ident e \<in> set is then f e else e) else e) (pdoc p)"
    unfolding upd_where_def by (rule upd_elems_relabel) (simp_all add: assms)
  also have "\<dots> = relabel (\<lambda>j e. if ident e \<in> set is then f e else e) (pdoc p)"
    by (rule relabel_cong) simp
  finally show ?thesis by (simp add: jq_all_def restyle_def)
qed

lemma with_value_jq:
  "with_value i k p = (case jq_val i p of None \<Rightarrow> (p, Some (TypeError (i @ '' is null''))) | Some v \<Rightarrow> k v p)"
  by (simp add: with_value_def jq_val_def split: option.splits)

lemma jq_val_restyle: "keeps_values h \<Longrightarrow> jq_val i (restyle h p) = jq_val i p"
  by (simp add: restyle_def jq_val_relabel)

lemma by_id_restyle:
  "keeps_values h \<Longrightarrow> by_id i (pdoc (restyle h p)) = map_option (renode h) (by_id i (pdoc p))"
  by (simp add: by_id_relabel keeps_values_ident)

lemma class_changes [simp]:
  "ident (add_class c e) = ident e" "tag (add_class c e) = tag e" "attrs (add_class c e) = attrs e"
  "ident (remove_class c e) = ident e" "tag (remove_class c e) = tag e" "attrs (remove_class c e) = attrs e"
  "remove_class c (remove_class c e) = remove_class c e"
  by (simp_all add: add_class_def remove_class_def)

lemma keeps_values_if [simp]:
  "keeps_values (\<lambda>j e. if P j e then add_class c e else e)" "keeps_values (\<lambda>j e. if P j e then remove_class c e else e)"
  by (simp_all add: keeps_values_def)

lemma restyle_page_ok:
  assumes "page_ok p" "presv page_ok a" "a p = (restyle h p, None)"
  shows "page_ok (restyle h p)"
  using assms by (simp add: presv_def) (metis fst_conv)

lemma mark_one:
  assumes "distinct (keys (pdoc p))" "by_id i (pdoc p) = Some n" "by_id j (pdoc p) \<noteq> None"
  shows "marked j (fst (jq_id i (add_class err_class) p)) = (j = i \<or> marked j p)"
proof -
  from assms(3) obtain m where m: "by_id j (pdoc p) = Some m" by blast
  have "nkey m = nkey n \<longleftrightarrow> j = i"
    using by_id_Some [OF m] by_id_Some [OF assms(2)] find_key_nodes [OF assms(1)] m assms(2) by (metis option.inject)
  with assms(2) m show ?thesis
    by (simp add: jq_id_restyle [OF assms(1)] marked_def by_id_restyle del: restyle_simps) (simp add: add_class_def)
qed

section \<open>Hosts\<close>

definition host_fields_ok :: "string \<Rightarrow> string \<Rightarrow> bool" where
  "host_fields_ok name ip \<longleftrightarrow> js_trim name \<noteq> [] \<and> is_valid_ip ip"

lemma no_ip_empty: "\<not> is_valid_ip []"
  by code_simp

lemma jq_val_by_id: "jq_val i p = Some v \<Longrightarrow> by_id i (pdoc p) \<noteq> None"
  by (auto simp: jq_val_def)

lemma unmarked:
  assumes "i \<in> set is"
  shows "\<not> marked i (restyle (\<lambda>j e. if ident e \<in> set is then remove_class err_class e else e) p)"
proof (cases "by_id i (pdoc p)")
  case (Some n)
  with by_id_Some [OF Some] assms show ?thesis
    by (simp add: marked_def by_id_restyle del: restyle_simps) (simp add: remove_class_def)
qed (simp add: marked_def by_id_restyle del: restyle_simps)

lemma host_cleanup_restyle:
  assumes "page_ok p"
  shows "\<exists>h. keeps_values h \<and> host_cleanup p = (restyle h p, None) \<and> page_ok (restyle h p)
    \<and> \<not> marked ''host_name'' (restyle h p) \<and> \<not> marked ''host_ip'' (restyle h p)"
proof -
  let ?h = "\<lambda>j e. if ident e \<in> set [''host_name'', ''host_ip''] then remove_class err_class e else e"
  have d: "distinct (keys (pdoc p))" using assms by (simp add: page_ok_def)
  have "host_cleanup p = (restyle ?h p, None)"
    unfolding host_cleanup_def by (rule jq_all_restyle [OF d]) simp_all
  moreover have "presv page_ok host_cleanup" unfolding host_cleanup_def by (rule ok.jq_all_presv) simp_all
  then have "page_ok (restyle ?h p)" using restyle_page_ok [OF assms] calculation by blast
  moreover have "\<not> marked ''host_name'' (restyle ?h p)" "\<not> marked ''host_ip'' (restyle ?h p)"
    by (rule unmarked, simp)+
  ultimately show ?thesis by (intro exI [of _ ?h]) simp
qed

lemma submit_sends:
  "snd (submit msg url d c p) = None" "loading (fst (submit msg url d c p)) = Some msg"
  "reqs (fst (submit msg url d c p)) = reqs p @ [\<lparr>q_url = url, q_post = True, q_data = Some d, q_cont = c\<rparr>]"
  by (simp_all add: submit_def start_load_def xhr_def jq_id_def on_doc_def split: option.splits)

text \<open>C6: the button of the dialog for a new host sends a request if and only if the name is not blank and
  the address is a dotted quad; the request then carries the two fields as they stand in the form and the
  overlay is up; otherwise nothing is sent, no popup is touched, and exactly the first wrong field is
  marked, whatever was marked before.\<close>
theorem host_add_safe:
  assumes "page_ok p" "one_dialog p" "jq_val ''host_name'' p = Some name" "jq_val ''host_ip'' p = Some ip"
  shows "snd (host_opr_add p) = None
    \<and> (if host_fields_ok name ip
       then loading (fst (host_opr_add p)) \<noteq> None
         \<and> reqs (fst (host_opr_add p)) = reqs p @ [\<lparr>q_url = ''/host/create'', q_post = True,
             q_data = Some (JObj [(''host_name'', JStr name), (''host_ip'', JStr ip)]), q_cont = HostAdded\<rparr>]
       else frame (fst (host_opr_add p)) = frame p
         \<and> marked ''host_name'' (fst (host_opr_add p)) = (js_trim name = [])
         \<and> marked ''host_ip'' (fst (host_opr_add p)) = (js_trim name \<noteq> []))"
proof -
  from host_cleanup_restyle [OF assms(1)] obtain h where
    h: "keeps_values h" "host_cleanup p = (restyle h p, None)" "page_ok (restyle h p)"
      "\<not> marked ''host_name'' (restyle h p)" "\<not> marked ''host_ip'' (restyle h p)" by blast
  let ?p = "restyle h p"
  have v: "jq_val ''host_name'' ?p = Some name" "jq_val ''host_ip'' ?p = Some ip"
    using assms(3,4) by (simp_all add: jq_val_restyle h(1) del: restyle_simps)
  have d: "distinct (keys (pdoc ?p))" using h(3) by (simp only: page_ok_def)
  obtain n m where n: "by_id ''host_name'' (pdoc ?p) = Some n" "by_id ''host_ip'' (pdoc ?p) = Some m"
    using v jq_val_by_id by blast
  note mk = mark_one [OF d n(1), of "''host_name''"] mark_one [OF d n(1), of "''host_ip''"]
    mark_one [OF d n(2), of "''host_name''"] mark_one [OF d n(2), of "''host_ip''"]
  have fr: "frame (fst (jq_id i f ?p)) = frame p" "snd (jq_id i f ?p) = None" for i f
    using jq_id_restyle [OF d] by simp_all
  show ?thesis
  proof (cases "host_fields_ok name ip")
    case True
    have "one_dialog ?p" using assms(2) by (auto intro: one_dialog_frame)
    then obtain q where q: "trigger_close ''host_opr'' ?p = (q, None)" "reqs q = reqs p"
      using trigger_close_ok [OF h(3), of "''host_opr''"] trigger_close_frame(2) [of "''host_opr''" ?p]
      by (cases "trigger_close ''host_opr'' ?p") auto
    have ne: "ip \<noteq> []" using True no_ip_empty by (auto simp: host_fields_ok_def)
    obtain q' where q': "submit ''Please wait while we add host'' ''/host/create''
        (to_json [(''host_name'', Some (JStr name)), (''host_ip'', Some (JStr ip))]) HostAdded q = (q', None)"
      using submit_sends(1) by (metis prod.collapse)
    have "host_opr_add p = (q', None)"
      using True ne q q' by (simp add: host_opr_add_def host_validate_def h(2) with_value_jq v host_fields_ok_def)
    with submit_sends(2,3) [of "''Please wait while we add host''" "''/host/create''"
        "to_json [(''host_name'', Some (JStr name)), (''host_ip'', Some (JStr ip))]" HostAdded q] q q' True
    show ?thesis by (simp add: to_json_def map_filter_simps)
  next
    case False
    have "host_opr_add p = (if js_trim name = [] then jq_id ''host_name'' (add_class err_class) ?p
        else jq_id ''host_ip'' (add_class err_class) ?p)"
      using False by (auto simp: host_opr_add_def host_validate_def h(2) with_value_jq v host_fields_ok_def
          split: prod.split option.split)
    with False fr mk n h(4,5) show ?thesis by (simp del: restyle_simps)
  qed
qed

section \<open>Users\<close>

definition mild :: "act \<Rightarrow> page \<Rightarrow> bool" where
  "mild a p \<longleftrightarrow> (\<exists>h. keeps_values h \<and> a p = (restyle h p, None))"

lemma mildI: "keeps_values h \<Longrightarrow> a p = (restyle h p, None) \<Longrightarrow> mild a p"
  by (auto simp: mild_def)

lemma mild_then:
  assumes "mild a p" "\<And>q. distinct (keys (pdoc q)) \<Longrightarrow> mild b q" "distinct (keys (pdoc p))"
  shows "mild (acts [a, b]) p"
proof -
  from assms(1) obtain h where h: "keeps_values h" "a p = (restyle h p, None)" by (auto simp: mild_def)
  have "mild b (restyle h p)" by (rule assms(2)) (simp add: assms(3))
  then obtain g where g: "keeps_values g" "b (restyle h p) = (restyle g (restyle h p), None)" by (auto simp: mild_def)
  have "keeps_values (\<lambda>k e. g k (h k e))" using g(1) h(1) by (simp add: keeps_values_def)
  moreover have "acts [a, b] p = (restyle (\<lambda>k e. g k (h k e)) p, None)"
    using g h by (simp add: restyle_def relabel_relabel)
  ultimately show ?thesis by (auto simp: mild_def)
qed

definition class_change :: "(elem \<Rightarrow> elem) \<Rightarrow> bool" where
  "class_change f \<longleftrightarrow> (\<forall>e. ident (f e) = ident e \<and> tag (f e) = tag e \<and> attrs (f e) = attrs e \<and> f (f e) = f e)"

lemma class_change_class [simp]: "class_change (add_class c)" "class_change (remove_class c)"
  by (simp_all add: class_change_def) (simp add: add_class_def)

lemma mild_jq:
  assumes "distinct (keys (pdoc p))" "class_change f"
  shows "mild (jq_id i f) p" "mild (jq_all is f) p" "mild (jq_parent i tg cls f) p"
proof -
  have k: "keeps_values (\<lambda>j e. if P j e then f e else e)" for P
    using assms(2) by (simp add: keeps_values_def class_change_def)
  show "mild (jq_id i f) p" by (rule mildI, rule k, rule jq_id_restyle [OF assms(1)])
  show "mild (jq_all is f) p"
    by (rule mildI, rule k, rule jq_all_restyle [OF assms(1)]) (use assms(2) in \<open>simp_all add: class_change_def\<close>)
  have "keeps_values (\<lambda>j e. e)" by (simp add: keeps_values_def)
  moreover have "restyle (\<lambda>j e. e) p = p" by (simp add: restyle_def relabel_id)
  ultimately have "mild (\<lambda>p. (p, None)) p" by (auto simp: mild_def)
  moreover have "mild (\<lambda>p. (p\<lparr>pdoc := upd_elem m f (pdoc p)\<rparr>, None)) p" for m
    using k [of "\<lambda>j e. j = m"] upd_elem_relabel [OF assms(1), of m f] by (auto simp: mild_def restyle_def)
  ultimately show "mild (jq_parent i tg cls f) p"
    by (auto simp: mild_def jq_parent_def split: option.splits)
qed

lemma mild_frame: "mild a p \<Longrightarrow> frame (fst (a p)) = frame p \<and> snd (a p) = None"
  by (auto simp: mild_def)

definition user_fields_ok :: "string \<Rightarrow> string \<Rightarrow> string option \<Rightarrow> bool" where
  "user_fields_ok email name role \<longleftrightarrow> js_trim email \<noteq> [] \<and> is_valid_email email \<and> js_trim name \<noteq> []
     \<and> is_valid_username name \<and> role \<noteq> None"

lemma radio_value_restyle: "keeps_values h \<Longrightarrow> radio_value nm i (restyle h p) = radio_value nm i p"
  by (simp add: restyle_def radio_value_relabel)

text \<open>C5: the button of the dialog for a new user sends a request if and only if the e-mail address and the
  user name are valid and a role is chosen; the request then carries the fields and choices as they stand
  in the form and the overlay is up; otherwise nothing is sent and no popup is touched.\<close>
theorem user_add_safe:
  assumes "page_ok p" "jq_val ''user_email'' p = Some email" "jq_val ''user_name'' p = Some name"
    "jq_val ''user_fullname'' p = Some fullname"
  shows "snd (user_opr_add roles p) = None
    \<and> (if user_fields_ok email name (radio_value ''user_role'' ''user_roles'' p)
       then loading (fst (user_opr_add roles p)) \<noteq> None
         \<and> reqs (fst (user_opr_add roles p)) = reqs p @ [\<lparr>q_url = ''/user/create'', q_post = True,
             q_data = Some (to_json
               [(''role'', map_option JStr (radio_value ''user_role'' ''user_roles'' p)), (''email'', Some (JStr email)),
                (''group'', map_option JStr (radio_value ''selected_group'' ''user_groups'' p)),
                (''username'', Some (JStr name)), (''fullname'', Some (JStr fullname))]),
             q_cont = UserAdded roles\<rparr>]
       else frame (fst (user_opr_add roles p)) = frame p)"
proof -
  let ?role = "radio_value ''user_role'' ''user_roles'' p"
  have d: "distinct (keys (pdoc p))" using assms(1) by (simp add: page_ok_def)
  have "mild user_cleanup p" unfolding user_cleanup_def
    by (rule mild_then) (simp_all add: mild_jq d)
  then obtain h where h: "keeps_values h" "user_cleanup p = (restyle h p, None)" by (auto simp: mild_def)
  let ?p = "restyle h p"
  have v: "jq_val i ?p = jq_val i p" "radio_value nm i ?p = radio_value nm i p" for i nm
    by (rule jq_val_restyle [OF h(1)], rule radio_value_restyle [OF h(1)])
  have d': "distinct (keys (pdoc ?p))" using d by simp
  note fr = mild_jq [OF d' class_change_class(1), THEN mild_frame]
  let ?d = "to_json
       [(''role'', map_option JStr ?role), (''email'', Some (JStr email)),
        (''group'', map_option JStr (radio_value ''selected_group'' ''user_groups'' p)),
        (''username'', Some (JStr name)), (''fullname'', Some (JStr fullname))]"
  let ?s = "submit ''Please wait while we create user'' ''/user/create'' ?d (UserAdded roles) ?p"
  have "user_opr_add roles p =
     (if js_trim email = [] \<or> \<not> is_valid_email email then jq_id ''user_email'' (add_class err_class) ?p
      else if js_trim name = [] \<or> \<not> is_valid_username name then jq_id ''user_name'' (add_class err_class) ?p
      else if ?role = None then jq_parent ''user_roles'' ''div'' ''panel'' (add_class err_class) ?p else ?s)"
    by (simp add: user_opr_add_def user_validate_def h(2) with_value_jq v assms(2-4) ask_def split: prod.split option.split)
  with fr submit_sends [of _ _ ?d "UserAdded roles" ?p] show ?thesis
    by (simp add: user_fields_ok_def)
qed

section \<open>Pages with an open dialog\<close>

definition with_dialog :: "act \<Rightarrow> page" where
  "with_dialog a = fst (a home_page)"

lemma with_dialog_ok: "presv page_ok a \<Longrightarrow> presv one_dialog a \<Longrightarrow> page_ok (with_dialog a) \<and> one_dialog (with_dialog a)"
  using page_ok_home one_dialog_home by (simp add: with_dialog_def presv_def)

definition host_form :: "string \<Rightarrow> string \<Rightarrow> page" where
  "host_form name ip = with_dialog (acts [new_host_opr CreateHost,
     jq_id ''host_name'' (set_attr ''value'' name), jq_id ''host_ip'' (set_attr ''value'' ip)])"

lemma host_form_ok: "page_ok (host_form name ip)" "one_dialog (host_form name ip)"
proof -
  have "presv page_ok (acts [new_host_opr CreateHost, jq_id ''host_name'' (set_attr ''value'' name),
      jq_id ''host_ip'' (set_attr ''value'' ip)])"
    "presv one_dialog (acts [new_host_opr CreateHost, jq_id ''host_name'' (set_attr ''value'' name),
      jq_id ''host_ip'' (set_attr ''value'' ip)])"
    by (auto intro!: act_intros ok.steps dialogs.steps ok.new_host_opr_presv dialogs.new_host_opr_presv simp del: acts.simps)
  from with_dialog_ok [OF this] show "page_ok (host_form name ip)" "one_dialog (host_form name ip)"
    by (simp_all only: host_form_def)
qed

lemma host_add_safe_witness:
  "map q_url (reqs (fst (host_opr_add (host_form ''n1'' ''10.0.0.1'')))) = [''/host/create'']
   \<and> reqs (fst (host_opr_add (host_form ''n1'' ''10.0.0.256''))) = []
   \<and> marked ''host_ip'' (fst (host_opr_add (host_form ''n1'' ''10.0.0.256'')))"
proof -
  have v: "jq_val ''host_name'' (host_form ''n1'' ''10.0.0.1'') = Some ''n1''"
    "jq_val ''host_ip'' (host_form ''n1'' ''10.0.0.1'') = Some ''10.0.0.1''"
    "jq_val ''host_name'' (host_form ''n1'' ''10.0.0.256'') = Some ''n1''"
    "jq_val ''host_ip'' (host_form ''n1'' ''10.0.0.256'') = Some ''10.0.0.256''"
    "host_fields_ok ''n1'' ''10.0.0.1''" "\<not> host_fields_ok ''n1'' ''10.0.0.256''" "js_trim ''n1'' \<noteq> []"
    "reqs (host_form ''n1'' ''10.0.0.1'') = []" "reqs (host_form ''n1'' ''10.0.0.256'') = []"
    by code_simp+
  from host_add_safe [OF host_form_ok v(1,2)] host_add_safe [OF host_form_ok v(3,4)] v(5-9)
  show ?thesis by (simp add: frame_def)
qed

definition user_form :: "string \<Rightarrow> string \<Rightarrow> page" where
  "user_form email name = with_dialog (acts [new_user_opr (CreateUser [] [''admin'', ''user'']),
     jq_id ''user_email'' (set_attr ''value'' email), jq_id ''user_name'' (set_attr ''value'' name)])"

lemma user_form_ok: "page_ok (user_form email name)"
proof -
  have "presv page_ok (acts [new_user_opr (CreateUser [] [''admin'', ''user'']), jq_id ''user_email'' (set_attr ''value'' email),
      jq_id ''user_name'' (set_attr ''value'' name)])"
    by (auto intro!: act_intros ok.steps ok.new_user_opr_presv simp del: acts.simps)
  with page_ok_home show ?thesis by (simp add: user_form_def with_dialog_def presv_def del: acts.simps)
qed

definition form_probe :: "page \<Rightarrow> string option list \<times> request list" where
  "form_probe p = (map (\<lambda>i. jq_val i p) [''user_email'', ''user_name'', ''user_fullname'']
     @ [radio_value ''user_role'' ''user_roles'' p], reqs p)"

lemma user_add_safe_witness:
  "map q_url (reqs (fst (user_opr_add [''admin'', ''user''] (user_form ''a@b.org'' ''ab'')))) = [''/user/create'']
   \<and> reqs (fst (user_opr_add [''admin'', ''user''] (user_form ''a.b.org'' ''ab''))) = []"
proof -
  have v: "form_probe (user_form ''a@b.org'' ''ab'') = ([Some ''a@b.org'', Some ''ab'', Some [], Some ''user''], [])"
    "form_probe (user_form ''a.b.org'' ''ab'') = ([Some ''a.b.org'', Some ''ab'', Some [], Some ''user''], [])"
    by code_simp+
  have e: "user_fields_ok ''a@b.org'' ''ab'' (Some ''user'')" "\<not> is_valid_email ''a.b.org''"
    by code_simp+
  from user_add_safe [OF user_form_ok, of "''a@b.org''" "''ab''" "''a@b.org''" "''ab''" "[]" "[''admin'', ''user'']"]
    user_add_safe [OF user_form_ok, of "''a.b.org''" "''ab''" "''a.b.org''" "''ab''" "[]" "[''admin'', ''user'']"] v e
  show ?thesis by (simp add: form_probe_def frame_def user_fields_ok_def)
qed

end
