(* ===== verification/Failures.thy ===== *)
theory Failures
  imports Forms
begin

text \<open>
  How the console fails: the messages of failed requests that are never shown, the marks that stay, the
  overlay that does.
\<close>

section \<open>Failed requests\<close>

lemma dialog_taken:
  assumes "hash_truthy (reg p) dialog"
  shows "new_dialog tm sel p = (p, Some (dup_error dialog))"
  using assms by (simp add: new_dialog_def new_widget_def registry_add_def dialog_def)

lemma failure_lost:
  assumes "hash_truthy (reg p) dialog"
  shows "acts [stop_load, msgbox_of (Some m)] p = (fst (stop_load p), Some (dup_error dialog))"
proof -
  obtain q where q: "stop_load p = (q, None)" using stop_load_quiet [of p] by (cases "stop_load p") auto
  have "reg q = reg p" using q by (auto simp: stop_load_def on_doc_def)
  with q assms show ?thesis by (simp add: msgbox_of_def msgbox_def dialog_taken)
qed

lemma message_shown:
  assumes "\<not> hash_truthy (reg p) dialog"
  shows "acts [stop_load, msgbox_of (Some m)] p = msgbox m (fst (stop_load p))"
proof -
  obtain q where "stop_load p = (q, None)" using stop_load_quiet [of p] by (cases "stop_load p") auto
  then show ?thesis by (cases "msgbox m q") (simp add: msgbox_of_def split: option.split)
qed

lemma message_missing: "acts [stop_load, msgbox_of None] p = (fst (stop_load p), Some (TypeError ''error.response.data is undefined''))"
proof -
  obtain q where "stop_load p = (q, None)" using stop_load_quiet [of p] by (cases "stop_load p") auto
  then show ?thesis by (simp add: msgbox_of_def throw_def)
qed

text \<open>The buttons of a groups dialog do not close it.\<close>

lemma keeps_reg:
  "presv (\<lambda>p. reg p = R) (jq_id i f)" "presv (\<lambda>p. reg p = R) (submit msg url d c)" "presv (\<lambda>p. reg p = R) (start_load l)"
  "presv (\<lambda>p. reg p = R) group_cleanup"
  by (auto simp: presv_def submit_def start_load_def on_doc_def jq_id_def xhr_def group_cleanup_def split: option.splits)

lemma group_buttons_keep_reg:
  "presv (\<lambda>p. reg p = R) group_opr_add" "presv (\<lambda>p. reg p = R) group_opr_update" "presv (\<lambda>p. reg p = R) (group_opr_del g)"
  "presv (\<lambda>p. reg p = R) (group_opr_remove_user us is)" "presv (\<lambda>p. reg p = R) group_opr_move_user"
  by (auto simp: group_opr_add_def group_validate_def group_opr_update_def group_opr_del_def group_opr_remove_user_def
      group_opr_move_user_def intro!: presv_acts presv_ask presv_with_value keeps_reg split: list.splits option.splits)

text \<open>The five requests of the groups dialogs with what receives their answers.\<close>

definition group_requests :: "group \<Rightarrow> user list \<Rightarrow> string list \<Rightarrow> (act \<times> cont) set" where
  "group_requests g us is =
     {(group_opr_add, GroupAdded), (group_opr_update, GroupUpdated), (group_opr_del g, GroupDeleted g),
      (group_opr_remove_user us is, GroupUserRemoved), (group_opr_move_user, GroupUserMoved)}"

text \<open>C37: the button of a groups dialog that sends a request leaves the dialog open. When the server then refuses
  the request, its message is shown only if the dialog has been closed in the meantime: while it is open, the
  message box, which asks for the id of the dialog, is refused, the callback ends with the registry's exception
  and only the overlay goes away. An answer without a message ends in an exception in any case.\<close>
theorem group_failure_lost:
  assumes "hash_truthy (reg p) dialog" "(a, c) \<in> group_requests g us is"
  shows "hash_truthy (reg (fst (a p))) dialog
    \<and> (\<forall>q m. run_cont c (Failed (Some m)) q =
        (if hash_truthy (reg q) dialog then (fst (stop_load q), Some (dup_error dialog)) else msgbox m (fst (stop_load q))))
    \<and> (\<forall>q. run_cont c (Failed None) q = (fst (stop_load q), Some (TypeError ''error.response.data is undefined'')))"
proof -
  have "run_cont c (Failed m) q = acts [stop_load, msgbox_of m] q" for m q
    using assms(2) by (auto simp: group_requests_def group_added_def group_updated_def group_deleted_def group_user_removed_def
        group_user_moved_def simp del: acts.simps)
  moreover have "presv (\<lambda>q. reg q = reg p) a" using assms(2) group_buttons_keep_reg by (auto simp: group_requests_def)
  then have "reg (fst (a p)) = reg p" by (simp add: presv_def)
  ultimately show ?thesis using assms(1) failure_lost message_shown message_missing by simp
qed

definition delete_form :: page where
  "delete_form = with_dialog (new_group_opr (DeleteGroup \<lparr>g_id = ''1'', g_name = ''a'', g_created = 0, g_users = []\<rparr>))"

lemma group_failure_lost_witness:
  "run_cont (GroupDeleted \<lparr>g_id = ''1'', g_name = ''a'', g_created = 0, g_users = []\<rparr>) (Failed (Some ''in use''))
     (fst (group_opr_del \<lparr>g_id = ''1'', g_name = ''a'', g_created = 0, g_users = []\<rparr> delete_form))
   = (fst (stop_load (fst (group_opr_del \<lparr>g_id = ''1'', g_name = ''a'', g_created = 0, g_users = []\<rparr> delete_form))),
      Some (dup_error dialog))"
proof -
  let ?g = "\<lparr>g_id = ''1'', g_name = ''a'', g_created = 0, g_users = []\<rparr>"
  have "hash_truthy (reg delete_form) dialog" by code_simp
  moreover have "(group_opr_del ?g, GroupDeleted ?g) \<in> group_requests ?g [] []" by (simp add: group_requests_def)
  ultimately show ?thesis using group_failure_lost [of delete_form "group_opr_del ?g" "GroupDeleted ?g" ?g "[]" "[]"] by simp
qed

text \<open>Whatever the server answers to a failed update of a user, the callback ends in a reference error:
  no message is shown and the dialog stays open.\<close>
theorem user_update_failure:
  "run_cont (UserUpdated roles) (Failed m) p
     = (fst (stop_load p), Some (ReferenceError ''response is not defined''))
   \<and> infos (fst (stop_load p)) = infos p \<and> boxes (fst (stop_load p)) = boxes p"
proof -
  obtain q where "stop_load p = (q, None)" using stop_load_quiet [of p] by (cases "stop_load p") auto
  moreover from this have "boxes q = boxes p" by (auto simp: stop_load_def on_doc_def)
  ultimately show ?thesis using stop_load_keeps(1) [of p] by (simp add: user_updated_def throw_def)
qed

section \<open>Marks that stay\<close>

definition keeps_mark :: "(nat \<Rightarrow> elem \<Rightarrow> elem) \<Rightarrow> bool" where
  "keeps_mark h \<longleftrightarrow> (\<forall>k e. ident (h k e) = ident e \<and> (err_class \<in> set (classes e) \<longrightarrow> err_class \<in> set (classes (h k e))))"

lemma keeps_mark_if:
  "(\<And>e. ident (f e) = ident e) \<Longrightarrow> (\<And>e. err_class \<in> set (classes e) \<Longrightarrow> err_class \<in> set (classes (f e))) \<Longrightarrow>
    keeps_mark (\<lambda>j e. if P j e then f e else e)"
  by (simp add: keeps_mark_def)

lemma marked_relabel: "keeps_mark h \<Longrightarrow> pdoc q = relabel h (pdoc p) \<Longrightarrow> marked i p \<Longrightarrow> marked i q"
  by (auto simp: marked_def by_id_relabel keeps_mark_def split: option.splits)

text \<open>A step that keeps the marks and the identities of the nodes.\<close>

definition marking :: "act \<Rightarrow> bool" where
  "marking a \<longleftrightarrow> (\<forall>i. presv (\<lambda>p. distinct (keys (pdoc p)) \<and> marked i p) a)"

lemma marking_jq:
  assumes "\<And>e. ident (f e) = ident e" "\<And>e. err_class \<in> set (classes e) \<Longrightarrow> err_class \<in> set (classes (f e))"
  shows "marking (jq_id j f)"
proof -
  have "marked i (fst (jq_id j f p)) \<and> distinct (keys (pdoc (fst (jq_id j f p))))"
    if p: "distinct (keys (pdoc p))" "marked i p" for i p
    using marked_relabel [OF keeps_mark_if [OF assms], where q = "fst (jq_id j f p)" and p = p] p
    by (simp add: jq_id_restyle [OF p(1)])
  then show ?thesis unfolding marking_def presv_def by blast
qed

lemma marking_body:
  assumes "\<And>e. ident (f e) = ident e" "\<And>e. classes (f e) = classes e"
  shows "marking (on_doc (\<lambda>d. case body_key d of None \<Rightarrow> d | Some b \<Rightarrow> upd_elem b f d))"
proof -
  have "marked i (p\<lparr>pdoc := upd_elem b f (pdoc p)\<rparr>)" if p: "distinct (keys (pdoc p))" "marked i p" for i p b
    using marked_relabel [OF keeps_mark_if [of f], where q = "p\<lparr>pdoc := upd_elem b f (pdoc p)\<rparr>" and p = p] assms p
    by (simp add: upd_elem_relabel)
  then show ?thesis by (auto simp: marking_def presv_def on_doc_def upd_elem_relabel split: option.splits)
qed

lemma marking_acts: "(\<And>a. a \<in> set as \<Longrightarrow> marking a) \<Longrightarrow> marking (acts as)"
  by (auto simp: marking_def intro!: presv_acts)

lemma marking_submit: "marking (submit msg url d c)"
  unfolding submit_def start_load_def
  by (intro marking_acts) (auto simp: set_css_def intro!: marking_acts marking_jq marking_body simp del: acts.simps,
      simp_all add: marking_def presv_def xhr_def marked_def)

lemma marking_value: "(\<And>v. marking (k v)) \<Longrightarrow> marking (with_value i k)"
  by (simp add: marking_def presv_with_value)

lemma marking_ask: "(\<And>v. marking (k v)) \<Longrightarrow> marking (ask f k)"
  by (simp add: marking_def presv_ask)

text \<open>once the name of a group is marked as wrong it stays so: neither the next validation nor the request
  that a corrected name sends takes the mark away, for what \<^verbatim>\<open>cleanup\<close> removes is a class of another name.\<close>

theorem group_mark_stays:
  assumes "distinct (keys (pdoc p))" "marked ''group_name'' p"
  shows "marked ''group_name'' (fst (group_opr_add p)) \<and> marked ''group_name'' (fst (group_opr_update p))"
proof -
  have c: "marking group_cleanup"
    unfolding group_cleanup_def by (rule marking_jq) (auto simp: remove_class_def err_class_def)
  have m: "marking (jq_id ''group_name'' (add_class err_class))"
    by (rule marking_jq) (auto simp: add_class_def)
  have v: "marking (group_validate k)" if "marking k" for k
    unfolding group_validate_def using that c m by (auto intro!: marking_acts marking_value simp del: acts.simps)
  have "marking group_opr_add" "marking group_opr_update"
    unfolding group_opr_add_def group_opr_update_def by (auto intro!: v marking_ask marking_value marking_submit)
  with assms show ?thesis by (simp add: marking_def presv_def)
qed

definition group_form :: "string \<Rightarrow> page" where
  "group_form name = with_dialog (acts [new_group_opr (CreateGroup []), group_opr_add,
     jq_id ''group_name'' (set_attr ''value'' name)])"

lemma group_mark_stays_witness:
  "marked ''group_name'' (fst (group_opr_add (group_form ''g'')))
   \<and> map q_url (reqs (fst (group_opr_add (group_form ''g'')))) = [''/group/create'']"
proof -
  have "distinct (keys (pdoc (group_form ''g'')))" "marked ''group_name'' (group_form ''g'')"
    "map q_url (reqs (fst (group_opr_add (group_form ''g'')))) = [''/group/create'']"
    by code_simp+
  with group_mark_stays show ?thesis by blast
qed

section \<open>The overlay that stays\<close>

text \<open>when the first of the users to be taken out of their group comes without a group, the button of
  that dialog brings the overlay up and then ends in an exception: no request is sent, so if none was
  under way that closes it, the overlay stays up with nothing to come that takes it away.\<close>

theorem remove_user_stuck:
  assumes "u_group u = None" "\<not> list_ex (\<lambda>q. stops_load (q_cont q)) (reqs p)"
  shows "snd (group_opr_remove_user (u # us) is p) \<noteq> None \<and> reqs (fst (group_opr_remove_user (u # us) is p)) = reqs p
    \<and> \<not> load_ok (fst (group_opr_remove_user (u # us) is p))"
proof -
  let ?m = "Some ''Please wait while we remove user from group''"
  have q: "snd (start_load ?m p) = None" "reqs (fst (start_load ?m p)) = reqs p" "loading (fst (start_load ?m p)) \<noteq> None"
    by (auto simp: start_load_def jq_id_def on_doc_def split: option.splits)
  then have "group_opr_remove_user (u # us) is p = (fst (start_load ?m p), Some (TypeError ''group is undefined''))"
    using assms(1) by (cases "start_load ?m p") (simp add: group_opr_remove_user_def throw_def)
  with q assms show ?thesis by (simp add: load_ok_def)
qed

definition ungrouped :: user where
  "ungrouped = \<lparr>u_id = ''1'', u_name = None, u_fullname = ''A'', u_email = [], u_username = [], u_role = [], u_online = True,
     u_group = None, u_apps = 0\<rparr>"

lemma remove_user_stuck_witness:
  "\<not> load_ok (fst (group_opr_remove_user [ungrouped] [''1''] home_page))"
  using remove_user_stuck [of ungrouped home_page "[]" "[''1'']"] by (simp add: ungrouped_def home_page_def)

end
