(* ===== verification/Promise.thy ===== *)
theory Promise
  imports Prelude
begin

text \<open>
  Promises (\<^verbatim>\<open>dojo/Deferred\<close>), which every request of the console returns. A call of one of the
  closures of a \<^verbatim>\<open>Deferred\<close> is a command; running a command changes the store of deferreds and leaves
  the calls it makes, which run before what was to follow (the stack of calls, written out).

  Callbacks, cancelers and the scripts and handlers that browser events run are bodies: between calls of the
  module they change the rest of the page (a value of any type \<open>'w\<close>) and depend on it, they make promises,
  wait for them, resolve, reject and cancel deferreds, also the one they are called for, see what these calls
  return or throw, and end by returning or throwing. The functions that \<^verbatim>\<open>makeDeferredSignaler\<close> makes are named
  by the deferred and the signal (\<open>Signal\<close>). The only values with a method \<^verbatim>\<open>then\<close> are the promises of this module.
\<close>

datatype phase = Progress | Resolved | Rejected

datatype 'v js_value = Undefined | Promise_of nat | Cancel_error nat | Already_fulfilled | Other 'v

datatype 'v outcome = Ret "'v js_value" | Raise "'v js_value"

datatype ('v, 'w) body =
    Finish "'v outcome"
  | Act "'w \<Rightarrow> 'w \<times> ('v, 'w) body"
  | Call "('v, 'w) api" "'v outcome \<Rightarrow> ('v, 'w) body"
and ('v, 'w) api =
    Make "('v, 'w) canceler option"
  | Resolve nat "'v js_value" bool
  | Reject nat "'v js_value" bool
  | Notify nat "'v js_value" bool
  | Await nat "('v, 'w) handler option" "('v, 'w) handler option" "('v, 'w) handler option"
  | Abort nat "'v js_value" bool
and ('v, 'w) handler = Fun "'v js_value \<Rightarrow> ('v, 'w) body" | Signal nat phase
and ('v, 'w) canceler = Own "'v js_value \<Rightarrow> ('v, 'w) body" | Chain nat

text \<open>A listener: the callbacks in the order of the array in \<^verbatim>\<open>then\<close> and the deferred made for it.\<close>

record ('v, 'w) watcher =
  progback :: "('v, 'w) handler option"
  callback :: "('v, 'w) handler option"
  errback :: "('v, 'w) handler option"
  target :: nat

text \<open>\<open>cleared\<close> is \<^verbatim>\<open>waiting = null\<close>; the loop of \<^verbatim>\<open>signalWaiting\<close> holds the array itself.\<close>

record ('v, 'w) deferred =
  fulfilled :: "(phase \<times> 'v js_value) option"
  canceled :: bool
  waiting :: "('v, 'w) watcher list"
  cleared :: bool
  on_cancel :: "('v, 'w) canceler option"

text \<open>\<open>returned\<close> is what the last call returned or threw, \<open>cancel_errors\<close> counts the \<^verbatim>\<open>CancelError\<close>s made, which
  are objects of their own, and \<open>page_state\<close> is the rest of the page. \<open>watched\<close> and \<open>calls\<close> are kept for the
  statements only: the calls of \<^verbatim>\<open>then\<close> with the listener each made, and the calls of callbacks.\<close>

record ('v, 'w) promises =
  deferreds :: "('v, 'w) deferred list"
  returned :: "'v outcome"
  cancel_errors :: nat
  page_state :: 'w
  watched :: "(nat \<times> ('v, 'w) watcher) list"
  calls :: "(nat \<times> phase \<times> 'v js_value) list"

text \<open>The calls of the module's functions. \<open>Result\<close>, \<open>Canceled\<close> and \<open>Resume\<close> are what \<^verbatim>\<open>signalListener\<close>, \<^verbatim>\<open>cancel\<close>
  and a body do when the function they called is over.\<close>

datatype ('v, 'w) command =
    Fulfil nat phase "'v js_value"
  | Update nat "'v js_value"
  | Loop nat nat phase "'v js_value"
  | Tell "('v, 'w) watcher" phase "'v js_value"
  | Result nat
  | Send nat phase "'v js_value"
  | Then nat "('v, 'w) handler option" "('v, 'w) handler option" "('v, 'w) handler option"
  | Cancel nat "'v js_value"
  | Canceled nat "'v js_value"
  | Body "('v, 'w) body"
  | Resume "'v outcome \<Rightarrow> ('v, 'w) body"
  | Return "'v outcome"

definition new_deferred :: "('v, 'w) canceler option \<Rightarrow> ('v, 'w) deferred" where
  "new_deferred c = \<lparr>fulfilled = None, canceled = False, waiting = [], cleared = False, on_cancel = c\<rparr>"

definition empty_store :: "'w \<Rightarrow> ('v, 'w) promises" where
  "empty_store g = \<lparr>deferreds = [], returned = Ret Undefined, cancel_errors = 0, page_state = g, watched = [], calls = []\<rparr>"

fun handler_for :: "('v, 'w) watcher \<Rightarrow> phase \<Rightarrow> ('v, 'w) handler option" where
  "handler_for w Progress = progback w"
| "handler_for w Resolved = callback w"
| "handler_for w Rejected = errback w"

definition upd_deferred :: "nat \<Rightarrow> (('v, 'w) deferred \<Rightarrow> ('v, 'w) deferred) \<Rightarrow> ('v, 'w) promises \<Rightarrow> ('v, 'w) promises" where
  "upd_deferred d f s = (if d < length (deferreds s) then s\<lparr>deferreds := (deferreds s)[d := f (deferreds s ! d)]\<rparr> else s)"

definition outcome_of :: "nat \<Rightarrow> ('v, 'w) promises \<Rightarrow> (phase \<times> 'v js_value) option" where
  "outcome_of d s = (if d < length (deferreds s) then fulfilled (deferreds s ! d) else None)"

text \<open>\<^verbatim>\<open>signalListener\<close>, up to the call of the callback and from its end on. What stands after the call in the
  \<^verbatim>\<open>try\<close> does not throw.\<close>

definition tell :: "('v, 'w) watcher \<Rightarrow> phase \<Rightarrow> 'v js_value \<Rightarrow> ('v, 'w) promises \<Rightarrow> ('v, 'w) command list \<times> ('v, 'w) promises" where
  "tell w ty v s =
     (case handler_for w ty of
        None \<Rightarrow> ([Send (target w) ty v], s)
      | Some (Signal t ty') \<Rightarrow> ([Send t ty' v, Send (target w) Resolved Undefined], s)
      | Some (Fun f) \<Rightarrow> ([Body (f v), Result (target w)], s\<lparr>calls := calls s @ [(target w, ty, v)]\<rparr>))"

definition take_result :: "nat \<Rightarrow> ('v, 'w) promises \<Rightarrow> ('v, 'w) command list \<times> ('v, 'w) promises" where
  "take_result t s =
     (case returned s of
        Raise e \<Rightarrow> ([Send t Rejected e], s)
      | Ret r \<Rightarrow>
          (case r of
             Promise_of p \<Rightarrow>
               (if p < length (deferreds s)
                then ([Then p (Some (Signal t Progress)) (Some (Signal t Resolved)) (Some (Signal t Rejected))],
                      upd_deferred t (\<lambda>d. d\<lparr>on_cancel := Some (Chain p)\<rparr>) s)
                else ([Send t Resolved r], s))
           | _ \<Rightarrow> ([Send t Resolved r], s)))"

text \<open>\<^verbatim>\<open>then\<close>\<close>

definition add_watcher :: "nat \<Rightarrow> ('v, 'w) handler option \<Rightarrow> ('v, 'w) handler option \<Rightarrow> ('v, 'w) handler option \<Rightarrow> ('v, 'w) promises \<Rightarrow> ('v, 'w) command list \<times> ('v, 'w) promises" where
  "add_watcher p pb cb eb s =
     (if p < length (deferreds s) then
        (let t = length (deferreds s);
             w = \<lparr>progback = pb, callback = cb, errback = eb, target = t\<rparr>;
             s = s\<lparr>deferreds := deferreds s @ [new_deferred (Some (Chain p))], watched := watched s @ [(p, w)]\<rparr>
         in case (fulfilled (deferreds s ! p), cleared (deferreds s ! p)) of
              (Some (ty, v), True) \<Rightarrow> ([Tell w ty v, Return (Ret (Promise_of t))], s)
            | _ \<Rightarrow> ([Return (Ret (Promise_of t))], upd_deferred p (\<lambda>d. d\<lparr>waiting := waiting d @ [w]\<rparr>) s))
      else ([], s\<lparr>returned := Ret Undefined\<rparr>))"

text \<open>\<^verbatim>\<open>resolve\<close> and \<^verbatim>\<open>reject\<close>, which differ in the phase, and \<^verbatim>\<open>progress\<close>, all without the flag \<^verbatim>\<open>strict\<close>, which no
  call within the module passes.\<close>

definition fulfil :: "nat \<Rightarrow> phase \<Rightarrow> 'v js_value \<Rightarrow> ('v, 'w) promises \<Rightarrow> ('v, 'w) command list \<times> ('v, 'w) promises" where
  "fulfil d ty v s =
     (if d < length (deferreds s) \<and> fulfilled (deferreds s ! d) = None
      then ([Loop d 0 ty v], upd_deferred d (\<lambda>x. x\<lparr>fulfilled := Some (ty, v)\<rparr>) s) else ([], s))"

definition update :: "nat \<Rightarrow> 'v js_value \<Rightarrow> ('v, 'w) promises \<Rightarrow> ('v, 'w) command list \<times> ('v, 'w) promises" where
  "update d v s =
     (if d < length (deferreds s) \<and> fulfilled (deferreds s ! d) = None then ([Loop d 0 Progress v], s) else ([], s))"

text \<open>\<^verbatim>\<open>signalWaiting\<close>, from listener \<open>i\<close> on; what \<^verbatim>\<open>resolve\<close> and \<^verbatim>\<open>reject\<close> do after it comes with its end.\<close>

definition signal_waiting :: "nat \<Rightarrow> nat \<Rightarrow> phase \<Rightarrow> 'v js_value \<Rightarrow> ('v, 'w) promises \<Rightarrow> ('v, 'w) command list \<times> ('v, 'w) promises" where
  "signal_waiting d i ty v s =
     (if d < length (deferreds s) \<and> i < length (waiting (deferreds s ! d))
      then ([Tell (waiting (deferreds s ! d) ! i) ty v, Loop d (Suc i) ty v], s)
      else ([], if ty = Progress then s else upd_deferred d (\<lambda>x. x\<lparr>cleared := True\<rparr>) s))"

text \<open>\<^verbatim>\<open>signalDeferred\<close>\<close>

definition signal_deferred :: "nat \<Rightarrow> phase \<Rightarrow> 'v js_value \<Rightarrow> ('v, 'w) promises \<Rightarrow> ('v, 'w) command list \<times> ('v, 'w) promises" where
  "signal_deferred t ty v s =
     (if t < length (deferreds s) \<and> \<not> canceled (deferreds s ! t)
      then ([if ty = Progress then Update t v else Fulfil t ty v], s) else ([], s))"

text \<open>\<^verbatim>\<open>cancel\<close>, up to the call of the canceler and from its end on; what the canceler throws goes on to who called
  \<^verbatim>\<open>cancel\<close>. The canceler of a promise that \<^verbatim>\<open>then\<close> made is \<open>Chain\<close>.\<close>

definition call_canceler :: "nat \<Rightarrow> 'v js_value \<Rightarrow> ('v, 'w) promises \<Rightarrow> ('v, 'w) command list \<times> ('v, 'w) promises" where
  "call_canceler d r s =
     (if d < length (deferreds s) \<and> fulfilled (deferreds s ! d) = None
      then (case on_cancel (deferreds s ! d) of
              None \<Rightarrow> ([Canceled d r], s\<lparr>returned := Ret Undefined\<rparr>)
            | Some (Own f) \<Rightarrow> ([Body (f r), Canceled d r], s)
            | Some (Chain p) \<Rightarrow> ([Cancel p r, Canceled d r], s))
      else ([], s\<lparr>returned := Ret Undefined\<rparr>))"

definition finish_cancel :: "nat \<Rightarrow> 'v js_value \<Rightarrow> ('v, 'w) promises \<Rightarrow> ('v, 'w) command list \<times> ('v, 'w) promises" where
  "finish_cancel d r s =
     (case returned s of
        Raise e \<Rightarrow> ([], s)
      | Ret x \<Rightarrow>
          (let r = (if x = Undefined then r else x);
               s = upd_deferred d (\<lambda>x. x\<lparr>canceled := True\<rparr>) s
           in case outcome_of d s of
                None \<Rightarrow>
                  (let e = (if r = Undefined then Cancel_error (cancel_errors s) else r)
                   in ([Fulfil d Rejected e, Return (Ret e)],
                       if r = Undefined then s\<lparr>cancel_errors := Suc (cancel_errors s)\<rparr> else s))
              | Some (ty, y) \<Rightarrow> ([], s\<lparr>returned := Ret (if ty = Rejected \<and> y = r then r else Undefined)\<rparr>)))"

text \<open>The calls a body makes; with the flag \<^verbatim>\<open>strict\<close> they throw if the deferred is fulfilled.\<close>

definition strict_call :: "bool \<Rightarrow> nat \<Rightarrow> ('v, 'w) command list \<Rightarrow> ('v, 'w) promises \<Rightarrow> ('v, 'w) command list \<times> ('v, 'w) promises" where
  "strict_call strict d cs s = (if strict \<and> outcome_of d s \<noteq> None then ([], s\<lparr>returned := Raise Already_fulfilled\<rparr>) else (cs, s))"

fun call_api :: "('v, 'w) api \<Rightarrow> ('v, 'w) promises \<Rightarrow> ('v, 'w) command list \<times> ('v, 'w) promises" where
  "call_api (Make c) s =
     ([], s\<lparr>deferreds := deferreds s @ [new_deferred c], returned := Ret (Promise_of (length (deferreds s)))\<rparr>)"
| "call_api (Resolve d v strict) s = strict_call strict d [Fulfil d Resolved v, Return (Ret (Promise_of d))] s"
| "call_api (Reject d v strict) s = strict_call strict d [Fulfil d Rejected v, Return (Ret (Promise_of d))] s"
| "call_api (Notify d v strict) s = strict_call strict d [Update d v, Return (Ret (Promise_of d))] s"
| "call_api (Await p pb cb eb) s = ([Then p pb cb eb], s)"
| "call_api (Abort d r strict) s = strict_call strict d [Cancel d r] s"

fun run_body :: "('v, 'w) body \<Rightarrow> ('v, 'w) promises \<Rightarrow> ('v, 'w) command list \<times> ('v, 'w) promises" where
  "run_body (Finish r) s = ([], s\<lparr>returned := r\<rparr>)"
| "run_body (Act g) s = ([Body (snd (g (page_state s)))], s\<lparr>page_state := fst (g (page_state s))\<rparr>)"
| "run_body (Call a k) s = (case call_api a s of (cs, s) \<Rightarrow> (cs @ [Resume k], s))"

text \<open>One command, and some.\<close>

fun run_command :: "('v, 'w) command \<Rightarrow> ('v, 'w) promises \<Rightarrow> ('v, 'w) command list \<times> ('v, 'w) promises" where
  "run_command (Fulfil d ty v) s = fulfil d ty v s"
| "run_command (Update d v) s = update d v s"
| "run_command (Loop d i ty v) s = signal_waiting d i ty v s"
| "run_command (Tell w ty v) s = tell w ty v s"
| "run_command (Result t) s = take_result t s"
| "run_command (Send t ty v) s = signal_deferred t ty v s"
| "run_command (Then p pb cb eb) s = add_watcher p pb cb eb s"
| "run_command (Cancel d r) s = call_canceler d r s"
| "run_command (Canceled d r) s = finish_cancel d r s"
| "run_command (Body b) s = run_body b s"
| "run_command (Resume k) s = ([Body (k (returned s))], s)"
| "run_command (Return r) s = ([], s\<lparr>returned := r\<rparr>)"

fun run_commands :: "nat \<Rightarrow> ('v, 'w) command list \<Rightarrow> ('v, 'w) promises \<Rightarrow> ('v, 'w) command list \<times> ('v, 'w) promises" where
  "run_commands 0 cs s = (cs, s)"
| "run_commands (Suc n) [] s = ([], s)"
| "run_commands (Suc n) (c # cs) s = (case run_command c s of (ds, s') \<Rightarrow> run_commands n (ds @ cs) s')"

text \<open>The page from its start on: the bodies that its events run, each to its end before the next.\<close>

definition run_events :: "nat \<Rightarrow> ('v, 'w) body list \<Rightarrow> 'w \<Rightarrow> ('v, 'w) command list \<times> ('v, 'w) promises" where
  "run_events n es g = run_commands n (map Body es) (empty_store g)"

declare fulfil_def [simp] update_def [simp] signal_waiting_def [simp] signal_deferred_def [simp]
  call_canceler_def [simp] strict_call_def [simp]

section \<open>A fulfilled deferred stays as it is\<close>

lemma outcome_upd [simp]:
  "(\<And>x. fulfilled (f x) = fulfilled x) \<Longrightarrow> outcome_of d (upd_deferred k f s) = outcome_of d s"
  by (auto simp: outcome_of_def upd_deferred_def nth_list_update)

lemma outcome_fields [simp]:
  "outcome_of d (s\<lparr>returned := r\<rparr>) = outcome_of d s" "outcome_of d (s\<lparr>calls := cs\<rparr>) = outcome_of d s"
  "outcome_of d (s\<lparr>page_state := g\<rparr>) = outcome_of d s" "outcome_of d (s\<lparr>cancel_errors := n\<rparr>) = outcome_of d s"
  "outcome_of d (s\<lparr>watched := ws\<rparr>) = outcome_of d s"
  by (simp_all add: outcome_of_def)

lemma length_upd [simp]: "length (deferreds (upd_deferred k f s)) = length (deferreds s)"
  by (simp add: upd_deferred_def)

lemma outcome_append [simp]: "outcome_of d (s\<lparr>deferreds := deferreds s @ [new_deferred c]\<rparr>) = outcome_of d s"
  "outcome_of d (s\<lparr>deferreds := deferreds s @ [new_deferred c], watched := ws\<rparr>) = outcome_of d s"
  "outcome_of d (s\<lparr>deferreds := deferreds s @ [new_deferred c], returned := r\<rparr>) = outcome_of d s"
  by (auto simp: outcome_of_def nth_append new_deferred_def)

lemma outcome_fulfil: "d < length (deferreds s) \<Longrightarrow>
  outcome_of k (upd_deferred d (\<lambda>x. x\<lparr>fulfilled := Some (ty, v)\<rparr>) s) = (if k = d then Some (ty, v) else outcome_of k s)"
  by (auto simp: outcome_of_def upd_deferred_def nth_list_update)

lemma step_outcome:
  assumes "outcome_of d s = Some x"
  shows "outcome_of d (snd (run_command c s)) = Some x"
proof (cases c)
  case (Fulfil k ty v)
  have "k \<noteq> d" if "k < length (deferreds s)" "fulfilled (deferreds s ! k) = None" using assms that by (auto simp: outcome_of_def)
  then show ?thesis using assms Fulfil by (auto simp: outcome_fulfil)
next
  case (Body b)
  show ?thesis
  proof (cases b)
    case (Call a k)
    then show ?thesis using Body assms by (cases a) auto
  qed (use Body assms in auto)
qed (use assms in \<open>auto simp: tell_def take_result_def add_watcher_def finish_cancel_def Let_def
  split: option.splits handler.splits outcome.splits js_value.splits canceler.splits bool.splits\<close>)

lemma run_outcome: "outcome_of d s = Some x \<Longrightarrow> outcome_of d (snd (run_commands n cs s)) = Some x"
proof (induction n cs s rule: run_commands.induct)
  case (3 n c cs s)
  obtain ds s' where st: "run_command c s = (ds, s')" by (cases "run_command c s")
  with step_outcome [OF 3(2), of c] 3(1) [OF st [symmetric]] show ?case by simp
qed simp_all
section \<open>A callback runs once\<close>

lemma sum_list_upd:
  fixes g :: "'a \<Rightarrow> 'b::comm_monoid_add"
  shows "d < length xs \<Longrightarrow> sum_list (map g (xs[d := y])) + g (xs ! d) = sum_list (map g xs) + g y"
proof (induction xs arbitrary: d)
  case (Cons x xs)
  show ?case
  proof (cases d)
    case (Suc k)
    with Cons.IH [of k] Cons.prems have "sum_list (map g (xs[k := y])) + g (xs ! k) = sum_list (map g xs) + g y" by simp
    then show ?thesis using Suc by (simp add: add.assoc)
  qed (simp add: ac_simps)
qed simp

definition waits :: "nat \<Rightarrow> ('v, 'w) promises \<Rightarrow> ('v, 'w) watcher list" where
  "waits d s = (if d < length (deferreds s) then waiting (deferreds s ! d) else [])"

text \<open>How many callbacks with target \<open>t\<close> wait to be told: those of the deferreds that are not fulfilled, the
  rest of a loop under way, and a listener about to be told.\<close>

definition told :: "nat \<Rightarrow> ('v, 'w) watcher list \<Rightarrow> nat" where
  "told t ws = count_list (map target ws) t"

fun pend_cmd :: "nat \<Rightarrow> ('v, 'w) promises \<Rightarrow> ('v, 'w) command \<Rightarrow> nat" where
  "pend_cmd t s (Loop d i ty v) = (if ty = Progress then 0 else told t (drop i (waits d s)))"
| "pend_cmd t s (Tell w ty v) = (if ty = Progress then 0 else told t [w])"
| "pend_cmd t s _ = 0"

definition idle :: "nat \<Rightarrow> ('v, 'w) deferred \<Rightarrow> nat" where
  "idle t x = (if fulfilled x = None then told t (waiting x) else 0)"

definition pend :: "nat \<Rightarrow> ('v, 'w) command list \<Rightarrow> ('v, 'w) promises \<Rightarrow> nat" where
  "pend t cs s = sum_list (map (idle t) (deferreds s)) + sum_list (map (pend_cmd t s) cs)"

definition final_calls :: "('v, 'w) promises \<Rightarrow> nat list" where
  "final_calls s = map fst (filter (\<lambda>(t, ty, v). ty \<noteq> Progress) (calls s))"

definition open_calls :: "nat \<Rightarrow> ('v, 'w) command list \<Rightarrow> ('v, 'w) promises \<Rightarrow> nat" where
  "open_calls t cs s = pend t cs s + count_list (final_calls s) t"

fun loops :: "('v, 'w) command list \<Rightarrow> nat list" where
  "loops [] = []"
| "loops (Loop d i ty v # cs) = (if ty = Progress then loops cs else d # loops cs)"
| "loops (_ # cs) = loops cs"

fun final_fulfil :: "('v, 'w) command \<Rightarrow> bool" where
  "final_fulfil (Fulfil d ty v) = (ty \<noteq> Progress)"
| "final_fulfil _ = True"

definition loops_ok :: "('v, 'w) command list \<Rightarrow> ('v, 'w) promises \<Rightarrow> bool" where
  "loops_ok cs s \<longleftrightarrow> distinct (loops cs) \<and> (\<forall>d \<in> set (loops cs). outcome_of d s \<noteq> None) \<and> list_all final_fulfil cs"

lemma loops_append [simp]: "loops (ds @ cs) = loops ds @ loops cs"
  by (induction ds rule: loops.induct) auto

lemma waits_upd [simp]: "(\<And>x. waiting (f x) = waiting x) \<Longrightarrow> waits d (upd_deferred k f s) = waits d s"
  by (auto simp: waits_def upd_deferred_def nth_list_update)

lemma waits_fields [simp]: "waits d (s\<lparr>returned := r\<rparr>) = waits d s" "waits d (s\<lparr>calls := c\<rparr>) = waits d s"
  "waits d (s\<lparr>page_state := g\<rparr>) = waits d s" "waits d (s\<lparr>cancel_errors := n\<rparr>) = waits d s"
  by (simp_all add: waits_def)

lemma told_simps [simp]: "told t [] = 0" "told t (ws @ vs) = told t ws + told t vs"
  by (simp_all add: told_def)

lemma pend_cmd_cong: "(\<And>d. waits d s' = waits d s) \<Longrightarrow> pend_cmd t s' c = pend_cmd t s c"
  by (cases c) auto

lemma pend_cmds: "(\<And>d. waits d s' = waits d s) \<Longrightarrow> map (pend_cmd t s') cs = map (pend_cmd t s) cs"
  by (intro map_cong [OF refl] pend_cmd_cong)

lemma idle_upd: "(\<And>x. idle t (f x) = idle t x) \<Longrightarrow> map (idle t) (deferreds (upd_deferred k f s)) = map (idle t) (deferreds s)"
  by (auto simp: upd_deferred_def map_update intro!: nth_equalityI simp: nth_list_update)

text \<open>Changes that leave what is waiting alone.\<close>

definition still :: "('v, 'w) promises \<Rightarrow> ('v, 'w) promises \<Rightarrow> bool" where
  "still s s' \<longleftrightarrow> (\<forall>d. waits d s' = waits d s \<and> outcome_of d s' = outcome_of d s)
     \<and> (\<forall>t. map (idle t) (deferreds s') = map (idle t) (deferreds s))"

lemma still_upd:
  "(\<And>x. waiting (f x) = waiting x \<and> fulfilled (f x) = fulfilled x) \<Longrightarrow> still s (upd_deferred k f s)"
  unfolding still_def by (intro conjI allI idle_upd) (simp_all add: idle_def)

lemma still_fields: "still s s" "still s (s\<lparr>returned := r\<rparr>)" "still s (s\<lparr>calls := c\<rparr>)"
  "still s (s\<lparr>page_state := g\<rparr>)" "still s (s\<lparr>cancel_errors := n\<rparr>)"
  by (simp_all add: still_def)

lemma still_trans: "still a b \<Longrightarrow> still b c \<Longrightarrow> still a c"
  by (simp add: still_def)

lemma still_pend: "still s s' \<Longrightarrow> pend t cs s' = pend t cs s"
  using pend_cmd_cong [of s' s t] unfolding pend_def still_def by (metis (no_types, lifting) map_cong)

lemma pend_append: "pend t (ds @ cs) s = sum_list (map (pend_cmd t s) ds) + pend t cs s"
  by (simp add: pend_def)

lemma still_length: "still s s' \<Longrightarrow> length (deferreds s') = length (deferreds s)"
  unfolding still_def by (metis length_map)

lemma pend_Cons: "pend t (c # cs) s = pend_cmd t s c + pend t cs s"
  by (simp add: pend_def)

lemma calls_upd [simp]: "calls (upd_deferred k f s) = calls s"
  by (simp add: upd_deferred_def)

lemma final_calls_simps [simp]:
  "final_calls (upd_deferred k f s) = final_calls s" "final_calls (s\<lparr>returned := r\<rparr>) = final_calls s"
  "final_calls (s\<lparr>deferreds := ds\<rparr>) = final_calls s" "final_calls (s\<lparr>deferreds := ds, watched := ws\<rparr>) = final_calls s"
  "final_calls (s\<lparr>deferreds := ds, returned := r\<rparr>) = final_calls s"
  "final_calls (s\<lparr>page_state := g\<rparr>) = final_calls s" "final_calls (s\<lparr>cancel_errors := n\<rparr>) = final_calls s"
  "final_calls (s\<lparr>calls := calls s @ [(t, ty, v)]\<rparr>) = final_calls s @ (if ty = Progress then [] else [t])"
  by (simp_all add: final_calls_def)

text \<open>A listener is told: its callback is called once if at all.\<close>

lemma tell_total:
  assumes "tell w ty v s = (ds, s')"
  shows "still s s' \<and> open_calls t (ds @ cs) s' \<le> open_calls t (Tell w ty v # cs) s \<and> loops ds = [] \<and> list_all final_fulfil ds"
proof -
  have st: "still s s'" and ds: "\<forall>c \<in> set ds. pend_cmd t s' c = 0" "loops ds = []" "list_all final_fulfil ds"
    and fc: "final_calls s' = final_calls s \<or> final_calls s' = final_calls s @ (if ty = Progress then [] else [target w])"
    using assms still_fields by (auto simp: tell_def Let_def split: option.splits handler.splits)
  have "pend t (ds @ cs) s' = pend t cs s'" using ds(1) by (induction ds) (simp_all add: pend_Cons)
  then have "pend t (ds @ cs) s' = pend t cs s" using still_pend [OF st] by simp
  with fc show ?thesis using st ds by (auto simp: open_calls_def pend_Cons told_def)
qed

text \<open>A new deferred changes nothing that waits.\<close>

lemma new_still:
  assumes "s1 = s\<lparr>deferreds := deferreds s @ [new_deferred c], watched := ws\<rparr>
    \<or> s1 = s\<lparr>deferreds := deferreds s @ [new_deferred c], returned := r\<rparr>"
  shows "waits d s1 = waits d s" "outcome_of d s1 = outcome_of d s" "length (deferreds s1) = Suc (length (deferreds s))"
    "final_calls s1 = final_calls s" "pend t cs s1 = pend t cs s"
proof -
  show w: "waits d s1 = waits d s" for d using assms by (auto simp: waits_def nth_append new_deferred_def)
  show "outcome_of d s1 = outcome_of d s" "length (deferreds s1) = Suc (length (deferreds s))" "final_calls s1 = final_calls s"
    using assms by auto
  have "map (pend_cmd t s1) cs = map (pend_cmd t s) cs" by (rule pend_cmds) (rule w)
  moreover have "sum_list (map (idle t) (deferreds s1)) = sum_list (map (idle t) (deferreds s))"
    using assms by (auto simp: idle_def new_deferred_def)
  ultimately show "pend t cs s1 = pend t cs s" by (simp only: pend_def)
qed

text \<open>A listener is added: one more waits, with a target of its own.\<close>

lemma loop_push:
  assumes "distinct (loops cs)" "\<And>d. waits d s' = (if d = p then waits d s @ [w] else waits d s)"
  shows "sum_list (map (pend_cmd t s') cs) \<le> sum_list (map (pend_cmd t s) cs) + (if p \<in> set (loops cs) then told t [w] else 0)"
  using assms(1)
proof (induction cs rule: loops.induct)
  case (2 d i ty v cs)
  show ?case
  proof (cases "ty = Progress")
    case False
    have "told t (drop i (waits d s')) \<le> told t (drop i (waits d s)) + (if d = p then told t [w] else 0)"
      by (auto simp: assms(2) drop_Cons' split: nat.split)
    with 2 False show ?thesis by (auto split: if_splits)
  qed (use 2 in simp)
qed (simp_all add: assms(2))

lemma add_watcher_cases:
  assumes "add_watcher p pb cb eb s = (ds, s')" "p < length (deferreds s)"
    and w: "w = \<lparr>progback = pb, callback = cb, errback = eb, target = length (deferreds s)\<rparr>"
    and s1: "s1 = s\<lparr>deferreds := deferreds s @ [new_deferred (Some (Chain p))], watched := watched s @ [(p, w)]\<rparr>"
  shows "(\<exists>ty v. outcome_of p s1 = Some (ty, v) \<and> cleared (deferreds s1 ! p)
      \<and> ds = [Tell w ty v, Return (Ret (Promise_of (target w)))] \<and> s' = s1)
    \<or> ((outcome_of p s1 = None \<or> \<not> cleared (deferreds s1 ! p)) \<and> ds = [Return (Ret (Promise_of (target w)))]
      \<and> s' = upd_deferred p (\<lambda>d. d\<lparr>waiting := waiting d @ [w]\<rparr>) s1)"
proof -
  have "add_watcher p pb cb eb s = (case (fulfilled (deferreds s1 ! p), cleared (deferreds s1 ! p)) of
      (Some (ty, v), True) \<Rightarrow> ([Tell w ty v, Return (Ret (Promise_of (target w)))], s1)
    | _ \<Rightarrow> ([Return (Ret (Promise_of (target w)))], upd_deferred p (\<lambda>d. d\<lparr>waiting := waiting d @ [w]\<rparr>) s1))"
    using assms(2) by (auto simp: add_watcher_def Let_def w s1 split: option.split bool.split)
  moreover have "outcome_of p s1 = fulfilled (deferreds s1 ! p)" using assms(2) by (simp add: outcome_of_def s1)
  ultimately show ?thesis using assms(1) by (auto split: option.splits bool.splits)
qed

lemma add_watcher_total:
  assumes "add_watcher p pb cb eb s = (ds, s')" "loops_ok cs s"
  shows "open_calls t (ds @ cs) s' \<le> open_calls t cs s + (if t = length (deferreds s) \<and> length (deferreds s) < length (deferreds s') then 1 else 0)
    \<and> loops ds = [] \<and> list_all final_fulfil ds \<and> (\<forall>d. outcome_of d s \<noteq> None \<longrightarrow> outcome_of d s' = outcome_of d s)
    \<and> length (deferreds s) \<le> length (deferreds s')"
proof (cases "p < length (deferreds s)")
  case True
  define w where "w = \<lparr>progback = pb, callback = cb, errback = eb, target = length (deferreds s)\<rparr>"
  define s1 where "s1 = s\<lparr>deferreds := deferreds s @ [new_deferred (Some (Chain p))], watched := watched s @ [(p, w)]\<rparr>"
  note s1 = new_still(1-4) [OF disjI1, OF s1_def] and p1 = new_still(5) [OF disjI1, OF s1_def, of t cs]
  from add_watcher_cases [OF assms(1) True w_def s1_def]
  consider (now) ty v where "ds = [Tell w ty v, Return (Ret (Promise_of (target w)))]" "s' = s1"
    | (later) "ds = [Return (Ret (Promise_of (target w)))]" "s' = upd_deferred p (\<lambda>d. d\<lparr>waiting := waiting d @ [w]\<rparr>) s1"
    by blast
  then show ?thesis
  proof cases
    case now
    then show ?thesis using p1 s1 by (auto simp: open_calls_def pend_Cons told_def w_def)
  next
    case later
    define s2 where "s2 = upd_deferred p (\<lambda>d. d\<lparr>waiting := waiting d @ [w]\<rparr>) s1"
    have ds: "ds = [Return (Ret (Promise_of (target w)))]" "s' = s2" using later by (simp_all add: s2_def)
    have pl: "p < length (deferreds s1)" using True s1(3) by simp
    have wt: "waits d s2 = (if d = p then waits d s1 @ [w] else waits d s1)" for d
      using pl by (auto simp: s2_def waits_def upd_deferred_def nth_list_update)
    have oc: "outcome_of d s2 = outcome_of d s1" for d by (simp add: s2_def)
    have lo: "distinct (loops cs)" using assms(2) by (simp add: loops_ok_def)
    note push = loop_push [OF lo wt, of t]
    have idles: "sum_list (map (idle t) (deferreds s2)) + idle t (deferreds s1 ! p)
        = sum_list (map (idle t) (deferreds s1)) + idle t ((deferreds s1 ! p)\<lparr>waiting := waiting (deferreds s1 ! p) @ [w]\<rparr>)"
      using sum_list_upd [OF pl, of "idle t"] pl by (simp add: s2_def upd_deferred_def)
    have "pend t cs s2 \<le> pend t cs s1 + told t [w]"
    proof (cases "p \<in> set (loops cs)")
      case True
      then have "outcome_of p s1 \<noteq> None" using assms(2) by (simp add: loops_ok_def s1(2))
      then have "fulfilled (deferreds s1 ! p) \<noteq> None" using pl by (simp add: outcome_of_def)
      with idles push True show ?thesis by (auto simp: pend_def idle_def)
    next
      case False
      with idles push show ?thesis by (auto simp: pend_def idle_def split: if_splits)
    qed
    moreover have "final_calls s2 = final_calls s" using s1(4) by (simp add: s2_def)
    moreover have "length (deferreds s2) = Suc (length (deferreds s))" using s1(3) by (simp add: s2_def)
    ultimately show ?thesis using ds p1 s1(2) oc by (auto simp: open_calls_def told_def w_def pend_Cons)
  qed
qed (use assms in \<open>auto simp: add_watcher_def open_calls_def still_pend [OF still_fields(2)]\<close>)

text \<open>Every step.\<close>

definition once :: "('v, 'w) command list \<Rightarrow> ('v, 'w) promises \<Rightarrow> bool" where
  "once cs s \<longleftrightarrow> loops_ok cs s \<and> (\<forall>t. open_calls t cs s \<le> (if t < length (deferreds s) then 1 else 0))"

lemma once_le:
  assumes "once cs s" "loops_ok cs' s'" "\<And>t. open_calls t cs' s' \<le> open_calls t cs s"
    "length (deferreds s) \<le> length (deferreds s')"
  shows "once cs' s'"
  unfolding once_def
proof (intro conjI allI)
  fix t
  have "open_calls t cs s \<le> (if t < length (deferreds s) then 1 else 0)" using assms(1) by (simp add: once_def)
  with assms(3) [of t] assms(4) show "open_calls t cs' s' \<le> (if t < length (deferreds s') then 1 else 0)"
    by (auto split: if_splits)
qed (rule assms(2))

lemma once_still:
  assumes "once (c # cs) s" "still s s'" "final_calls s' = final_calls s" "loops ds = []" "list_all final_fulfil ds"
    "\<And>t. sum_list (map (pend_cmd t s') ds) = 0" "loops [c] = []"
  shows "once (ds @ cs) s'"
proof (rule once_le [OF assms(1)])
  show "length (deferreds s) \<le> length (deferreds s')" using still_length [OF assms(2)] by simp
  show "open_calls t (ds @ cs) s' \<le> open_calls t (c # cs) s" for t
  proof -
    have "pend t (ds @ cs) s' = pend t cs s'" unfolding pend_append assms(6) by simp
    then show ?thesis unfolding open_calls_def still_pend [OF assms(2)] by (simp add: assms(3) pend_Cons)
  qed
  have "loops cs = loops (c # cs)" using assms(7) loops_append [of "[c]" cs] by simp
  then show "loops_ok (ds @ cs) s'" using assms(1,2,4,5) by (auto simp: once_def loops_ok_def still_def)
qed

lemma run_body_cases:
  obtains (Finish) r where "b = Finish r" | (Act) g where "b = Act g" | (Make) c k where "b = Call (Make c) k"
    | (Resolve) d v st k where "b = Call (Resolve d v st) k" | (Reject) d v st k where "b = Call (Reject d v st) k"
    | (Notify) d v st k where "b = Call (Notify d v st) k" | (Await) p pb cb eb k where "b = Call (Await p pb cb eb) k"
    | (Abort) d r st k where "b = Call (Abort d r st) k"
proof (cases b)
  case (Call a k)
  then show ?thesis using that by (cases a) auto
qed (use that in blast)+

lemma step_once:
  assumes "once (c # cs) s" "run_command c s = (ds, s')"
  shows "once (ds @ cs) s'"
proof (cases c)
  case (Fulfil d ty v)
  show ?thesis
  proof (cases "d < length (deferreds s) \<and> fulfilled (deferreds s ! d) = None")
    case True
    let ?s = "upd_deferred d (\<lambda>x. x\<lparr>fulfilled := Some (ty, v)\<rparr>) s"
    have ds: "ds = [Loop d 0 ty v]" "s' = ?s" using assms(2) Fulfil True by simp_all
    have ty: "ty \<noteq> Progress" and l: "loops_ok cs s" and dn: "d \<notin> set (loops cs)"
      using assms(1) Fulfil True by (auto simp: once_def loops_ok_def outcome_of_def)
    have i: "sum_list (map (idle t) (deferreds ?s)) + told t (waits d s) = sum_list (map (idle t) (deferreds s))" for t
      using sum_list_upd [of d "deferreds s" "idle t"] True by (simp add: upd_deferred_def idle_def waits_def)
    have m: "map (pend_cmd t ?s) cs = map (pend_cmd t s) cs" for t by (rule pend_cmds) simp
    have "open_calls t (ds @ cs) s' = open_calls t (c # cs) s" for t
      using i [of t] ty by (simp add: ds Fulfil open_calls_def pend_def m)
    moreover have "outcome_of k ?s = (if k = d then Some (ty, v) else outcome_of k s)" for k
      using True by (auto simp: outcome_of_def upd_deferred_def nth_list_update)
    ultimately show ?thesis using assms(1) l dn ty ds by (auto simp: once_def loops_ok_def)
  next
    case False
    then show ?thesis
      by (intro once_still [OF assms(1)]) (use assms(2) Fulfil in \<open>auto simp: still_fields\<close>)
  qed
next
  case (Loop d i ty v)
  have l: "loops_ok (Loop d i ty v # cs) s" using assms(1) Loop by (simp add: once_def)
  show ?thesis
  proof (cases "d < length (deferreds s) \<and> i < length (waiting (deferreds s ! d))")
    case True
    have ds: "ds = [Tell (waits d s ! i) ty v, Loop d (Suc i) ty v]" "s' = s"
      using assms(2) Loop True by (auto simp: waits_def)
    have "drop i (waits d s) = [waits d s ! i] @ drop (Suc i) (waits d s)"
      using True by (simp add: waits_def Cons_nth_drop_Suc)
    then have "told t (drop i (waits d s)) = told t [waits d s ! i] + told t (drop (Suc i) (waits d s))" for t
      by (metis told_simps(2))
    then have "open_calls t (ds @ cs) s' = open_calls t (c # cs) s" for t using ds Loop by (simp add: open_calls_def pend_def)
    then show ?thesis using l ds Loop by (intro once_le [OF assms(1)]) (auto simp: loops_ok_def)
  next
    case False
    have st: "still s s'" "final_calls s' = final_calls s" "ds = []"
      using assms(2) Loop False by (auto simp: still_fields intro: still_upd split: if_splits)
    have "open_calls t (ds @ cs) s' \<le> open_calls t (c # cs) s" for t
      using still_pend [OF st(1), of t cs] st(2,3) by (simp add: open_calls_def pend_Cons)
    moreover have "loops_ok (ds @ cs) s'" using l st by (auto simp: loops_ok_def still_def split: if_splits)
    ultimately show ?thesis using still_length [OF st(1)] by (intro once_le [OF assms(1)]) simp_all
  qed
next
  case (Tell w ty v)
  have t: "tell w ty v s = (ds, s')" using assms(2) Tell by simp
  note tt = tell_total [OF t, of _ cs]
  have "loops_ok (ds @ cs) s'" using tt [of 0] assms(1) Tell by (auto simp: once_def loops_ok_def still_def)
  then show ?thesis
    by (rule once_le [OF assms(1)]) (use tt Tell still_length [of s s'] in \<open>auto\<close>)
next
  case (Then p pb cb eb)
  have t: "add_watcher p pb cb eb s = (ds, s')" using assms(2) Then by simp
  have l: "loops_ok cs s" using assms(1) Then by (simp add: once_def loops_ok_def)
  note at = add_watcher_total [OF t l]
  have o: "open_calls t cs s \<le> (if t < length (deferreds s) then 1 else 0)" for t
    using assms(1) Then by (simp add: once_def open_calls_def pend_Cons)
  have "open_calls t (ds @ cs) s' \<le> (if t < length (deferreds s') then 1 else 0)" for t
    using at [of t] o [of t] by (auto split: if_splits)
  moreover have "loops_ok (ds @ cs) s'" using at [of 0] l by (auto simp: loops_ok_def)
  ultimately show ?thesis by (simp add: once_def)
next
  case (Result t)
  have "still s (upd_deferred t (\<lambda>d. d\<lparr>on_cancel := c\<rparr>) s)" for c by (rule still_upd) simp
  then show ?thesis
    by (intro once_still [OF assms(1)])
      (use assms(2) Result in \<open>auto simp: take_result_def still_fields split: outcome.splits js_value.splits if_splits\<close>)
next
  case (Update d v)
  show ?thesis
    by (rule once_still [OF assms(1)]) (use assms(2) Update in \<open>auto simp: still_fields split: if_splits\<close>)
next
  case (Send t ty v)
  show ?thesis
    by (rule once_still [OF assms(1)]) (use assms(2) Send in \<open>auto simp: still_fields split: if_splits\<close>)
next
  case (Cancel d r)
  show ?thesis
    by (rule once_still [OF assms(1)])
      (use assms(2) Cancel in \<open>auto simp: still_fields split: if_splits option.splits canceler.splits\<close>)
next
  case (Canceled d r)
  have "still s (upd_deferred d (\<lambda>x. x\<lparr>canceled := True\<rparr>) s)" by (rule still_upd) simp
  moreover from this have "still s ((upd_deferred d (\<lambda>x. x\<lparr>canceled := True\<rparr>) s)\<lparr>returned := q\<rparr>)"
    "still s ((upd_deferred d (\<lambda>x. x\<lparr>canceled := True\<rparr>) s)\<lparr>cancel_errors := n\<rparr>)" for q n
    using still_trans still_fields by blast+
  ultimately show ?thesis
    by (intro once_still [OF assms(1)])
      (use assms(2) Canceled in \<open>auto simp: finish_cancel_def Let_def still_fields split: if_splits option.splits outcome.splits\<close>)
next
  case (Body b)
  show ?thesis
  proof (cases "\<exists>k z. b = Call (Make z) k")
    case True
    then obtain z k where b: "b = Call (Make z) k" by blast
    then have ds: "ds = [Resume k]"
      "s' = s\<lparr>deferreds := deferreds s @ [new_deferred z], returned := Ret (Promise_of (length (deferreds s)))\<rparr>"
      using assms(2) Body by auto
    note nw = new_still [OF disjI2, OF ds(2)]
    show ?thesis
    proof (rule once_le [OF assms(1)])
      show "open_calls t (ds @ cs) s' \<le> open_calls t (c # cs) s" for t
        by (simp add: ds(1) open_calls_def nw pend_Cons Body)
      show "loops_ok (ds @ cs) s'" using assms(1) ds(1) nw(2) Body by (simp add: once_def loops_ok_def)
    qed (simp add: nw(3))
  next
    case False
    have "snd (run_body b s) = s \<or> (\<exists>r. snd (run_body b s) = s\<lparr>returned := r\<rparr>) \<or> (\<exists>g. snd (run_body b s) = s\<lparr>page_state := g\<rparr>)"
      "loops (fst (run_body b s)) = []" "list_all final_fulfil (fst (run_body b s))"
      "sum_list (map (pend_cmd t s1) (fst (run_body b s))) = 0" for t s1
      using False by (cases b rule: run_body_cases; auto)+
    then show ?thesis
      by (intro once_still [OF assms(1)]) (use assms(2) Body in \<open>auto simp: still_fields\<close>)
  qed
next
  case (Resume k)
  show ?thesis
    by (rule once_still [OF assms(1)]) (use assms(2) Resume in \<open>auto simp: still_fields\<close>)
next
  case (Return r)
  show ?thesis
    by (rule once_still [OF assms(1)]) (use assms(2) Return in \<open>auto simp: still_fields\<close>)
qed

lemma run_once: "once cs s \<Longrightarrow> run_commands n cs s = (cs', s') \<Longrightarrow> once cs' s'"
proof (induction n cs s rule: run_commands.induct)
  case (3 n c cs s)
  obtain ds s1 where st: "run_command c s = (ds, s1)" by (cases "run_command c s")
  with step_once [OF 3(2) st] 3(1) [OF st [symmetric]] 3(3) show ?case by simp
qed auto

section \<open>A callback runs when it should\<close>

fun quiet :: "('v, 'w) command \<Rightarrow> bool" where
  "quiet (Loop d i ty v) = False"
| "quiet (Tell w ty v) = False"
| "quiet c = True"

text \<open>The loops and listeners of a stack of calls.\<close>

definition due :: "('v, 'w) command list \<Rightarrow> ('v, 'w) command set" where
  "due cs = {c \<in> set cs. \<not> quiet c}"

lemma due_simps [simp]: "due [] = {}" "due (c # cs) = (if quiet c then due cs else insert c (due cs))"
  "due (ds @ cs) = due ds \<union> due cs"
  by (auto simp: due_def)

lemma due_quiet: "list_all quiet ds \<Longrightarrow> due ds = {}"
  by (auto simp: due_def list_all_iff)

text \<open>What is waiting or called was given to \<^verbatim>\<open>then\<close>, and what is called or about to be is for the outcome there is.\<close>

definition justified :: "('v, 'w) promises \<Rightarrow> bool" where
  "justified s \<longleftrightarrow>
     (\<forall>d w. w \<in> set (waits d s) \<longrightarrow> (d, w) \<in> set (watched s))
   \<and> (\<forall>d w. (d, w) \<in> set (watched s) \<longrightarrow> d < length (deferreds s) \<and> target w < length (deferreds s))
   \<and> distinct (map (\<lambda>(d, w). target w) (watched s))
   \<and> (\<forall>d v. outcome_of d s \<noteq> Some (Progress, v))
   \<and> (\<forall>t ty v. (t, ty, v) \<in> set (calls s) \<and> ty \<noteq> Progress \<longrightarrow>
        (\<exists>d w f. (d, w) \<in> set (watched s) \<and> target w = t \<and> outcome_of d s = Some (ty, v) \<and> handler_for w ty = Some (Fun f)))"

definition due_ok :: "('v, 'w) command set \<Rightarrow> ('v, 'w) promises \<Rightarrow> bool" where
  "due_ok Q s \<longleftrightarrow>
     (\<forall>w ty v. Tell w ty v \<in> Q \<and> ty \<noteq> Progress \<longrightarrow> (\<exists>d. (d, w) \<in> set (watched s) \<and> outcome_of d s = Some (ty, v)))
   \<and> (\<forall>d i ty v. Loop d i ty v \<in> Q \<and> ty \<noteq> Progress \<longrightarrow> outcome_of d s = Some (ty, v))"

lemma due_okI:
  assumes "\<And>w ty v. Tell w ty v \<in> Q \<Longrightarrow> ty \<noteq> Progress \<Longrightarrow> \<exists>d. (d, w) \<in> set (watched s) \<and> outcome_of d s = Some (ty, v)"
    "\<And>d i ty v. Loop d i ty v \<in> Q \<Longrightarrow> ty \<noteq> Progress \<Longrightarrow> outcome_of d s = Some (ty, v)"
  shows "due_ok Q s"
  unfolding due_ok_def using assms by blast

lemma due_okD:
  assumes "due_ok Q s" "ty \<noteq> Progress"
  shows "Tell w ty v \<in> Q \<Longrightarrow> \<exists>d. (d, w) \<in> set (watched s) \<and> outcome_of d s = Some (ty, v)"
    "Loop d i ty v \<in> Q \<Longrightarrow> outcome_of d s = Some (ty, v)"
  using assms unfolding due_ok_def by blast+

text \<open>Every listener waits, is about to be told or was called; a fulfilled deferred that still takes listeners has
  its loop on the stack.\<close>

definition attended :: "('v, 'w) command set \<Rightarrow> ('v, 'w) promises \<Rightarrow> nat \<Rightarrow> ('v, 'w) watcher \<Rightarrow> bool" where
  "attended Q s d w =
     (case outcome_of d s of
        None \<Rightarrow> w \<in> set (waits d s)
      | Some (ty, v) \<Rightarrow> Tell w ty v \<in> Q \<or> (\<exists>i. Loop d i ty v \<in> Q \<and> w \<in> set (drop i (waits d s)))
          \<or> (\<forall>f. handler_for w ty = Some (Fun f) \<longrightarrow> (target w, ty, v) \<in> set (calls s)))"

definition serving :: "('v, 'w) command set \<Rightarrow> ('v, 'w) promises \<Rightarrow> bool" where
  "serving Q s \<longleftrightarrow> (\<forall>d ty v. outcome_of d s = Some (ty, v) \<and> \<not> cleared (deferreds s ! d) \<longrightarrow>
     (\<exists>i \<le> length (waits d s). Loop d i ty v \<in> Q))"

definition books :: "('v, 'w) command set \<Rightarrow> ('v, 'w) promises \<Rightarrow> bool" where
  "books Q s \<longleftrightarrow> justified s \<and> due_ok Q s \<and> serving Q s \<and> (\<forall>(d, w) \<in> set (watched s). attended Q s d w)"

definition same_books :: "('v, 'w) promises \<Rightarrow> ('v, 'w) promises \<Rightarrow> bool" where
  "same_books s s' \<longleftrightarrow> (\<forall>d. waits d s' = waits d s \<and> outcome_of d s' = outcome_of d s
       \<and> (outcome_of d s \<noteq> None \<longrightarrow> cleared (deferreds s' ! d) = cleared (deferreds s ! d)))
     \<and> watched s' = watched s \<and> calls s' = calls s \<and> length (deferreds s) \<le> length (deferreds s')"

lemma books_same:
  assumes "books Q s" "same_books s s'"
  shows "books Q s'"
proof -
  have o: "waits d s' = waits d s" "outcome_of d s' = outcome_of d s" "watched s' = watched s" "calls s' = calls s" for d
    using assms(2) by (simp_all add: same_books_def)
  have c: "outcome_of d s \<noteq> None \<Longrightarrow> cleared (deferreds s' ! d) = cleared (deferreds s ! d)"
    and l: "length (deferreds s) \<le> length (deferreds s')" for d using assms(2) by (simp_all add: same_books_def)
  have "(d, w) \<in> set (watched s) \<Longrightarrow> d < length (deferreds s') \<and> target w < length (deferreds s')" for d w
    using assms(1) l unfolding books_def justified_def by (meson order_less_le_trans)
  then have "justified s'" using assms(1) by (simp add: books_def justified_def o)
  moreover have "due_ok Q s'" using assms(1) by (simp add: books_def due_ok_def o)
  moreover have "serving Q s'" using assms(1) c unfolding books_def serving_def o by (metis option.distinct(1))
  moreover have "attended Q s' d w = attended Q s d w" for d w unfolding attended_def o by (rule refl)
  ultimately show ?thesis using assms(1) by (simp add: books_def o)
qed

lemma watched_upd [simp]: "watched (upd_deferred k f s) = watched s"
  by (simp add: upd_deferred_def)

lemma same_books_upd:
  assumes "\<And>x. waiting (f x) = waiting x" "\<And>x. fulfilled (f x) = fulfilled x" "\<And>x. cleared (f x) = cleared x"
  shows "same_books s (upd_deferred k f s)"
proof -
  have "cleared (deferreds (upd_deferred k f s) ! d) = cleared (deferreds s ! d)" for d
    using assms(3) by (cases "d = k") (simp_all add: upd_deferred_def)
  then show ?thesis using waits_upd [OF assms(1)] outcome_upd [OF assms(2)] by (simp add: same_books_def)
qed

lemma same_books_fields:
  "same_books s s" "same_books s (s\<lparr>returned := r\<rparr>)" "same_books s (s\<lparr>page_state := g\<rparr>)" "same_books s (s\<lparr>cancel_errors := n\<rparr>)"
  by (simp_all add: same_books_def)

lemma same_books_new: "same_books s (s\<lparr>deferreds := deferreds s @ [new_deferred c], returned := r\<rparr>)"
proof -
  have "waits d (s\<lparr>deferreds := deferreds s @ [new_deferred c], returned := r\<rparr>) = waits d s" for d
    by (simp add: waits_def nth_append new_deferred_def)
  then show ?thesis by (simp add: same_books_def outcome_of_def nth_append new_deferred_def)
qed

lemma same_books_trans: "same_books a b \<Longrightarrow> same_books b c \<Longrightarrow> same_books a c"
  by (auto simp: same_books_def)

lemma books_fulfil:
  assumes "books Q s" "d < length (deferreds s)" "outcome_of d s = None" "ty \<noteq> Progress"
  shows "books (insert (Loop d 0 ty v) Q) (upd_deferred d (\<lambda>x. x\<lparr>fulfilled := Some (ty, v)\<rparr>) s)"
proof -
  let ?s = "upd_deferred d (\<lambda>x. x\<lparr>fulfilled := Some (ty, v)\<rparr>) s"
  have c: "cleared (deferreds ?s ! k) = cleared (deferreds s ! k)" for k
    by (auto simp: upd_deferred_def nth_list_update)
  have o: "outcome_of k ?s = (if k = d then Some (ty, v) else outcome_of k s)" for k using outcome_fulfil [OF assms(2)] .
  have w: "waits k ?s = waits k s" "calls ?s = calls s" for k by simp_all
  have "(t, ty', v') \<in> set (calls s) \<and> ty' \<noteq> Progress \<Longrightarrow> \<exists>k x f. (k, x) \<in> set (watched s) \<and> target x = t
      \<and> outcome_of k ?s = Some (ty', v') \<and> handler_for x ty' = Some (Fun f)" for t ty' v'
    using assms(1,3) unfolding books_def justified_def o by (metis option.distinct(1))
  then have "justified ?s"
    using assms(1,4) unfolding books_def justified_def w watched_upd length_upd by (simp add: o)
  moreover have "due_ok (insert (Loop d 0 ty v) Q) ?s"
  proof (rule due_okI, goal_cases)
    case (1 x ty' v')
    have "due_ok Q s" using assms(1) by (simp add: books_def)
    from due_okD(1) [OF this, of ty' x v'] 1 show ?case using assms(3) unfolding watched_upd o by auto
  next
    case (2 k i ty' v')
    have "due_ok Q s" using assms(1) by (simp add: books_def)
    from due_okD(2) [OF this, of ty' k i v'] 2 show ?case using assms(3) unfolding o by auto
  qed
  moreover have "serving (insert (Loop d 0 ty v) Q) ?s"
    using assms unfolding books_def serving_def o w c by (auto split: if_splits)
  moreover have "\<forall>(k, x) \<in> set (watched s). attended (insert (Loop d 0 ty v) Q) ?s k x"
  proof (clarify, goal_cases)
    case (1 k x)
    then have "attended Q s k x" using assms(1) by (auto simp: books_def)
    then show ?case using assms(3) by (auto simp: attended_def o split: option.splits)
  qed
  ultimately show ?thesis by (simp add: books_def)
qed

lemma books_next:
  assumes "books (insert (Loop d i ty v) Q) s" "i < length (waits d s)"
  shows "books (insert (Tell (waits d s ! i) ty v) (insert (Loop d (Suc i) ty v) Q)) s"
proof -
  have "waits d s ! i \<in> set (waits d s)" using assms(2) by simp
  then have w: "(d, waits d s ! i) \<in> set (watched s)" using assms(1) unfolding books_def justified_def by blast
  have "due_ok (insert (Tell (waits d s ! i) ty v) (insert (Loop d (Suc i) ty v) Q)) s"
  proof (rule due_okI, goal_cases)
    case (1 x ty' v')
    have "due_ok (insert (Loop d i ty v) Q) s" using assms(1) by (simp add: books_def)
    note this [THEN due_okD(1), OF 1(2)] and this [THEN due_okD(2), OF 1(2), of d i v]
    then show ?case using 1(1) w by auto
  next
    case (2 k i' ty' v')
    have "due_ok (insert (Loop d i ty v) Q) s" using assms(1) by (simp add: books_def)
    from due_okD(2) [OF this 2(2), of k i' v'] due_okD(2) [OF this 2(2), of d i v] 2(1) show ?case by auto
  qed
  moreover have "serving (insert (Tell (waits d s ! i) ty v) (insert (Loop d (Suc i) ty v) Q)) s"
    unfolding serving_def
  proof (intro allI impI)
    fix k ty' v'
    assume "outcome_of k s = Some (ty', v') \<and> \<not> cleared (deferreds s ! k)"
    then obtain i' where "i' \<le> length (waits k s)" "Loop k i' ty' v' \<in> insert (Loop d i ty v) Q"
      using assms(1) unfolding books_def serving_def by blast
    then show "\<exists>i' \<le> length (waits k s). Loop k i' ty' v' \<in> insert (Tell (waits d s ! i) ty v) (insert (Loop d (Suc i) ty v) Q)"
      using assms(2) by (cases "Loop k i' ty' v' = Loop d i ty v") (auto intro: exI [of _ "Suc i"])
  qed
  moreover have "\<forall>(k, x) \<in> set (watched s). attended (insert (Tell (waits d s ! i) ty v) (insert (Loop d (Suc i) ty v) Q)) s k x"
  proof (clarify, goal_cases)
    case (1 k x)
    then have "attended (insert (Loop d i ty v) Q) s k x" using assms(1) by (auto simp: books_def)
    moreover have "drop i (waits d s) = waits d s ! i # drop (Suc i) (waits d s)" using assms(2) by (simp add: Cons_nth_drop_Suc)
    ultimately show ?case by (auto simp: attended_def split: option.splits)
  qed
  ultimately show ?thesis using assms(1) by (simp add: books_def)
qed

lemma books_loop_end:
  assumes "books (insert (Loop d i ty v) Q) s" "length (waits d s) \<le> i"
    and s': "s' = (if ty = Progress then s else upd_deferred d (\<lambda>x. x\<lparr>cleared := True\<rparr>) s)"
  shows "books Q s'"
proof -
  have o: "outcome_of k s' = outcome_of k s" "waits k s' = waits k s" "calls s' = calls s" "watched s' = watched s"
    "length (deferreds s') = length (deferreds s)" for k by (simp_all add: s')
  have c: "outcome_of k s \<noteq> None \<Longrightarrow> cleared (deferreds s' ! k) = (cleared (deferreds s ! k) \<or> ty \<noteq> Progress \<and> k = d)" for k
    by (auto simp: s' upd_deferred_def nth_list_update outcome_of_def split: if_splits)
  have j: "justified s" using assms(1) by (simp add: books_def)
  then have "justified s'" by (simp add: justified_def o)
  moreover have "due_ok Q s'"
  proof (rule due_okI, goal_cases)
    case (1 x ty' v')
    have "due_ok (insert (Loop d i ty v) Q) s" using assms(1) by (simp add: books_def)
    from due_okD(1) [OF this 1(2), of x v'] 1(1) show ?case by (simp add: o)
  next
    case (2 k i' ty' v')
    have "due_ok (insert (Loop d i ty v) Q) s" using assms(1) by (simp add: books_def)
    from due_okD(2) [OF this 2(2), of k i' v'] 2(1) show ?case by (simp add: o)
  qed
  moreover have "serving Q s'"
    unfolding serving_def o
  proof (intro allI impI, elim conjE)
    fix k ty' v'
    assume a: "outcome_of k s = Some (ty', v')" "\<not> cleared (deferreds s' ! k)"
    then have "\<not> cleared (deferreds s ! k)" "ty = Progress \<or> k \<noteq> d" using c [of k] by auto
    moreover from this a(1) obtain i' where "i' \<le> length (waits k s)" "Loop k i' ty' v' \<in> insert (Loop d i ty v) Q"
      using assms(1) unfolding books_def serving_def by blast
    moreover have "ty' \<noteq> Progress" using j a(1) by (auto simp: justified_def)
    ultimately show "\<exists>i \<le> length (waits k s). Loop k i ty' v' \<in> Q" by auto
  qed
  moreover have "\<forall>(k, x) \<in> set (watched s). attended Q s' k x"
  proof (clarify, goal_cases)
    case (1 k x)
    then have "attended (insert (Loop d i ty v) Q) s k x" using assms(1) by (auto simp: books_def)
    then show ?case using assms(2) by (auto simp: attended_def o split: option.splits)
  qed
  ultimately show ?thesis by (simp add: books_def o)
qed

lemma books_told:
  assumes "books (insert (Tell w ty v) Q) s"
  shows "\<forall>f. handler_for w ty \<noteq> Some (Fun f) \<Longrightarrow> books Q s"
    "handler_for w ty = Some (Fun f) \<Longrightarrow> books Q (s\<lparr>calls := calls s @ [(target w, ty, v)]\<rparr>)"
proof -
  have j: "justified s" and o: "due_ok (insert (Tell w ty v) Q) s" and sv: "serving (insert (Tell w ty v) Q) s"
    and at: "(d, x) \<in> set (watched s) \<Longrightarrow> attended (insert (Tell w ty v) Q) s d x" for d x
    using assms by (auto simp: books_def)
  have o': "due_ok Q s" using o by (auto simp: due_ok_def)
  have sv': "serving Q s" using sv by (auto simp: serving_def)
  show "books Q s" if n: "\<forall>f. handler_for w ty \<noteq> Some (Fun f)"
  proof -
    have "attended Q s d x" if "(d, x) \<in> set (watched s)" for d x
      using at [OF that] n by (auto simp: attended_def split: option.splits)
    then show ?thesis using j o' sv' by (auto simp: books_def)
  qed
  let ?s = "s\<lparr>calls := calls s @ [(target w, ty, v)]\<rparr>"
  assume f: "handler_for w ty = Some (Fun f)"
  have "justified ?s"
  proof -
    have "\<exists>d. (d, w) \<in> set (watched s) \<and> outcome_of d s = Some (ty, v)" if "ty \<noteq> Progress" using due_okD(1) [OF o that] by simp
    then show ?thesis using j f unfolding justified_def by (simp add: Ball_def) blast
  qed
  moreover have "due_ok Q ?s" using o' by (simp add: due_ok_def)
  moreover have "serving Q ?s" using sv' by (simp add: serving_def)
  moreover have "attended Q ?s d x" if "(d, x) \<in> set (watched s)" for d x
    using at [OF that] f by (auto simp: attended_def split: option.splits)
  ultimately show "books Q ?s" by (auto simp: books_def)
qed

lemma books_watch:
  assumes "books Q s" "p < length (deferreds s)" "target w = length (deferreds s)"
    and s1: "s1 = s\<lparr>deferreds := deferreds s @ [new_deferred (Some (Chain p))], watched := watched s @ [(p, w)]\<rparr>"
  shows "outcome_of p s1 = Some (ty, v) \<Longrightarrow> cleared (deferreds s1 ! p) \<Longrightarrow> books (insert (Tell w ty v) Q) s1"
    "outcome_of p s1 = None \<or> \<not> cleared (deferreds s1 ! p) \<Longrightarrow>
       books Q (upd_deferred p (\<lambda>d. d\<lparr>waiting := waiting d @ [w]\<rparr>) s1)"
proof -
  let ?s = "upd_deferred p (\<lambda>d. d\<lparr>waiting := waiting d @ [w]\<rparr>) s1"
  have j: "justified s" and o: "due_ok Q s" and sv: "serving Q s"
    and at: "(d, x) \<in> set (watched s) \<Longrightarrow> attended Q s d x" for d x
    using assms(1) by (auto simp: books_def)
  have e: "waits d s1 = waits d s" "outcome_of d s1 = outcome_of d s" "length (deferreds s1) = Suc (length (deferreds s))" for d
    using new_still [OF disjI1, OF s1] by blast+
  have wd: "watched s1 = watched s @ [(p, w)]" "calls s1 = calls s" by (simp_all add: s1)
  have c: "outcome_of d s \<noteq> None \<Longrightarrow> cleared (deferreds s1 ! d) = cleared (deferreds s ! d)" for d
    by (auto simp: s1 outcome_of_def nth_append split: if_splits)
  have pl: "p < length (deferreds s1)" using assms(2) e by simp
  have "waits d ?s = (if d = p then waits d s1 @ [w] else waits d s1)" for d
    using pl by (auto simp: waits_def upd_deferred_def nth_list_update)
  then have w2: "waits d ?s = (if d = p then waits d s @ [w] else waits d s)" for d unfolding e(1) .
  have c2: "cleared (deferreds ?s ! d) = cleared (deferreds s1 ! d)" for d
    by (auto simp: upd_deferred_def nth_list_update)
  have lt: "d < length (deferreds s) \<and> target x < length (deferreds s)" if "(d, x) \<in> set (watched s)" for d x
    using j that unfolding justified_def by blast
  then have bd: "(d, x) \<in> set (watched s) \<Longrightarrow> d < Suc (length (deferreds s)) \<and> target x < Suc (length (deferreds s))" for d x
    by (simp add: less_SucI)
  have fresh: "length (deferreds s) \<notin> set (map (\<lambda>(d, w). target w) (watched s))" using lt by fastforce
  have call: "\<exists>d x f. (d, x) \<in> set (watched s @ [(p, w)]) \<and> target x = t \<and> outcome_of d s = Some (ty, v) \<and> handler_for x ty = Some (Fun f)"
    if "(t, ty, v) \<in> set (calls s)" "ty \<noteq> Progress" for t ty v
    using j that unfolding justified_def by fastforce
  have j1: "justified s1" and j2: "justified ?s"
    using j bd fresh call assms(2,3) unfolding justified_def wd e w2 watched_upd calls_upd length_upd
    by (simp_all add: e wd) (blast+)?
  have o1: "due_ok Q s1" and o2: "due_ok Q ?s" using o unfolding due_ok_def watched_upd by (simp_all add: e wd) blast+
  { assume a: "outcome_of p s1 = Some (ty, v)" "cleared (deferreds s1 ! p)"
    have "due_ok (insert (Tell w ty v) Q) s1" using o1 a(1) by (auto simp: due_ok_def wd)
    moreover have "serving (insert (Tell w ty v) Q) s1" using sv c unfolding serving_def e by (metis insertCI option.distinct(1))
    moreover have "attended (insert (Tell w ty v) Q) s1 d x" if "(d, x) \<in> set (watched s)" for d x
      using at [OF that] unfolding attended_def e wd by (auto split: option.splits)
    moreover have "attended (insert (Tell w ty v) Q) s1 p w" using a(1) by (simp add: attended_def)
    ultimately show "books (insert (Tell w ty v) Q) s1" using j1 by (auto simp: books_def wd) }
  assume a: "outcome_of p s1 = None \<or> \<not> cleared (deferreds s1 ! p)"
  have sv2: "serving Q ?s"
    unfolding serving_def
  proof (intro allI impI, elim conjE)
    fix d ty v
    assume "outcome_of d ?s = Some (ty, v)" "\<not> cleared (deferreds ?s ! d)"
    then have "outcome_of d s = Some (ty, v)" "\<not> cleared (deferreds s ! d)" using c [of d] by (simp_all add: c2 e)
    then obtain i where "i \<le> length (waits d s)" "Loop d i ty v \<in> Q" using sv unfolding serving_def by blast
    then show "\<exists>i \<le> length (waits d ?s). Loop d i ty v \<in> Q" unfolding w2 by (intro exI [of _ i]) auto
  qed
  have "attended Q ?s d x" if "(d, x) \<in> set (watched s)" for d x
    using at [OF that] by (auto simp: attended_def e wd w2 split: option.splits)
  moreover have "attended Q ?s p w"
  proof (cases "outcome_of p s")
    case (Some r)
    obtain ty v where r: "r = (ty, v)" by (cases r)
    then have "\<not> cleared (deferreds s ! p)" using a c [of p] Some by (simp add: e)
    then obtain i where "i \<le> length (waits p s)" "Loop p i ty v \<in> Q" using sv Some r unfolding serving_def by blast
    then have "\<exists>i. Loop p i ty v \<in> Q \<and> w \<in> set (drop i (waits p ?s))" unfolding w2 by (intro exI [of _ i]) simp
    then show ?thesis using Some r by (simp add: attended_def e)
  qed (simp add: attended_def e w2)
  ultimately show "books Q ?s" using j2 o2 sv2 by (auto simp: books_def wd)
qed

lemma books_progress: "books Q s \<Longrightarrow> books (insert (Loop d i Progress v) Q) s"
  unfolding books_def
proof (elim conjE, intro conjI)
  show "due_ok Q s \<Longrightarrow> due_ok (insert (Loop d i Progress v) Q) s" unfolding due_ok_def by blast
  show "serving Q s \<Longrightarrow> serving (insert (Loop d i Progress v) Q) s" unfolding serving_def by blast
  have "attended Q s k w \<Longrightarrow> attended (insert (Loop d i Progress v) Q) s k w" for k w
    unfolding attended_def by (auto split: option.splits)
  then show "\<forall>(d, w) \<in> set (watched s). attended Q s d w \<Longrightarrow>
    \<forall>(k, w) \<in> set (watched s). attended (insert (Loop d i Progress v) Q) s k w" by auto
qed

lemma books_quiet:
  assumes "books (due (c # cs)) s" "same_books s s'" "quiet c" "list_all quiet ds"
  shows "books (due (ds @ cs)) s'"
  using books_same [OF assms(1,2)] assms(3) due_quiet [OF assms(4)] by simp

lemma step_books:
  assumes "books (due (c # cs)) s" "once (c # cs) s" "run_command c s = (ds, s')"
  shows "books (due (ds @ cs)) s'"
proof (cases c)
  case (Fulfil d ty v)
  show ?thesis
  proof (cases "d < length (deferreds s) \<and> fulfilled (deferreds s ! d) = None")
    case True
    then have "ds = [Loop d 0 ty v]" "s' = upd_deferred d (\<lambda>x. x\<lparr>fulfilled := Some (ty, v)\<rparr>) s"
      using assms(3) Fulfil by simp_all
    moreover have "ty \<noteq> Progress" using assms(2) Fulfil by (simp add: once_def loops_ok_def)
    ultimately show ?thesis using books_fulfil [of "due cs" s d ty v] assms(1) True Fulfil by (simp add: outcome_of_def)
  next
    case False
    then have "ds = []" "s' = s" using assms(3) Fulfil by auto
    then show ?thesis using assms(1) Fulfil by simp
  qed
next
  case (Loop d i ty v)
  have b: "books (insert (Loop d i ty v) (due cs)) s" using assms(1) Loop by simp
  show ?thesis
  proof (cases "i < length (waits d s)")
    case True
    then have "ds = [Tell (waits d s ! i) ty v, Loop d (Suc i) ty v]" "s' = s"
      using assms(3) Loop by (auto simp: waits_def split: if_splits)
    then show ?thesis using books_next [OF b True] by simp
  next
    case False
    then have "ds = []" "s' = (if ty = Progress then s else upd_deferred d (\<lambda>x. x\<lparr>cleared := True\<rparr>) s)"
      using assms(3) Loop by (auto simp: waits_def split: if_splits)
    then show ?thesis using books_loop_end [OF b _ refl] False by simp
  qed
next
  case (Tell w ty v)
  have b: "books (insert (Tell w ty v) (due cs)) s" using assms(1) Tell by simp
  show ?thesis
  proof (cases "\<exists>f. handler_for w ty = Some (Fun f)")
    case True
    then obtain f where f: "handler_for w ty = Some (Fun f)" by blast
    then have "ds = [Body (f v), Result (target w)]" "s' = s\<lparr>calls := calls s @ [(target w, ty, v)]\<rparr>"
      using assms(3) Tell by (simp_all add: tell_def)
    then show ?thesis using books_told(2) [OF b f] by simp
  next
    case False
    then have "due ds = {}" "s' = s" using assms(3) Tell by (auto simp: tell_def split: option.splits handler.splits)
    then show ?thesis using books_told(1) [OF b] False by simp
  qed
next
  case (Then p pb cb eb)
  have b: "books (due cs) s" using assms(1) Then by simp
  have a: "add_watcher p pb cb eb s = (ds, s')" using assms(3) Then by simp
  show ?thesis
  proof (cases "p < length (deferreds s)")
    case True
    define w where "w = \<lparr>progback = pb, callback = cb, errback = eb, target = length (deferreds s)\<rparr>"
    define s1 where "s1 = s\<lparr>deferreds := deferreds s @ [new_deferred (Some (Chain p))], watched := watched s @ [(p, w)]\<rparr>"
    have t: "target w = length (deferreds s)" by (simp add: w_def)
    note bw = books_watch [OF b True t s1_def]
    from add_watcher_cases [OF a True w_def s1_def] show ?thesis
    proof (elim disjE exE conjE, goal_cases)
      case (1 ty v)
      then show ?thesis using bw(1) [OF 1(1,2)] by simp
    qed (use bw(2) in simp_all)
  next
    case False
    then have "due ds = {}" "s' = s\<lparr>returned := Ret Undefined\<rparr>" using a by (auto simp: add_watcher_def)
    then show ?thesis using books_same [OF b same_books_fields(2)] by simp
  qed
next
  case (Result t)
  have "same_books s (upd_deferred t (\<lambda>d. d\<lparr>on_cancel := c\<rparr>) s)" for c by (rule same_books_upd) simp_all
  then show ?thesis
    by (intro books_quiet [OF assms(1)])
      (use assms(3) Result in \<open>auto simp: take_result_def same_books_fields split: outcome.splits js_value.splits if_splits\<close>)
next
  case (Canceled d r)
  have "same_books s (upd_deferred d (\<lambda>x. x\<lparr>canceled := True\<rparr>) s)" by (rule same_books_upd) simp_all
  moreover from this have "same_books s ((upd_deferred d (\<lambda>x. x\<lparr>canceled := True\<rparr>) s)\<lparr>returned := q\<rparr>)"
    "same_books s ((upd_deferred d (\<lambda>x. x\<lparr>canceled := True\<rparr>) s)\<lparr>cancel_errors := n\<rparr>)" for q n
    using same_books_trans same_books_fields by blast+
  ultimately show ?thesis
    by (intro books_quiet [OF assms(1)])
      (use assms(3) Canceled in \<open>auto simp: finish_cancel_def Let_def same_books_fields split: if_splits option.splits outcome.splits\<close>)
next
  case (Body b)
  have "same_books s (snd (run_body b s)) \<and> list_all quiet (fst (run_body b s))"
    by (cases b rule: run_body_cases) (simp_all add: same_books_fields same_books_new)
  then show ?thesis by (intro books_quiet [OF assms(1)]) (use assms(3) Body in auto)
next
  case (Update d v)
  then have "s' = s \<and> (due ds = {} \<or> due ds = {Loop d 0 Progress v})" using assms(3) by (auto split: if_splits)
  moreover have "books (due cs) s" using assms(1) Update by simp
  ultimately show ?thesis using books_progress [of "due cs" s d 0 v] by (elim conjE disjE) simp_all
next
  case (Send t ty v)
  show ?thesis by (rule books_quiet [OF assms(1)]) (use assms(3) Send in \<open>auto simp: same_books_fields split: if_splits\<close>)
next
  case (Cancel d r)
  show ?thesis
    by (rule books_quiet [OF assms(1)])
      (use assms(3) Cancel in \<open>auto simp: same_books_fields split: if_splits option.splits canceler.splits\<close>)
next
  case (Resume k)
  show ?thesis by (rule books_quiet [OF assms(1)]) (use assms(3) Resume in \<open>auto simp: same_books_fields\<close>)
next
  case (Return r)
  show ?thesis by (rule books_quiet [OF assms(1)]) (use assms(3) Return in \<open>auto simp: same_books_fields\<close>)
qed

lemma run_books:
  "books (due cs) s \<Longrightarrow> once cs s \<Longrightarrow> run_commands n cs s = (cs', s') \<Longrightarrow> books (due cs') s'"
proof (induction n cs s rule: run_commands.induct)
  case (3 n c cs s)
  obtain ds s1 where st: "run_command c s = (ds, s1)" by (cases "run_command c s")
  with step_books [OF 3(2,3) st] step_once [OF 3(3) st] 3(1) [OF st [symmetric]] 3(4) show ?case by simp
qed auto

section \<open>What a promise promises\<close>

lemma events_quiet: "due (map Body es) = {}" "loops (map Body es) = []" "list_all final_fulfil (map Body es)"
  "sum_list (map (pend_cmd t s) (map Body es)) = 0"
  by (induction es) simp_all

lemma once_start: "once (map Body es) (empty_store g)"
  using events_quiet(2-4) [where es = es]
  by (simp add: once_def loops_ok_def open_calls_def pend_def empty_store_def final_calls_def)

lemma books_start: "books (due (map Body es)) (empty_store g)"
  by (simp add: events_quiet books_def justified_def due_ok_def serving_def empty_store_def waits_def outcome_of_def)

lemma run_add: "run_commands (m + n) cs s = (case run_commands m cs s of (cs', s') \<Rightarrow> run_commands n cs' s')"
proof (induction m cs s rule: run_commands.induct)
  case (2 m s)
  have "run_commands n [] s = ([], s)" for n by (cases n) simp_all
  then show ?case by simp
qed (auto split: prod.splits)

lemma count_distinct: "(\<And>x. count_list xs x \<le> 1) \<Longrightarrow> distinct xs"
proof (induction xs)
  case (Cons y xs)
  have "count_list xs x \<le> 1" for x using Cons.prems [of x] by (simp split: if_splits)
  moreover have "count_list xs y = 0" using Cons.prems [of y] by simp
  ultimately show ?case using Cons.IH by (simp add: count_list_0_iff)
qed simp

lemma once_calls: "once cs s \<Longrightarrow> count_list (final_calls s) t \<le> 1"
  by (auto simp: once_def open_calls_def dest!: spec [of _ t] split: if_splits)

text \<open>C39: on a page whose events run any scripts and handlers, and whatever these, the callbacks and the
  cancelers do (they may return, throw, change the page, and make, wait for, resolve, reject and cancel any
  deferreds, the one they run for as well), of a listener's callback and its errback at most one is called, and at
  most once, and a deferred that is resolved or rejected stays so, with the value it has.\<close>
theorem promises_settle_once:
  assumes "m \<le> n"
  shows "distinct (final_calls (snd (run_events n es g)))
    \<and> (outcome_of d (snd (run_events m es g)) = Some x \<longrightarrow> outcome_of d (snd (run_events n es g)) = Some x)"
proof -
  obtain cs' s' where r: "run_events n es g = (cs', s')" by (cases "run_events n es g")
  have "distinct (final_calls s')"
    using once_calls [OF run_once [OF once_start r [unfolded run_events_def]]] by (rule count_distinct)
  moreover obtain cs1 s1 where r1: "run_events m es g = (cs1, s1)" by (cases "run_events m es g")
  have "run_events n es g = run_commands (n - m) cs1 s1"
    using run_add [of m "n - m" "map Body es" "empty_store g"] assms r1 by (simp add: run_events_def)
  then have "outcome_of d s1 = Some x \<longrightarrow> outcome_of d s' = Some x" using run_outcome [of d s1 x] r by (metis snd_conv)
  ultimately show ?thesis using r r1 by simp
qed

text \<open>The final calls for one target.\<close>

definition calls_for :: "nat \<Rightarrow> ('v, 'w) promises \<Rightarrow> (phase \<times> 'v js_value) list" where
  "calls_for t s = map snd (filter (\<lambda>(t', ty, v). t' = t \<and> ty \<noteq> Progress) (calls s))"

lemma count_calls: "length (filter (\<lambda>(t', ty, v). t' = t \<and> ty \<noteq> Progress) xs)
    = count_list (map fst (filter (\<lambda>(t, ty, v). ty \<noteq> Progress) xs)) t"
  by (induction xs) auto

lemma calls_for_simps: "length (calls_for t s) = count_list (final_calls s) t"
  "(ty, v) \<in> set (calls_for t s) \<longleftrightarrow> (t, ty, v) \<in> set (calls s) \<and> ty \<noteq> Progress"
proof -
  show "length (calls_for t s) = count_list (final_calls s) t"
    unfolding calls_for_def final_calls_def length_map by (rule count_calls)
qed (force simp: calls_for_def)

text \<open>What is still to be told to a listener: it is next, or behind in a loop over those waiting.\<close>

definition to_be_told :: "nat \<Rightarrow> ('v, 'w) watcher \<Rightarrow> ('v, 'w) command list \<Rightarrow> ('v, 'w) promises \<Rightarrow> bool" where
  "to_be_told d w cs s \<longleftrightarrow> (\<exists>ty v. outcome_of d s = Some (ty, v) \<and>
     (Tell w ty v \<in> set cs \<or> (\<exists>i. Loop d i ty v \<in> set cs \<and> w \<in> set (drop i (waits d s)))))"

text \<open>C40: of the callbacks given to \<^verbatim>\<open>then\<close> exactly those are called that should be: of a listener of a promise that
  is resolved its callback, of one that is rejected its errback, once and with the value, whether it was given
  before or after, or while others are called, and neither of a promise that is neither. At every moment this is
  so, except that a listener's turn may be yet to come, while the calls of an event are under way; after an event
  has run to its end it is so for all.\<close>
theorem callbacks_called:
  assumes "run_events n es g = (cs, s)" "(d, w) \<in> set (watched s)"
  shows "calls_for (target w) s =
      (case outcome_of d s of
         None \<Rightarrow> []
       | Some (ty, v) \<Rightarrow> (case handler_for w ty of Some (Fun f) \<Rightarrow> [(ty, v)] | _ \<Rightarrow> []))
    \<or> (calls_for (target w) s = [] \<and> to_be_told d w cs s \<and> cs \<noteq> [])"
proof -
  note r = assms(1) [unfolded run_events_def]
  have b: "books (due cs) s" by (rule run_books [OF books_start once_start r])
  then have j: "justified s" and at: "attended (due cs) s d w" using assms(2) by (auto simp: books_def)
  have le: "length (calls_for (target w) s) \<le> 1" using once_calls [OF run_once [OF once_start r]] by (simp add: calls_for_simps)
  have same: "d' = d \<and> w' = w" if "(d', w') \<in> set (watched s)" "target w' = target w" for d' w'
  proof -
    have "inj_on (\<lambda>(d, w). target w) (set (watched s))" using j by (simp add: justified_def distinct_map)
    from inj_onD [OF this, of "(d', w')" "(d, w)"] show ?thesis using that assms(2) by simp
  qed
  have just: "outcome_of d s = Some (ty, v) \<and> (\<exists>f. handler_for w ty = Some (Fun f))"
    if "(ty, v) \<in> set (calls_for (target w) s)" for ty v
    using j that same unfolding justified_def calls_for_simps by metis
  show ?thesis
  proof (cases "\<exists>ty v f. outcome_of d s = Some (ty, v) \<and> handler_for w ty = Some (Fun f)")
    case True
    then obtain ty v f where o: "outcome_of d s = Some (ty, v)" "handler_for w ty = Some (Fun f)" by blast
    show ?thesis
    proof (cases "(ty, v) \<in> set (calls_for (target w) s)")
      case True
      then have "calls_for (target w) s = [(ty, v)]" using le by (cases "calls_for (target w) s") auto
      then show ?thesis using o by simp
    next
      case False
      moreover have "ty \<noteq> Progress" using j o(1) by (auto simp: justified_def)
      ultimately have "to_be_told d w cs s" using at o by (auto simp: attended_def to_be_told_def due_def calls_for_simps)
      moreover from this have "cs \<noteq> []" by (auto simp: to_be_told_def)
      moreover have "calls_for (target w) s = []" using just False o(1) by (cases "calls_for (target w) s") fastforce+
      ultimately show ?thesis by blast
    qed
  next
    case False
    then have "calls_for (target w) s = []" using just by (cases "calls_for (target w) s") fastforce+
    then show ?thesis using False by (auto split: option.splits handler.splits)
  qed
qed

text \<open>A page that asks for something, waits for it three times, one of them from within a callback, whose handler
  resolves and rejects it, and which cancels what it waits for.\<close>

definition note_it :: "nat \<Rightarrow> (nat, nat list) body \<Rightarrow> (nat, nat list) body" where
  "note_it n b = Act (\<lambda>seen. (seen @ [n], b))"

definition sample_events :: "(nat, nat list) body list" where
  "sample_events =
     [Call (Make (Some (Own (\<lambda>r. Finish (Raise r))))) (\<lambda>p. Finish p),
      Call (Await 0 None
             (Some (Fun (\<lambda>v. Call (Resolve 0 (Other 9) False) (\<lambda>_.
                Call (Await 0 None (Some (Fun (\<lambda>v. note_it 2 (Finish (Ret v))))) None) (\<lambda>p. note_it 1 (Finish p))))))
             (Some (Fun (\<lambda>v. Finish (Raise v)))))
        (\<lambda>p. Call (Abort 1 (Other 5) False) (\<lambda>r. case r of Raise e \<Rightarrow> note_it 0 (Finish r) | _ \<Rightarrow> Finish r)),
      Call (Resolve 0 (Other 4) True) (\<lambda>p. Finish p),
      Call (Reject 0 (Other 9) True) (\<lambda>r. Finish r),
      Call (Await 0 None (Some (Fun (\<lambda>v. note_it 3 (Finish (Raise v))))) (Some (Fun (\<lambda>v. Finish (Ret v))))) (\<lambda>p. Finish p)]"

lemma sample_runs:
  "fst (run_events 80 sample_events []) = []" "page_state (snd (run_events 80 sample_events [])) = [0, 1, 2, 3]"
  "calls (snd (run_events 80 sample_events [])) =
     [(1, Resolved, Other 4), (2, Resolved, Other 4), (4, Resolved, Other 4)]"
  "map (\<lambda>(d, w). (d, target w)) (watched (snd (run_events 80 sample_events []))) = [(0, 1), (0, 2), (2, 3), (0, 4)]"
  "map (\<lambda>d. outcome_of d (snd (run_events 80 sample_events []))) [0, 1, 2, 4] =
     [Some (Resolved, Other 4), Some (Resolved, Other 4), Some (Resolved, Other 4), Some (Rejected, Other 4)]"
  by code_simp+

lemma promises_settle_once_witness:
  "distinct (final_calls (snd (run_events 80 sample_events []))) \<and>
   outcome_of 0 (snd (run_events 80 sample_events [])) = Some (Resolved, Other 4)"
proof -
  have "outcome_of 0 (snd (run_events 30 sample_events [])) = Some (Resolved, Other 4)" by code_simp
  with promises_settle_once [of 30 80 sample_events "[]" 0 "(Resolved, Other 4)"] show ?thesis by simp
qed

text \<open>The listener that comes last comes when the promise is resolved already.\<close>

lemma callbacks_called_witness: "calls_for 4 (snd (run_events 80 sample_events [])) = [(Resolved, Other 4)]"
proof -
  define s where "s = snd (run_events 80 sample_events [])"
  have run: "run_events 80 sample_events [] = ([], s)" using sample_runs(1) by (simp add: s_def prod_eq_iff)
  have w: "map (\<lambda>(d, w). (d, target w)) (watched s) = [(0, 1), (0, 2), (2, 3), (0, 4)]" using sample_runs(4) by (simp add: s_def)
  from arg_cong [OF this, of length] have len: "length (watched s) = 4" by simp
  have "(\<lambda>(d, w). (d, target w)) (watched s ! 3) = (0, 4)" using arg_cong [OF w, of "\<lambda>xs. xs ! 3"] len by simp
  then obtain w where w3: "watched s ! 3 = (0, w)" "target w = 4" by (auto split: prod.splits)
  then have "(0, w) \<in> set (watched s)" using len nth_mem [of 3 "watched s"] by simp
  moreover have "outcome_of 0 s = Some (Resolved, Other 4)" using sample_runs(5) by (simp add: s_def)
  moreover have "case callback (snd (watched s ! 3)) of Some (Fun f) \<Rightarrow> True | _ \<Rightarrow> False" unfolding s_def by code_simp
  then obtain f where "callback w = Some (Fun f)" using w3 by (auto split: option.splits handler.splits)
  ultimately show ?thesis using callbacks_called [OF run, of 0 w] w3 by (simp flip: s_def)
qed

text \<open>A promise that waits for itself, as when a callback returns the promise made for it, cannot be cancelled: the call
  calls itself without an end.\<close>

lemma cancel_circle:
  assumes "d < length (deferreds s)" "fulfilled (deferreds s ! d) = None" "on_cancel (deferreds s ! d) = Some (Chain d)"
  shows "fst (run_commands n (Cancel d r # cs) s) \<noteq> []"
proof (induction n arbitrary: cs)
  case (Suc n)
  have "run_command (Cancel d r) s = ([Cancel d r, Canceled d r], s)" using assms by simp
  then show ?case using Suc [of "Canceled d r # cs"] by simp
qed simp

definition circle_events :: "(nat, unit) body list" where
  "circle_events = [Call (Make None) Finish, Call (Await 0 None (Some (Fun (\<lambda>_. Finish (Ret (Promise_of 1))))) None) Finish,
     Call (Resolve 0 (Other 1) False) Finish]"

lemma cancel_circle_witness: "fst (run_commands n [Cancel 1 Undefined] (snd (run_events 40 circle_events ()))) \<noteq> []"
proof (rule cancel_circle)
  let ?s = "snd (run_events 40 circle_events ())"
  show "1 < length (deferreds ?s)" by code_simp
  show "fulfilled (deferreds ?s ! 1) = None" by code_simp
  have "case on_cancel (deferreds ?s ! 1) of Some (Chain p) \<Rightarrow> p = 1 | _ \<Rightarrow> False" by code_simp
  then show "on_cancel (deferreds ?s ! 1) = Some (Chain 1)" by (auto split: option.splits canceler.splits)
qed

text \<open>A progback settles: what it returns resolves the promise that \<^verbatim>\<open>then\<close> made, although the one waited for is open.\<close>

lemma progress_settles:
  "map (\<lambda>d. outcome_of d (snd (run_events 40
       [Call (Make None) Finish, Call (Await 0 (Some (Fun (\<lambda>v. Finish (Ret v)))) None None) Finish,
        Call (Notify 0 (Other (1 :: nat)) False) Finish] ()))) [0, 1] = [None, Some (Resolved, Other 1)]"
  by code_simp

end
