(* ===== verification/Mro.thy ===== *)
theory Mro
  imports Prelude "HOL-Library.AList" "HOL-Library.Sublist"
begin

text \<open>
  The order of classes that \<^verbatim>\<open>dojo/_base/declare\<close> computes (\<^verbatim>\<open>c3mro\<close>): every widget of the console
  is made by \<^verbatim>\<open>declare([WidgetBase, TemplatedMixin], ...)\<close>, and its methods are looked up along this
  order. The code enters the linearizations of the bases into a table of records with a counter of
  references and a list of references, and takes records without references from a stack. The records
  are the entries of an association list under the class's name, in the order they are made; they refer
  to each other by name. The loops are followed step by step and end on every table; that the result is
  an order that all bases agree with, and that there is none when the function refuses, is proved by
  counting references.
\<close>

section \<open>Classes\<close>

text \<open>A class is a constructor, given by a number; 0 stands for a value that is false. \<open>supers\<close> is what
  follows the class itself in \<^verbatim>\<open>_meta.bases\<close> of a class made by \<^verbatim>\<open>declare\<close>, and \<open>declared\<close> reads the own
  property \<^verbatim>\<open>declaredClass\<close> of its prototype; \<open>hidden\<close> and \<open>ctor\<close> are the fields of its \<^verbatim>\<open>_meta\<close>, its
  properties and its constructor. A prototype has properties of its own and the prototype it inherits
  from. A value is a function, a class, a constructor that \<^verbatim>\<open>declare\<close> puts in between, a function of
  \<^verbatim>\<open>Object.prototype\<close>, or a string.\<close>

type_synonym cls = nat

datatype val = Fn nat | Cls cls | Mid nat | Builtin string | Str string

record klass =
  callable :: bool
  supers :: "cls list option"
  hidden :: "string \<Rightarrow> val option"
  ctor :: val
  prototype :: nat

record proto =
  own :: "string \<Rightarrow> val option"
  up :: "nat option"

record classes =
  klass_of :: "cls \<Rightarrow> klass"
  counter :: nat
  next_cls :: cls
  proto_of :: "nat \<Rightarrow> proto"
  next_proto :: nat

definition over :: "(string \<Rightarrow> val option) \<Rightarrow> (string \<Rightarrow> val option) \<Rightarrow> string \<Rightarrow> val option" where
  "over f g n = (case g n of Some v \<Rightarrow> Some v | None \<Rightarrow> f n)"

definition upd :: "('a \<Rightarrow> 'b) \<Rightarrow> 'a \<Rightarrow> 'b \<Rightarrow> 'a \<Rightarrow> 'b" where
  "upd f a b x = (if x = a then b else f x)"

lemma upd_upd [simp]: "upd f a b = f(a := b)"
  by (auto simp: upd_def)

lemma over_empty [simp]: "over (\<lambda>_. None) f = f"
  by (rule ext) (simp add: over_def split: option.splits)

definition set_props :: "nat \<Rightarrow> (string \<Rightarrow> val option) \<Rightarrow> classes \<Rightarrow> classes" where
  "set_props p props w = w\<lparr>proto_of := upd (proto_of w) p ((proto_of w p)\<lparr>own := over (own (proto_of w p)) props\<rparr>)\<rparr>"

definition declared :: "classes \<Rightarrow> cls \<Rightarrow> string option" where
  "declared w c = (case own (proto_of w (prototype (klass_of w c))) ''declaredClass'' of
     Some (Str n) \<Rightarrow> Some n | _ \<Rightarrow> None)"

definition lin :: "classes \<Rightarrow> cls \<Rightarrow> cls list" where
  "lin w c = (case supers (klass_of w c) of Some bs \<Rightarrow> c # bs | None \<Rightarrow> [c])"

datatype declare_error =
    Unknown_mixin nat | Not_callable nat | Inconsistent

section \<open>The table of references\<close>

record crec =
  rec_count :: int
  rec_refs :: "string list"
  rec_cls :: cls

type_synonym names = "(string \<times> crec) list"

definition new_rec :: "cls \<Rightarrow> crec" where
  "new_rec c = \<lparr>rec_count = 0, rec_refs = [], rec_cls = c\<rparr>"

definition add_count :: "int \<Rightarrow> string \<Rightarrow> names \<Rightarrow> names" where
  "add_count d n = AList.map_entry n (\<lambda>r. r\<lparr>rec_count := rec_count r + d\<rparr>)"

definition add_ref :: "string \<Rightarrow> string \<Rightarrow> names \<Rightarrow> names" where
  "add_ref n t = AList.map_entry n (\<lambda>r. r\<lparr>rec_refs := rec_refs r @ [t]\<rparr>)"

text \<open>A prototype without a name of its own gets one from the counter.\<close>

definition rec_name :: "cls \<Rightarrow> classes \<Rightarrow> string \<times> classes" where
  "rec_name c w = (case declared w c of
     Some n \<Rightarrow> (n, w)
   | None \<Rightarrow> (let n = ''uniqName_'' @ nat_str (counter w) in
       (n, (set_props (prototype (klass_of w c)) (map_of [(''declaredClass'', Str n)]) w)\<lparr>counter := Suc (counter w)\<rparr>)))"

record table =
  world :: classes
  names :: names
  cls_count :: int

text \<open>One linearization, from its last class to its first; \<open>prev\<close> is the record before.\<close>

definition file_class :: "string \<Rightarrow> cls \<Rightarrow> table \<Rightarrow> table" where
  "file_class n c s =
     (if map_of (names s) n = None
      then s\<lparr>names := names s @ [(n, new_rec c)], cls_count := cls_count s + 1\<rparr> else s)"

definition refer :: "string \<Rightarrow> string option \<Rightarrow> table \<Rightarrow> table" where
  "refer n prev s = (case prev of
     None \<Rightarrow> s
   | Some t \<Rightarrow> if t = n then s else s\<lparr>names := add_count 1 t (add_ref n t (names s))\<rparr>)"

fun enter :: "cls list \<Rightarrow> string option \<Rightarrow> table \<Rightarrow> string option \<times> table" where
  "enter [] prev s = (prev, s)"
| "enter (c # cs) prev s =
     (let (n, w) = rec_name c (world s)
      in enter cs (Some n) (refer n prev (file_class n c (s\<lparr>world := w\<rparr>))))"

text \<open>All bases in turn; the root refers to the first class of each.\<close>

fun gather :: "nat \<Rightarrow> cls list \<Rightarrow> string list \<Rightarrow> table \<Rightarrow> (declare_error + string list) \<times> table" where
  "gather i [] roots s = (Inr roots, s)"
| "gather i (b # bs) roots s =
     (if b = 0 then (Inl (Unknown_mixin i), s)
      else if \<not> callable (klass_of (world s) b) then (Inl (Not_callable i), s)
      else (case enter (rev (lin (world s) b)) None s of
          (Some t, s1) \<Rightarrow> gather (Suc i) bs (roots @ [t]) (s1\<lparr>names := add_count 1 t (names s1)\<rparr>)
        | (None, s1) \<Rightarrow> gather (Suc i) bs roots s1))"

section \<open>Taking classes without references\<close>

definition weight :: "names \<Rightarrow> nat" where
  "weight nm = (\<Sum>e \<leftarrow> nm. nat (rec_count (snd e)))"

text \<open>The class, once in the result, drops its references; as long as it has a single one and this
  was the last to it, the class it refers to follows at once (the optimization of the code).\<close>

function follow :: "names \<Rightarrow> string list \<Rightarrow> cls list \<Rightarrow> int \<Rightarrow> names \<times> string list \<times> cls list \<times> int" where
  "follow nm [t] res k =
     (case map_of nm t of
        None \<Rightarrow> (nm, [], res, k)
      | Some r \<Rightarrow> (if rec_count r - 1 \<noteq> 0 then (add_count (-1) t nm, [], res, k)
          else follow (add_count (-1) t nm) (rec_refs r) (res @ [rec_cls r]) (k - 1)))"
| "follow nm [] res k = (nm, [], res, k)"
| "follow nm (t # u # ts) res k = (nm, t # u # ts, res, k)"
  by pat_completeness auto

fun release :: "string list \<Rightarrow> names \<Rightarrow> (cls \<times> string list) list \<Rightarrow> names \<times> (cls \<times> string list) list" where
  "release [] nm st = (nm, st)"
| "release (t # ts) nm st =
     (case map_of nm t of
        None \<Rightarrow> (nm, st)
      | Some r \<Rightarrow> release ts (add_count (-1) t nm)
          (if rec_count r - 1 = 0 then (rec_cls r, rec_refs r) # st else st))"

lemma weight_down:
  "map_of nm t = Some r \<Longrightarrow>
     weight (add_count (-1) t nm) + (if rec_count r \<ge> 1 then 1 else 0) = weight nm"
  by (induction nm) (auto simp: weight_def add_count_def)

termination follow
  by (relation "measure (\<lambda>(nm, ts, res, k). weight nm)") (auto dest!: weight_down)

lemma weight_follow: "weight (fst (follow nm ts res k)) \<le> weight nm"
proof (induction nm ts res k rule: follow.induct)
  case (1 nm t res k)
  show ?case
  proof (cases "map_of nm t")
    case (Some r)
    have "weight (add_count (-1) t nm) \<le> weight nm" using weight_down [OF Some] by (auto split: if_splits)
    with Some 1 show ?thesis by fastforce
  qed simp
qed auto

lemma weight_release:
  "release ts nm st = (nm', st') \<Longrightarrow> weight nm' + length st' \<le> weight nm + length st"
proof (induction ts nm st arbitrary: nm' st' rule: release.induct)
  case (2 t ts nm st)
  show ?case
  proof (cases "map_of nm t")
    case (Some r)
    from 2 Some have "weight nm' + length st' \<le>
        weight (add_count (-1) t nm) + length (if rec_count r - 1 = 0 then (rec_cls r, rec_refs r) # st else st)"
      by auto
    also have "\<dots> \<le> weight nm + length st" using weight_down [OF Some] by (auto split: if_splits)
    finally show ?thesis .
  qed (use 2 in auto)
qed auto

text \<open>The stack of roots, its top first; the result and the number of classes still outside it.\<close>

function unwind :: "names \<Rightarrow> (cls \<times> string list) list \<Rightarrow> cls list \<Rightarrow> int \<Rightarrow> cls list \<times> int" where
  "unwind nm [] res k = (res, k)"
| "unwind nm ((c, ts) # st) res k =
     (let (nm1, ts1, res1, k1) = follow nm ts (res @ [c]) (k - 1);
          (nm2, st2) = release ts1 nm1 st
      in unwind nm2 st2 res1 k1)"
  by pat_completeness auto
termination
proof (relation "measure (\<lambda>(nm, st, res, k). weight nm + length st)", goal_cases)
  case (2 nm c ts st res k x nm1 y ts1 z res1 k1 v nm2 st2)
  then have f: "follow nm ts (res @ [c]) (k - 1) = (nm1, ts1, res1, k1)"
    and r: "release ts1 nm1 st = (nm2, st2)" by auto
  have "weight nm1 \<le> weight nm" using weight_follow [of nm ts "res @ [c]" "k - 1"] f by simp
  with weight_release [OF r] show ?case by simp
qed simp

text \<open>The result without its first place, and what the code puts into that: how many of the last
  classes are the linearization of the first base.\<close>

definition offset :: "classes \<Rightarrow> cls list \<Rightarrow> cls list \<Rightarrow> nat" where
  "offset w bases result = (case bases of
     [] \<Rightarrow> 0
   | b # _ \<Rightarrow> (case supers (klass_of w b) of
       Some bs \<Rightarrow> if length bs < length result \<and> result ! (length result - length (b # bs)) = b
                  then length (b # bs) else 1
     | None \<Rightarrow> 1))"

definition c3mro :: "cls list \<Rightarrow> classes \<Rightarrow> (declare_error + nat \<times> cls list) \<times> classes" where
  "c3mro bases w =
     (case gather 0 bases [] \<lparr>world = w, names = [], cls_count = 1\<rparr> of
        (Inl e, s) \<Rightarrow> (Inl e, world s)
      | (Inr roots, s) \<Rightarrow>
          (case unwind (names s) [(0, roots)] [] (cls_count s) of (res, k) \<Rightarrow>
             if k \<noteq> 0 then (Inl Inconsistent, world s)
             else (Inr (offset (world s) bases res, tl res), world s)))"


section \<open>The optimization changes nothing\<close>

function plain :: "names \<Rightarrow> (cls \<times> string list) list \<Rightarrow> cls list \<Rightarrow> int \<Rightarrow> cls list \<times> int" where
  "plain nm [] res k = (res, k)"
| "plain nm ((c, ts) # st) res k =
     (let (nm2, st2) = release ts nm st in plain nm2 st2 (res @ [c]) (k - 1))"
  by pat_completeness auto
termination
  by (relation "measure (\<lambda>(nm, st, res, k). weight nm + length st)")
    (auto dest!: weight_release [OF sym])

lemma follow_plain:
  "follow nm ts res k = (nm1, ts1, res1, k1) \<Longrightarrow> release ts1 nm1 st = (nm2, st2) \<Longrightarrow>
     release ts nm st = (nm3, st3) \<Longrightarrow> plain nm3 st3 res k = plain nm2 st2 res1 k1"
proof (induction nm ts res k arbitrary: nm3 st3 rule: follow.induct)
  case (1 nm t res k)
  show ?case
  proof (cases "map_of nm t")
    case None
    with 1 show ?thesis by auto
  next
    case (Some r)
    show ?thesis
    proof (cases "rec_count r - 1 = 0")
      case True
      obtain nm4 st4 where r: "release (rec_refs r) (add_count (-1) t nm) st = (nm4, st4)" by force
      from 1 Some True r have "plain nm4 st4 (res @ [rec_cls r]) (k - 1) = plain nm2 st2 res1 k1" by auto
      with 1 Some True r show ?thesis by auto
    qed (use 1 Some in auto)
  qed
qed auto

lemma unwind_plain: "unwind nm st res k = plain nm st res k"
proof (induction nm st res k rule: unwind.induct)
  case (2 nm c ts st res k)
  obtain nm1 ts1 res1 k1 where f: "follow nm ts (res @ [c]) (k - 1) = (nm1, ts1, res1, k1)"
    by (metis prod_cases4)
  obtain nm2 st2 where r: "release ts1 nm1 st = (nm2, st2)" by force
  obtain nm3 st3 where r3: "release ts nm st = (nm3, st3)" by force
  from 2 f r have "unwind nm ((c, ts) # st) res k = plain nm2 st2 res1 k1" by simp
  also have "\<dots> = plain nm3 st3 (res @ [c]) (k - 1)" by (rule follow_plain [OF f r r3, symmetric])
  finally show ?case using r3 by simp
qed simp

section \<open>The table as a graph\<close>

text \<open>Classes with names of their own: \<open>tab\<close> is the table with the classes \<open>C\<close>, the references \<open>E\<close>
  and the counts \<open>f\<close>.\<close>

definition succs :: "(cls \<times> cls) list \<Rightarrow> cls \<Rightarrow> cls list" where
  "succs E c = map snd (filter (\<lambda>e. fst e = c) E)"

definition tab :: "(cls \<Rightarrow> string) \<Rightarrow> cls list \<Rightarrow> (cls \<times> cls) list \<Rightarrow> (cls \<Rightarrow> int) \<Rightarrow> names" where
  "tab nm C E f = map (\<lambda>c. (nm c, \<lparr>rec_count = f c, rec_refs = map nm (succs E c), rec_cls = c\<rparr>)) C"

lemma map_of_tab:
  "inj_on nm (insert c (set C)) \<Longrightarrow> map_of (tab nm C E f) (nm c) =
     (if c \<in> set C then Some \<lparr>rec_count = f c, rec_refs = map nm (succs E c), rec_cls = c\<rparr> else None)"
  by (induction C) (auto simp: tab_def inj_on_def)

lemma map_entry_map:
  "distinct C \<Longrightarrow> inj_on nm (insert c (set C)) \<Longrightarrow>
     AList.map_entry (nm c) g (map (\<lambda>x. (nm x, h x)) C) = map (\<lambda>x. (nm x, if x = c then g (h x) else h x)) C"
  by (induction C) (auto simp: inj_on_def)

lemma add_count_tab:
  assumes "distinct C" "inj_on nm (insert c (set C))"
  shows "add_count d (nm c) (tab nm C E f) = tab nm C E (f(c := f c + d))"
  by (simp add: add_count_def tab_def map_entry_map [OF assms])

lemma add_ref_tab:
  assumes "distinct C" "inj_on nm (insert c (set C))"
  shows "add_ref (nm c) (nm t) (tab nm C E f) = tab nm C (E @ [(c, t)]) f"
  by (simp add: add_ref_def tab_def map_entry_map [OF assms] succs_def)

lemma tab_snoc:
  "f c = 0 \<Longrightarrow> \<forall>e \<in> set E. fst e \<noteq> c \<Longrightarrow> tab nm C E f @ [(nm c, new_rec c)] = tab nm (C @ [c]) E f"
  by (simp add: tab_def new_rec_def succs_def filter_empty_conv)

definition mro_node :: "(cls \<Rightarrow> string) \<Rightarrow> (cls \<times> cls) list \<Rightarrow> cls \<Rightarrow> cls \<times> string list" where
  "mro_node nm E c = (c, map nm (succs E c))"

lemma release_tab:
  assumes "distinct C" "inj_on nm (set C)" "set ts \<subseteq> set C" "\<forall>c. int (count_list ts c) \<le> f c"
  shows "\<exists>new. release (map nm ts) (tab nm C E f) (map (mro_node nm E) st) =
      (tab nm C E (\<lambda>c. f c - int (count_list ts c)), map (mro_node nm E) (new @ st)) \<and>
    distinct new \<and> set new = {c \<in> set ts. f c = int (count_list ts c)}"
  using assms(3,4)
proof (induction ts arbitrary: f st)
  case Nil
  then show ?case by (intro exI [of _ "[]"]) simp
next
  case (Cons t ts)
  let ?f = "f(t := f t - 1)" and ?st = "if f t - 1 = 0 then t # st else st"
  from Cons.prems have i: "inj_on nm (insert t (set C))" and t: "t \<in> set C"
    using assms(2) by (auto simp: insert_absorb)
  have le: "\<forall>c. int (count_list ts c) \<le> ?f c"
  proof
    fix c
    from Cons.prems(2) have "int (count_list (t # ts) c) \<le> f c" by blast
    then show "int (count_list ts c) \<le> ?f c" by (auto split: if_splits)
  qed
  from Cons.prems have sub: "set ts \<subseteq> set C" by simp
  from Cons.IH [OF sub le, of ?st] obtain new where new:
    "release (map nm ts) (tab nm C E ?f) (map (mro_node nm E) ?st) =
      (tab nm C E (\<lambda>c. ?f c - int (count_list ts c)), map (mro_node nm E) (new @ ?st))"
    "distinct new" "set new = {c \<in> set ts. ?f c = int (count_list ts c)}" by blast
  have step: "release (map nm (t # ts)) (tab nm C E f) (map (mro_node nm E) st) =
      release (map nm ts) (tab nm C E ?f) (map (mro_node nm E) ?st)"
    using t by (simp add: map_of_tab [OF i] add_count_tab [OF assms(1) i] mro_node_def)
  have eq: "(\<lambda>c. ?f c - int (count_list ts c)) = (\<lambda>c. f c - int (count_list (t # ts) c))" by auto
  have full: "release (map nm (t # ts)) (tab nm C E f) (map (mro_node nm E) st) =
      (tab nm C E (\<lambda>c. f c - int (count_list (t # ts) c)), map (mro_node nm E) (new @ ?st))"
    using step new(1) unfolding eq by (rule trans)
  have mem: "c \<in> set (t # ts) \<and> f c = int (count_list (t # ts) c) \<longleftrightarrow>
      (if c = t then f t - 1 = int (count_list ts t) else c \<in> set ts \<and> ?f c = int (count_list ts c))" for c
    by auto
  show ?case
  proof (cases "f t - 1 = 0")
    case True
    from le have "int (count_list ts t) \<le> 0" using True by (metis fun_upd_same)
    then have t0: "t \<notin> set ts" by (simp add: count_list_0_iff)
    have "set (new @ [t]) = {c. c \<in> set (t # ts) \<and> f c = int (count_list (t # ts) c)}"
      unfolding mem using True t0 new(3) by auto
    moreover have "distinct (new @ [t])" using new(2,3) t0 by simp
    moreover have "new @ ?st = (new @ [t]) @ st" using True by simp
    ultimately show ?thesis using full by (intro exI [of _ "new @ [t]"] conjI) (simp_all only: mem_Collect_eq)
  next
    case False
    have t1: "f t - 1 = int (count_list ts t) \<Longrightarrow> t \<in> set ts" using False by (metis count_list_0_iff of_nat_0)
    have "set new = {c. c \<in> set (t # ts) \<and> f c = int (count_list (t # ts) c)}"
      unfolding mem new(3) using t1 by auto
    moreover have "new @ ?st = new @ st" using False by simp
    ultimately show ?thesis using full new(2) by (intro exI [of _ new] conjI) (simp_all only: mem_Collect_eq)
  qed
qed

section \<open>Taking classes in order\<close>

text \<open>\<open>topo E xs\<close>: a class comes after all that refer to it. The invariant of the loop: what is taken is
  in order, the counts are the references from classes not yet taken, and a count of zero means that the
  class is taken or on the stack.\<close>

definition topo :: "(cls \<times> cls) list \<Rightarrow> cls list \<Rightarrow> bool" where
  "topo E xs \<longleftrightarrow> (\<forall>us c vs a. xs = us @ c # vs \<longrightarrow> (a, c) \<in> set E \<longrightarrow> a \<in> set us)"

definition refs_from :: "(cls \<times> cls) list \<Rightarrow> cls list \<Rightarrow> cls \<Rightarrow> int" where
  "refs_from E res c = int (length (filter (\<lambda>(a, b). b = c \<and> a \<notin> set res) E))"

definition loop_inv :: "cls list \<Rightarrow> (cls \<times> cls) list \<Rightarrow> (cls \<Rightarrow> int) \<Rightarrow> cls list \<Rightarrow> cls list \<Rightarrow> bool" where
  "loop_inv C E f st res \<longleftrightarrow> distinct (res @ st) \<and> set (res @ st) \<subseteq> set C \<and>
     (\<forall>c. f c = refs_from E res c) \<and> (\<forall>c \<in> set C. f c = 0 \<longleftrightarrow> c \<in> set (res @ st)) \<and> topo E res"

lemma topo_snoc: "topo E xs \<Longrightarrow> \<forall>a. (a, c) \<in> set E \<longrightarrow> a \<in> set xs \<Longrightarrow> topo E (xs @ [c])"
  unfolding topo_def
proof (intro allI impI)
  fix us x vs a
  assume t: "\<forall>us c vs a. xs = us @ c # vs \<longrightarrow> (a, c) \<in> set E \<longrightarrow> a \<in> set us"
    and c: "\<forall>a. (a, c) \<in> set E \<longrightarrow> a \<in> set xs" and eq: "xs @ [c] = us @ x # vs" and e: "(a, x) \<in> set E"
  show "a \<in> set us"
  proof (cases vs rule: rev_cases)
    case Nil
    with eq c e show ?thesis by simp
  next
    case (snoc ws y)
    with eq have "xs = us @ x # ws" by simp
    with t e show ?thesis by blast
  qed
qed

lemma refs_from_snoc:
  "c \<notin> set res \<Longrightarrow> refs_from E res b - int (count_list (succs E c) b) = refs_from E (res @ [c]) b"
  by (induction E) (auto simp: refs_from_def succs_def)

lemma refs_from_0: "refs_from E res c = 0 \<longleftrightarrow> (\<forall>a. (a, c) \<in> set E \<longrightarrow> a \<in> set res)"
  by (auto simp: refs_from_def filter_empty_conv)

lemma count_succs_le: "c \<notin> set res \<Longrightarrow> int (count_list (succs E c) b) \<le> refs_from E res b"
  using refs_from_snoc [of c res E b] by (simp add: refs_from_def)

lemma succs_edges: "set (succs E c) = {b. (c, b) \<in> set E}"
  by (force simp: succs_def)

lemma loop_inv_step:
  assumes inv: "loop_inv C E f (c # st) res" and E: "set E \<subseteq> set C \<times> set C"
    and new: "distinct new" "set new = {b \<in> set (succs E c). f b = int (count_list (succs E c) b)}"
  shows "loop_inv C E (\<lambda>b. f b - int (count_list (succs E c) b)) (new @ st) (res @ [c])"
proof -
  let ?f = "\<lambda>b. f b - int (count_list (succs E c) b)"
  from inv have d: "distinct (res @ c # st)" and C: "set (res @ c # st) \<subseteq> set C"
    and f: "\<And>b. f b = refs_from E res b" and z: "\<And>b. b \<in> set C \<Longrightarrow> f b = 0 \<longleftrightarrow> b \<in> set (res @ c # st)"
    and t: "topo E res" by (auto simp: loop_inv_def)
  from d have c: "c \<notin> set res" by simp
  have f': "?f b = refs_from E (res @ [c]) b" for b using refs_from_snoc [OF c] by (simp add: f)
  have pos: "b \<in> set (succs E c) \<Longrightarrow> f b \<noteq> 0" for b
    using count_succs_le [OF c, of E b] by (auto simp: f) (metis count_list_0_iff)
  have sub: "b \<in> set (succs E c) \<Longrightarrow> b \<in> set C" for b using E by (auto simp: succs_edges)
  have fresh: "b \<in> set new \<Longrightarrow> b \<notin> set (res @ c # st)" for b using pos z sub new(2) by blast
  have z': "?f b = 0 \<longleftrightarrow> b \<in> set ((res @ [c]) @ new @ st)" if b: "b \<in> set C" for b
  proof (cases "b \<in> set (succs E c)")
    case True
    with pos z [OF b] have "b \<notin> set (res @ c # st)" by blast
    with True show ?thesis by (auto simp: new(2))
  next
    case False
    then have "count_list (succs E c) b = 0" by (simp add: count_list_0_iff)
    with z [OF b] False new(2) show ?thesis by auto
  qed
  have "f c = 0" using z [of c] C by simp
  then have "topo E (res @ [c])" by (intro topo_snoc [OF t]) (simp add: f refs_from_0)
  moreover have "distinct ((res @ [c]) @ new @ st)" using d new(1) fresh by auto
  moreover have "set ((res @ [c]) @ new @ st) \<subseteq> set C" using C new(2) sub by auto
  ultimately show ?thesis using f' z' by (auto simp: loop_inv_def)
qed

lemma plain_loop:
  assumes C: "distinct C" "inj_on nm (set C)" "set E \<subseteq> set C \<times> set C"
    and "loop_inv C E f st res"
  shows "\<exists>f' res'. plain (tab nm C E f) (map (mro_node nm E) st) (z @ res) k =
      (z @ res', k - (int (length res') - int (length res))) \<and> loop_inv C E f' [] res'"
  using assms(4)
proof (induction "weight (tab nm C E f) + length st" arbitrary: f st res k rule: less_induct)
  case less
  show ?case
  proof (cases st)
    case Nil
    with less.prems show ?thesis by (intro exI [of _ f] exI [of _ res]) simp
  next
    case (Cons c st1)
    from less.prems Cons have c: "c \<notin> set res" and f: "\<forall>b. f b = refs_from E res b" by (auto simp: loop_inv_def)
    have sub: "set (succs E c) \<subseteq> set C" using C(3) by (auto simp: succs_edges)
    have le: "\<forall>b. int (count_list (succs E c) b) \<le> f b" using count_succs_le [OF c] f by simp
    from release_tab [OF C(1,2) sub le, of E st1] obtain new where new:
      "release (map nm (succs E c)) (tab nm C E f) (map (mro_node nm E) st1) =
        (tab nm C E (\<lambda>b. f b - int (count_list (succs E c) b)), map (mro_node nm E) (new @ st1))"
      "distinct new" "set new = {b \<in> set (succs E c). f b = int (count_list (succs E c) b)}" by blast
    let ?f = "\<lambda>b. f b - int (count_list (succs E c) b)"
    have inv: "loop_inv C E ?f (new @ st1) (res @ [c])"
      using less.prems Cons new(2,3) by (intro loop_inv_step [OF _ C(3)]) auto
    have w: "weight (tab nm C E ?f) + length (new @ st1) < weight (tab nm C E f) + length st"
      using weight_release [OF new(1)] Cons by simp
    from less.hyps [OF w inv, of "k - 1"] obtain f' res' where r:
      "plain (tab nm C E ?f) (map (mro_node nm E) (new @ st1)) (z @ res @ [c]) (k - 1) =
        (z @ res', k - 1 - (int (length res') - int (length (res @ [c]))))" "loop_inv C E f' [] res'"
      by blast
    have "plain (tab nm C E f) (map (mro_node nm E) st) (z @ res) k =
        plain (tab nm C E ?f) (map (mro_node nm E) (new @ st1)) (z @ res @ [c]) (k - 1)"
      using Cons new(1) by (simp add: mro_node_def)
    with r show ?thesis by (intro exI [of _ f'] exI [of _ res']) simp
  qed
qed


section \<open>What the bases put into the table\<close>

fun pairs_of :: "cls option \<Rightarrow> cls list \<Rightarrow> (cls \<times> cls) list" where
  "pairs_of q [] = []"
| "pairs_of None (c # cs) = pairs_of (Some c) cs"
| "pairs_of (Some q) (c # cs) = (c, q) # pairs_of (Some c) cs"

fun add_new :: "cls list \<Rightarrow> cls list \<Rightarrow> cls list" where
  "add_new [] C = C"
| "add_new (c # cs) C = add_new cs (if c \<in> set C then C else C @ [c])"

lemma add_new_set [simp]: "set (add_new cs C) = set cs \<union> set C"
  by (induction cs arbitrary: C) auto

lemma add_new_distinct [simp]: "distinct C \<Longrightarrow> distinct (add_new cs C)"
  by (induction cs arbitrary: C) auto

lemma pairs_of_sub: "set (pairs_of q cs) \<subseteq> set cs \<times> (set_option q \<union> set cs)"
  by (induction q cs rule: pairs_of.induct) auto

definition all_refs :: "(cls \<times> cls) list \<Rightarrow> cls list \<Rightarrow> cls \<Rightarrow> int" where
  "all_refs E T c = refs_from E [] c + int (count_list T c)"

lemma all_refs_edge: "(all_refs E T)(q := all_refs E T q + 1) = all_refs (E @ [(c, q)]) T"
  by (auto simp: all_refs_def refs_from_def)

lemma all_refs_top: "(all_refs E T)(q := all_refs E T q + 1) = all_refs E (T @ [q])"
  by (auto simp: all_refs_def)

lemma all_refs_out: "set E \<subseteq> A \<times> A \<Longrightarrow> set T \<subseteq> A \<Longrightarrow> c \<notin> A \<Longrightarrow> all_refs E T c = 0"
proof -
  assume a: "set E \<subseteq> A \<times> A" "set T \<subseteq> A" "c \<notin> A"
  then have "filter (\<lambda>(a, b). b = c \<and> a \<notin> set []) E = []" by (auto simp: filter_empty_conv)
  moreover have "count_list T c = 0" using a by (auto simp: count_list_0_iff)
  ultimately show ?thesis unfolding all_refs_def refs_from_def by simp
qed

definition named :: "(cls \<Rightarrow> string) \<Rightarrow> cls set \<Rightarrow> classes \<Rightarrow> bool" where
  "named nm U w \<longleftrightarrow> inj_on nm U \<and> (\<forall>c \<in> U. declared w c = Some (nm c))"

lemma named_inj: "named nm U w \<Longrightarrow> A \<subseteq> U \<Longrightarrow> inj_on nm A"
  by (auto simp: named_def intro: inj_on_subset)

definition table_of :: "(cls \<Rightarrow> string) \<Rightarrow> classes \<Rightarrow> cls list \<Rightarrow> (cls \<times> cls) list \<Rightarrow> cls list \<Rightarrow> table" where
  "table_of nm w C E T =
     \<lparr>world = w, names = tab nm C E (all_refs E T), cls_count = 1 + int (length C)\<rparr>"

lemma enter_table:
  assumes n: "named nm U w"
  shows "set cs \<subseteq> U \<Longrightarrow> set C \<subseteq> U \<Longrightarrow> distinct C \<Longrightarrow> set E \<subseteq> set C \<times> set C \<Longrightarrow> set T \<subseteq> set C \<Longrightarrow>
      set_option q \<subseteq> set C \<Longrightarrow> distinct cs \<Longrightarrow> set_option q \<inter> set cs = {} \<Longrightarrow>
    enter cs (map_option nm q) (table_of nm w C E T) =
      (map_option nm (if cs = [] then q else Some (last cs)),
       table_of nm w (add_new cs C) (E @ pairs_of q cs) T)"
proof (induction cs arbitrary: q C E)
  case Nil
  then show ?case by simp
next
  case (Cons c cs)
  from Cons.prems n have cU: "c \<in> U" and nc: "rec_name c w = (nm c, w)"
    and ic: "inj_on nm (insert c (set C))"
    using named_inj [OF n, of "insert c (set C)"] by (auto simp: named_def rec_name_def)
  let ?C = "if c \<in> set C then C else C @ [c]"
  have E: "set E \<subseteq> set ?C \<times> set ?C" and T: "set T \<subseteq> set ?C" and dC: "distinct ?C" and CU: "set ?C \<subseteq> U"
    and q: "set_option q \<subseteq> set ?C" using Cons.prems cU by auto
  have fr: "c \<notin> set C \<Longrightarrow> \<forall>e \<in> set E. fst e \<noteq> c" using Cons.prems(4) by auto
  have s1: "file_class (nm c) c (table_of nm w C E T) = table_of nm w ?C E T"
    using Cons.prems fr tab_snoc [of "all_refs E T" c E nm C] all_refs_out [of E "set C" T c]
    by (auto simp: table_of_def map_of_tab [OF ic] file_class_def)
  have e: "enter (c # cs) p (table_of nm w C E T) =
      enter cs (map_option nm (Some c)) (refer (nm c) p (table_of nm w ?C E T))" for p
    using nc s1 by (simp add: table_of_def [of nm w C])
  show ?case
  proof (cases q)
    case None
    have "enter cs (map_option nm (Some c)) (table_of nm w ?C E T) =
        (map_option nm (if cs = [] then Some c else Some (last cs)),
         table_of nm w (add_new cs ?C) (E @ pairs_of (Some c) cs) T)"
      using Cons.prems by (intro Cons.IH E T dC CU) auto
    then show ?thesis using None e [of None] by (simp add: refer_def del: enter.simps)
  next
    case (Some p)
    then have pC: "p \<in> set C" and pc: "p \<noteq> c" using Cons.prems by auto
    then have np: "nm p \<noteq> nm c" using ic by (auto simp: inj_on_def)
    have ip: "inj_on nm (insert p (set ?C))" and ic': "inj_on nm (insert c (set ?C))"
      using pC cU CU named_inj [OF n, of "insert p (set ?C)"] named_inj [OF n, of "insert c (set ?C)"]
      by (simp_all only: insert_subset subset_trans subsetD simp_thms) (use Cons.prems in blast)
    have s2: "refer (nm c) (Some (nm p)) (table_of nm w ?C E T) = table_of nm w ?C (E @ [(c, p)]) T"
      using np by (simp add: refer_def table_of_def add_ref_tab [OF dC ic'] add_count_tab [OF dC ip] all_refs_edge [of E T p c])
    have "enter cs (map_option nm (Some c)) (table_of nm w ?C (E @ [(c, p)]) T) =
        (map_option nm (if cs = [] then Some c else Some (last cs)),
         table_of nm w (add_new cs ?C) ((E @ [(c, p)]) @ pairs_of (Some c) cs) T)"
      using Cons.prems E pC by (intro Cons.IH T dC CU) auto
    then show ?thesis using Some e [of "Some (nm p)"] s2 by (simp del: enter.simps)
  qed
qed

definition lins :: "classes \<Rightarrow> cls list \<Rightarrow> cls set" where
  "lins w bs = (\<Union>b \<in> set bs. set (lin w b))"

fun gathered :: "classes \<Rightarrow> cls list \<Rightarrow> cls list \<times> (cls \<times> cls) list \<Rightarrow> cls list \<times> (cls \<times> cls) list" where
  "gathered w [] (C, E) = (C, E)"
| "gathered w (b # bs) (C, E) = gathered w bs (add_new (rev (lin w b)) C, E @ pairs_of None (rev (lin w b)))"

lemma lin_Cons: "\<exists>bs. lin w b = b # bs"
  by (simp add: lin_def split: option.splits)

lemma gather_table:
  assumes n: "named nm U w"
  shows "\<forall>b \<in> set bs. b \<noteq> 0 \<and> callable (klass_of w b) \<and> distinct (lin w b) \<Longrightarrow> lins w bs \<subseteq> U \<Longrightarrow>
      set C \<subseteq> U \<Longrightarrow> distinct C \<Longrightarrow> set E \<subseteq> set C \<times> set C \<Longrightarrow> set T \<subseteq> set C \<Longrightarrow>
    gather i bs (map nm T) (table_of nm w C E T) =
      (case gathered w bs (C, E) of (C', E') \<Rightarrow> (Inr (map nm (T @ bs)), table_of nm w C' E' (T @ bs)))"
proof (induction bs arbitrary: i C E T)
  case Nil
  then show ?case by simp
next
  case (Cons b bs)
  let ?l = "rev (lin w b)" let ?C = "add_new ?l C" let ?E = "E @ pairs_of None ?l"
  obtain l where l: "lin w b = b # l" using lin_Cons by blast
  have U: "set (lin w b) \<subseteq> U" using Cons.prems(2) by (auto simp: lins_def)
  have e: "enter ?l None (table_of nm w C E T) = (Some (nm b), table_of nm w ?C ?E T)"
    using enter_table [OF n, of ?l C E T None] Cons.prems U l by simp
  have bC: "b \<in> set ?C" using l by simp
  have E: "set ?E \<subseteq> set ?C \<times> set ?C" using Cons.prems(5) pairs_of_sub [of None ?l] by auto
  have dC: "distinct ?C" and CU: "set ?C \<subseteq> U" using Cons.prems U by auto
  have i: "inj_on nm (insert b (set ?C))" using named_inj [OF n CU] bC by (simp only: insert_absorb)
  have t: "(table_of nm w ?C ?E T)\<lparr>names := add_count 1 (nm b) (names (table_of nm w ?C ?E T))\<rparr> =
      table_of nm w ?C ?E (T @ [b])"
    by (simp add: table_of_def add_count_tab [OF dC i] all_refs_top)
  have "gather i (b # bs) (map nm T) (table_of nm w C E T) =
      gather (Suc i) bs (map nm (T @ [b])) (table_of nm w ?C ?E (T @ [b]))"
    using Cons.prems(1) e t by (simp add: table_of_def [of nm w C])
  also have "\<dots> = (case gathered w bs (?C, ?E) of (C', E') \<Rightarrow>
      (Inr (map nm ((T @ [b]) @ bs)), table_of nm w C' E' ((T @ [b]) @ bs)))"
    using Cons.prems bC by (intro Cons.IH CU dC E) (auto simp: lins_def)
  finally show ?case by simp
qed


lemma pairs_of_adjacent:
  "(a, b) \<in> set (pairs_of q cs) \<longleftrightarrow> (\<exists>us vs. (case q of Some p \<Rightarrow> [p] | None \<Rightarrow> []) @ cs = us @ b # a # vs)"
proof (induction q cs rule: pairs_of.induct)
  case (1 q)
  then show ?case by (auto split: option.splits simp: Cons_eq_append_conv)
next
  case (3 q c cs)
  have "(q # c # cs = us @ b # a # vs) \<longleftrightarrow>
      (us = [] \<and> q = b \<and> c = a \<and> cs = vs) \<or> (\<exists>us'. us = q # us' \<and> c # cs = us' @ b # a # vs)" for us vs
    by (cases us) auto
  then show ?case using 3 by auto
qed auto

definition adjacent :: "cls list \<Rightarrow> cls \<Rightarrow> cls \<Rightarrow> bool" where
  "adjacent l a b \<longleftrightarrow> (\<exists>us vs. l = us @ a # b # vs)"

lemma rev_split: "rev l = us @ b # a # vs \<longleftrightarrow> l = rev vs @ a # b # rev us"
  by (metis append.assoc append_Cons append_Nil rev.simps(2) rev_append rev_rev_ident)

lemma pairs_of_rev: "(a, b) \<in> set (pairs_of None (rev l)) \<longleftrightarrow> adjacent l a b"
proof -
  have "(\<exists>us vs. l = rev vs @ a # b # rev us) \<longleftrightarrow> (\<exists>us vs. l = us @ a # b # vs)"
    by (metis rev_rev_ident)
  then show ?thesis by (simp add: pairs_of_adjacent adjacent_def rev_split)
qed

lemma gathered_edges:
  "gathered w bs (C, E) = (C', E') \<Longrightarrow>
     (a, b) \<in> set E' \<longleftrightarrow> (a, b) \<in> set E \<or> (\<exists>x \<in> set bs. adjacent (lin w x) a b)"
  by (induction bs arbitrary: C E) (auto simp: pairs_of_rev)

lemma gathered_classes:
  "gathered w bs (C, E) = (C', E') \<Longrightarrow> distinct C \<Longrightarrow> set C' = set C \<union> lins w bs \<and> distinct C'"
  by (induction bs arbitrary: C E) (auto simp: lins_def)

lemma adjacent_Cons: "adjacent (x # l) a b \<longleftrightarrow> (l \<noteq> [] \<and> x = a \<and> hd l = b) \<or> adjacent l a b"
proof
  assume "adjacent (x # l) a b"
  then obtain us vs where "x # l = us @ a # b # vs" by (auto simp: adjacent_def)
  then show "(l \<noteq> [] \<and> x = a \<and> hd l = b) \<or> adjacent l a b" by (cases us) (auto simp: adjacent_def)
next
  assume "(l \<noteq> [] \<and> x = a \<and> hd l = b) \<or> adjacent l a b"
  then show "adjacent (x # l) a b"
  proof
    assume "l \<noteq> [] \<and> x = a \<and> hd l = b"
    then show ?thesis by (cases l) (auto simp: adjacent_def intro: exI [of _ "[]"])
  next
    assume "adjacent l a b"
    then obtain us vs where "l = us @ a # b # vs" by (auto simp: adjacent_def)
    then have "x # l = (x # us) @ a # b # vs" by simp
    then show ?thesis unfolding adjacent_def by blast
  qed
qed

lemma adjacent_set: "adjacent l a b \<Longrightarrow> a \<in> set l \<and> b \<in> set l"
  by (auto simp: adjacent_def)

section \<open>Orders and linearizations\<close>

lemma topo_subseq:
  assumes "topo E xs" "set l \<subseteq> set xs" "\<forall>a b. adjacent l a b \<longrightarrow> (a, b) \<in> set E"
  shows "subseq l xs"
  using assms(2,3)
proof (induction l)
  case (Cons a l)
  then have s: "subseq l xs" by (simp add: adjacent_Cons)
  show ?case
  proof (cases l)
    case Nil
    with Cons.prems show ?thesis by (simp add: subseq_singleton_left)
  next
    case (Cons b l')
    from s [unfolded Cons] obtain us vs where x: "xs = us @ b # vs" and l': "subseq l' vs"
      by (auto dest: list_emb_ConsD)
    have "(a, b) \<in> set E" using Cons.prems(2) Cons by (simp add: adjacent_Cons)
    with x assms(1) have "a \<in> set us" by (auto simp: topo_def)
    then have "subseq [a] us" by (simp add: subseq_singleton_left)
    moreover have "subseq (b # l') (b # vs)" using l' by simp
    ultimately have "subseq ([a] @ b # l') (us @ b # vs)" by (rule list_emb_append_mono)
    with x Cons show ?thesis by simp
  qed
qed simp

lemma distinct_split:
  "distinct (us @ b # vs) \<Longrightarrow> us @ b # vs = us' @ b # vs' \<Longrightarrow> us = us'"
proof (induction us arbitrary: us')
  case Nil
  then show ?case by (cases us') auto
next
  case (Cons u us)
  from Cons.prems obtain us1 where u: "us' = u # us1" by (cases us') auto
  with Cons.prems have "us @ b # vs = us1 @ b # vs'" by simp
  with Cons.IH [OF _ this] Cons.prems(1) u show ?case by simp
qed

lemma subseq_before:
  assumes "distinct xs" "subseq l xs" "adjacent l a b" "xs = us @ b # vs"
  shows "a \<in> set us"
proof -
  from assms(3) obtain u v where l: "l = u @ a # b # v" by (auto simp: adjacent_def)
  have "subseq [a, b] l" unfolding l by (simp add: list_emb_append2)
  then have "subseq [a, b] xs" using assms(2) by (rule subseq_order.trans)
  then obtain p q where x: "xs = p @ a # q" and "subseq [b] q" by (auto dest: list_emb_ConsD)
  then have "b \<in> set q" by (simp add: subseq_singleton_left)
  then obtain q1 q2 where "q = q1 @ b # q2" by (auto simp: in_set_conv_decomp)
  with x have x2: "xs = (p @ a # q1) @ b # q2" by simp
  with assms(1,4) have "us = p @ a # q1" by (metis distinct_split)
  then show ?thesis by simp
qed


lemma subseq_set: "subseq l xs \<Longrightarrow> x \<in> set l \<Longrightarrow> x \<in> set xs"
  by (auto dest: list_emb_set)

section \<open>The order that is found\<close>

lemma all_taken:
  assumes inv: "loop_inv C E f [] res" and d: "distinct C"
  shows "length res = length C \<longleftrightarrow> set res = set C"
proof -
  from inv have "distinct res" "set res \<subseteq> set C" by (auto simp: loop_inv_def)
  with d show ?thesis
    by (metis card_subset_eq distinct_card finite_set)
qed

lemma refused:
  assumes inv: "loop_inv C E f [] res" and E: "set E \<subseteq> set C \<times> set C" and ne: "set res \<noteq> set C"
    and xs: "distinct xs" "set C \<subseteq> set xs" "\<forall>(a, b) \<in> set E. \<forall>us vs. xs = us @ b # vs \<longrightarrow> a \<in> set us"
  shows False
proof -
  let ?U = "\<lambda>c. c \<in> set C \<and> c \<notin> set res"
  from inv ne have "\<exists>x \<in> set xs. ?U x" using xs(2) by (auto simp: loop_inv_def)
  then obtain us c vs where x: "xs = us @ c # vs" and c: "?U c" and us: "\<forall>y \<in> set us. \<not> ?U y"
    using split_list_first_prop [of xs ?U] by blast
  from inv c have "f c \<noteq> 0" "f c = refs_from E res c" by (auto simp: loop_inv_def)
  then obtain a where a: "(a, c) \<in> set E" "a \<notin> set res" by (auto simp: refs_from_0)
  with xs(3) x have "a \<in> set us" by blast
  with us a E show False by auto
qed

text \<open>After the root is taken the invariant holds: a class without references is the first of a base.\<close>

lemma start_inv:
  assumes g: "gathered w bs ([], []) = (C, E)" and d: "\<forall>b \<in> set bs. distinct (lin w b)"
    and new: "distinct new" "set new = {c \<in> set bs. all_refs E bs c = int (count_list bs c)}"
  shows "loop_inv C E (\<lambda>c. all_refs E bs c - int (count_list bs c)) new []"
proof -
  from gathered_classes [OF g] have C: "set C = lins w bs" by simp
  have E: "(a, b) \<in> set E \<longleftrightarrow> (\<exists>x \<in> set bs. adjacent (lin w x) a b)" for a b
    using gathered_edges [OF g, of a b] by simp
  have f: "all_refs E bs c - int (count_list bs c) = refs_from E [] c" for c by (simp add: all_refs_def)
  have bC: "b \<in> set bs \<Longrightarrow> b \<in> set C" for b using C lin_Cons [of w b] by (force simp: lins_def)
  have "refs_from E [] c = 0 \<longleftrightarrow> c \<in> set new" if c: "c \<in> set C" for c
  proof
    assume 0: "refs_from E [] c = 0"
    from c C obtain x where x: "x \<in> set bs" "c \<in> set (lin w x)" by (auto simp: lins_def)
    then obtain us vs where l: "lin w x = us @ c # vs" by (auto simp: in_set_conv_decomp)
    have "us = []"
    proof (rule ccontr)
      assume "us \<noteq> []"
      then obtain us' a where "us = us' @ [a]" by (metis rev_exhaust)
      with l have "adjacent (lin w x) a c" by (auto simp: adjacent_def)
      with x E have "(a, c) \<in> set E" by blast
      with 0 show False by (simp add: refs_from_0)
    qed
    with l lin_Cons [of w x] have "c = x" by auto
    with 0 x f [of c] show "c \<in> set new" by (simp add: new(2))
  next
    assume "c \<in> set new"
    then show "refs_from E [] c = 0" using f [of c] by (simp add: new(2))
  qed
  moreover have "set new \<subseteq> set C" using new(2) bC by auto
  ultimately show ?thesis using new(1) f by (simp add: loop_inv_def topo_def)
qed

definition agrees :: "classes \<Rightarrow> cls list \<Rightarrow> cls list \<Rightarrow> bool" where
  "agrees w bs xs \<longleftrightarrow> distinct xs \<and> (\<forall>b \<in> set bs. subseq (lin w b) xs)"

lemma c3mro_run:
  assumes n: "named nm (lins w bs) w"
    and b: "\<forall>b \<in> set bs. b \<noteq> 0 \<and> callable (klass_of w b) \<and> distinct (lin w b)"
  shows "(\<exists>xs. c3mro bs w = (Inr (offset w bs (0 # xs), xs), w) \<and> set xs = lins w bs \<and> agrees w bs xs) \<or>
    (c3mro bs w = (Inl Inconsistent, w) \<and> (\<nexists>xs. agrees w bs xs))"
proof -
  obtain C E where g: "gathered w bs ([], []) = (C, E)" by force
  from gathered_classes [OF g] have C: "set C = lins w bs" "distinct C" by simp_all
  have E: "(a, b) \<in> set E \<longleftrightarrow> (\<exists>x \<in> set bs. adjacent (lin w x) a b)" for a b
    using gathered_edges [OF g, of a b] by simp
  have EC: "set E \<subseteq> set C \<times> set C" using E adjacent_set by (fastforce simp: C lins_def)
  have i: "inj_on nm (set C)" using named_inj [OF n] C by simp
  have bsC: "set bs \<subseteq> set C"
  proof
    fix b assume "b \<in> set bs"
    moreover obtain l where "lin w b = b # l" using lin_Cons by blast
    ultimately show "b \<in> set C" unfolding C lins_def by fastforce
  qed
  have t0: "table_of nm w [] [] [] = \<lparr>world = w, names = [], cls_count = 1\<rparr>"
    by (simp add: table_of_def tab_def)
  have "gather 0 bs (map nm []) (table_of nm w [] [] []) =
      (case gathered w bs ([], []) of (C', E') \<Rightarrow> (Inr (map nm ([] @ bs)), table_of nm w C' E' ([] @ bs)))"
    by (rule gather_table [OF n b]) simp_all
  then have ga: "gather 0 bs [] \<lparr>world = w, names = [], cls_count = 1\<rparr> = (Inr (map nm bs), table_of nm w C E bs)"
    by (simp only: g t0 list.map append_Nil prod.case)
  have le: "\<forall>c. int (count_list bs c) \<le> all_refs E bs c" by (simp add: all_refs_def refs_from_def)
  from release_tab [OF C(2) i bsC le, of E "[]"] obtain new where new:
    "release (map nm bs) (tab nm C E (all_refs E bs)) [] =
       (tab nm C E (\<lambda>c. all_refs E bs c - int (count_list bs c)), map (mro_node nm E) new)"
    "distinct new" "set new = {c \<in> set bs. all_refs E bs c = int (count_list bs c)}" by auto
  have "loop_inv C E (\<lambda>c. all_refs E bs c - int (count_list bs c)) new []"
    using g b new(2,3) by (intro start_inv) auto
  from plain_loop [OF C(2) i EC this, of "[0]" "int (length C)"] obtain f res where p:
    "plain (tab nm C E (\<lambda>c. all_refs E bs c - int (count_list bs c))) (map (mro_node nm E) new) [0] (int (length C)) =
       (0 # res, int (length C) - int (length res))" and inv: "loop_inv C E f [] res" by auto
  have u: "unwind (tab nm C E (all_refs E bs)) [(0, map nm bs)] [] (1 + int (length C)) =
      (0 # res, int (length C) - int (length res))"
    using p new(1) by (simp add: unwind_plain)
  have run: "c3mro bs w = (if length res = length C then (Inr (offset w bs (0 # res), res), w)
      else (Inl Inconsistent, w))"
    using u by (auto simp: c3mro_def ga table_of_def)
  show ?thesis
  proof (cases "length res = length C")
    case True
    then have r: "set res = set C" using all_taken [OF inv C(2)] by simp
    have "subseq (lin w b) res" if "b \<in> set bs" for b
    proof (rule topo_subseq [of E])
      show "topo E res" using inv by (simp add: loop_inv_def)
      show "set (lin w b) \<subseteq> set res" using r C that by (auto simp: lins_def)
      show "\<forall>a c. adjacent (lin w b) a c \<longrightarrow> (a, c) \<in> set E" using E that by blast
    qed
    moreover have "distinct res" using inv by (simp add: loop_inv_def)
    ultimately show ?thesis using run True r C by (auto simp: agrees_def)
  next
    case False
    have "\<not> agrees w bs xs" for xs
    proof
      assume a: "agrees w bs xs"
      have ne: "set res \<noteq> set C" using False all_taken [OF inv C(2)] by blast
      have sub: "\<forall>b \<in> set bs. set (lin w b) \<subseteq> set xs" and d: "distinct xs"
        using a by (auto simp: agrees_def dest: subseq_set)
      then have "set C \<subseteq> set xs" unfolding C lins_def by blast
      moreover have "\<forall>(a, b) \<in> set E. \<forall>us vs. xs = us @ b # vs \<longrightarrow> a \<in> set us"
        using a E subseq_before [OF d] unfolding agrees_def by blast
      ultimately show False by (rule refused [OF inv EC ne d])
    qed
    with run False show ?thesis by simp
  qed
qed

end
