(* ===== verification/Declare.thy ===== *)
theory Declare
  imports Mro
begin

text \<open>
  \<^verbatim>\<open>dojo/_base/declare\<close>: how a class is made of its bases and its properties, and how
  \<^verbatim>\<open>this.inherited\<close> finds the next method. Chained methods (\<^verbatim>\<open>-chains-\<close>) are left out, for no class of
  the console and of the modules it is built on declares any; so are preambles. What the search of an
  inherited method meets on a prototype counts as found; a property that counts as false, which the code takes
  for none, is not told apart.
\<close>

section \<open>Prototypes\<close>

definition new_proto :: "nat option \<Rightarrow> (string \<Rightarrow> val option) \<Rightarrow> classes \<Rightarrow> nat \<times> classes" where
  "new_proto parent props w = (next_proto w,
     w\<lparr>proto_of := upd (proto_of w) (next_proto w) \<lparr>own = props, up = parent\<rparr>, next_proto := Suc (next_proto w)\<rparr>)"

definition op_of :: "string \<Rightarrow> val option" where
  "op_of n = (if n \<in> set proto_names then Some (Builtin n) else None)"

text \<open>Reading a property: a prototype is made after the one it inherits from, so the chain ends.\<close>

function lookup :: "classes \<Rightarrow> nat \<Rightarrow> string \<Rightarrow> val option" where
  "lookup w p n = (case own (proto_of w p) n of
     Some v \<Rightarrow> Some v
   | None \<Rightarrow> (case up (proto_of w p) of
       None \<Rightarrow> op_of n
     | Some q \<Rightarrow> if q < p then lookup w q n else None))"
  by pat_completeness auto
termination by (relation "measure (\<lambda>(w, p, n). p)") auto

declare lookup.simps [simp del]

text \<open>What \<^verbatim>\<open>for ... in\<close> finds on a prototype of a constructor that \<^verbatim>\<open>declare\<close> did not make.\<close>

definition enumerable :: "classes \<Rightarrow> nat \<Rightarrow> string \<Rightarrow> val option" where
  "enumerable w p n = (case lookup w p n of Some (Builtin m) \<Rightarrow> None | v \<Rightarrow> v)"

definition mix_own :: "nat \<Rightarrow> cls \<Rightarrow> classes \<Rightarrow> classes" where
  "mix_own p b w = (case supers (klass_of w b) of
     Some _ \<Rightarrow> set_props p (upd (own (proto_of w (prototype (klass_of w b)))) ''constructor'' None) w
   | None \<Rightarrow> set_props p (enumerable w (prototype (klass_of w b))) w)"

text \<open>The loop from the superclass down to the new prototype, with a constructor in between for every
  class mixed in.\<close>

fun build_proto :: "cls list \<Rightarrow> nat \<Rightarrow> classes \<Rightarrow> nat \<times> classes" where
  "build_proto [] sp w = new_proto (Some sp) Map.empty w"
| "build_proto (b # bs) sp w =
     (let (p, w1) = new_proto (Some sp) Map.empty w
      in build_proto bs p (set_props p (map_of [(''constructor'', Mid p)]) (mix_own p b w1)))"

section \<open>Declaring a class\<close>

datatype parent = Null | Undefined | One cls | Many "cls list"

datatype class_error = Bases declare_error | Unknown_base | Base_not_callable

text \<open>The order of the classes with the offset, the number of mixins, and the superclass.\<close>

definition crack_bases :: "parent \<Rightarrow> classes \<Rightarrow> (class_error + cls list \<times> nat \<times> cls option) \<times> classes" where
  "crack_bases parent w = (case parent of
     Null \<Rightarrow> (Inr ([], 1, None), w)
   | Undefined \<Rightarrow> (Inl Unknown_base, w)
   | One c \<Rightarrow> if callable (klass_of w c) then (Inr (lin w c, 1, Some c), w) else (Inl Base_not_callable, w)
   | Many bs \<Rightarrow> (case c3mro bs w of
        (Inl e, w1) \<Rightarrow> (Inl (Bases e), w1)
      | (Inr (t, xs), w1) \<Rightarrow>
          (let mixins = Suc (length xs) - t
           in (Inr (xs, mixins, if mixins - 1 < length xs then Some (xs ! (mixins - 1)) else None), w1))))"

definition std_methods :: "string \<Rightarrow> val option" where
  "std_methods = (map_of [(''getInherited'', Fn 1), (''isInstanceOf'', Fn 2), (''inherited'', Fn 3), (''__inherited'', Fn 4)])"

definition safe_props :: "(string \<Rightarrow> val option) \<Rightarrow> string \<Rightarrow> val option" where
  "safe_props props n = (if n = ''constructor'' \<or> (n \<in> set proto_names \<and> props n = Some (Builtin n)) then None else props n)"

definition own_props :: "string \<Rightarrow> cls \<Rightarrow> (string \<Rightarrow> val option) \<Rightarrow> string \<Rightarrow> val option" where
  "own_props name c props = over (over (over (safe_props props) (map_of [(''constructor'', Cls c)])) std_methods)
     (if name = [] then Map.empty else (map_of [(''declaredClass'', Str name)]))"

definition declare_class ::
    "string \<Rightarrow> parent \<Rightarrow> (string \<Rightarrow> val option) \<Rightarrow> classes \<Rightarrow> (class_error + cls) \<times> classes" where
  "declare_class name parent props w =
     (case crack_bases parent w of
        (Inl e, w1) \<Rightarrow> (Inl e, w1)
      | (Inr (xs, mixins, sp), w1) \<Rightarrow>
          (let (p, w2) = (case sp of
                  None \<Rightarrow> new_proto None Map.empty w1
                | Some c \<Rightarrow> build_proto (rev (take (mixins - 1) xs)) (prototype (klass_of w1 c)) w1);
               c = next_cls w2;
               w3 = set_props p (own_props name c props) w2;
               k = \<lparr>callable = True, supers = Some xs,
                    hidden = props, ctor = (case props ''constructor'' of None \<Rightarrow> Builtin ''constructor'' | Some v \<Rightarrow> v),
                    prototype = p\<rparr>
           in (Inr c, w3\<lparr>klass_of := upd (klass_of w3) c k, next_cls := Suc c\<rparr>)))"

section \<open>Inherited methods\<close>

definition has_own :: "classes \<Rightarrow> cls \<Rightarrow> string \<Rightarrow> bool" where
  "has_own w b n \<longleftrightarrow> own (proto_of w (prototype (klass_of w b))) n \<noteq> None"

definition is_caller :: "classes \<Rightarrow> string \<Rightarrow> val \<Rightarrow> cls \<Rightarrow> bool" where
  "is_caller w n caller b \<longleftrightarrow> supers (klass_of w b) \<noteq> None \<and>
     (own (proto_of w (prototype (klass_of w b))) n = Some caller \<or> hidden (klass_of w b) n = Some caller)"

text \<open>The place of the caller in the order, -1 when it is nowhere.\<close>

fun find_caller :: "classes \<Rightarrow> string \<Rightarrow> val \<Rightarrow> cls list \<Rightarrow> int \<Rightarrow> int" where
  "find_caller w n caller [] pos = -1"
| "find_caller w n caller (b # bs) pos =
     (if is_caller w n caller b then pos else find_caller w n caller bs (pos + 1))"

definition provides :: "classes \<Rightarrow> string \<Rightarrow> cls \<Rightarrow> bool" where
  "provides w n b \<longleftrightarrow> (if supers (klass_of w b) \<noteq> None then has_own w b n
     else lookup w (prototype (klass_of w b)) n \<noteq> op_of n)"

fun find_next :: "classes \<Rightarrow> string \<Rightarrow> cls list \<Rightarrow> int \<Rightarrow> val option \<times> int" where
  "find_next w n [] pos = (op_of n, pos)"
| "find_next w n (b # bs) pos =
     (if provides w n b then (lookup w (prototype (klass_of w b)) n, pos)
      else find_next w n bs (pos + 1))"

record cache =
  cached_fn :: "val option"
  cached_pos :: int

definition inherited :: "classes \<Rightarrow> cls \<Rightarrow> string \<Rightarrow> val \<Rightarrow> cache \<Rightarrow> val option \<times> cache" where
  "inherited w c n caller ca =
     (let pos = (if cached_fn ca = Some caller then cached_pos ca else find_caller w n caller (lin w c) 0);
          (f, pos') = find_next w n (drop (nat (pos + 1)) (lin w c)) (pos + 1)
      in (f, \<lparr>cached_fn = f, cached_pos = pos'\<rparr>))"


section \<open>Prototypes in the order of the classes\<close>

text \<open>What the order of the classes says a name means: the property of the first class that gives it.\<close>

fun resolve_from :: "classes \<Rightarrow> val option \<Rightarrow> cls list \<Rightarrow> string \<Rightarrow> val option" where
  "resolve_from w d [] n = d"
| "resolve_from w d (b # bs) n = (case safe_props (hidden (klass_of w b)) n of
     Some v \<Rightarrow> Some v
   | None \<Rightarrow> resolve_from w d bs n)"

definition resolve :: "classes \<Rightarrow> cls list \<Rightarrow> string \<Rightarrow> val option" where
  "resolve w cs n = resolve_from w (op_of n) cs n"

definition special :: "string set" where
  "special = {''constructor'', ''getInherited'', ''isInstanceOf'', ''inherited'', ''__inherited'', ''declaredClass''}"

lemma special_simps [simp]:
  "n \<notin> special \<Longrightarrow> n \<noteq> ''constructor''" "n \<notin> special \<Longrightarrow> n \<noteq> ''declaredClass''"
  "n \<notin> special \<Longrightarrow> std_methods n = None"
  by (auto simp: special_def std_methods_def)

lemma resolve_from_append: "resolve_from w d (xs @ ys) n = resolve_from w (resolve_from w d ys n) xs n"
  by (induction xs) (auto split: option.splits)

lemma resolve_from_cong:
  "\<forall>b \<in> set cs. hidden (klass_of w' b) = hidden (klass_of w b) \<Longrightarrow> resolve_from w' d cs n = resolve_from w d cs n"
  by (induction cs) (auto split: option.splits)

lemma lookup_cong: "\<forall>q \<le> p. proto_of w' q = proto_of w q \<Longrightarrow> lookup w' p n = lookup w p n"
proof (induction w p n rule: lookup.induct)
  case (1 w p n)
  show ?case
    by (subst (1 2) lookup.simps) (use 1 in \<open>auto split: option.splits\<close>)
qed

lemma set_props_simps [simp]:
  "klass_of (set_props p f w) = klass_of w" "next_cls (set_props p f w) = next_cls w"
  "next_proto (set_props p f w) = next_proto w"
  "proto_of (set_props p f w) q = (if q = p then (proto_of w p)\<lparr>own := over (own (proto_of w p)) f\<rparr> else proto_of w q)"
  by (simp_all add: set_props_def)

text \<open>A class that \<^verbatim>\<open>declare\<close> made: its prototype has the properties it was declared with.\<close>

definition plainly :: "classes \<Rightarrow> cls \<Rightarrow> bool" where
  "plainly w b \<longleftrightarrow> supers (klass_of w b) \<noteq> None \<and> prototype (klass_of w b) < next_proto w \<and>
     (\<forall>n. n \<notin> special \<longrightarrow> own (proto_of w (prototype (klass_of w b))) n = safe_props (hidden (klass_of w b)) n)"

definition grows :: "classes \<Rightarrow> classes \<Rightarrow> bool" where
  "grows w w' \<longleftrightarrow> klass_of w' = klass_of w \<and> next_cls w' = next_cls w \<and> next_proto w \<le> next_proto w' \<and>
     (\<forall>q < next_proto w. proto_of w' q = proto_of w q)"

lemma grows_refl [simp]: "grows w w" by (simp add: grows_def)

lemma grows_trans: "grows w w1 \<Longrightarrow> grows w1 w2 \<Longrightarrow> grows w w2"
  by (auto simp: grows_def)

lemma grows_plainly: "grows w w' \<Longrightarrow> plainly w b \<Longrightarrow> plainly w' b"
  by (auto simp: grows_def plainly_def)

lemma grows_lookup: "grows w w' \<Longrightarrow> q < next_proto w \<Longrightarrow> lookup w' q n = lookup w q n"
  by (rule lookup_cong) (auto simp: grows_def)

lemma build_proto_grows:
  "build_proto bs sp w = (p, w') \<Longrightarrow> grows w w' \<and> next_proto w \<le> p \<and> p < next_proto w' \<and> own (proto_of w' p) = Map.empty"
proof (induction bs sp w arbitrary: p w' rule: build_proto.induct)
  case (1 sp w)
  then show ?case by (auto simp: new_proto_def grows_def)
next
  case (2 b bs sp w)
  obtain q w1 where n: "new_proto (Some sp) Map.empty w = (q, w1)" by force
  then have q: "q = next_proto w" "next_proto w1 = Suc q" and g1: "grows w w1" by (auto simp: new_proto_def grows_def)
  let ?w2 = "set_props q (map_of [(''constructor'', Mid q)]) (mix_own q b w1)"
  have g2: "grows w ?w2" and n2: "next_proto ?w2 = Suc q"
    using g1 q by (auto simp: grows_def mix_own_def split: option.splits)
  from 2 n have "build_proto bs q ?w2 = (p, w')" by simp
  with 2(1) n have "grows ?w2 w' \<and> next_proto ?w2 \<le> p \<and> p < next_proto w' \<and> own (proto_of w' p) = Map.empty" by simp
  with g2 n2 q show ?case by (auto intro: grows_trans)
qed

lemma build_proto_lookup:
  assumes "n \<notin> special"
  shows "build_proto bs sp w = (p, w') \<Longrightarrow> \<forall>b \<in> set bs. plainly w b \<Longrightarrow> sp < next_proto w \<Longrightarrow>
     lookup w' p n = resolve_from w (lookup w sp n) (rev bs) n"
proof (induction bs sp w arbitrary: p w' rule: build_proto.induct)
  case (1 sp w)
  then have "p = next_proto w" "proto_of w' p = \<lparr>own = Map.empty, up = Some sp\<rparr>" "grows w w'"
    by (auto simp: new_proto_def grows_def)
  with 1 show ?case by (subst lookup.simps) (simp add: grows_lookup)
next
  case (2 b bs sp w)
  obtain q w1 where n: "new_proto (Some sp) Map.empty w = (q, w1)" by force
  then have q: "q = next_proto w" "next_proto w1 = Suc q" "proto_of w1 q = \<lparr>own = Map.empty, up = Some sp\<rparr>"
    and g1: "grows w w1" by (auto simp: new_proto_def grows_def)
  define w2 where w2: "w2 = set_props q (map_of [(''constructor'', Mid q)]) (mix_own q b w1)"
  from 2 have pb: "plainly w b" by simp
  with g1 have pb1: "plainly w1 b" by (rule grows_plainly)
  have g2: "grows w w2" and n2: "next_proto w2 = Suc q"
    using g1 q by (auto simp: w2 grows_def mix_own_def split: option.splits)
  have k: "klass_of w2 = klass_of w" using g2 by (simp add: grows_def)
  have up: "up (proto_of w2 q) = Some sp" using q(3) by (auto simp: w2 mix_own_def split: option.splits)
  have own: "own (proto_of w2 q) n = safe_props (hidden (klass_of w b)) n"
    using pb1 q(3) g1 assms by (auto simp: w2 mix_own_def plainly_def grows_def over_def)
  have lt: "sp < q" using 2(4) q(1) by simp
  have l: "lookup w2 q n = (case safe_props (hidden (klass_of w b)) n of Some v \<Rightarrow> Some v | None \<Rightarrow> lookup w sp n)"
    using lt grows_lookup [OF g2 2(4), of n]
    by (subst lookup.simps) (simp add: own up split: option.splits)
  from 2(2) n have "build_proto bs q w2 = (p, w')" by (simp add: w2)
  then have "lookup w' p n = resolve_from w2 (lookup w2 q n) (rev bs) n"
    using 2(1) [OF n [symmetric] refl, folded w2] 2(3) grows_plainly [OF g2] n2 by auto
  also have "\<dots> = resolve_from w (lookup w2 q n) (rev bs) n" by (rule resolve_from_cong) (simp add: k)
  also have "lookup w2 q n = resolve_from w (lookup w sp n) [b] n"
    by (simp add: l split: option.splits)
  finally show ?case by (simp only: rev.simps resolve_from_append)
qed


section \<open>Worlds of declared classes\<close>

definition is_class :: "classes \<Rightarrow> cls \<Rightarrow> bool" where
  "is_class w c \<longleftrightarrow> 0 < c \<and> c < next_cls w"

definition ordered :: "classes \<Rightarrow> cls list \<Rightarrow> bool" where
  "ordered w xs \<longleftrightarrow> distinct xs \<and> (\<forall>b \<in> set xs. is_class w b \<and> subseq (lin w b) xs)"

definition wf_classes :: "classes \<Rightarrow> bool" where
  "wf_classes w \<longleftrightarrow> 0 < next_cls w \<and>
     (\<forall>c. is_class w c \<longrightarrow> callable (klass_of w c) \<and> plainly w c \<and> ordered w (lin w c) \<and>
        (\<forall>n. n \<notin> special \<longrightarrow> lookup w (prototype (klass_of w c)) n = resolve w (lin w c) n)) \<and>
     (\<forall>b c. is_class w b \<longrightarrow> is_class w c \<longrightarrow> declared w b = declared w c \<longrightarrow> declared w b \<noteq> None \<longrightarrow> b = c)"

lemma wf_classesD:
  assumes "wf_classes w" "is_class w c"
  shows "callable (klass_of w c)" "plainly w c" "ordered w (lin w c)" "c \<noteq> 0"
    "n \<notin> special \<Longrightarrow> lookup w (prototype (klass_of w c)) n = resolve w (lin w c) n"
    "is_class w b \<Longrightarrow> declared w b = declared w c \<Longrightarrow> declared w b \<noteq> None \<Longrightarrow> b = c"
  using assms by (auto simp: wf_classes_def is_class_def)

text \<open>What a call of \<^verbatim>\<open>declare\<close> is given: classes that exist, with a name where a list of bases is
  linearized, and a name of its own, if any.\<close>

definition fit :: "string \<Rightarrow> parent \<Rightarrow> (string \<Rightarrow> val option) \<Rightarrow> classes \<Rightarrow> bool" where
  "fit name parent props w \<longleftrightarrow> props ''declaredClass'' = None \<and>
     (\<forall>c. is_class w c \<longrightarrow> declared w c \<noteq> Some name) \<and>
     (case parent of
        One c \<Rightarrow> is_class w c
      | Many bs \<Rightarrow> (\<forall>b \<in> set bs. is_class w b \<and> (\<forall>c \<in> set (lin w b). declared w c \<noteq> None))
      | _ \<Rightarrow> True)"

lemma subseq_suffix:
  assumes "distinct xs" "subseq (b # l) xs" "length l < length xs" "xs ! (length xs - length (b # l)) = b"
  shows "drop (length xs - length (b # l)) xs = b # l"
proof -
  let ?i = "length xs - length (b # l)"
  from assms(2) obtain us vs where u: "xs = us @ b # vs" and s: "subseq l vs" by (auto dest: list_emb_ConsD)
  have "xs ! length us = b" "length us < length xs" using u by simp_all
  moreover have "?i < length xs" using assms(3) by (cases xs) auto
  ultimately have i: "?i = length us" using assms(1,4) nth_eq_iff_index_eq by metis
  with u assms(3) have "length l = length vs" by simp
  with s have "l = vs" by (simp add: subseq_same_length)
  then show ?thesis unfolding i by (simp add: u)
qed

lemma lin_self [simp]: "c \<in> set (lin w c)"
  using lin_Cons [of w c] by auto

lemma last_alone:
  assumes "distinct xs" "xs \<noteq> []" "subseq (lin w (last xs)) xs"
  shows "lin w (last xs) = [last xs]"
proof -
  obtain l where l: "lin w (last xs) = last xs # l" using lin_Cons by blast
  with assms(3) obtain us vs where u: "xs = us @ last xs # vs" and s: "subseq l vs" by (auto dest: list_emb_ConsD)
  have "xs = butlast xs @ last xs # []" using assms(2) by simp
  with u assms(1) have "us = butlast xs" using distinct_split [of us "last xs" vs "butlast xs" "[]"] by simp
  with u \<open>xs = butlast xs @ last xs # []\<close> have "vs = []" by (metis append_eq_append_conv list.inject)
  with s l show ?thesis by simp
qed

text \<open>The offset is what the code takes it for: the classes from the superclass on are the superclass's
  own order.\<close>

lemma crack_many:
  assumes wf: "wf_classes w" and f: "fit name (Many bs) props w"
    and r: "crack_bases (Many bs) w = (Inr (xs, mixins, sp), w')"
  shows "w' = w \<and> ordered w xs \<and> set xs = lins w bs \<and>
    (case sp of None \<Rightarrow> xs = [] | Some c \<Rightarrow> xs = take (mixins - 1) xs @ lin w c)"
proof -
  have b: "is_class w b" "\<forall>c \<in> set (lin w b). declared w c \<noteq> None" if "b \<in> set bs" for b
    using f that by (auto simp: fit_def)
  have c: "is_class w c \<and> declared w c \<noteq> None" if c: "c \<in> lins w bs" for c
  proof -
    from c obtain x where x: "x \<in> set bs" "c \<in> set (lin w x)" by (auto simp: lins_def)
    with wf_classesD(3) [OF wf b(1) [OF x(1)]] b(2) [OF x(1)] show ?thesis by (auto simp: ordered_def)
  qed
  let ?nm = "\<lambda>c. the (declared w c)"
  have n: "named ?nm (lins w bs) w"
    unfolding named_def inj_on_def using c wf_classesD(6) [OF wf] by (metis option.collapse)
  have ok: "\<forall>b \<in> set bs. b \<noteq> 0 \<and> callable (klass_of w b) \<and> distinct (lin w b)"
    using b wf_classesD [OF wf] by (auto simp: ordered_def)
  from c3mro_run [OF n ok] r obtain t where run: "c3mro bs w = (Inr (t, xs), w)" and t: "t = offset w bs (0 # xs)"
    and s: "set xs = lins w bs" and a: "agrees w bs xs"
    by (auto simp: crack_bases_def Let_def split: prod.splits sum.splits)
  from run r have w': "w' = w" and m: "mixins = Suc (length xs) - t"
    and sp: "sp = (if mixins - 1 < length xs then Some (xs ! (mixins - 1)) else None)"
    by (auto simp: crack_bases_def Let_def)
  have sub: "subseq (lin w x) xs" if "x \<in> set xs" for x
  proof -
    from that s obtain y where y: "y \<in> set bs" "x \<in> set (lin w y)" by (auto simp: lins_def)
    with wf_classesD(3) [OF wf b(1) [OF y(1)]] have "subseq (lin w x) (lin w y)" by (auto simp: ordered_def)
    moreover have "subseq (lin w y) xs" using a y by (auto simp: agrees_def)
    ultimately show ?thesis by (rule subseq_order.trans)
  qed
  have o: "ordered w xs" using a c s sub by (auto simp: ordered_def agrees_def)
  then have d: "distinct xs" by (simp add: ordered_def)
  have sup: "case sp of None \<Rightarrow> xs = [] | Some c \<Rightarrow> xs = take (mixins - 1) xs @ lin w c"
  proof (cases bs)
    case Nil
    then have "xs = []" using s by (simp add: lins_def)
    then show ?thesis using sp by simp
  next
    case (Cons b0 bs')
    then have b0: "is_class w b0" "subseq (lin w b0) xs" "b0 \<in> set xs" using b a s by (auto simp: agrees_def lins_def intro: subseq_set)
    then obtain l where l: "supers (klass_of w b0) = Some l" using wf_classesD(2) [OF wf] by (auto simp: plainly_def)
    then have lb: "lin w b0 = b0 # l" by (simp add: lin_def)
    have ll: "length l < length xs" using list_emb_length [OF b0(2)] lb by simp
    show ?thesis
    proof (cases "(0 # xs) ! (length (0 # xs) - length (b0 # l)) = b0")
      case True
      then have t1: "t = length (b0 # l)" using t Cons l ll by (simp add: offset_def)
      have "xs ! (length xs - length (b0 # l)) = b0"
        using True ll wf_classesD(4) [OF wf b0(1)] by (simp add: nth_Cons' Suc_diff_le)
      then have "drop (length xs - length (b0 # l)) xs = lin w b0"
        using subseq_suffix [OF d b0(2) [unfolded lb] ll] lb by simp
      moreover have "mixins - 1 = length xs - length (b0 # l)" using m t1 ll by simp
      ultimately show ?thesis using sp ll \<open>xs ! (length xs - length (b0 # l)) = b0\<close>
        by simp (metis append_take_drop_id)
    next
      case False
      then have t1: "t = 1" using t Cons l by (auto simp: offset_def)
      have ne: "xs \<noteq> []" using b0(3) by auto
      then have "mixins - 1 = length xs - 1" "sp = Some (last xs)" using m t1 sp by (auto simp: last_conv_nth)
      moreover have "take (length xs - 1) xs @ [last xs] = xs" using ne append_butlast_last_id [OF ne] unfolding butlast_conv_take by simp
      ultimately show ?thesis using last_alone [OF d ne sub] ne by simp
    qed
  qed
  show ?thesis using w' o s sup by simp
qed


lemma crack_fit:
  assumes wf: "wf_classes w" and f: "fit name parent props w"
    and r: "crack_bases parent w = (Inr (xs, mixins, sp), w')"
  shows "w' = w \<and> ordered w xs \<and>
    (case sp of None \<Rightarrow> xs = [] | Some c \<Rightarrow> xs = take (mixins - 1) xs @ lin w c \<and> is_class w c)"
proof (cases parent)
  case (Many bs)
  from crack_many [OF wf f [unfolded Many] r [unfolded Many]]
  have m: "w' = w" "ordered w xs" "case sp of None \<Rightarrow> xs = [] | Some c \<Rightarrow> xs = take (mixins - 1) xs @ lin w c"
    by simp_all
  have "is_class w c" if "sp = Some c" for c
  proof -
    from m(3) that have "xs = take (mixins - 1) xs @ lin w c" by simp
    then have "c \<in> set xs" using lin_self [of c w] by (metis Un_iff set_append)
    with m(2) show ?thesis by (simp add: ordered_def)
  qed
  with m show ?thesis by (auto split: option.splits)
qed (use assms wf_classesD(3) [OF wf] in
  \<open>auto simp: crack_bases_def fit_def ordered_def split: if_splits\<close>)

lemma crack_error: "fit name parent props w \<Longrightarrow> wf_classes w \<Longrightarrow> crack_bases parent w = (Inl e, w') \<Longrightarrow> w' = w"
proof (cases parent)
  case (Many bs)
  assume wf: "wf_classes w" and f: "fit name parent props w" and r: "crack_bases parent w = (Inl e, w')"
  have b: "is_class w b" "\<forall>c \<in> set (lin w b). declared w c \<noteq> None" if "b \<in> set bs" for b
    using f that Many by (auto simp: fit_def)
  have c: "is_class w c \<and> declared w c \<noteq> None" if c: "c \<in> lins w bs" for c
  proof -
    from c obtain x where x: "x \<in> set bs" "c \<in> set (lin w x)" by (auto simp: lins_def)
    with wf_classesD(3) [OF wf b(1) [OF x(1)]] b(2) [OF x(1)] show ?thesis by (auto simp: ordered_def)
  qed
  have n: "named (\<lambda>c. the (declared w c)) (lins w bs) w"
    unfolding named_def inj_on_def using c wf_classesD(6) [OF wf] by (metis option.collapse)
  have ok: "\<forall>b \<in> set bs. b \<noteq> 0 \<and> callable (klass_of w b) \<and> distinct (lin w b)"
    using b wf_classesD [OF wf] by (auto simp: ordered_def)
  from c3mro_run [OF n ok] r Many show ?thesis by (auto simp: crack_bases_def Let_def)
qed (auto simp: crack_bases_def split: if_splits)

text \<open>One declaration: a class with the order of its bases behind it, on a fresh prototype.\<close>

lemma declare_parts:
  assumes wf: "wf_classes w" and f: "fit name parent props w"
    and r: "declare_class name parent props w = (Inr c, w')"
  obtains xs p where "c = next_cls w" "next_cls w' = Suc c" "ordered w xs"
    "klass_of w' = (klass_of w)(c := klass_of w' c)"
    "callable (klass_of w' c)" "supers (klass_of w' c) = Some xs" "hidden (klass_of w' c) = props"
    "prototype (klass_of w' c) = p" "next_proto w \<le> p" "p < next_proto w'"
    "\<forall>q < next_proto w. proto_of w' q = proto_of w q"
    "own (proto_of w' p) = own_props name c props"
    "\<And>n. n \<notin> special \<Longrightarrow>
       lookup w' p n = (case safe_props props n of Some v \<Rightarrow> Some v | None \<Rightarrow> resolve w xs n)"
proof -
  obtain xs mixins sp w1 where cr: "crack_bases parent w = (Inr (xs, mixins, sp), w1)"
    using r by (auto simp: declare_class_def split: prod.splits sum.splits)
  from crack_fit [OF wf f cr] have w1: "w1 = w" and o: "ordered w xs"
    and sp: "case sp of None \<Rightarrow> xs = [] | Some c \<Rightarrow> xs = take (mixins - 1) xs @ lin w c \<and> is_class w c" by auto
  define own_new where "own_new = own_props name (next_cls w) props"
  obtain p w2 where b: "(case sp of None \<Rightarrow> new_proto None Map.empty w
      | Some c \<Rightarrow> build_proto (rev (take (mixins - 1) xs)) (prototype (klass_of w c)) w) = (p, w2)" by force
  have g: "grows w w2" and p: "next_proto w \<le> p" "p < next_proto w2" and e: "own (proto_of w2 p) = Map.empty"
    using b build_proto_grows by (auto simp: new_proto_def grows_def split: option.splits)
  have xsp: "\<forall>b \<in> set xs. plainly w b" using o wf_classesD(2) [OF wf] by (auto simp: ordered_def)
  have l2: "lookup w2 p n = resolve w xs n" if n: "n \<notin> special" for n
  proof (cases sp)
    case None
    then have "up (proto_of w2 p) = None" using b by (auto simp: new_proto_def)
    then show ?thesis using None sp e by (subst lookup.simps) (simp add: resolve_def)
  next
    case (Some c)
    with sp have c: "is_class w c" and x: "xs = take (mixins - 1) xs @ lin w c" by auto
    have lt: "prototype (klass_of w c) < next_proto w" using wf_classesD(2) [OF wf c] by (simp add: plainly_def)
    have "lookup w2 p n = resolve_from w (lookup w (prototype (klass_of w c)) n) (rev (rev (take (mixins - 1) xs))) n"
      using b Some xsp lt by (intro build_proto_lookup [OF n]) (auto dest: in_set_takeD)
    also have "\<dots> = resolve_from w (resolve w (lin w c) n) (take (mixins - 1) xs) n"
      using wf_classesD(5) [OF wf c n] by simp
    also have "\<dots> = resolve w xs n" using x by (metis resolve_def resolve_from_append)
    finally show ?thesis .
  qed
  from g have nc: "next_cls w2 = next_cls w" and k2: "klass_of w2 = klass_of w" by (auto simp: grows_def)
  define w3 where "w3 = set_props p own_new w2"
  define k where "k = \<lparr>callable = True, supers = Some xs, hidden = props,
      ctor = (case props ''constructor'' of None \<Rightarrow> Builtin ''constructor'' | Some v \<Rightarrow> v), prototype = p\<rparr>"
  have res: "c = next_cls w" "w' = w3\<lparr>klass_of := upd (klass_of w3) c k, next_cls := Suc c\<rparr>"
    using r cr b w1 nc by (auto simp: declare_class_def Let_def w3_def k_def own_new_def)
  have lc: "lookup w' p n = lookup w3 p n" for n
    by (rule lookup_cong) (simp add: res)
  have ow: "own (proto_of w3 p) = own_new" using e by (simp add: w3_def)
  have o3: "own (proto_of w3 p) n = safe_props props n" if "n \<notin> special" for n
    using that by (simp add: ow own_new_def own_props_def over_def)
  have up3: "up (proto_of w3 p) = up (proto_of w2 p)" by (simp add: w3_def)
  have below: "q < p \<Longrightarrow> lookup w3 q n = lookup w2 q n" for q n
    by (rule lookup_cong) (simp add: w3_def)
  have l3: "lookup w3 p n = (case safe_props props n of Some v \<Rightarrow> Some v | None \<Rightarrow> resolve w xs n)"
    if n: "n \<notin> special" for n
    using l2 [OF n] o3 [OF n] e up3 below
    by (subst lookup.simps, subst (asm) lookup.simps) (auto split: option.splits)
  show thesis
  proof (rule that)
    show "c = next_cls w" "next_cls w' = Suc c" "callable (klass_of w' c)" "supers (klass_of w' c) = Some xs"
      "hidden (klass_of w' c) = props" "prototype (klass_of w' c) = p"
      using res by (simp_all add: k_def)
    show "ordered w xs" by (rule o)
    show "klass_of w' = (klass_of w)(c := klass_of w' c)" using res k2 by (simp add: w3_def)
    show "next_proto w \<le> p" by (rule p)
    show "p < next_proto w'" using p res by (simp add: w3_def)
    show "\<forall>q < next_proto w. proto_of w' q = proto_of w q" using g p res by (auto simp: w3_def grows_def)
    show "own (proto_of w' p) = own_props name c props"
      using ow res by (simp add: own_new_def)
    show "lookup w' p n = (case safe_props props n of Some v \<Rightarrow> Some v | None \<Rightarrow> resolve w xs n)"
      if "n \<notin> special" for n using l3 [OF that] lc by simp
  qed
qed


lemma declare_wf:
  assumes wf: "wf_classes w" and f: "fit name parent props w"
  shows "wf_classes (snd (declare_class name parent props w))"
proof (cases "fst (declare_class name parent props w)")
  case (Inl e)
  obtain r w1 where c: "crack_bases parent w = (r, w1)" by force
  with Inl obtain e' where e: "r = Inl e'" by (cases r) (auto simp: declare_class_def Let_def split: prod.splits)
  with c crack_error [OF f wf, of e' w1] have "w1 = w" by simp
  with c e wf show ?thesis by (simp add: declare_class_def)
next
  case (Inr c)
  then obtain w' where r: "declare_class name parent props w = (Inr c, w')" by (metis prod.collapse)
  from declare_parts [OF wf f r] obtain xs p where d:
    "c = next_cls w" "next_cls w' = Suc c" "ordered w xs"
    "klass_of w' = (klass_of w)(c := klass_of w' c)"
    "callable (klass_of w' c)" "supers (klass_of w' c) = Some xs" "hidden (klass_of w' c) = props"
    "prototype (klass_of w' c) = p" "next_proto w \<le> p" "p < next_proto w'"
    "\<forall>q < next_proto w. proto_of w' q = proto_of w q"
    "own (proto_of w' p) = own_props name c props"
    "\<And>n. n \<notin> special \<Longrightarrow>
       lookup w' p n = (case safe_props props n of Some v \<Rightarrow> Some v | None \<Rightarrow> resolve w xs n)"
    by metis
  have pos: "0 < next_cls w" using wf by (simp add: wf_classes_def)
  have isc: "is_class w' b \<longleftrightarrow> is_class w b \<or> b = c" for b using d(1,2) pos by (auto simp: is_class_def)
  have ne: "b \<noteq> c" if "is_class w b" for b using that d(1) by (auto simp: is_class_def)
  have k: "klass_of w' b = klass_of w b" if "is_class w b" for b
    using d(4) ne [OF that] by (metis fun_upd_other)
  have lin_old: "lin w' b = lin w b" if "is_class w b" for b using k [OF that] by (simp add: lin_def)
  have lin_c: "lin w' c = c # xs" using d(6) by (simp add: lin_def)
  have pr: "prototype (klass_of w b) < next_proto w" if "is_class w b" for b
    using wf_classesD(2) [OF wf that] by (simp add: plainly_def)
  have decl: "declared w' b = declared w b" if "is_class w b" for b
    using k [OF that] d(11) pr [OF that] by (simp add: declared_def)
  have ord: "ordered w' zs" if "ordered w zs" for zs
    using that isc lin_old by (simp add: ordered_def)
  have res: "resolve w' zs n = resolve w zs n" if "\<forall>b \<in> set zs. is_class w b" for zs n
    unfolding resolve_def by (rule resolve_from_cong) (use that k in auto)
  have xs: "\<forall>b \<in> set xs. is_class w b" using d(3) by (simp add: ordered_def)
  have nw: "next_proto w \<le> next_proto w'" using d(9,10) by simp
  have old: "callable (klass_of w' b) \<and> plainly w' b \<and> ordered w' (lin w' b) \<and>
      (\<forall>n. n \<notin> special \<longrightarrow> lookup w' (prototype (klass_of w' b)) n = resolve w' (lin w' b) n)"
    if b: "is_class w b" for b
  proof -
    have "plainly w' b" using wf_classesD(2) [OF wf b] k [OF b] d(11) nw by (auto simp: plainly_def)
    moreover have "lookup w' (prototype (klass_of w' b)) n = resolve w' (lin w' b) n" if "n \<notin> special" for n
    proof -
      have "lookup w' (prototype (klass_of w b)) n = lookup w (prototype (klass_of w b)) n"
        by (rule lookup_cong) (use d(11) pr [OF b] in auto)
      also have "\<dots> = resolve w (lin w b) n" by (rule wf_classesD(5) [OF wf b that])
      also have "\<dots> = resolve w' (lin w b) n"
        using wf_classesD(3) [OF wf b] by (intro res [symmetric]) (simp add: ordered_def)
      finally show ?thesis by (simp add: k [OF b] lin_old [OF b])
    qed
    ultimately show ?thesis using wf_classesD(1,3) [OF wf b] ord k [OF b] lin_old [OF b] by simp
  qed
  have new: "plainly w' c"
    using d(6,7,8,10,12) by (auto simp: plainly_def own_props_def over_def)
  have "c \<notin> set xs" using xs ne by blast
  then have "ordered w' (c # xs)"
    using ord [OF d(3)] lin_c isc d(1) pos by (auto simp: ordered_def intro: list_emb_Cons)
  moreover have "lookup w' (prototype (klass_of w' c)) n = resolve w' (lin w' c) n" if "n \<notin> special" for n
    using d(13) [OF that] d(7,8) lin_c res [OF xs, of n] by (simp add: resolve_def split: option.splits)
  moreover have dc: "declared w' c = (if name = [] then None else Some name)"
    using d(8,12) f by (simp add: declared_def own_props_def over_def fit_def safe_props_def std_methods_def)
  moreover have "declared w b \<noteq> Some name" if "is_class w b" for b using f that by (simp add: fit_def)
  ultimately have new': "callable (klass_of w' c) \<and> plainly w' c \<and> ordered w' (lin w' c) \<and>
      (\<forall>n. n \<notin> special \<longrightarrow> lookup w' (prototype (klass_of w' c)) n = resolve w' (lin w' c) n)"
    using new d(5) lin_c by simp
  have fresh: "declared w b \<noteq> Some name" if "is_class w b" for b using f that by (simp add: fit_def)
  have "x = y" if "is_class w' x" "is_class w' y" "declared w' x = declared w' y" "declared w' x \<noteq> None" for x y
    using that wf_classesD(6) [OF wf] decl fresh dc unfolding isc by (metis option.distinct(1))
  then show ?thesis unfolding wf_classes_def r snd_conv using old new' isc d(2) by auto
qed

inductive made :: "classes \<Rightarrow> bool" where
  made_start: "next_cls w = 1 \<Longrightarrow> made w"
| made_declare: "made w \<Longrightarrow> fit name parent props w \<Longrightarrow> made (snd (declare_class name parent props w))"

lemma made_wf: "made w \<Longrightarrow> wf_classes w"
proof (induction rule: made.induct)
  case (made_start w)
  then show ?case by (simp add: wf_classes_def is_class_def)
qed (rule declare_wf)

section \<open>Calling the next method\<close>

text \<open>A cache that remembers, if anything about this name, where the function is found.\<close>

definition cache_ok :: "classes \<Rightarrow> cls list \<Rightarrow> string \<Rightarrow> cache \<Rightarrow> bool" where
  "cache_ok w cs n ca \<longleftrightarrow> (\<forall>f us b vs. cached_fn ca = Some f \<longrightarrow> cs = us @ b # vs \<longrightarrow>
     safe_props (hidden (klass_of w b)) n = Some f \<longrightarrow> cached_pos ca = int (length us))"

definition one_owner :: "classes \<Rightarrow> cls list \<Rightarrow> string \<Rightarrow> bool" where
  "one_owner w cs n \<longleftrightarrow> (\<forall>b \<in> set cs. \<forall>c \<in> set cs. \<forall>f. hidden (klass_of w b) n = Some f \<longrightarrow>
     hidden (klass_of w c) n = Some f \<longrightarrow> b = c)"

lemma find_caller_at:
  "\<forall>u \<in> set us. \<not> is_caller w n f u \<Longrightarrow> is_caller w n f b \<Longrightarrow>
     find_caller w n f (us @ b # vs) i = i + int (length us)"
  by (induction us arbitrary: i) auto

lemma find_next_at:
  assumes "\<forall>b \<in> set cs. provides w n b \<longleftrightarrow> safe_props (hidden (klass_of w b)) n \<noteq> None"
    "\<forall>b \<in> set cs. provides w n b \<longrightarrow> lookup w (prototype (klass_of w b)) n = safe_props (hidden (klass_of w b)) n"
  shows "find_next w n cs i = (resolve w cs n, i + int (length (takeWhile (\<lambda>b. \<not> provides w n b) cs)))"
  using assms by (induction cs arbitrary: i) (auto simp: resolve_def)

lemma inherited_next:
  assumes m: "made w" and c: "is_class w c" and n: "n \<notin> special" "n \<notin> set proto_names"
    and one: "one_owner w (lin w c) n" and split: "lin w c = us @ b # vs"
    and f: "hidden (klass_of w b) n = Some f" and ca: "cache_ok w (lin w c) n ca"
  shows "fst (inherited w c n f ca) = resolve w vs n \<and> cache_ok w (lin w c) n (snd (inherited w c n f ca))"
proof -
  have wf: "wf_classes w" using m by (rule made_wf)
  have o: "ordered w (lin w c)" by (rule wf_classesD(3) [OF wf c])
  then have d: "distinct (lin w c)" and cl: "\<forall>x \<in> set (lin w c). is_class w x" by (auto simp: ordered_def)
  have safe: "safe_props (hidden (klass_of w x)) n = hidden (klass_of w x) n" for x
    using n by (simp add: safe_props_def)
  have own: "own (proto_of w (prototype (klass_of w x))) n = hidden (klass_of w x) n" "supers (klass_of w x) \<noteq> None"
    if "x \<in> set (lin w c)" for x
    using wf_classesD(2) [OF wf] cl that n safe by (auto simp: plainly_def)
  have call: "is_caller w n f x \<longleftrightarrow> hidden (klass_of w x) n = Some f" if "x \<in> set (lin w c)" for x
    using own [OF that] by (auto simp: is_caller_def)
  have "\<forall>u \<in> set us. \<not> is_caller w n f u"
    using one f d call split by (auto simp: one_owner_def)
  moreover have "is_caller w n f b" using call f split by simp
  ultimately have fc: "find_caller w n f (lin w c) 0 = int (length us)" using find_caller_at split by simp
  have pos: "(if cached_fn ca = Some f then cached_pos ca else find_caller w n f (lin w c) 0) = int (length us)"
    using ca f split fc safe by (auto simp: cache_ok_def)
  have vs: "drop (nat (int (length us) + 1)) (lin w c) = vs" using split by (simp add: nat_add_distrib)
  have pv: "provides w n x \<longleftrightarrow> safe_props (hidden (klass_of w x)) n \<noteq> None" if "x \<in> set (lin w c)" for x
    using own [OF that] safe by (simp add: provides_def has_own_def)
  have lk: "lookup w (prototype (klass_of w x)) n = safe_props (hidden (klass_of w x)) n"
    if "x \<in> set (lin w c)" "provides w n x" for x
    using own(1) [OF that(1)] pv [OF that(1)] that(2) safe by (subst lookup.simps) auto
  have fn: "find_next w n vs (int (length us) + 1) =
      (resolve w vs n, int (length us) + 1 + int (length (takeWhile (\<lambda>b. \<not> provides w n b) vs)))"
    using pv lk split by (intro find_next_at) auto
  have run: "inherited w c n f ca = (resolve w vs n, \<lparr>cached_fn = resolve w vs n,
      cached_pos = int (length us) + 1 + int (length (takeWhile (\<lambda>b. \<not> provides w n b) vs))\<rparr>)"
    unfolding inherited_def pos Let_def vs fn by simp
  have "int (length us) + 1 + int (length (takeWhile (\<lambda>b. \<not> provides w n b) vs)) = int (length us')"
    if r: "resolve w vs n = Some g" and s: "lin w c = us' @ b' # vs'"
      and g: "safe_props (hidden (klass_of w b')) n = Some g" for g us' b' vs'
  proof -
    have op: "op_of n = None" using n by (simp add: op_of_def)
    have "\<exists>x ys zs. vs = ys @ x # zs \<and> safe_props (hidden (klass_of w x)) n = Some g \<and>
        (\<forall>y \<in> set ys. safe_props (hidden (klass_of w y)) n = None)"
      using r op unfolding resolve_def
    proof (induction vs)
      case (Cons a vs)
      show ?case
      proof (cases "safe_props (hidden (klass_of w a)) n")
        case None
        with Cons obtain x ys zs where "vs = ys @ x # zs" "safe_props (hidden (klass_of w x)) n = Some g"
          "\<forall>y \<in> set ys. safe_props (hidden (klass_of w y)) n = None" by auto
        with None show ?thesis by (intro exI [of _ x] exI [of _ "a # ys"] exI [of _ zs]) simp
      next
        case (Some v)
        with Cons.prems show ?thesis by (intro exI [of _ a] exI [of _ "[]"] exI [of _ vs]) simp
      qed
    qed simp
    then obtain x ys zs where v: "vs = ys @ x # zs" and x: "safe_props (hidden (klass_of w x)) n = Some g"
      and ys: "\<forall>y \<in> set ys. safe_props (hidden (klass_of w y)) n = None" by blast
    have tw: "takeWhile (\<lambda>b. \<not> provides w n b) vs = ys"
    proof -
      have "provides w n x" "\<forall>y \<in> set ys. \<not> provides w n y" using pv ys x split v by auto
      then show ?thesis by (simp add: v)
    qed
    have "x \<in> set (lin w c)" using split v by simp
    moreover have "b' \<in> set (lin w c)" using s by (metis in_set_conv_decomp)
    ultimately have "x = b'" using one x g unfolding one_owner_def safe by blast
    then have e: "us' @ b' # vs' = (us @ b # ys) @ b' # zs" using s split v by simp
    have "distinct (us' @ b' # vs')" using d s by metis
    then have "us' = us @ b # ys" by (rule distinct_split [OF _ e])
    with tw show ?thesis by simp
  qed
  then show ?thesis by (auto simp: run cache_ok_def)
qed


section \<open>The classes of a widget\<close>

text \<open>What every widget of the console has behind it, with the methods that more than one of the classes
  have, and some that only one has; a function is given by a number of its own.\<close>

definition methods :: "nat \<Rightarrow> string list \<Rightarrow> string \<Rightarrow> val option" where
  "methods k ns = map_of (zip ns (map (\<lambda>i. Fn (k + i)) [0..<length ns]))"

definition stateful_props :: "string \<Rightarrow> val option" where
  "stateful_props = methods 100 [''get'', ''watch'']"

definition destroyable_props :: "string \<Rightarrow> val option" where
  "destroyable_props = methods 120 [''destroy'', ''own'']"

definition widget_base_props :: "string \<Rightarrow> val option" where
  "widget_base_props = methods 140 [''get'', ''destroy'', ''startup'']"

definition empty_world :: classes where
  "empty_world = \<lparr>klass_of = \<lambda>_. \<lparr>callable = False, supers = None, hidden = Map.empty, ctor = Fn 0, prototype = 0\<rparr>,
     counter = 0, next_cls = 1, proto_of = \<lambda>_. \<lparr>own = Map.empty, up = None\<rparr>, next_proto = 0\<rparr>"

fun declare_all :: "(string \<times> parent \<times> (string \<Rightarrow> val option)) list \<Rightarrow> classes \<Rightarrow> classes" where
  "declare_all [] w = w"
| "declare_all ((n, p, f) # ds) w = declare_all ds (snd (declare_class n p f w))"

definition widget_classes :: classes where
  "widget_classes = declare_all
     [(''dojo.Stateful'', Null, stateful_props), (''dijit.Destroyable'', Null, destroyable_props),
      (''dijit._WidgetBase'', Many [1, 2], widget_base_props)] empty_world"

definition fits :: "string \<Rightarrow> parent \<Rightarrow> (string \<Rightarrow> val option) \<Rightarrow> classes \<Rightarrow> bool" where
  "fits n p f w \<longleftrightarrow> f ''declaredClass'' = None \<and> list_all (\<lambda>c. declared w c \<noteq> Some n) [1..<next_cls w] \<and>
     (case p of
        One c \<Rightarrow> List.member [1..<next_cls w] c
      | Many bs \<Rightarrow> list_all (\<lambda>b. List.member [1..<next_cls w] b \<and> list_all (\<lambda>c. declared w c \<noteq> None) (lin w b)) bs
      | _ \<Rightarrow> True)"

fun all_fit :: "(string \<times> parent \<times> (string \<Rightarrow> val option)) list \<Rightarrow> classes \<Rightarrow> bool" where
  "all_fit [] w = True"
| "all_fit ((n, p, f) # ds) w = (fits n p f w \<and> all_fit ds (snd (declare_class n p f w)))"

lemma fits_fit: "fits n p f w \<Longrightarrow> fit n p f w"
  by (auto simp: fits_def fit_def is_class_def list_all_iff split: parent.splits)

lemma made_all: "made w \<Longrightarrow> all_fit ds w \<Longrightarrow> made (declare_all ds w)"
  by (induction ds w rule: declare_all.induct) (auto intro: made_declare fits_fit)

lemma widget_made: "made widget_classes"
  unfolding widget_classes_def
proof (rule made_all)
  show "made empty_world" by (rule made_start) (simp add: empty_world_def)
qed code_simp

definition probe :: "classes \<Rightarrow> nat \<times> cls list list \<times> string option list \<times> bool list" where
  "probe w = (next_cls w, map (lin w) [1, 2, 3], map (declared w) [1, 2, 3], map (\<lambda>c. callable (klass_of w c)) [1, 2, 3])"

lemma widget_probe: "probe widget_classes = (4, [[1], [2], [3, 2, 1]],
    [Some ''dojo.Stateful'', Some ''dijit.Destroyable'', Some ''dijit._WidgetBase''], [True, True, True])"
  by code_simp

lemma widget_facts:
  "next_cls widget_classes = 4" "lin widget_classes (Suc 0) = [1]" "lin widget_classes 2 = [2]"
  "lin widget_classes 3 = [3, 2, 1]" "declared widget_classes (Suc 0) = Some ''dojo.Stateful''"
  "declared widget_classes 2 = Some ''dijit.Destroyable''" "declared widget_classes 3 = Some ''dijit._WidgetBase''"
  "callable (klass_of widget_classes (Suc 0))" "callable (klass_of widget_classes 2)"
  using widget_probe by (simp_all add: probe_def)

lemma offset_suffix:
  assumes "distinct xs" "subseq (lin w b) xs" "b \<noteq> 0"
  shows "offset w (b # bs) (0 # xs) = (if suffix (lin w b) xs then length (lin w b) else 1)"
proof (cases "supers (klass_of w b)")
  case (Some l)
  then have lb: "lin w b = b # l" by (simp add: lin_def)
  then have ll: "length l < length xs" using list_emb_length [OF assms(2)] by simp
  then have nth: "(0 # xs) ! (length (0 # xs) - length (b # l)) = xs ! (length xs - length (b # l))"
    by (simp add: nth_Cons' Suc_diff_le)
  have "xs ! (length xs - length (b # l)) = b \<longleftrightarrow> suffix (lin w b) xs"
  proof
    assume "xs ! (length xs - length (b # l)) = b"
    then have "drop (length xs - length (b # l)) xs = lin w b" using subseq_suffix [OF assms(1) _ ll] assms(2) lb by simp
    then show "suffix (lin w b) xs" using suffix_drop by metis
  qed (auto simp: lb suffix_def)
  then show ?thesis using Some ll nth by (simp add: offset_def lb)
qed (simp add: offset_def lin_def)

text \<open>C11: what \<^verbatim>\<open>declare\<close> does with a list of bases whose classes have names of their own: it finds an
  order of all their classes in which every base's own order is kept, and it refuses only when there is no such
  order (Python's rule, which the comments name, refuses more: \<^theory_text>\<open>base_order_ignored\<close>). The offset says how much of
  its end is the superclass's own order: if the order ends with the whole order of the first base, the length of
  that, and otherwise 1, for the last class by itself.\<close>
theorem class_order:
  assumes "named nm (lins w bs) w"
    and "\<forall>b \<in> set bs. b \<noteq> 0 \<and> callable (klass_of w b) \<and> distinct (lin w b)"
  shows "(\<exists>t xs. c3mro bs w = (Inr (t, xs), w) \<and> set xs = lins w bs \<and> agrees w bs xs \<and>
      t = (case bs of [] \<Rightarrow> 0 | b # _ \<Rightarrow> if suffix (lin w b) xs then length (lin w b) else 1)) \<or>
    (c3mro bs w = (Inl Inconsistent, w) \<and> (\<nexists>xs. agrees w bs xs))"
  using c3mro_run [OF assms]
proof (elim disjE exE conjE)
  fix xs
  assume run: "c3mro bs w = (Inr (offset w bs (0 # xs), xs), w)" and a: "set xs = lins w bs" "agrees w bs xs"
  have "offset w bs (0 # xs) = (case bs of [] \<Rightarrow> 0 | b # _ \<Rightarrow> if suffix (lin w b) xs then length (lin w b) else 1)"
  proof (cases bs)
    case (Cons b bs')
    then have "distinct xs" "subseq (lin w b) xs" "b \<noteq> 0" using a(2) assms(2) by (simp_all add: agrees_def)
    then show ?thesis using offset_suffix Cons by simp
  qed (simp add: offset_def)
  then show ?thesis using run a by simp
qed simp

theorem class_order_witness:
  "(\<exists>t xs. c3mro [1, 2] widget_classes = (Inr (t, xs), widget_classes) \<and>
      set xs = lins widget_classes [1, 2] \<and> agrees widget_classes [1, 2] xs \<and>
      t = (case [1, 2] of [] \<Rightarrow> 0 | b # _ \<Rightarrow> if suffix (lin widget_classes b) xs then length (lin widget_classes b) else 1)) \<or>
    (c3mro [1, 2] widget_classes = (Inl Inconsistent, widget_classes) \<and> (\<nexists>xs. agrees widget_classes [1, 2] xs))"
  by (rule class_order [of "\<lambda>c. the (declared widget_classes c)"])
    (simp_all add: widget_facts named_def inj_on_def lins_def)

text \<open>C12: a method of a class is the one of the first class of its order that was declared with it, however
  the classes it inherits from were made: from nothing, from one superclass or from a list of bases, whose
  prototypes are copied into prototypes in between.\<close>
theorem methods_follow_order:
  assumes "made w" "is_class w c" "n \<notin> special"
  shows "lookup w (prototype (klass_of w c)) n = resolve w (lin w c) n"
  by (rule wf_classesD(5) [OF made_wf [OF assms(1)] assms(2,3)])

theorem methods_follow_order_witness:
  "lookup widget_classes (prototype (klass_of widget_classes 3)) ''own'' =
     resolve widget_classes [3, 2, 1] ''own''"
  using methods_follow_order [OF widget_made, of 3 "''own''"]
  by (simp add: is_class_def special_def widget_facts)

text \<open>C13: \<^verbatim>\<open>this.inherited\<close>, called from the method of a class, finds the method of the next class in the
  order that has one, and none after the last, whether the cache remembers the caller or the order is
  searched; and it leaves the cache right for the next call.\<close>
theorem inherited_calls_next:
  assumes "made w" "is_class w c" "n \<notin> special" "n \<notin> set proto_names" "one_owner w (lin w c) n"
    "lin w c = us @ b # vs" "hidden (klass_of w b) n = Some f" "cache_ok w (lin w c) n ca"
  shows "fst (inherited w c n f ca) = resolve w vs n \<and> cache_ok w (lin w c) n (snd (inherited w c n f ca))"
  by (rule inherited_next [OF assms])

lemma widget_destroy: "map (\<lambda>c. hidden (klass_of widget_classes c) ''destroy'') [1, 2, 3] = [None, Some (Fn 120), Some (Fn 141)]"
  by code_simp

theorem inherited_calls_next_witness:
  "fst (inherited widget_classes 3 ''destroy'' (Fn 141) \<lparr>cached_fn = None, cached_pos = 0\<rparr>) =
     resolve widget_classes [2, 1] ''destroy'' \<and>
   resolve widget_classes [2, 1] ''destroy'' = Some (Fn 120)"
proof -
  have h: "hidden (klass_of widget_classes (Suc 0)) ''destroy'' = None"
    "hidden (klass_of widget_classes 2) ''destroy'' = Some (Fn 120)"
    "hidden (klass_of widget_classes 3) ''destroy'' = Some (Fn 141)" using widget_destroy by simp_all
  have "fst (inherited widget_classes 3 ''destroy'' (Fn 141) \<lparr>cached_fn = None, cached_pos = 0\<rparr>) =
     resolve widget_classes [2, 1] ''destroy''"
    by (rule inherited_calls_next [THEN conjunct1, OF widget_made, of _ _ "[]" 3])
      (simp_all add: widget_facts is_class_def special_def proto_names_def cache_ok_def one_owner_def h)
  moreover have "resolve widget_classes [2, 1] ''destroy'' = Some (Fn 120)"
    using h by (simp add: resolve_def safe_props_def proto_names_def)
  ultimately show ?thesis by simp
qed

text \<open>Python's rule, which the code names as its model, merges the orders of the bases and the list of
  the bases itself: the first head that is in no tail comes next.\<close>

fun good_head :: "cls list list \<Rightarrow> cls list list \<Rightarrow> cls option" where
  "good_head all [] = None"
| "good_head all ([] # ls) = good_head all ls"
| "good_head all ((c # cs) # ls) = (if list_ex (\<lambda>l. List.member (tl l) c) all then good_head all ls else Some c)"

fun c3_merge :: "nat \<Rightarrow> cls list list \<Rightarrow> cls list option" where
  "c3_merge 0 ls = None"
| "c3_merge (Suc k) ls =
     (if list_all (\<lambda>l. l = []) ls then Some []
      else (case good_head ls ls of
          None \<Rightarrow> None
        | Some c \<Rightarrow> map_option ((#) c) (c3_merge k (map (\<lambda>l. if l \<noteq> [] \<and> hd l = c then tl l else l) ls))))"

lemma widget_supers:
  "supers (klass_of widget_classes (Suc 0)) = Some []" "supers (klass_of widget_classes 3) = Some [2, 1]"
  "callable (klass_of widget_classes 3)"
proof -
  have c: "is_class widget_classes (Suc 0)" "is_class widget_classes 3" by (simp_all add: is_class_def widget_facts)
  note w = wf_classesD [OF made_wf [OF widget_made]]
  show "callable (klass_of widget_classes 3)" by (rule w(1) [OF c(2)])
  show "supers (klass_of widget_classes (Suc 0)) = Some []" "supers (klass_of widget_classes 3) = Some [2, 1]"
    using w(2) [OF c(1)] w(2) [OF c(2)] widget_facts(2,4) by (auto simp: plainly_def lin_def)
qed

lemma python_refuses: "c3_merge 4 [[1], [3, 2, 1], [1, 3]] = None"
  by code_simp

lemma widget_orders:
  "fst (c3mro [3, 1] widget_classes) = Inr (3, [3, 2, 1])" "fst (c3mro [1, 3] widget_classes) = Inr (1, [3, 2, 1])"
  by (simp_all add: c3mro_def widget_facts widget_supers Let_def rec_name_def file_class_def refer_def add_count_def
      add_ref_def new_rec_def offset_def)

text \<open>the order in which the bases are given is not kept, as the rule the code names asks for: a class
  can be mixed into its own subclass, and comes behind it all the same. Python's rule refuses the same
  bases, with as many steps as there are classes and one.\<close>

theorem base_order_ignored:
  "map_sum id snd (fst (c3mro [3, 1] widget_classes)) = Inr [3, 2, 1] \<and>
   map_sum id snd (fst (c3mro [1, 3] widget_classes)) = Inr [3, 2, 1] \<and>
   c3_merge 4 [[1], [3, 2, 1], [1, 3]] = None"
  using widget_orders python_refuses by simp

end
