(* ===== verification/Loader.thy ===== *)
theory Loader
  imports Prelude "HOL-Library.AList"
begin

text \<open>
  The module loader (\<^verbatim>\<open>dojo/dojo.js.uncompressed.js\<close>) as the page starts it: \<^verbatim>\<open>async: 0\<close>, so a module's
  file is fetched while its requester waits. A file calls \<^verbatim>\<open>define\<close> once, with the modules it needs and a
  factory or a value, or it is a plain script. The files on the server are an association list; what a
  factory returns is a parameter, for it is up to the modules. Left out are plugins (a resource such as
  \<^verbatim>\<open>dojo/text!...\<close> counts as a file that gives a value), files that define several modules, the cache of
  built layers, other domains, factories that throw or that themselves call the loader, and modules that are
  defined by a value that counts as false.
\<close>

section \<open>Modules\<close>

datatype mid = File string | Synthetic nat

datatype dep = Require | Exports | Cjs_module | Mod string

datatype factory = Function | Constant nat

datatype source = Define "dep list" factory | Script

datatype arg = Req mid | Exp mid | Cjs mid | Val nat | Undef

datatype inj = Not_injected | Requested | Arrived

datatype exec = Not_executed | Executing | Executed

record amodule =
  injected :: inj
  executed :: exec
  adef :: "factory option"
  deps :: "dep list"
  cjs :: bool
  aresult :: arg

record loader =
  mods :: "(mid \<times> amodule) list"
  waiting :: "mid list"
  exec_queue :: "mid list"
  def_order :: nat
  uid :: nat
  calls :: "(mid \<times> arg list) list"

type_synonym files = "(string \<times> source) list"

definition ran :: "loader \<Rightarrow> mid list" where
  "ran s = map fst (calls s)"

definition make_module_info :: amodule where
  "make_module_info = \<lparr>injected = Not_injected, executed = Not_executed, adef = None, deps = [], cjs = False, aresult = Undef\<rparr>"

definition get_module :: "mid \<Rightarrow> loader \<Rightarrow> loader" where
  "get_module m s = (if map_of (mods s) m = None then s\<lparr>mods := mods s @ [(m, make_module_info)]\<rparr> else s)"

definition set_mod :: "mid \<Rightarrow> (amodule \<Rightarrow> amodule) \<Rightarrow> loader \<Rightarrow> loader" where
  "set_mod m f s = s\<lparr>mods := AList.map_entry m f (mods s)\<rparr>"

definition set_requested :: "mid \<Rightarrow> loader \<Rightarrow> loader" where
  "set_requested m s = (set_mod m (\<lambda>r. r\<lparr>injected := Requested\<rparr>) s)\<lparr>waiting := m # waiting s\<rparr>"

definition set_arrived :: "mid \<Rightarrow> loader \<Rightarrow> loader" where
  "set_arrived m s = (set_mod m (\<lambda>r. r\<lparr>injected := Arrived\<rparr>) s)\<lparr>waiting := removeAll m (waiting s)\<rparr>"

definition finish_exec :: "mid \<Rightarrow> loader \<Rightarrow> loader" where
  "finish_exec m s =
     (let s1 = (set_mod m (\<lambda>r. r\<lparr>executed := Executed\<rparr>) s)
            \<lparr>def_order := Suc (def_order s), exec_queue := removeAll m (exec_queue s)\<rparr>
      in case m of Synthetic _ \<Rightarrow> s1\<lparr>mods := AList.delete m (mods s1)\<rparr> | File _ \<Rightarrow> s1)"

section \<open>Fetching\<close>

definition dep_mods :: "dep list \<Rightarrow> string list" where
  "dep_mods ds = concat (map (\<lambda>d. case d of Mod m \<Rightarrow> [m] | _ \<Rightarrow> []) ds)"

text \<open>A definition arrives: the names it needs are resolved to modules, new ones if need be; a value that
  needs nothing counts as executed at once.\<close>

definition define_module :: "mid \<Rightarrow> dep list \<Rightarrow> factory \<Rightarrow> loader \<Rightarrow> loader" where
  "define_module m ds f s =
     (case map_of (mods s) m of
        None \<Rightarrow> s
      | Some r \<Rightarrow> if injected r = Arrived then s
          else (let s1 = set_mod m (\<lambda>r. r\<lparr>deps := ds, adef := Some f, cjs := True, aresult := Exp m\<rparr>) s;
                    s2 = set_arrived m (fold get_module (map File (dep_mods ds)) s1)
                in case f of
                     Constant v \<Rightarrow> if ds = [] then finish_exec m (set_mod m (\<lambda>r. r\<lparr>aresult := Val v\<rparr>) s2) else s2
                   | Function \<Rightarrow> s2))"

definition skipped :: "mid \<Rightarrow> loader \<Rightarrow> bool" where
  "skipped m s \<longleftrightarrow> (case map_of (mods s) m of
     None \<Rightarrow> True
   | Some r \<Rightarrow> executed r \<noteq> Not_executed \<or> injected r \<noteq> Not_injected \<or> m \<in> set (waiting s))"

text \<open>A file that cannot be fetched is an exception, which ends everything that waits for it.\<close>

definition fresh_in :: "loader \<Rightarrow> string \<Rightarrow> bool" where
  "fresh_in s m \<longleftrightarrow> (case map_of (mods s) (File m) of None \<Rightarrow> True | Some r \<Rightarrow> injected r = Not_injected)"

definition uninjected :: "files \<Rightarrow> loader \<Rightarrow> nat" where
  "uninjected fs s = length (filter (\<lambda>e. fresh_in s (fst e)) fs)"

function inject_modules :: "files \<Rightarrow> string list \<Rightarrow> loader \<Rightarrow> loader + loader" where
  "inject_modules fs [] s = Inr s"
| "inject_modules fs (m # ms) s =
     (if skipped (File m) s then inject_modules fs ms s
      else (case map_of fs m of
          None \<Rightarrow> Inl (set_requested (File m) s)
        | Some Script \<Rightarrow> inject_modules fs ms (finish_exec (File m) (set_arrived (File m) (set_requested (File m) s)))
        | Some (Define ds f) \<Rightarrow>
            (case inject_modules fs (dep_mods ds) (define_module (File m) ds f (set_requested (File m) s)) of
               Inl s' \<Rightarrow> Inl s'
             | Inr s' \<Rightarrow> inject_modules fs ms s')))"
  by pat_completeness auto

lemma map_of_map_entry:
  "map_of (AList.map_entry k f xs) m = (if m = k then map_option f (map_of xs k) else map_of xs m)"
  by (induction xs) auto

lemma set_mod_simps [simp]:
  "map_of (mods (set_mod k f s)) m = (if m = k then map_option f (map_of (mods s) k) else map_of (mods s) m)"
  "waiting (set_mod k f s) = waiting s" "exec_queue (set_mod k f s) = exec_queue s"
  "def_order (set_mod k f s) = def_order s" "uid (set_mod k f s) = uid s" "calls (set_mod k f s) = calls s"
  by (simp_all add: set_mod_def map_of_map_entry)

lemma get_module_simps [simp]:
  "map_of (mods (get_module k s)) m = (case map_of (mods s) m of
     Some r \<Rightarrow> Some r | None \<Rightarrow> if m = k then Some make_module_info else None)"
  "waiting (get_module k s) = waiting s" "exec_queue (get_module k s) = exec_queue s"
  "def_order (get_module k s) = def_order s" "uid (get_module k s) = uid s" "calls (get_module k s) = calls s"
  by (auto simp: get_module_def map_add_def split: option.splits)

lemma fold_get_module [simp]:
  "map_of (mods (fold get_module ks s)) m = (case map_of (mods s) m of
     Some r \<Rightarrow> Some r | None \<Rightarrow> if m \<in> set ks then Some make_module_info else None)"
  "waiting (fold get_module ks s) = waiting s" "exec_queue (fold get_module ks s) = exec_queue s"
  "def_order (fold get_module ks s) = def_order s" "uid (fold get_module ks s) = uid s" "calls (fold get_module ks s) = calls s"
  by (induction ks arbitrary: s) (auto split: option.splits)

lemma map_of_delete: "map_of (AList.delete k xs) m = (if m = k then None else map_of xs m)"
  by (simp add: AList.delete_conv')

lemma finish_exec_simps [simp]:
  "map_of (mods (finish_exec k s)) m =
     (if m = k then (case k of Synthetic _ \<Rightarrow> None | File _ \<Rightarrow> map_option (\<lambda>r. r\<lparr>executed := Executed\<rparr>) (map_of (mods s) k))
      else map_of (mods s) m)"
  "waiting (finish_exec k s) = waiting s" "exec_queue (finish_exec k s) = removeAll k (exec_queue s)"
  "def_order (finish_exec k s) = Suc (def_order s)" "uid (finish_exec k s) = uid s" "calls (finish_exec k s) = calls s"
  by (cases k; simp add: finish_exec_def map_of_delete Let_def)+

lemma set_requested_simps [simp]:
  "map_of (mods (set_requested k s)) m =
     (if m = k then map_option (\<lambda>r. r\<lparr>injected := Requested\<rparr>) (map_of (mods s) k) else map_of (mods s) m)"
  "waiting (set_requested k s) = k # waiting s" "exec_queue (set_requested k s) = exec_queue s"
  "def_order (set_requested k s) = def_order s" "uid (set_requested k s) = uid s" "calls (set_requested k s) = calls s"
  by (simp_all add: set_requested_def)

lemma set_arrived_simps [simp]:
  "map_of (mods (set_arrived k s)) m =
     (if m = k then map_option (\<lambda>r. r\<lparr>injected := Arrived\<rparr>) (map_of (mods s) k) else map_of (mods s) m)"
  "waiting (set_arrived k s) = removeAll k (waiting s)" "exec_queue (set_arrived k s) = exec_queue s"
  "def_order (set_arrived k s) = def_order s" "uid (set_arrived k s) = uid s" "calls (set_arrived k s) = calls s"
  by (simp_all add: set_arrived_def)

lemma uninjected_less:
  assumes "map_of fs m \<noteq> None" "fresh_in s m" "\<not> fresh_in s' m" "\<forall>k. fresh_in s' k \<longrightarrow> fresh_in s k"
  shows "uninjected fs s' < uninjected fs s"
proof -
  from assms(1) obtain v where v: "(m, v) \<in> set fs" by (auto dest: map_of_SomeD)
  have "filter (\<lambda>e. fresh_in s' (fst e)) fs = filter (\<lambda>e. fresh_in s' (fst e)) (filter (\<lambda>e. fresh_in s (fst e)) fs)"
    using assms(4) by (simp add: filter_filter) (metis (mono_tags, lifting) filter_cong)
  also have "length \<dots> < length (filter (\<lambda>e. fresh_in s (fst e)) fs)"
    using v assms(2,3) by (intro length_filter_less [of "(m, v)"]) auto
  finally show ?thesis by (simp add: uninjected_def)
qed

lemma not_skippedD:
  "\<not> skipped m s \<Longrightarrow> \<exists>r. map_of (mods s) m = Some r \<and> executed r = Not_executed \<and> injected r = Not_injected \<and> m \<notin> set (waiting s)"
  by (auto simp: skipped_def split: option.splits)

lemma define_module_mods:
  assumes "map_of (mods s) (File n) = Some r" "injected r \<noteq> Arrived"
  shows "map_of (mods (define_module (File n) ds f s)) k =
    (if k = File n then
       Some (if \<exists>v. f = Constant v \<and> ds = []
         then r\<lparr>deps := ds, adef := Some f, cjs := True, aresult := (case f of Constant v \<Rightarrow> Val v | Function \<Rightarrow> Exp k),
                injected := Arrived, executed := Executed\<rparr>
         else r\<lparr>deps := ds, adef := Some f, cjs := True, aresult := Exp k, injected := Arrived\<rparr>)
     else (case map_of (mods s) k of Some r \<Rightarrow> Some r
       | None \<Rightarrow> if k \<in> File ` set (dep_mods ds) then Some make_module_info else None))"
  using assms by (auto simp: define_module_def Let_def split: factory.splits option.splits mid.splits)

lemma define_module_simps [simp]:
  assumes "map_of (mods s) (File n) = Some r" "injected r \<noteq> Arrived"
  shows "waiting (define_module (File n) ds f s) = removeAll (File n) (waiting s)"
    "uid (define_module (File n) ds f s) = uid s" "calls (define_module (File n) ds f s) = calls s"
  using assms by (auto simp: define_module_def Let_def split: factory.splits)

lemma fresh_after:
  assumes "\<not> skipped (File m) s"
  shows "\<not> fresh_in (set_requested (File m) s) m" "fresh_in s m"
    "fresh_in (set_requested (File m) s) k \<Longrightarrow> fresh_in s k"
  using not_skippedD [OF assms] by (auto simp: fresh_in_def split: if_splits)

lemma fresh_define:
  assumes "\<not> skipped (File m) s"
  shows "fresh_in (define_module (File m) ds f (set_requested (File m) s)) k \<longleftrightarrow> k \<noteq> m \<and> fresh_in s k"
proof -
  from not_skippedD [OF assms(1)] obtain r where "map_of (mods s) (File m) = Some r" by blast
  then have "map_of (mods (set_requested (File m) s)) (File m) = Some (r\<lparr>injected := Requested\<rparr>)" by simp
  from define_module_mods [OF this, of ds f "File k"] show ?thesis
    by (auto simp: fresh_in_def make_module_info_def split: factory.splits option.splits if_splits)
qed

lemma fresh_script:
  assumes "\<not> skipped (File m) s"
  shows "fresh_in (finish_exec (File m) (set_arrived (File m) (set_requested (File m) s))) k \<longleftrightarrow> k \<noteq> m \<and> fresh_in s k"
  using not_skippedD [OF assms(1)] by (auto simp: fresh_in_def)

lemma inject_fresh:
  "inject_modules_dom (fs, ms, s) \<Longrightarrow> inject_modules fs ms s = Inr s' \<Longrightarrow> fresh_in s' k \<Longrightarrow> fresh_in s k"
proof (induction fs ms s arbitrary: s' rule: inject_modules.pinduct)
  case (1 fs s)
  then show ?case by (simp add: inject_modules.psimps)
next
  case (2 fs m ms s)
  show ?case
  proof (cases "skipped (File m) s")
    case True
    with 2 show ?thesis by (simp add: inject_modules.psimps)
  next
    case False
    show ?thesis
    proof (cases "map_of fs m")
      case None
      with False 2 show ?thesis by (simp add: inject_modules.psimps)
    next
      case (Some x)
      show ?thesis
      proof (cases x)
        case Script
        with Some False 2 fresh_script [OF False, of k] show ?thesis by (simp add: inject_modules.psimps)
      next
        case (Define ds f)
        with Some False 2(1,6) obtain s1 where
          s1: "inject_modules fs (dep_mods ds) (define_module (File m) ds f (set_requested (File m) s)) = Inr s1"
            "inject_modules fs ms s1 = Inr s'"
          by (auto simp: inject_modules.psimps split: sum.splits)
        with 2 False Some Define have "fresh_in s1 k" by simp
        with 2(3) [OF False Some Define s1(1)] fresh_define [OF False, of ds f k] show ?thesis by blast
      qed
    qed
  qed
qed

termination inject_modules
proof (relation "measures [\<lambda>(fs, ms, s). uninjected fs s, \<lambda>(fs, ms, s). length ms]", goal_cases)
  case 1
  then show ?case by simp
next
  case (2 fs m ms s)
  then show ?case by simp
next
  case (3 fs m ms s x ds f)
  then have "uninjected fs (define_module (File m) ds f (set_requested (File m) s)) < uninjected fs s"
    using fresh_define [OF 3(1)] fresh_after(2) [OF 3(1)] by (intro uninjected_less [of fs m]) auto
  then show ?case by simp
next
  case (4 fs m ms s x ds f s')
  then have k: "fresh_in s' k \<Longrightarrow> k \<noteq> m \<and> fresh_in s k" for k
    using inject_fresh fresh_define [OF 4(1)] by blast
  have "uninjected fs s' < uninjected fs s"
  proof (rule uninjected_less)
    show "map_of fs m \<noteq> None" using 4 by simp
    show "fresh_in s m" by (rule fresh_after(2) [OF 4(1)])
    show "\<not> fresh_in s' m" "\<forall>k. fresh_in s' k \<longrightarrow> fresh_in s k" using k by blast+
  qed
  then show ?case by simp
next
  case (5 fs m ms s x)
  then have "uninjected fs (finish_exec (File m) (set_arrived (File m) (set_requested (File m) s))) < uninjected fs s"
    using fresh_script [OF 5(1)] fresh_after(2) [OF 5(1)] by (intro uninjected_less [of fs m]) auto
  then show ?case by simp
qed


section \<open>Executing\<close>

text \<open>\<open>calls\<close> records the modules whose factories are taken, in order, each with its arguments: the results of
  what it needs. A factory may return nothing, and then its result is the object \<^verbatim>\<open>exports\<close>.\<close>

type_synonym world = "mid \<Rightarrow> arg list \<Rightarrow> nat option"

definition run_factory :: "world \<Rightarrow> mid \<Rightarrow> arg list \<Rightarrow> loader \<Rightarrow> loader" where
  "run_factory run m args s =
     (case map_of (mods s) m of
        None \<Rightarrow> s
      | Some r \<Rightarrow> (case adef r of
          Some (Constant v) \<Rightarrow> (set_mod m (\<lambda>r. r\<lparr>aresult := Val v\<rparr>) s)\<lparr>calls := calls s @ [(m, args)]\<rparr>
        | _ \<Rightarrow> (set_mod m (\<lambda>r. r\<lparr>aresult := (case run m args of
              Some v \<Rightarrow> Val v | None \<Rightarrow> if cjs r then Exp m else Undef)\<rparr>) s)\<lparr>calls := calls s @ [(m, args)]\<rparr>))"

definition result_of :: "mid \<Rightarrow> loader \<Rightarrow> arg" where
  "result_of m s = (case map_of (mods s) m of Some r \<Rightarrow> aresult r | None \<Rightarrow> Undef)"

text \<open>\<^verbatim>\<open>execModule\<close> and its loop over what the module needs. A module that is being executed already (a
  circle) gives its \<^verbatim>\<open>exports\<close>; one without a definition, or a circle when the caller insists, ends the
  execution, and all that wait for it go back to not executed.\<close>

definition unexecuted :: "loader \<Rightarrow> nat" where
  "unexecuted s = length (filter (\<lambda>e. executed (snd e) = Not_executed) (mods s))"

definition mark :: "mid \<Rightarrow> exec \<Rightarrow> loader \<Rightarrow> loader" where
  "mark m e = set_mod m (\<lambda>r. r\<lparr>executed := e\<rparr>)"

function exec_module :: "world \<Rightarrow> bool \<Rightarrow> mid \<Rightarrow> loader \<Rightarrow> arg option \<times> loader"
  and exec_deps :: "world \<Rightarrow> bool \<Rightarrow> mid \<Rightarrow> dep list \<Rightarrow> arg list \<Rightarrow> loader \<Rightarrow> arg list option \<times> loader" where
  "exec_module run strict m s =
     (case map_of (mods s) m of
        None \<Rightarrow> (None, s)
      | Some r \<Rightarrow> (case executed r of
          Executing \<Rightarrow> (if adef r = None \<or> strict then None else Some (if cjs r then Exp m else Undef), s)
        | Executed \<Rightarrow> (Some (aresult r), s)
        | Not_executed \<Rightarrow>
            (if adef r = None then (None, s)
             else (case exec_deps run strict m (deps r) [] (mark m Executing s) of
                (None, s1) \<Rightarrow> (None, mark m Not_executed s1)
              | (Some args, s1) \<Rightarrow>
                  (let s2 = run_factory run m args s1 in (Some (result_of m s2), finish_exec m s2))))))"
| "exec_deps run strict self [] args s = (Some args, s)"
| "exec_deps run strict self (d # ds) args s =
     (case d of
        Require \<Rightarrow> exec_deps run strict self ds (args @ [Req self]) s
      | Exports \<Rightarrow> exec_deps run strict self ds (args @ [Exp self]) s
      | Cjs_module \<Rightarrow> exec_deps run strict self ds (args @ [Cjs self]) s
      | Mod n \<Rightarrow> (case exec_module run strict (File n) s of
          (None, s1) \<Rightarrow> (None, s1)
        | (Some a, s1) \<Rightarrow> exec_deps run strict self ds (args @ [a]) s1))"
  by pat_completeness auto

lemma unexecuted_mark:
  "map_of (mods s) m = Some r \<Longrightarrow>
     unexecuted (mark m e s) + (if executed r = Not_executed then 1 else 0) =
     unexecuted s + (if e = Not_executed then 1 else 0)"
proof -
  have "map_of xs m = Some r \<Longrightarrow>
     length (filter (\<lambda>e. executed (snd e) = Not_executed) (AList.map_entry m (\<lambda>r. r\<lparr>executed := e\<rparr>) xs)) +
       (if executed r = Not_executed then 1 else 0) =
     length (filter (\<lambda>e. executed (snd e) = Not_executed) xs) + (if e = Not_executed then 1 else 0)" for xs
    by (induction xs) auto
  then show "map_of (mods s) m = Some r \<Longrightarrow> ?thesis"
    by (simp add: unexecuted_def mark_def set_mod_def)
qed

lemma unexecuted_mark_None: "map_of (mods s) m = None \<Longrightarrow> unexecuted (mark m e s) = unexecuted s"
proof -
  have "map_of xs m = None \<Longrightarrow> AList.map_entry m f xs = xs" for f and xs :: "(mid \<times> amodule) list"
    by (induction xs) auto
  then show "map_of (mods s) m = None \<Longrightarrow> ?thesis" by (simp add: unexecuted_def mark_def set_mod_def)
qed

lemma unexecuted_set:
  assumes "\<And>r. executed (f r) = executed r"
  shows "unexecuted (set_mod m f s) = unexecuted s"
proof -
  have "length (filter (\<lambda>e. executed (snd e) = Not_executed) (AList.map_entry m f xs)) =
      length (filter (\<lambda>e. executed (snd e) = Not_executed) xs)" for xs
    using assms by (induction xs) auto
  then show ?thesis by (simp add: unexecuted_def set_mod_def)
qed

lemma unexecuted_ran [simp]: "unexecuted (s\<lparr>calls := x\<rparr>) = unexecuted s"
  by (simp add: unexecuted_def)

lemma unexecuted_run [simp]: "unexecuted (run_factory run m args s) = unexecuted s"
  by (simp add: run_factory_def unexecuted_set split: option.splits factory.splits)

lemma unexecuted_delete: "length (filter P (AList.delete m xs)) \<le> length (filter P xs)"
  by (induction xs) auto

lemma unexecuted_finish: "unexecuted (finish_exec m s) \<le> unexecuted s"
proof -
  have "unexecuted (mark m Executed s) \<le> unexecuted s"
    using unexecuted_mark [of s m _ Executed] unexecuted_mark_None [of s m Executed]
    by (cases "map_of (mods s) m") (fastforce split: if_splits)+
  then show ?thesis
    using unexecuted_delete [of "\<lambda>e. executed (snd e) = Not_executed" m]
    by (auto simp: finish_exec_def Let_def unexecuted_def mark_def split: mid.splits intro: le_trans)
qed

lemma exec_unexecuted:
  "exec_module_exec_deps_dom (Inl (run, strict, m, s)) \<Longrightarrow> unexecuted (snd (exec_module run strict m s)) \<le> unexecuted s"
  "exec_module_exec_deps_dom (Inr (run, strict, self, ds, args, s)) \<Longrightarrow>
     unexecuted (snd (exec_deps run strict self ds args s)) \<le> unexecuted s"
proof (induction rule: exec_module_exec_deps.pinduct)
  case (1 run strict m s)
  show ?case
  proof (cases "\<exists>r. map_of (mods s) m = Some r \<and> executed r = Not_executed \<and> adef r \<noteq> None")
    case False
    with 1(1) show ?thesis by (auto simp: exec_module.psimps split: option.splits exec.splits)
  next
    case True
    then obtain r where r: "map_of (mods s) m = Some r" "executed r = Not_executed" "adef r \<noteq> None" by blast
    obtain o1 s1 where e: "exec_deps run strict m (deps r) [] (mark m Executing s) = (o1, s1)" by force
    from 1(2) [OF r] e have "unexecuted s1 \<le> unexecuted (mark m Executing s)" by simp
    with unexecuted_mark [OF r(1), of Executing] r(2) have u: "Suc (unexecuted s1) \<le> unexecuted s" by simp
    have "unexecuted (mark m Not_executed s1) \<le> Suc (unexecuted s1)"
      using unexecuted_mark [of s1 m _ Not_executed] unexecuted_mark_None [of s1 m Not_executed]
      by (cases "map_of (mods s1) m") (fastforce split: if_splits)+
    moreover have "unexecuted (finish_exec m (run_factory run m args s1)) \<le> unexecuted s1" for args
      using unexecuted_finish [of m "run_factory run m args s1"] by simp
    ultimately show ?thesis
      using 1(1) r e u by (auto simp: exec_module.psimps Let_def split: option.splits intro: le_trans Suc_leD)
  qed
next
  case (2 run strict self args s)
  then show ?case by (simp add: exec_deps.psimps)
next
  case (3 run strict self d ds args s)
  show ?case
  proof (cases d)
    case (Mod n)
    obtain o1 s1 where e: "exec_module run strict (File n) s = (o1, s1)" by force
    with 3(5) [OF Mod] have u: "unexecuted s1 \<le> unexecuted s" by simp
    show ?thesis
    proof (cases o1)
      case None
      with 3(1) Mod e u show ?thesis by (simp add: exec_deps.psimps)
    next
      case (Some a)
      have "unexecuted (snd (exec_deps run strict self ds (args @ [a]) s1)) \<le> unexecuted s1"
        using 3(6) [OF Mod e [symmetric]] Some by simp
      with 3(1) Mod e u Some show ?thesis by (simp add: exec_deps.psimps)
    qed
  qed (use 3 in \<open>simp_all add: exec_deps.psimps\<close>)
qed

termination exec_module
proof (relation "measures [\<lambda>x. case x of Inl (run, strict, m, s) \<Rightarrow> unexecuted s
      | Inr (run, strict, self, ds, args, s) \<Rightarrow> unexecuted s,
    \<lambda>x. case x of Inl _ \<Rightarrow> 0 | Inr (run, strict, self, ds, args, s) \<Rightarrow> length ds]", goal_cases)
  case 1
  then show ?case by simp
next
  case (2 run strict m s r)
  then show ?case using unexecuted_mark [of s m r Executing] by simp
next
  case (3 run strict self d ds args s)
  then show ?case by simp
next
  case (4 run strict self d ds args s)
  then show ?case by simp
next
  case (5 run strict self d ds args s)
  then show ?case by simp
next
  case (6 run strict self d ds args s n)
  then show ?case by simp
next
  case (7 run strict self d ds args s n x a s1)
  then have "snd (exec_module run strict (File n) s) = a" by (metis snd_conv)
  with 7 exec_unexecuted(1) [of run strict "File n" s] show ?case by (simp add: le_less)
qed


section \<open>What an execution leaves as it was\<close>

definition status :: "loader \<Rightarrow> mid \<Rightarrow> exec option" where
  "status s m = map_option executed (map_of (mods s) m)"

definition is_done :: "loader \<Rightarrow> mid \<Rightarrow> bool" where
  "is_done s m \<longleftrightarrow> (case m of File _ \<Rightarrow> status s m = Some Executed | Synthetic _ \<Rightarrow> status s m \<in> {None, Some Executed})"

definition same_def :: "amodule \<Rightarrow> amodule \<Rightarrow> bool" where
  "same_def r r' \<longleftrightarrow> injected r' = injected r \<and> adef r' = adef r \<and> deps r' = deps r \<and> cjs r' = cjs r"

text \<open>Modules under execution and executed ones stay, no module is added, definitions stay, and what is
  under execution afterwards was so before.\<close>

definition adv :: "loader \<Rightarrow> loader \<Rightarrow> bool" where
  "adv s s1 \<longleftrightarrow>
     (\<forall>k r. map_of (mods s) k = Some r \<longrightarrow> executed r \<noteq> Not_executed \<longrightarrow> map_of (mods s1) k = Some r) \<and>
     (\<forall>k r1. map_of (mods s1) k = Some r1 \<longrightarrow> (\<exists>r. map_of (mods s) k = Some r \<and> same_def r r1 \<and>
        (executed r1 = Executing \<longrightarrow> executed r = Executing))) \<and>
     (\<forall>n. map_of (mods s) (File n) \<noteq> None \<longrightarrow> map_of (mods s1) (File n) \<noteq> None) \<and>
     waiting s1 = waiting s \<and> uid s1 = uid s"

lemma adv_refl [simp]: "adv s s"
  by (auto simp: adv_def same_def_def)

lemma advD:
  assumes "adv s s1"
  shows "map_of (mods s) k = Some r \<Longrightarrow> executed r \<noteq> Not_executed \<Longrightarrow> map_of (mods s1) k = Some r"
    "map_of (mods s1) k = Some r1 \<Longrightarrow> \<exists>r. map_of (mods s) k = Some r \<and> same_def r r1 \<and>
        (executed r1 = Executing \<longrightarrow> executed r = Executing)"
    "map_of (mods s) (File n) = Some r \<Longrightarrow> \<exists>r1. map_of (mods s1) (File n) = Some r1"
    "waiting s1 = waiting s" "uid s1 = uid s"
  using assms unfolding adv_def by (blast | simp)+

lemma advI:
  assumes "\<And>k r. map_of (mods s) k = Some r \<Longrightarrow> executed r \<noteq> Not_executed \<Longrightarrow> map_of (mods s1) k = Some r"
    "\<And>k r1. map_of (mods s1) k = Some r1 \<Longrightarrow> \<exists>r. map_of (mods s) k = Some r \<and> same_def r r1 \<and>
        (executed r1 = Executing \<longrightarrow> executed r = Executing)"
    "\<And>n r. map_of (mods s) (File n) = Some r \<Longrightarrow> \<exists>r1. map_of (mods s1) (File n) = Some r1"
    "waiting s1 = waiting s" "uid s1 = uid s"
  shows "adv s s1"
  using assms unfolding adv_def by blast

lemma same_def_trans: "same_def r r1 \<Longrightarrow> same_def r1 r2 \<Longrightarrow> same_def r r2"
  by (simp add: same_def_def)

lemma adv_trans:
  assumes "adv s s1" "adv s1 s2"
  shows "adv s s2"
proof (rule advI)
  fix k r1 assume "map_of (mods s2) k = Some r1"
  from advD(2) [OF assms(2) this] obtain r where r: "map_of (mods s1) k = Some r" "same_def r r1"
    "executed r1 = Executing \<longrightarrow> executed r = Executing" by blast
  from advD(2) [OF assms(1) r(1)] r(2,3) same_def_trans
  show "\<exists>r. map_of (mods s) k = Some r \<and> same_def r r1 \<and> (executed r1 = Executing \<longrightarrow> executed r = Executing)"
    by blast
next
  fix n r assume "map_of (mods s) (File n) = Some r"
  then show "\<exists>r1. map_of (mods s2) (File n) = Some r1" using advD(3) [OF assms(1)] advD(3) [OF assms(2)] by blast
qed (use advD(1,4,5) [OF assms(1)] advD(1,4,5) [OF assms(2)] in auto)

lemma adv_status:
  assumes "adv s s1"
  shows "status s k = Some e \<Longrightarrow> e \<noteq> Not_executed \<Longrightarrow> status s1 k = Some e"
    "status s1 k = Some Executing \<Longrightarrow> status s k = Some Executing"
    "status s k = None \<Longrightarrow> status s1 k = None"
proof -
  show "status s k = Some e \<Longrightarrow> e \<noteq> Not_executed \<Longrightarrow> status s1 k = Some e"
    using advD(1) [OF assms] by (auto simp: status_def)
  show "status s1 k = Some Executing \<Longrightarrow> status s k = Some Executing"
    using advD(2) [OF assms] by (force simp: status_def)
  show "status s k = None \<Longrightarrow> status s1 k = None"
    using advD(2) [OF assms, of k] by (cases "map_of (mods s1) k") (auto simp: status_def)
qed

lemma adv_done: "adv s s1 \<Longrightarrow> is_done s k \<Longrightarrow> is_done s1 k"
proof (cases k)
  case (File n)
  assume "adv s s1" "is_done s k"
  with File adv_status(1) [of s s1 k Executed] show ?thesis by (simp add: is_done_def)
next
  case (Synthetic n)
  assume "adv s s1" "is_done s k"
  with Synthetic adv_status(1) [of s s1 k Executed] adv_status(3) [of s s1 k] show ?thesis
    by (auto simp: is_done_def)
qed

lemma mark_status [simp]: "status (mark m e s) k = (if k = m \<and> status s m \<noteq> None then Some e else status s k)"
  by (auto simp: status_def mark_def split: if_splits)

lemma run_factory_mods:
  "map_of (mods (run_factory run m args s)) k =
     (if k = m then map_option (\<lambda>r. r\<lparr>aresult := (case adef r of Some (Constant v) \<Rightarrow> Val v
        | _ \<Rightarrow> (case run m args of Some v \<Rightarrow> Val v | None \<Rightarrow> if cjs r then Exp m else Undef))\<rparr>) (map_of (mods s) m)
      else map_of (mods s) k)"
  by (auto simp: run_factory_def split: option.splits factory.splits)

lemma run_factory_simps [simp]:
  "waiting (run_factory run m args s) = waiting s" "uid (run_factory run m args s) = uid s"
  "exec_queue (run_factory run m args s) = exec_queue s" "def_order (run_factory run m args s) = def_order s"
  "map_of (mods s) m \<noteq> None \<Longrightarrow> calls (run_factory run m args s) = calls s @ [(m, args)]"
  by (auto simp: run_factory_def split: option.splits factory.splits)

text \<open>A module that was marked, and whose needs were executed, is finished or goes back.\<close>

lemma adv_back:
  assumes "map_of (mods s) m = Some r" "executed r = Not_executed" "adv (mark m Executing s) s1"
  shows "adv s (mark m Not_executed s1)"
proof -
  have m: "map_of (mods (mark m Executing s)) k = (if k = m then Some (r\<lparr>executed := Executing\<rparr>) else map_of (mods s) k)" for k
    using assms(1) by (simp add: mark_def)
  have b: "map_of (mods (mark m Not_executed s1)) k =
      (if k = m then Some (r\<lparr>executed := Not_executed\<rparr>) else map_of (mods s1) k)" for k
    using assms(3) m by (auto simp: mark_def adv_def)
  have w: "waiting (mark m e x) = waiting x" "uid (mark m e x) = uid x" for e x by (simp_all add: mark_def)
  have r: "r\<lparr>executed := Not_executed\<rparr> = r" using assms(2) by simp
  show ?thesis
  proof (rule advI)
    fix k x assume "map_of (mods (mark m Not_executed s1)) k = Some x"
    then show "\<exists>y. map_of (mods s) k = Some y \<and> same_def y x \<and> (executed x = Executing \<longrightarrow> executed y = Executing)"
      using b [of k] m [of k] r assms(1) advD(2) [OF assms(3), of k x] by (auto simp: same_def_def split: if_splits)
  next
    fix k x assume "map_of (mods s) k = Some x" "executed x \<noteq> Not_executed"
    then show "map_of (mods (mark m Not_executed s1)) k = Some x"
      using b [of k] m [of k] assms(1,2) advD(1) [OF assms(3), of k x] by (auto split: if_splits)
  next
    fix n x assume "map_of (mods s) (File n) = Some x"
    then show "\<exists>y. map_of (mods (mark m Not_executed s1)) (File n) = Some y"
      using b [of "File n"] m [of "File n"] advD(3) [OF assms(3), of n x] by (auto split: if_splits)
  qed (use advD(4,5) [OF assms(3)] w in auto)
qed

lemma adv_finish:
  assumes "map_of (mods s) m = Some r" "executed r = Not_executed" "adv (mark m Executing s) s1"
  shows "adv s (finish_exec m (run_factory run m args s1))" "is_done (finish_exec m (run_factory run m args s1)) m"
    "is_done (finish_exec m (run_factory run m args s1)) k \<longleftrightarrow> k = m \<or> is_done s1 k"
    "ran (finish_exec m (run_factory run m args s1)) = ran s1 @ [m]"
proof -
  let ?s2 = "finish_exec m (run_factory run m args s1)"
  have m: "map_of (mods (mark m Executing s)) k = (if k = m then Some (r\<lparr>executed := Executing\<rparr>) else map_of (mods s) k)" for k
    using assms(1) by (simp add: mark_def)
  have m1: "map_of (mods s1) m = Some (r\<lparr>executed := Executing\<rparr>)" using assms(3) m by (auto simp: adv_def)
  have w: "waiting (mark m e x) = waiting x" "uid (mark m e x) = uid x" for e x by (simp_all add: mark_def)
  have o: "k \<noteq> m \<Longrightarrow> map_of (mods ?s2) k = map_of (mods s1) k" for k by (simp add: run_factory_mods)
  have mm: "map_of (mods ?s2) m = Some x \<Longrightarrow> same_def r x \<and> executed x = Executed" for x
    using m1 by (auto simp: run_factory_mods same_def_def split: mid.splits)
  have mf: "map_of (mods ?s2) (File n) \<noteq> None" if "m = File n" for n
    using m1 that by (simp add: run_factory_mods)
  show "adv s ?s2"
  proof (rule advI)
    fix k x assume "map_of (mods s) k = Some x" "executed x \<noteq> Not_executed"
    then show "map_of (mods ?s2) k = Some x"
      using o [of k] m [of k] assms(1,2) advD(1) [OF assms(3), of k x] by (auto split: if_splits)
  next
    fix k x assume x: "map_of (mods ?s2) k = Some x"
    show "\<exists>y. map_of (mods s) k = Some y \<and> same_def y x \<and> (executed x = Executing \<longrightarrow> executed y = Executing)"
    proof (cases "k = m")
      case True
      with x mm assms(1) show ?thesis by auto
    next
      case False
      with x o have "map_of (mods s1) k = Some x" by simp
      with advD(2) [OF assms(3) this] m [of k] False show ?thesis by auto
    qed
  next
    fix n x assume "map_of (mods s) (File n) = Some x"
    then show "\<exists>y. map_of (mods ?s2) (File n) = Some y"
      using m [of "File n"] mf [of n] o [of "File n"] advD(3) [OF assms(3), of n x] by (cases "m = File n") auto
  qed (use advD(4,5) [OF assms(3)] w in auto)
  show d: "is_done ?s2 m" using mm mf by (cases m) (auto simp: is_done_def status_def)
  show "is_done ?s2 k \<longleftrightarrow> k = m \<or> is_done s1 k"
  proof (cases "k = m")
    case False
    have "status ?s2 k = status s1 k" unfolding status_def by (rule arg_cong [OF o [OF False]])
    with False show ?thesis by (cases k) (simp_all add: is_done_def)
  qed (use d in simp)
  show "ran ?s2 = ran s1 @ [m]" using m1 by (simp add: ran_def)
qed


section \<open>Executing what is on board\<close>

text \<open>Everything not yet executed has a definition and what it needs is known; \<open>needs\<close> relates a module to
  what it needs, as long as it is not executed.\<close>

definition ready :: "(mid \<times> mid) set \<Rightarrow> loader \<Rightarrow> bool" where
  "ready needs s \<longleftrightarrow> (\<forall>k r. map_of (mods s) k = Some r \<longrightarrow> executed r \<noteq> Executed \<longrightarrow>
     adef r \<noteq> None \<and> File ` set (dep_mods (deps r)) = needs `` {k} \<and>
     (\<forall>n \<in> set (dep_mods (deps r)). map_of (mods s) (File n) \<noteq> None))"

definition in_order :: "(mid \<times> mid) set \<Rightarrow> loader \<Rightarrow> mid list \<Rightarrow> bool" where
  "in_order needs s new \<longleftrightarrow> (\<forall>us k vs d. new = us @ k # vs \<longrightarrow> (k, d) \<in> needs \<longrightarrow>
     is_done s d \<or> d \<in> set us \<or> (d, k) \<in> needs\<^sup>+)"

definition executes :: "(mid \<times> mid) set \<Rightarrow> loader \<Rightarrow> loader \<Rightarrow> mid list \<Rightarrow> bool" where
  "executes needs s s1 new \<longleftrightarrow> adv s s1 \<and> ran s1 = ran s @ new \<and> distinct new \<and>
     set new = {k. status s k = Some Not_executed \<and> is_done s1 k} \<and> in_order needs s new \<and>
     (\<forall>k \<in> set new. \<forall>d. (k, d) \<in> needs \<longrightarrow> is_done s1 d \<or> status s d = Some Executing)"

definition leads_to :: "(mid \<times> mid) set \<Rightarrow> loader \<Rightarrow> mid \<Rightarrow> bool" where
  "leads_to needs s m \<longleftrightarrow> (\<forall>e. status s e = Some Executing \<longrightarrow> (e, m) \<in> needs\<^sup>+)"

lemma ready_adv:
  assumes "ready needs s" "adv s s1"
  shows "ready needs s1"
  unfolding ready_def
proof (intro allI impI)
  fix k r1 assume k: "map_of (mods s1) k = Some r1" "executed r1 \<noteq> Executed"
  from advD(2) [OF assms(2) k(1)] obtain r where r: "map_of (mods s) k = Some r" "same_def r r1" by blast
  have "executed r \<noteq> Executed" using advD(1) [OF assms(2) r(1)] k by auto
  with assms(1) r(1) have "adef r \<noteq> None \<and> File ` set (dep_mods (deps r)) = needs `` {k} \<and>
     (\<forall>n \<in> set (dep_mods (deps r)). map_of (mods s) (File n) \<noteq> None)" unfolding ready_def by blast
  with r(2) advD(3) [OF assms(2)] show "adef r1 \<noteq> None \<and> File ` set (dep_mods (deps r1)) = needs `` {k} \<and>
     (\<forall>n \<in> set (dep_mods (deps r1)). map_of (mods s1) (File n) \<noteq> None)"
    unfolding same_def_def by fastforce
qed

lemma in_order_Nil [simp]: "in_order needs s []" by (simp add: in_order_def)

lemma executes_refl: "executes needs s s []"
  by (auto simp: executes_def is_done_def split: mid.splits)

lemma in_order_append:
  assumes "in_order needs s xs" "in_order needs s1 ys" "\<And>d. is_done s1 d \<Longrightarrow> is_done s d \<or> d \<in> set xs"
  shows "in_order needs s (xs @ ys)"
  unfolding in_order_def
proof (intro allI impI)
  fix us k vs d assume e: "xs @ ys = us @ k # vs" and n: "(k, d) \<in> needs"
  from e consider ws where "xs = us @ k # ws" | ws where "us = xs @ ws" "ys = ws @ k # vs"
  proof -
    from e obtain zs where z: "xs = us @ zs \<and> zs @ ys = k # vs \<or> xs @ zs = us \<and> ys = zs @ k # vs"
      by (auto simp: append_eq_append_conv2)
    then show thesis using that by (cases zs) auto
  qed
  then show "is_done s d \<or> d \<in> set us \<or> (d, k) \<in> needs\<^sup>+"
  proof cases
    case 1
    with assms(1) n show ?thesis unfolding in_order_def by blast
  next
    case 2
    with assms(2) n have "is_done s1 d \<or> d \<in> set ws \<or> (d, k) \<in> needs\<^sup>+" unfolding in_order_def by blast
    with assms(3) 2 show ?thesis by auto
  qed
qed

lemma done_before:
  assumes "executes needs s s1 new" "is_done s1 d" "status s d \<noteq> Some Executing"
  shows "is_done s d \<or> d \<in> set new"
proof -
  have a: "adv s s1" using assms(1) by (simp add: executes_def)
  show ?thesis
  proof (cases "status s d")
    case None
    with adv_status(3) [OF a] assms(2) show ?thesis by (auto simp: is_done_def split: mid.splits)
  next
    case (Some e)
    with assms show ?thesis by (cases e) (auto simp: executes_def is_done_def split: mid.splits)
  qed
qed

lemma executing_not_done: "status s d = Some Executing \<Longrightarrow> \<not> is_done s d"
  by (auto simp: is_done_def split: mid.splits)

lemma executes_trans:
  assumes e1: "executes needs s s1 xs" and e2: "executes needs s1 s2 ys"
  shows "executes needs s s2 (xs @ ys)"
proof -
  from e1 e2 have a: "adv s s1" "adv s1 s2" by (auto simp: executes_def)
  have st: "status s k = Some Not_executed" if "status s1 k = Some Not_executed" for k
  proof (cases "status s k")
    case (Some e)
    with adv_status(1) [OF a(1) Some] that show ?thesis by (cases e) auto
  qed (use adv_status(3) [OF a(1), of k] that in simp)
  have db: "is_done s d \<or> d \<in> set xs" if "is_done s1 d" for d
    using done_before [OF e1 that] executing_not_done adv_status(1) [OF a(1), of d Executing] that by blast
  have nd: "status s1 k = Some Not_executed \<Longrightarrow> \<not> is_done s1 k" for k by (auto simp: is_done_def split: mid.splits)
  have "k \<in> set ys \<Longrightarrow> k \<notin> set xs" for k using e1 e2 nd by (auto simp: executes_def)
  then have "distinct (xs @ ys)" using e1 e2 by (auto simp: executes_def)
  moreover have "set (xs @ ys) = {k. status s k = Some Not_executed \<and> is_done s2 k}"
  proof (rule set_eqI)
    fix k
    show "k \<in> set (xs @ ys) \<longleftrightarrow> k \<in> {k. status s k = Some Not_executed \<and> is_done s2 k}"
    proof
      assume "k \<in> set (xs @ ys)"
      then show "k \<in> {k. status s k = Some Not_executed \<and> is_done s2 k}"
        using e1 e2 st adv_done [OF a(2)] by (auto simp: executes_def)
    next
      assume k: "k \<in> {k. status s k = Some Not_executed \<and> is_done s2 k}"
      show "k \<in> set (xs @ ys)"
      proof (cases "is_done s1 k")
        case True
        with k e1 show ?thesis by (auto simp: executes_def)
      next
        case False
        have "status s1 k \<noteq> Some Executing" using k adv_status(2) [OF a(1), of k] by auto
        with done_before [OF e2] k False show ?thesis by auto
      qed
    qed
  qed
  moreover have "is_done s2 d \<or> status s d = Some Executing" if "k \<in> set (xs @ ys)" "(k, d) \<in> needs" for k d
  proof (cases "k \<in> set xs")
    case True
    with e1 that(2) have "is_done s1 d \<or> status s d = Some Executing" unfolding executes_def by blast
    with adv_done [OF a(2)] show ?thesis by blast
  next
    case False
    with that(1) have "k \<in> set ys" by simp
    with e2 that(2) have "is_done s2 d \<or> status s1 d = Some Executing" unfolding executes_def by blast
    with adv_status(2) [OF a(1)] show ?thesis by blast
  qed
  ultimately show ?thesis
    using e1 e2 adv_trans [OF a] in_order_append [of needs s xs s1 ys] db by (auto simp: executes_def)
qed


lemma executes_one:
  assumes r: "map_of (mods s) m = Some r" "executed r = Not_executed"
    and e: "executes needs (mark m Executing s) s1 new"
    and d: "\<And>d. (m, d) \<in> needs \<Longrightarrow> status (mark m Executing s) d = Some Executing \<or> is_done s1 d"
    and l: "leads_to needs s m"
  shows "executes needs s (finish_exec m (run_factory run m args s1)) (new @ [m])"
proof -
  let ?s0 = "mark m Executing s" and ?s2 = "finish_exec m (run_factory run m args s1)"
  from e have a: "adv ?s0 s1" and rn: "ran s1 = ran ?s0 @ new" and dn: "distinct new"
    and sn: "set new = {k. status ?s0 k = Some Not_executed \<and> is_done s1 k}" and o: "in_order needs ?s0 new"
    by (auto simp: executes_def)
  note f = adv_finish [OF r a, of run args]
  have sm: "status s m = Some Not_executed" using r by (simp add: status_def)
  have s0: "status ?s0 k = (if k = m then Some Executing else status s k)" for k using sm by simp
  have d0: "is_done ?s0 k \<longleftrightarrow> k \<noteq> m \<and> is_done s k" for k
    using sm by (auto simp: is_done_def s0 split: mid.splits)
  have nm: "\<not> is_done s m" using sm by (auto simp: is_done_def split: mid.splits)
  have mn: "m \<notin> set new" by (simp add: sn s0)
  have "in_order needs s (new @ [m])"
    unfolding in_order_def
  proof (intro allI impI)
    fix us k vs d' assume eq: "new @ [m] = us @ k # vs" and n: "(k, d') \<in> needs"
    show "is_done s d' \<or> d' \<in> set us \<or> (d', k) \<in> needs\<^sup>+"
    proof (cases vs rule: rev_cases)
      case Nil
      with eq have k: "k = m" "us = new" by auto
      with d n have "status ?s0 d' = Some Executing \<or> is_done s1 d'" by blast
      then show ?thesis
      proof
        assume "status ?s0 d' = Some Executing"
        with n k l show ?thesis by (auto simp: s0 leads_to_def split: if_splits)
      next
        assume x: "is_done s1 d'"
        show ?thesis
        proof (cases "status ?s0 d' = Some Executing")
          case True
          with n k l show ?thesis by (auto simp: s0 leads_to_def split: if_splits)
        next
          case False
          with done_before [OF e x] d0 k show ?thesis by auto
        qed
      qed
    next
      case (snoc ws z)
      with eq have "new = us @ k # ws" by auto
      with o n have "is_done ?s0 d' \<or> d' \<in> set us \<or> (d', k) \<in> needs\<^sup>+" unfolding in_order_def by blast
      with d0 show ?thesis by auto
    qed
  qed
  moreover have "set (new @ [m]) = {k. status s k = Some Not_executed \<and> is_done ?s2 k}"
    using sm by (auto simp: f(3) sn s0)
  moreover have "ran ?s2 = ran s @ new @ [m]" using f(4) rn by (simp add: mark_def ran_def)
  moreover have "is_done ?s2 d' \<or> status s d' = Some Executing" if "k \<in> set (new @ [m])" "(k, d') \<in> needs" for k d'
  proof (cases "k = m")
    case True
    with that d [of d'] show ?thesis by (auto simp: f(3) s0 split: if_splits)
  next
    case False
    with that have "k \<in> set new" by simp
    with e that(2) have "is_done s1 d' \<or> status ?s0 d' = Some Executing" unfolding executes_def by blast
    then show ?thesis unfolding f(3) s0 by (auto split: if_splits)
  qed
  ultimately show ?thesis using f(1) dn mn by (simp add: executes_def)
qed

lemma ready_mark:
  assumes "ready needs s" "status s m = Some Not_executed"
  shows "ready needs (mark m Executing s)"
  unfolding ready_def
proof (intro allI impI)
  fix k r1 assume k: "map_of (mods (mark m Executing s)) k = Some r1" "executed r1 \<noteq> Executed"
  then obtain r where r: "map_of (mods s) k = Some r" "executed r \<noteq> Executed" "same_def r r1"
    using assms(2) by (auto simp: mark_def same_def_def status_def split: if_splits)
  with assms(1) have "adef r \<noteq> None \<and> File ` set (dep_mods (deps r)) = needs `` {k} \<and>
     (\<forall>n \<in> set (dep_mods (deps r)). map_of (mods s) (File n) \<noteq> None)" unfolding ready_def by blast
  with r(3) show "adef r1 \<noteq> None \<and> File ` set (dep_mods (deps r1)) = needs `` {k} \<and>
     (\<forall>n \<in> set (dep_mods (deps r1)). map_of (mods (mark m Executing s)) (File n) \<noteq> None)"
    by (auto simp: same_def_def mark_def)
qed

lemma executes_mods: "executes needs s s1 new \<Longrightarrow> status s (File n) \<noteq> None \<Longrightarrow> status s1 (File n) \<noteq> None"
  using advD(3) by (fastforce simp: executes_def status_def)

lemma dep_mods_simps [simp]:
  "dep_mods [] = []" "dep_mods (Require # ds) = dep_mods ds" "dep_mods (Exports # ds) = dep_mods ds"
  "dep_mods (Cjs_module # ds) = dep_mods ds" "dep_mods (Mod n # ds) = n # dep_mods ds"
  by (simp_all add: dep_mods_def)

text \<open>Where nothing is missing and circles are allowed, the execution ends with a result.\<close>

lemma exec_ok:
  "strict = False \<Longrightarrow> ready needs s \<Longrightarrow> status s m \<noteq> None \<Longrightarrow> leads_to needs s m \<Longrightarrow>
     \<exists>a s1 new. exec_module run strict m s = (Some a, s1) \<and> executes needs s s1 new \<and>
       (status s m = Some Executing \<or> is_done s1 m)"
  "strict = False \<Longrightarrow> ready needs s \<Longrightarrow> \<forall>n \<in> set (dep_mods ds). status s (File n) \<noteq> None \<and> leads_to needs s (File n) \<Longrightarrow>
     \<exists>a s1 new. exec_deps run strict self ds args s = (Some a, s1) \<and> executes needs s s1 new \<and>
       (\<forall>n \<in> set (dep_mods ds). status s (File n) = Some Executing \<or> is_done s1 (File n))"
proof (induction run strict m s and run strict self ds args s rule: exec_module_exec_deps.induct)
  case (1 run strict m s)
  then obtain r where r: "map_of (mods s) m = Some r" by (auto simp: status_def)
  show ?case
  proof (cases "executed r")
    case Executing
    with r 1 executes_refl [of needs s] show ?thesis by (auto simp: ready_def status_def)
  next
    case Executed
    then have "is_done s m" using r by (auto simp: is_done_def status_def split: mid.splits)
    with r Executed executes_refl [of needs s] show ?thesis by auto
  next
    case Not_executed
    let ?s0 = "mark m Executing s"
    from r Not_executed 1(3) have ad: "adef r \<noteq> None" and nd: "File ` set (dep_mods (deps r)) = needs `` {m}"
      and kn: "\<forall>n \<in> set (dep_mods (deps r)). map_of (mods s) (File n) \<noteq> None" by (auto simp: ready_def)
    have sm: "status s m = Some Not_executed" using r Not_executed by (simp add: status_def)
    have lt: "leads_to needs ?s0 (File n)" if "n \<in> set (dep_mods (deps r))" for n
    proof -
      from that nd have n: "(m, File n) \<in> needs" by auto
      show ?thesis
        unfolding leads_to_def
      proof (intro allI impI)
        fix e assume "status ?s0 e = Some Executing"
        then show "(e, File n) \<in> needs\<^sup>+"
          using 1(5) n by (auto simp: leads_to_def split: if_splits intro: trancl_into_trancl)
      qed
    qed
    have "\<forall>n \<in> set (dep_mods (deps r)). status ?s0 (File n) \<noteq> None \<and> leads_to needs ?s0 (File n)"
      using kn lt by (auto simp: status_def mark_def)
    from 1(1) [OF r Not_executed ad 1(2) ready_mark [OF 1(3) sm] this]
    obtain a s1 new where e: "exec_deps run strict m (deps r) [] ?s0 = (Some a, s1)" "executes needs ?s0 s1 new"
      "\<forall>n \<in> set (dep_mods (deps r)). status ?s0 (File n) = Some Executing \<or> is_done s1 (File n)" by blast
    have d: "status ?s0 d = Some Executing \<or> is_done s1 d" if "(m, d) \<in> needs" for d
    proof -
      from that nd obtain n where "d = File n" "n \<in> set (dep_mods (deps r))" by blast
      with e(3) show ?thesis by blast
    qed
    have "executes needs s (finish_exec m (run_factory run m a s1)) (new @ [m])"
      by (rule executes_one [OF r Not_executed e(2) d 1(5)])
    moreover have "is_done (finish_exec m (run_factory run m a s1)) m"
      using e(2) adv_finish(2) [OF r Not_executed] by (simp add: executes_def)
    ultimately show ?thesis using r Not_executed ad e(1) by (auto simp: Let_def)
  qed
next
  case (2 run strict self args s)
  then show ?case using executes_refl [of needs s] by auto
next
  case (3 run strict self d ds args s)
  show ?case
  proof (cases d)
    case (Mod n)
    with 3 have n: "status s (File n) \<noteq> None" "leads_to needs s (File n)" by auto
    from 3(4) [OF Mod 3(6,7) n] obtain a s1 new where e: "exec_module run strict (File n) s = (Some a, s1)"
      "executes needs s s1 new" "status s (File n) = Some Executing \<or> is_done s1 (File n)" by blast
    from e(2) have ad: "adv s s1" by (simp add: executes_def)
    have "\<forall>n \<in> set (dep_mods ds). status s1 (File n) \<noteq> None \<and> leads_to needs s1 (File n)"
      using 3(8) Mod executes_mods [OF e(2)] adv_status(2) [OF ad] by (auto simp: leads_to_def)
    from 3(5) [OF Mod e(1) [symmetric] refl 3(6) ready_adv [OF 3(7) ad] this]
    obtain b s2 new2 where e2: "exec_deps run strict self ds (args @ [a]) s1 = (Some b, s2)" "executes needs s1 s2 new2"
      "\<forall>n \<in> set (dep_mods ds). status s1 (File n) = Some Executing \<or> is_done s2 (File n)" by blast
    from e2(2) have ad2: "adv s1 s2" by (simp add: executes_def)
    have "\<forall>n \<in> set (dep_mods (d # ds)). status s (File n) = Some Executing \<or> is_done s2 (File n)"
      using e(3) e2(3) adv_done [OF ad2] adv_status(2) [OF ad] Mod by auto
    with Mod e(1) e2(1) executes_trans [OF e(2) e2(2)] show ?thesis by auto
  qed (use 3 in auto)
qed


section \<open>The queue of modules that wait\<close>

definition unfinished :: "loader \<Rightarrow> nat" where
  "unfinished s = length (filter (\<lambda>e. executed (snd e) \<noteq> Executed) (mods s))"

definition progress :: "loader \<Rightarrow> loader \<Rightarrow> bool" where
  "progress s s1 \<longleftrightarrow> adv s s1 \<and> def_order s \<le> def_order s1 \<and>
     unfinished s1 + def_order s1 \<le> unfinished s + def_order s \<and>
     (def_order s1 = def_order s \<longrightarrow> exec_queue s1 = exec_queue s)"

lemma progress_refl [simp]: "progress s s"
  by (simp add: progress_def)

lemma progress_trans: "progress s s1 \<Longrightarrow> progress s1 s2 \<Longrightarrow> progress s s2"
  using adv_trans by (auto simp: progress_def)

lemma unfinished_mark:
  "map_of (mods s) m = Some r \<Longrightarrow> executed r \<noteq> Executed \<Longrightarrow> e \<noteq> Executed \<Longrightarrow> unfinished (mark m e s) = unfinished s"
proof -
  have "map_of xs m = Some r \<Longrightarrow> executed r \<noteq> Executed \<Longrightarrow> e \<noteq> Executed \<Longrightarrow>
     length (filter (\<lambda>e. executed (snd e) \<noteq> Executed) (AList.map_entry m (\<lambda>r. r\<lparr>executed := e\<rparr>) xs)) =
     length (filter (\<lambda>e. executed (snd e) \<noteq> Executed) xs)" for xs
    by (induction xs) auto
  then show "map_of (mods s) m = Some r \<Longrightarrow> executed r \<noteq> Executed \<Longrightarrow> e \<noteq> Executed \<Longrightarrow> ?thesis"
    by (simp add: unfinished_def mark_def set_mod_def)
qed

lemma unfinished_set:
  assumes "\<And>r. executed (f r) = executed r"
  shows "unfinished (set_mod m f s) = unfinished s"
proof -
  have "length (filter (\<lambda>e. executed (snd e) \<noteq> Executed) (AList.map_entry m f xs)) =
      length (filter (\<lambda>e. executed (snd e) \<noteq> Executed) xs)" for xs
    using assms by (induction xs) auto
  then show ?thesis by (simp add: unfinished_def set_mod_def)
qed

lemma unfinished_ran [simp]: "unfinished (s\<lparr>calls := x\<rparr>) = unfinished s"
  by (simp add: unfinished_def)

lemma unfinished_run [simp]: "unfinished (run_factory run m args s) = unfinished s"
  by (simp add: run_factory_def unfinished_set split: option.splits factory.splits)

lemma unfinished_finish:
  assumes "map_of (mods s) m = Some r" "executed r \<noteq> Executed"
  shows "Suc (unfinished (finish_exec m s)) \<le> unfinished s"
proof -
  have "Suc (length (filter (\<lambda>e. executed (snd e) \<noteq> Executed) (AList.map_entry m (\<lambda>r. r\<lparr>executed := Executed\<rparr>) xs))) =
      length (filter (\<lambda>e. executed (snd e) \<noteq> Executed) xs)" if "map_of xs m = Some r" for xs
    using that assms(2) by (induction xs) (auto split: if_splits)
  note a = this [OF assms(1)]
  show ?thesis
  proof (cases m)
    case (File n)
    with a show ?thesis by (simp add: finish_exec_def unfinished_def set_mod_def)
  next
    case (Synthetic n)
    with a unexecuted_delete [of "\<lambda>e. executed (snd e) \<noteq> Executed" m
        "AList.map_entry m (\<lambda>r. r\<lparr>executed := Executed\<rparr>) (mods s)"] show ?thesis
      by (simp add: finish_exec_def unfinished_def set_mod_def)
  qed
qed

lemma exec_progress:
  "progress s (snd (exec_module run strict m s))"
  "progress s (snd (exec_deps run strict self ds args s))"
proof (induction run strict m s and run strict self ds args s rule: exec_module_exec_deps.induct)
  case (1 run strict m s)
  show ?case
  proof (cases "\<exists>r. map_of (mods s) m = Some r \<and> executed r = Not_executed \<and> adef r \<noteq> None")
    case False
    then show ?thesis by (auto split: option.splits exec.splits)
  next
    case True
    then obtain r where r: "map_of (mods s) m = Some r" "executed r = Not_executed" "adef r \<noteq> None" by blast
    let ?s0 = "mark m Executing s"
    obtain o1 s1 where e: "exec_deps run strict m (deps r) [] ?s0 = (o1, s1)" by force
    from 1 [OF r] e have p: "progress ?s0 s1" by simp
    then have a: "adv ?s0 s1" by (simp add: progress_def)
    have "map_of (mods ?s0) m = Some (r\<lparr>executed := Executing\<rparr>)" using r by (simp add: mark_def)
    from advD(1) [OF a this] have m1: "map_of (mods s1) m = Some (r\<lparr>executed := Executing\<rparr>)" by simp
    have q: "def_order (mark m e x) = def_order x" "exec_queue (mark m e x) = exec_queue x" for e x
      by (simp_all add: mark_def)
    have u0: "unfinished ?s0 = unfinished s" using unfinished_mark [OF r(1)] r(2) by simp
    have "progress s (mark m Not_executed s1)"
      using p adv_back [OF r(1,2) a] unfinished_mark [OF m1, of Not_executed] u0 by (simp add: progress_def q)
    moreover have "progress s (finish_exec m (run_factory run m args s1))" for args
    proof -
      obtain r2 where "map_of (mods (run_factory run m args s1)) m = Some r2" "executed r2 = Executing"
        using m1 by (simp add: run_factory_mods)
      from unfinished_finish [OF this(1)] this(2)
      have "Suc (unfinished (finish_exec m (run_factory run m args s1))) \<le> unfinished s1" by simp
      with p adv_finish(1) [OF r(1,2) a, of run args] u0 show ?thesis by (simp add: progress_def q)
    qed
    ultimately show ?thesis using r e by (cases o1) (simp_all add: Let_def)
  qed
next
  case (3 run strict self d ds args s)
  show ?case
  proof (cases d)
    case (Mod n)
    obtain o1 s1 where e: "exec_module run strict (File n) s = (o1, s1)" by force
    with 3(4) [OF Mod] have p: "progress s s1" by simp
    show ?thesis
    proof (cases o1)
      case (Some a)
      with 3(5) [OF Mod e [symmetric]] have "progress s1 (snd (exec_deps run strict self ds (args @ [a]) s1))" by simp
      with p Mod e Some show ?thesis by (auto intro: progress_trans)
    qed (use p Mod e in simp)
  qed (use 3 in auto)
qed simp

text \<open>Each module in the queue is tried; when anything was executed the queue is gone through again from
  its start.\<close>

function check_complete :: "world \<Rightarrow> nat \<Rightarrow> loader \<Rightarrow> loader" where
  "check_complete run i s =
     (if i < length (exec_queue s)
      then let s1 = snd (exec_module run False (exec_queue s ! i) s)
           in if def_order s1 \<noteq> def_order s then check_complete run 0 s1 else check_complete run (Suc i) s1
      else s)"
  by pat_completeness auto
termination
proof (relation "measures [\<lambda>(run, i, s). unfinished s, \<lambda>(run, i, s). length (exec_queue s) - i]", goal_cases)
  case 1
  then show ?case by simp
next
  case (2 run i s s1)
  then show ?case using exec_progress(1) [of s run False "exec_queue s ! i"] by (simp add: progress_def)
next
  case (3 run i s s1)
  then show ?case using exec_progress(1) [of s run False "exec_queue s ! i"] by (auto simp: progress_def)
qed

declare check_complete.simps [simp del]

section \<open>Requiring\<close>

text \<open>\<^verbatim>\<open>require([...], callback)\<close>: a module of its own stands for the request, the callback is its factory.
  What is missing is fetched, then the request is executed, or waits in the queue. (An empty list calls
  back at once; the number only names the call.)\<close>

definition synthetic :: "dep list \<Rightarrow> amodule" where
  "synthetic ds = make_module_info\<lparr>injected := Arrived, deps := ds, adef := Some Function\<rparr>"

definition require_list :: "world \<Rightarrow> files \<Rightarrow> dep list \<Rightarrow> loader \<Rightarrow> loader + loader" where
  "require_list run fs ds s =
     (if ds = [] then Inr (s\<lparr>calls := calls s @ [(Synthetic (uid s), [])], uid := Suc (uid s)\<rparr>)
      else (let m = Synthetic (uid s);
                s1 = fold get_module (map File (dep_mods ds)) (s\<lparr>uid := Suc (uid s)\<rparr>)
            in case inject_modules fs (dep_mods ds) (s1\<lparr>mods := mods s1 @ [(m, synthetic ds)]\<rparr>) of
                 Inl s2 \<Rightarrow> Inl s2
               | Inr s2 \<Rightarrow>
                   (let s3 = snd (exec_module run False m s2)
                    in Inr (check_complete run 0
                         (if is_done s3 m then s3 else s3\<lparr>exec_queue := exec_queue s3 @ [m]\<rparr>)))))"


section \<open>Fetching all that is needed\<close>

definition known :: "loader \<Rightarrow> string \<Rightarrow> bool" where
  "known s n \<longleftrightarrow> map_of (mods s) (File n) \<noteq> None"

definition loaded :: "loader \<Rightarrow> string \<Rightarrow> bool" where
  "loaded s n \<longleftrightarrow> (case map_of (mods s) (File n) of None \<Rightarrow> False
     | Some r \<Rightarrow> injected r = Arrived \<and> (executed r = Executed \<or> executed r = Not_executed \<and> adef r \<noteq> None))"

definition no_stray :: "loader \<Rightarrow> bool" where
  "no_stray s \<longleftrightarrow> (\<forall>n r. map_of (mods s) (File n) = Some r \<longrightarrow> r = make_module_info \<or> loaded s n) \<and> waiting s = []"

text \<open>What a list of modules needs of the files, beyond the modules in \<open>L\<close>.\<close>

inductive needed :: "files \<Rightarrow> string set \<Rightarrow> string list \<Rightarrow> string \<Rightarrow> bool" for fs L ms where
  needed_start: "n \<in> set ms \<Longrightarrow> needed fs L ms n"
| needed_dep: "needed fs L ms n \<Longrightarrow> n \<notin> L \<Longrightarrow> map_of fs n = Some (Define ds f) \<Longrightarrow> k \<in> set (dep_mods ds) \<Longrightarrow>
    needed fs L ms k"

lemma needed_mono: "needed fs L' ms n \<Longrightarrow> L \<subseteq> L' \<Longrightarrow> set ms \<subseteq> set ms' \<Longrightarrow> needed fs L ms' n"
  by (induction rule: needed.induct) (auto intro: needed.intros)

lemma needed_nested:
  assumes "needed fs L' (dep_mods ds) n" "L \<subseteq> L'" "m \<notin> L" "map_of fs m = Some (Define ds f)"
  shows "needed fs L (m # ms) n"
  using assms(1)
proof (induction rule: needed.induct)
  case (needed_start n)
  have "needed fs L (m # ms) m" by (rule needed.needed_start) simp
  from needed.needed_dep [OF this assms(3,4) needed_start] show ?case .
next
  case (needed_dep n ds' f' k)
  then have "n \<notin> L" using assms(2) by blast
  from needed.needed_dep [OF needed_dep.IH this needed_dep.hyps(3,4)] show ?case .
qed

definition came :: "files \<Rightarrow> loader \<Rightarrow> string \<Rightarrow> bool" where
  "came fs s n \<longleftrightarrow> (case map_of fs n of
     None \<Rightarrow> False
   | Some Script \<Rightarrow> status s (File n) = Some Executed
   | Some (Define ds f) \<Rightarrow> (\<exists>r. map_of (mods s) (File n) = Some r \<and> deps r = ds \<and>
       (executed r = Executed \<longleftrightarrow> ds = [] \<and> f \<noteq> Function) \<and> (\<forall>d \<in> set (dep_mods ds). loaded s d)))"

definition injects :: "files \<Rightarrow> loader \<Rightarrow> loader \<Rightarrow> bool" where
  "injects fs s s' \<longleftrightarrow>
     (\<forall>n. loaded s n \<longrightarrow> map_of (mods s') (File n) = map_of (mods s) (File n)) \<and>
     (\<forall>i. map_of (mods s') (Synthetic i) = map_of (mods s) (Synthetic i)) \<and>
     (\<forall>n. known s n \<longrightarrow> known s' n) \<and>
     (\<forall>n. loaded s' n \<longrightarrow> \<not> loaded s n \<longrightarrow> came fs s' n) \<and>
     (\<forall>n. known s' n \<longrightarrow> \<not> loaded s' n \<longrightarrow> known s n) \<and>
     calls s' = calls s \<and> uid s' = uid s \<and> (exec_queue s = [] \<longrightarrow> exec_queue s' = [])"

lemma injectsD:
  assumes "injects fs s s'"
  shows "loaded s n \<Longrightarrow> map_of (mods s') (File n) = map_of (mods s) (File n)"
    "map_of (mods s') (Synthetic i) = map_of (mods s) (Synthetic i)" "known s n \<Longrightarrow> known s' n"
    "loaded s' n \<Longrightarrow> \<not> loaded s n \<Longrightarrow> came fs s' n" "known s' n \<Longrightarrow> \<not> loaded s' n \<Longrightarrow> known s n"
    "calls s' = calls s" "uid s' = uid s" "exec_queue s = [] \<Longrightarrow> exec_queue s' = []" "loaded s n \<Longrightarrow> loaded s' n"
proof -
  show l: "loaded s n \<Longrightarrow> map_of (mods s') (File n) = map_of (mods s) (File n)" for n
    using assms by (simp add: injects_def)
  show "loaded s n \<Longrightarrow> loaded s' n" using l [of n] by (simp add: loaded_def)
qed (use assms in \<open>auto simp: injects_def\<close>)

lemma injects_refl [simp]: "injects fs s s"
  by (simp add: injects_def)

lemma came_stays:
  assumes "came fs s n" "map_of (mods s') (File n) = map_of (mods s) (File n)" "\<And>d. loaded s d \<Longrightarrow> loaded s' d"
  shows "came fs s' n"
  using assms by (auto simp: came_def status_def split: option.splits source.splits)

lemma injects_trans:
  assumes a: "injects fs s s1" and b: "injects fs s1 s2"
  shows "injects fs s s2"
proof -
  have "map_of (mods s2) (File n) = map_of (mods s) (File n)" if "loaded s n" for n
    using injectsD(1) [OF a that] injectsD(1) [OF b injectsD(9) [OF a that]] by simp
  moreover have "came fs s2 n" if n: "loaded s2 n" "\<not> loaded s n" for n
  proof (cases "loaded s1 n")
    case True
    with n injectsD(4) [OF a] have "came fs s1 n" by blast
    then show ?thesis using injectsD(1) [OF b True] injectsD(9) [OF b] by (rule came_stays)
  qed (use n injectsD(4) [OF b] in blast)
  moreover have "known s n" if "known s2 n" "\<not> loaded s2 n" for n
    using injectsD(5) [OF a, of n] injectsD(5,9) [OF b, of n] that by blast
  ultimately show ?thesis
    using injectsD(2,3,6,7,8) [OF a] injectsD(2,3,6,7,8) [OF b] unfolding injects_def by simp
qed

lemma skipped_no_stray:
  assumes "no_stray s" "known s n"
  shows "skipped (File n) s \<longleftrightarrow> loaded s n"
proof -
  obtain r where r: "map_of (mods s) (File n) = Some r" using assms(2) by (auto simp: known_def)
  with assms(1) have "r = make_module_info \<or> loaded s n" "waiting s = []" by (auto simp: no_stray_def)
  with r show ?thesis by (auto simp: skipped_def loaded_def make_module_info_def)
qed


lemma not_loaded_fresh: "no_stray s \<Longrightarrow> known s n \<Longrightarrow> \<not> loaded s n \<Longrightarrow> map_of (mods s) (File n) = Some make_module_info"
  by (auto simp: no_stray_def known_def)

text \<open>One file that arrives, without what it needs.\<close>

lemma script_step:
  assumes s: "no_stray s" "known s m" "\<not> loaded s m" and fs: "map_of fs m = Some Script"
  defines "s1 \<equiv> finish_exec (File m) (set_arrived (File m) (set_requested (File m) s))"
  shows "no_stray s1" "injects fs s s1" "loaded s1 n \<longleftrightarrow> loaded s n \<or> n = m"
proof -
  have m: "map_of (mods s) (File m) = Some make_module_info" by (rule not_loaded_fresh [OF s])
  have w: "waiting s = []" using s(1) by (simp add: no_stray_def)
  have e: "map_of (mods s1) k = (if k = File m
      then Some (make_module_info\<lparr>injected := Arrived, executed := Executed\<rparr>) else map_of (mods s) k)" for k
    using m by (simp add: s1_def)
  show l: "loaded s1 n \<longleftrightarrow> loaded s n \<or> n = m" for n by (auto simp: loaded_def e)
  show "no_stray s1"
    using s(1) w l e by (auto simp: no_stray_def s1_def)
  show "injects fs s s1"
    using s(3) fs unfolding injects_def known_def came_def status_def l e by (auto simp: s1_def)
qed

lemma define_step:
  assumes s: "no_stray s" "known s m" "\<not> loaded s m"
    and s1: "s1 = define_module (File m) ds f (set_requested (File m) s)"
  shows "no_stray s1" "loaded s1 n \<longleftrightarrow> loaded s n \<or> n = m" "known s1 n \<longleftrightarrow> known s n \<or> n \<in> set (dep_mods ds)"
    "n \<noteq> m \<Longrightarrow> loaded s n \<Longrightarrow> map_of (mods s1) (File n) = map_of (mods s) (File n)"
    "map_of (mods s1) (Synthetic i) = map_of (mods s) (Synthetic i)"
    "\<exists>r. map_of (mods s1) (File m) = Some r \<and> deps r = ds \<and> (executed r = Executed \<longleftrightarrow> ds = [] \<and> f \<noteq> Function)"
    "calls s1 = calls s" "uid s1 = uid s" "exec_queue s = [] \<Longrightarrow> exec_queue s1 = []"
proof -
  have m: "map_of (mods s) (File m) = Some make_module_info" by (rule not_loaded_fresh [OF s])
  have w: "waiting s = []" using s(1) by (simp add: no_stray_def)
  let ?r = "make_module_info\<lparr>injected := Requested\<rparr>"
  have m1: "map_of (mods (set_requested (File m) s)) (File m) = Some ?r" "injected ?r \<noteq> Arrived" using m by simp_all
  note e = define_module_mods [OF m1, of ds f, folded s1]
  have e1: "map_of (mods s1) (File n) = (case map_of (mods s) (File n) of Some r \<Rightarrow> Some r
       | None \<Rightarrow> if n \<in> set (dep_mods ds) then Some make_module_info else None)" if "n \<noteq> m" for n
    using that by (auto simp: e split: option.splits)
  have em: "\<exists>r. map_of (mods s1) (File m) = Some r \<and> deps r = ds \<and> (executed r = Executed \<longleftrightarrow> ds = [] \<and> f \<noteq> Function) \<and>
      injected r = Arrived \<and> executed r \<noteq> Executing \<and> adef r \<noteq> None"
    by (cases f) (auto simp: e make_module_info_def)
  have lm: "loaded s1 m"
  proof -
    from em obtain r where r: "map_of (mods s1) (File m) = Some r" "injected r = Arrived" "executed r \<noteq> Executing"
      "adef r \<noteq> None" by blast
    then show ?thesis by (cases "executed r") (auto simp: loaded_def)
  qed
  have lo: "n \<noteq> m \<Longrightarrow> loaded s1 n \<longleftrightarrow> loaded s n" for n
    by (auto simp: loaded_def e1 make_module_info_def split: option.splits)
  show l: "loaded s1 n \<longleftrightarrow> loaded s n \<or> n = m" for n by (cases "n = m") (use lm lo in auto)
  show "known s1 n \<longleftrightarrow> known s n \<or> n \<in> set (dep_mods ds)"
    using em m by (cases "n = m") (auto simp: known_def e1 split: option.splits)
  show "n \<noteq> m \<Longrightarrow> loaded s n \<Longrightarrow> map_of (mods s1) (File n) = map_of (mods s) (File n)"
    by (auto simp: e1 loaded_def split: option.splits)
  show "map_of (mods s1) (Synthetic i) = map_of (mods s) (Synthetic i)" by (auto simp: e split: option.splits)
  show "\<exists>r. map_of (mods s1) (File m) = Some r \<and> deps r = ds \<and> (executed r = Executed \<longleftrightarrow> ds = [] \<and> f \<noteq> Function)"
    using em by blast
  have ws: "waiting s1 = []" using define_module_simps(1) [OF m1] w by (simp add: s1)
  show "calls s1 = calls s" "uid s1 = uid s" using define_module_simps(2,3) [OF m1] by (simp_all add: s1)
  show "exec_queue s = [] \<Longrightarrow> exec_queue s1 = []"
    using m1 by (auto simp: s1 define_module_def Let_def split: factory.splits)
  show "no_stray s1"
    unfolding no_stray_def
  proof (intro conjI allI impI ws)
    fix k r assume k: "map_of (mods s1) (File k) = Some r"
    show "r = make_module_info \<or> loaded s1 k"
    proof (cases "k = m")
      case False
      with k e1 [OF False] s(1) l show ?thesis by (auto simp: no_stray_def split: option.splits if_splits)
    qed (use lm in simp)
  qed
qed


lemma nested_injects:
  assumes s: "no_stray s" "known s m" "\<not> loaded s m" and fs: "map_of fs m = Some (Define ds f)"
    and s1: "s1 = define_module (File m) ds f (set_requested (File m) s)"
    and i: "injects fs s1 s2" "\<forall>n \<in> set (dep_mods ds). loaded s2 n"
  shows "injects fs s s2" "loaded s2 m"
proof -
  note d = define_step [OF s s1]
  have lm: "loaded s1 m" using d(2) by simp
  then show "loaded s2 m" by (rule injectsD(9) [OF i(1)])
  from d(6) obtain r where r: "map_of (mods s1) (File m) = Some r" "deps r = ds"
    "executed r = Executed \<longleftrightarrow> ds = [] \<and> f \<noteq> Function" by blast
  have cm: "came fs s2 m" using fs r i(2) injectsD(1) [OF i(1) lm] by (auto simp: came_def)
  have "map_of (mods s2) (File n) = map_of (mods s) (File n)" if n: "loaded s n" for n
  proof -
    have "n \<noteq> m" using n s(3) by blast
    moreover have "loaded s1 n" using n by (simp add: d(2))
    ultimately show ?thesis using injectsD(1) [OF i(1)] d(4) [OF _ n] by simp
  qed
  moreover have "came fs s2 n" if "loaded s2 n" "\<not> loaded s n" for n
    using that cm d(2) injectsD(4) [OF i(1), of n] by (cases "n = m") auto
  moreover have "known s n" if "known s2 n" "\<not> loaded s2 n" for n
    using that injectsD(5) [OF i(1), of n] d(3) i(2) by blast
  moreover have "known s n \<Longrightarrow> known s2 n" for n using d(3) injectsD(3) [OF i(1)] by blast
  ultimately show "injects fs s s2"
    using d(5,7,8,9) injectsD(2,6,7,8) [OF i(1)] unfolding injects_def by simp
qed

lemma inject_Inr:
  "inject_modules fs ms s = Inr s' \<Longrightarrow> no_stray s \<Longrightarrow> \<forall>n \<in> set ms. known s n \<Longrightarrow>
     injects fs s s' \<and> no_stray s' \<and> (\<forall>n \<in> set ms. loaded s' n) \<and>
     (\<forall>n. loaded s' n \<longrightarrow> loaded s n \<or> needed fs {k. loaded s k} ms n)"
proof (induction fs ms s arbitrary: s' rule: inject_modules.induct)
  case (1 fs s)
  then show ?case by simp
next
  case (2 fs m ms s)
  let ?L = "\<lambda>s. {k. loaded s k}"
  have km: "known s m" and kms: "\<forall>n \<in> set ms. known s n" using 2(7) by simp_all
  have sk: "skipped (File m) s \<longleftrightarrow> loaded s m" using 2(6) km by (rule skipped_no_stray)
  have nm: "needed fs (?L s) (m # ms) m" by (rule needed.needed_start) simp
  have rest: "needed fs (?L s) (m # ms) n" if "needed fs (?L s1) ms n" "\<forall>n. loaded s n \<longrightarrow> loaded s1 n" for n s1
    using that(2) by (intro needed_mono [OF that(1)]) auto
  show ?case
  proof (cases "loaded s m")
    case True
    with 2(5) sk have "inject_modules fs ms s = Inr s'" by simp
    from 2(1) [OF _ this 2(6) kms] True sk have s': "injects fs s s'" "no_stray s'" "\<forall>n \<in> set ms. loaded s' n"
      "\<forall>n. loaded s' n \<longrightarrow> loaded s n \<or> needed fs (?L s) ms n" by blast+
    with injectsD(9) [OF s'(1) True] rest show ?thesis by auto
  next
    case False
    with 2(5) sk obtain x where x: "map_of fs m = Some x" by (auto split: option.splits)
    show ?thesis
    proof (cases x)
      case Script
      let ?s1 = "finish_exec (File m) (set_arrived (File m) (set_requested (File m) s))"
      note st = script_step [OF 2(6) km False x [unfolded Script]]
      have kn: "\<forall>n \<in> set ms. known ?s1 n" using kms injectsD(3) [OF st(2)] by simp
      have "inject_modules fs ms ?s1 = Inr s'" using 2(5) sk False x Script by simp
      from 2(4) [OF _ x Script this st(1) kn] sk False have s': "injects fs ?s1 s'" "no_stray s'" "\<forall>n \<in> set ms. loaded s' n"
        "\<forall>n. loaded s' n \<longrightarrow> loaded ?s1 n \<or> needed fs (?L ?s1) ms n" by blast+
      have "loaded s' m" using st(3) injectsD(9) [OF s'(1)] by blast
      moreover have "loaded s n \<or> needed fs (?L s) (m # ms) n" if "loaded s' n" for n
        using s'(4) that st(3) nm rest [of ?s1 n] by blast
      ultimately show ?thesis using injects_trans [OF st(2) s'(1)] s'(2,3) by auto
    next
      case (Define ds f)
      define s1 where s1: "s1 = define_module (File m) ds f (set_requested (File m) s)"
      note st = define_step [OF 2(6) km False s1]
      note xd = x [unfolded Define]
      from 2(5) sk False xd obtain s2 where r: "inject_modules fs (dep_mods ds) s1 = Inr s2" "inject_modules fs ms s2 = Inr s'"
        by (auto simp: s1 split: sum.splits)
      have "\<forall>n \<in> set (dep_mods ds). known s1 n" using st(3) by blast
      with 2(2) [OF _ x Define r(1) [unfolded s1]] sk False st(1) have s2: "injects fs s1 s2" "no_stray s2"
        "\<forall>n \<in> set (dep_mods ds). loaded s2 n"
        "\<forall>n. loaded s2 n \<longrightarrow> loaded s1 n \<or> needed fs (?L s1) (dep_mods ds) n"
        unfolding s1 by blast+
      note ni = nested_injects [OF 2(6) km False xd s1 s2(1,3)]
      have up: "\<forall>n. loaded s n \<longrightarrow> loaded s2 n" using injectsD(9) [OF ni(1)] by blast
      have "\<forall>n \<in> set ms. known s2 n" using kms injectsD(3) [OF ni(1)] by simp
      with 2(3) [OF _ x Define r(1) [unfolded s1] r(2)] sk False s2(2) have s': "injects fs s2 s'" "no_stray s'"
        "\<forall>n \<in> set ms. loaded s' n" "\<forall>n. loaded s' n \<longrightarrow> loaded s2 n \<or> needed fs (?L s2) ms n" by blast+
      have "loaded s' m" using ni(2) injectsD(9) [OF s'(1)] by blast
      moreover have "loaded s n \<or> needed fs (?L s) (m # ms) n" if l: "loaded s' n" for n
      proof -
        have nst: "needed fs (?L s) (m # ms) n" if "needed fs (?L s1) (dep_mods ds) n"
          by (rule needed_nested [OF that _ _ xd]) (use st(2) False in auto)
        consider "loaded s2 n" | "needed fs (?L s2) ms n" using s'(4) l by blast
        then show ?thesis
        proof cases
          case 1
          then consider "loaded s1 n" | "needed fs (?L s1) (dep_mods ds) n" using s2(4) by blast
          then show ?thesis using st(2) nm nst by cases blast+
        qed (use rest [OF _ up] in blast)
      qed
      ultimately show ?thesis using injects_trans [OF ni(1) s'(1)] s'(2,3) by simp
    qed
  qed
qed

text \<open>It stops only at a file that is needed and missing, and no factory was taken.\<close>

lemma inject_Inl:
  "inject_modules fs ms s = Inl s' \<Longrightarrow> no_stray s \<Longrightarrow> \<forall>n \<in> set ms. known s n \<Longrightarrow>
     calls s' = calls s \<and> (\<exists>n. needed fs {k. loaded s k} ms n \<and> \<not> loaded s n \<and> map_of fs n = None)"
proof (induction fs ms s arbitrary: s' rule: inject_modules.induct)
  case (1 fs s)
  then show ?case by simp
next
  case (2 fs m ms s)
  let ?L = "\<lambda>s. {k. loaded s k}"
  have km: "known s m" and kms: "\<forall>n \<in> set ms. known s n" using 2(7) by simp_all
  have sk: "skipped (File m) s \<longleftrightarrow> loaded s m" using 2(6) km by (rule skipped_no_stray)
  have nm: "needed fs (?L s) (m # ms) m" by (rule needed.needed_start) simp
  have rest: "needed fs (?L s) (m # ms) n" if "needed fs (?L s1) ms n" "\<forall>n. loaded s n \<longrightarrow> loaded s1 n" for n s1
    using that(2) by (intro needed_mono [OF that(1)]) auto
  show ?case
  proof (cases "loaded s m")
    case True
    with 2(5) sk have "inject_modules fs ms s = Inl s'" by simp
    from 2(1) [OF _ this 2(6) kms] True sk rest show ?thesis by blast
  next
    case False
    show ?thesis
    proof (cases "map_of fs m")
      case None
      with 2(5) sk False nm show ?thesis by auto
    next
      case (Some x)
      show ?thesis
      proof (cases x)
        case Script
        let ?s1 = "finish_exec (File m) (set_arrived (File m) (set_requested (File m) s))"
        note st = script_step [OF 2(6) km False Some [unfolded Script]]
        have kn: "\<forall>n \<in> set ms. known ?s1 n" using kms injectsD(3) [OF st(2)] by simp
        have "inject_modules fs ms ?s1 = Inl s'" using 2(5) sk False Some Script by simp
        from 2(4) [OF _ Some Script this st(1) kn] sk False
        have "calls s' = calls ?s1" "\<exists>n. needed fs (?L ?s1) ms n \<and> \<not> loaded ?s1 n \<and> map_of fs n = None" by blast+
        with st(3) rest [of ?s1] show ?thesis by auto
      next
        case (Define ds f)
        define s1 where s1: "s1 = define_module (File m) ds f (set_requested (File m) s)"
        note st = define_step [OF 2(6) km False s1]
        note xd = Some [unfolded Define]
        have kd: "\<forall>n \<in> set (dep_mods ds). known s1 n" using st(3) by blast
        show ?thesis
        proof (cases "inject_modules fs (dep_mods ds) s1")
          case (Inl z)
          with 2(5) sk False xd have "z = s'" by (simp add: s1)
          with 2(2) [OF _ Some Define] sk False st(1) kd Inl obtain n where n: "calls s' = calls s1"
            "needed fs (?L s1) (dep_mods ds) n" "\<not> loaded s1 n" "map_of fs n = None"
            unfolding s1 by blast
          have "needed fs (?L s) (m # ms) n"
            by (rule needed_nested [OF n(2) _ _ xd]) (use st(2) False in auto)
          moreover have "calls s' = calls s" "\<not> loaded s n" using n(1,3) st(2,7) by simp_all
          ultimately show ?thesis using n(4) by blast
        next
          case (Inr s2)
          with 2(5) sk False xd have r: "inject_modules fs ms s2 = Inl s'" by (simp add: s1)
          from inject_Inr [OF Inr st(1) kd] have s2: "injects fs s1 s2" "no_stray s2" "\<forall>n \<in> set (dep_mods ds). loaded s2 n"
            by blast+
          note ni = nested_injects [OF 2(6) km False xd s1 s2(1,3)]
          have up: "\<forall>n. loaded s n \<longrightarrow> loaded s2 n" using injectsD(9) [OF ni(1)] by blast
          have "\<forall>n \<in> set ms. known s2 n" using kms injectsD(3) [OF ni(1)] by simp
          with 2(3) [OF _ Some Define Inr [unfolded s1] r] sk False s2(2) obtain n where n: "calls s' = calls s2"
            "needed fs (?L s2) ms n" "\<not> loaded s2 n" "map_of fs n = None" by blast
          have "needed fs (?L s) (m # ms) n" "\<not> loaded s n" using rest [OF n(2) up] up n(3) by blast+
          moreover have "calls s' = calls s" using n(1) injectsD(6) [OF ni(1)] by simp
          ultimately show ?thesis using n(4) by blast
        qed
      qed
    qed
  qed
qed

lemma inject_ok:
  assumes "no_stray s" "\<forall>n \<in> set ms. known s n"
    and "\<forall>n. needed fs {k. loaded s k} ms n \<longrightarrow> loaded s n \<or> map_of fs n \<noteq> None"
  shows "\<exists>s'. inject_modules fs ms s = Inr s' \<and> injects fs s s' \<and> no_stray s' \<and> (\<forall>n \<in> set ms. loaded s' n) \<and>
     (\<forall>n. loaded s' n \<longrightarrow> loaded s n \<or> needed fs {k. loaded s k} ms n)"
proof (cases "inject_modules fs ms s")
  case (Inl s')
  from inject_Inl [OF Inl assms(1,2)] assms(3) show ?thesis by blast
next
  case (Inr s')
  from inject_Inr [OF Inr assms(1,2)] Inr show ?thesis by blast
qed

section \<open>A request from start to end\<close>

lemma exec_queue_shrinks:
  "set (exec_queue (snd (exec_module run strict m s))) \<subseteq> set (exec_queue s)"
  "set (exec_queue (snd (exec_deps run strict self ds args s))) \<subseteq> set (exec_queue s)"
proof (induction run strict m s and run strict self ds args s rule: exec_module_exec_deps.induct)
  case (1 run strict m s)
  have q: "exec_queue (mark m e x) = exec_queue x" for e x by (simp add: mark_def)
  show ?case
  proof (cases "\<exists>r. map_of (mods s) m = Some r \<and> executed r = Not_executed \<and> adef r \<noteq> None")
    case False
    then show ?thesis by (auto split: option.splits exec.splits)
  next
    case True
    then obtain r where r: "map_of (mods s) m = Some r" "executed r = Not_executed" "adef r \<noteq> None" by blast
    obtain o1 s1 where e: "exec_deps run strict m (deps r) [] (mark m Executing s) = (o1, s1)" by force
    from 1 [OF r] e have "set (exec_queue s1) \<subseteq> set (exec_queue s)" by (simp add: q)
    then show ?thesis using r e by (cases o1) (auto simp: Let_def q)
  qed
next
  case (2 run strict self args s)
  then show ?case by simp
next
  case (3 run strict self d ds args s)
  show ?case
  proof (cases d)
    case (Mod n)
    obtain o1 s1 where e: "exec_module run strict (File n) s = (o1, s1)" by force
    with 3(4) [OF Mod] have p: "set (exec_queue s1) \<subseteq> set (exec_queue s)" by simp
    show ?thesis
    proof (cases o1)
      case (Some a)
      with 3(5) [OF Mod e [symmetric]] p Mod e show ?thesis by auto
    qed (use p Mod e in simp)
  qed (use 3 in auto)
qed

text \<open>What a factory is called with.\<close>

definition arg_of :: "mid \<Rightarrow> loader \<Rightarrow> dep \<Rightarrow> arg" where
  "arg_of self s d = (case d of Require \<Rightarrow> Req self | Exports \<Rightarrow> Exp self | Cjs_module \<Rightarrow> Cjs self
     | Mod n \<Rightarrow> result_of (File n) s)"

lemma arg_of_simps [simp]:
  "arg_of self s Require = Req self" "arg_of self s Exports = Exp self" "arg_of self s Cjs_module = Cjs self"
  "arg_of self s (Mod n) = result_of (File n) s"
  by (simp_all add: arg_of_def)

lemma result_of_finish: "result_of (File n) (finish_exec (File n) s) = result_of (File n) s"
  by (simp add: result_of_def split: option.split)

lemma adv_result:
  assumes "adv s s1" "status s k = Some Executed"
  shows "result_of k s1 = result_of k s"
proof -
  from assms(2) obtain r where r: "map_of (mods s) k = Some r" "executed r = Executed" by (auto simp: status_def)
  with advD(1) [OF assms(1) r(1)] show ?thesis by (simp add: result_of_def)
qed

lemma exec_module_result:
  assumes "exec_module run strict (File n) s = (Some a, s1)" "status s (File n) \<noteq> Some Executing"
  shows "status s1 (File n) = Some Executed" "a = result_of (File n) s1"
proof -
  have "status s1 (File n) = Some Executed \<and> a = result_of (File n) s1"
  proof (cases "\<exists>r. map_of (mods s) (File n) = Some r \<and> executed r = Not_executed \<and> adef r \<noteq> None")
    case False
    then show ?thesis using assms by (auto simp: status_def result_of_def split: option.splits exec.splits if_splits)
  next
    case True
    then obtain r where r: "map_of (mods s) (File n) = Some r" "executed r = Not_executed" "adef r \<noteq> None" by blast
    obtain o1 s2 where e: "exec_deps run strict (File n) (deps r) [] (mark (File n) Executing s) = (o1, s2)" by force
    have "adv (mark (File n) Executing s) s2"
      using exec_progress(2) [of "mark (File n) Executing s" run strict "File n" "deps r" "[]"] e by (simp add: progress_def)
    note f = adv_finish(2) [OF r(1,2) this, of run]
    from e r assms(1) show ?thesis using f by (cases o1) (auto simp: Let_def is_done_def result_of_finish)
  qed
  then show "status s1 (File n) = Some Executed" "a = result_of (File n) s1" by blast+
qed

lemma exec_deps_args:
  "exec_deps run strict self ds args s = (Some xs, s1) \<Longrightarrow> \<forall>n \<in> set (dep_mods ds). status s (File n) \<noteq> Some Executing \<Longrightarrow>
     xs = args @ map (arg_of self s1) ds"
proof (induction ds arbitrary: args s)
  case (Cons d ds)
  show ?case
  proof (cases d)
    case (Mod n)
    with Cons.prems(1) obtain a s2 where e: "exec_module run strict (File n) s = (Some a, s2)"
      "exec_deps run strict self ds (args @ [a]) s2 = (Some xs, s1)" by (auto split: prod.splits option.splits)
    from Cons.prems(2) Mod have "status s (File n) \<noteq> Some Executing" by simp
    note x = exec_module_result [OF e(1) this]
    have a: "adv s s2" "adv s2 s1"
      using exec_progress(1) [of s run strict "File n"] exec_progress(2) [of s2 run strict self ds "args @ [a]"] e
      by (simp_all add: progress_def)
    have "\<forall>n \<in> set (dep_mods ds). status s2 (File n) \<noteq> Some Executing"
      using Cons.prems(2) adv_status(2) [OF a(1)] Mod by auto
    from Cons.IH [OF e(2) this] x(2) adv_result [OF a(2) x(1)] show ?thesis by (simp add: Mod)
  qed (use Cons.prems Cons.IH [of "args @ [arg_of self s1 d]" s] in auto)
qed simp


text \<open>The request itself: its callback is taken last, with the results of all it asked for.\<close>

lemma exec_synthetic:
  assumes r: "map_of (mods s) (Synthetic u) = Some r" "executed r = Not_executed" "adef r = Some Function" "\<not> cjs r"
    and n: "\<forall>n \<in> set (dep_mods (deps r)). status s (File n) \<noteq> Some Executing"
    and e: "exec_module run strict (Synthetic u) s = (Some a, s1)"
  shows "last (calls s1) = (Synthetic u, map (arg_of (Synthetic u) s1) (deps r))" "calls s1 \<noteq> []"
    "status s1 (Synthetic u) = None"
proof -
  let ?m = "Synthetic u" and ?s0 = "mark (Synthetic u) Executing s"
  from r e obtain xs s2 where x: "exec_deps run strict ?m (deps r) [] ?s0 = (Some xs, s2)"
    "s1 = finish_exec ?m (run_factory run ?m xs s2)" by (auto simp: Let_def split: prod.splits option.splits)
  have a: "adv ?s0 s2" using exec_progress(2) [of ?s0 run strict ?m "deps r" "[]"] x by (simp add: progress_def)
  have n0: "\<forall>n \<in> set (dep_mods (deps r)). status ?s0 (File n) \<noteq> Some Executing" using n by simp
  have "map_of (mods ?s0) ?m = Some (r\<lparr>executed := Executing\<rparr>)" using r by (simp add: mark_def)
  from advD(1) [OF a this] have "map_of (mods s2) ?m \<noteq> None" by simp
  then have c: "calls s1 = calls s2 @ [(?m, xs)]" by (simp add: x(2))
  have "result_of (File k) s1 = result_of (File k) s2" for k by (simp add: result_of_def x(2) run_factory_mods)
  then have "arg_of ?m s1 = arg_of ?m s2" by (intro ext) (simp add: arg_of_def split: dep.splits)
  with exec_deps_args [OF x(1) n0] c show "last (calls s1) = (?m, map (arg_of ?m s1) (deps r))" "calls s1 \<noteq> []" by simp_all
  show "status s1 ?m = None" by (simp add: x(2) status_def)
qed

definition calm :: "loader \<Rightarrow> bool" where
  "calm s \<longleftrightarrow> (\<forall>k r. map_of (mods s) k = Some r \<longrightarrow>
       (\<exists>n. k = File n) \<and> injected r = Arrived \<and> executed r = Executed) \<and> waiting s = [] \<and> exec_queue s = []"

text \<open>A file is executed when it has come and its factory, if it has one, was taken.\<close>

definition ended :: "loader \<Rightarrow> string \<Rightarrow> bool" where
  "ended s n \<longleftrightarrow> status s (File n) = Some Executed"

definition file_needs :: "files \<Rightarrow> dep list \<Rightarrow> nat \<Rightarrow> (mid \<times> mid) set" where
  "file_needs fs ds u = {(File k, File d) | k d ds' f. map_of fs k = Some (Define ds' f) \<and> d \<in> set (dep_mods ds')} \<union>
     {(Synthetic u, File d) | d. d \<in> set (dep_mods ds)}"

definition has_factory :: "files \<Rightarrow> string \<Rightarrow> bool" where
  "has_factory fs n \<longleftrightarrow> (\<exists>ds f. map_of fs n = Some (Define ds f) \<and> (ds \<noteq> [] \<or> f = Function))"

lemma calm_file: "calm s \<Longrightarrow> loaded s n \<longleftrightarrow> ended s n" "calm s \<Longrightarrow> known s n \<longleftrightarrow> ended s n"
  by (auto simp: calm_def loaded_def ended_def known_def status_def split: option.splits)

lemma calm_synthetic: "calm s \<Longrightarrow> map_of (mods s) (Synthetic u) = None"
  by (cases "map_of (mods s) (Synthetic u)") (auto simp: calm_def)

definition opened :: "dep list \<Rightarrow> loader \<Rightarrow> loader" where
  "opened ds s = (let s1 = fold get_module (map File (dep_mods ds)) (s\<lparr>uid := Suc (uid s)\<rparr>)
     in s1\<lparr>mods := mods s1 @ [(Synthetic (uid s), synthetic ds)]\<rparr>)"

lemma opened_mods:
  "map_of (mods (opened ds s)) (File n) = (case map_of (mods s) (File n) of
     Some r \<Rightarrow> Some r | None \<Rightarrow> if n \<in> set (dep_mods ds) then Some make_module_info else None)"
  "calm s \<Longrightarrow> map_of (mods (opened ds s)) (Synthetic i) = (if i = uid s then Some (synthetic ds) else None)"
  "waiting (opened ds s) = waiting s" "exec_queue (opened ds s) = exec_queue s" "calls (opened ds s) = calls s"
  "uid (opened ds s) = Suc (uid s)"
  by (auto simp: opened_def Let_def map_add_def calm_synthetic image_iff split: option.splits)

lemma opened_no_stray:
  assumes "calm s"
  shows "no_stray (opened ds s)" "loaded (opened ds s) n \<longleftrightarrow> ended s n" "n \<in> set (dep_mods ds) \<Longrightarrow> known (opened ds s) n"
    "known (opened ds s) n \<longleftrightarrow> ended s n \<or> n \<in> set (dep_mods ds)"
proof -
  show l: "loaded (opened ds s) n \<longleftrightarrow> ended s n" for n
    unfolding calm_file(1) [OF assms, symmetric]
    by (auto simp: loaded_def opened_mods make_module_info_def split: option.splits)
  show "n \<in> set (dep_mods ds) \<Longrightarrow> known (opened ds s) n" by (simp add: known_def opened_mods split: option.split)
  show "known (opened ds s) n \<longleftrightarrow> ended s n \<or> n \<in> set (dep_mods ds)"
    unfolding calm_file(2) [OF assms, symmetric] by (auto simp: known_def opened_mods split: option.splits)
  show "no_stray (opened ds s)"
    unfolding no_stray_def
  proof (intro conjI allI impI)
    fix n r assume "map_of (mods (opened ds s)) (File n) = Some r"
    then show "r = make_module_info \<or> loaded (opened ds s) n"
      using assms by (auto simp: opened_mods(1) l ended_def status_def calm_def split: option.splits if_splits)
  qed (use assms in \<open>simp add: opened_mods calm_def\<close>)
qed

text \<open>What fetching leaves is ready to be executed.\<close>

definition needs_of :: "files \<Rightarrow> dep list \<Rightarrow> loader \<Rightarrow> string \<Rightarrow> bool" where
  "needs_of fs ds s = needed fs {n. ended s n} (dep_mods ds)"

lemma fetched:
  assumes c: "calm s" and h: "\<forall>n. needs_of fs ds s n \<longrightarrow> ended s n \<or> map_of fs n \<noteq> None"
  obtains s3 where "inject_modules fs (dep_mods ds) (opened ds s) = Inr s3" "injects fs (opened ds s) s3"
    "\<And>n. known s3 n \<longleftrightarrow> loaded s3 n" "\<And>n. loaded s3 n \<longleftrightarrow> ended s n \<or> needs_of fs ds s n"
    "waiting s3 = []"
proof -
  let ?o = "opened ds s"
  note o = opened_no_stray [OF c]
  have e: "{n. loaded ?o n} = {n. ended s n}" by (simp add: o(2))
  have "\<forall>n \<in> set (dep_mods ds). known ?o n" using o(3) by blast
  from inject_ok [OF o(1) this] h obtain s3 where s3: "inject_modules fs (dep_mods ds) ?o = Inr s3" "injects fs ?o s3"
    "no_stray s3" "\<forall>n \<in> set (dep_mods ds). loaded s3 n"
    "\<forall>n. loaded s3 n \<longrightarrow> loaded ?o n \<or> needed fs {k. loaded ?o k} (dep_mods ds) n"
    unfolding needs_of_def o(2) by blast
  have "needs_of fs ds s n \<Longrightarrow> loaded s3 n" for n
    unfolding needs_of_def
  proof (induction rule: needed.induct)
    case (needed_start n)
    with s3(4) show ?case by blast
  next
    case (needed_dep n ds' f k)
    then have "came fs s3 n" using injectsD(4) [OF s3(2)] o(2) by blast
    with needed_dep.hyps show ?case by (auto simp: came_def)
  qed
  then have l: "loaded s3 n \<longleftrightarrow> ended s n \<or> needs_of fs ds s n" for n
    using s3(5) injectsD(9) [OF s3(2)] unfolding needs_of_def e o(2) by blast
  have "known s3 n \<longleftrightarrow> loaded s3 n" for n
  proof
    assume k: "known s3 n"
    show "loaded s3 n"
    proof (rule ccontr)
      assume n: "\<not> loaded s3 n"
      with injectsD(5) [OF s3(2) k] o(4) have "ended s n \<or> n \<in> set (dep_mods ds)" by blast
      with n s3(4) l show False by blast
    qed
  qed (auto simp: loaded_def known_def split: option.splits)
  with s3 l show thesis using that by (simp add: no_stray_def)
qed


lemma require_opened:
  "ds \<noteq> [] \<Longrightarrow> require_list run fs ds s =
     (case inject_modules fs (dep_mods ds) (opened ds s) of
        Inl s2 \<Rightarrow> Inl s2
      | Inr s2 \<Rightarrow> (let s3 = snd (exec_module run False (Synthetic (uid s)) s2)
          in Inr (check_complete run 0
               (if is_done s3 (Synthetic (uid s)) then s3 else s3\<lparr>exec_queue := exec_queue s3 @ [Synthetic (uid s)]\<rparr>))))"
  by (simp add: require_list_def opened_def Let_def)

lemma fetched_ready:
  assumes c: "calm s" and h: "\<forall>n. needs_of fs ds s n \<longrightarrow> ended s n \<or> map_of fs n \<noteq> None"
    and i: "injects fs (opened ds s) s3" and k: "\<And>n. known s3 n \<longleftrightarrow> loaded s3 n"
    and l: "\<And>n. loaded s3 n \<longleftrightarrow> ended s n \<or> needs_of fs ds s n"
  shows "map_of (mods s3) (Synthetic j) = (if j = uid s then Some (synthetic ds) else None)"
    "status s3 (File n) \<noteq> Some Executing" "ended s n \<Longrightarrow> status s3 (File n) = Some Executed"
    "status s3 (File n) = Some Not_executed \<longleftrightarrow> needs_of fs ds s n \<and> \<not> ended s n \<and> has_factory fs n"
    "ready (file_needs fs ds (uid s)) s3"
proof -
  note o = opened_no_stray [OF c]
  show y: "map_of (mods s3) (Synthetic j) = (if j = uid s then Some (synthetic ds) else None)" for j
    using injectsD(2) [OF i] by (simp add: opened_mods(2) [OF c])
  have cm: "came fs s3 n" if "needs_of fs ds s n" "\<not> ended s n" for n
    using injectsD(4) [OF i, of n] that l o(2) by blast
  show "status s3 (File n) \<noteq> Some Executing" for n
    using k [of n] by (auto simp: known_def loaded_def status_def split: option.splits)
  show ex: "status s3 (File n) = Some Executed" if n: "ended s n" for n
  proof -
    from n have "loaded (opened ds s) n" by (simp add: o(2))
    from injectsD(1) [OF i this] n show ?thesis by (auto simp: status_def ended_def opened_mods split: option.splits)
  qed
  show "status s3 (File n) = Some Not_executed \<longleftrightarrow> needs_of fs ds s n \<and> \<not> ended s n \<and> has_factory fs n"
  proof
    assume n: "status s3 (File n) = Some Not_executed"
    then have ne: "\<not> ended s n" using ex by auto
    from n have "known s3 n" by (auto simp: status_def known_def)
    with k l ne have nd: "needs_of fs ds s n" by blast
    with cm [OF nd ne] n ne show "needs_of fs ds s n \<and> \<not> ended s n \<and> has_factory fs n"
      by (cases "map_of fs n") (auto simp: came_def has_factory_def status_def split: source.splits)
  next
    assume n: "needs_of fs ds s n \<and> \<not> ended s n \<and> has_factory fs n"
    then have "came fs s3 n" "loaded s3 n" using cm l by blast+
    with n show "status s3 (File n) = Some Not_executed"
      by (auto simp: came_def has_factory_def status_def loaded_def split: option.splits)
  qed
  show "ready (file_needs fs ds (uid s)) s3"
    unfolding ready_def
  proof (intro allI impI)
    fix m r assume m: "map_of (mods s3) m = Some r" "executed r \<noteq> Executed"
    show "adef r \<noteq> None \<and> File ` set (dep_mods (deps r)) = file_needs fs ds (uid s) `` {m} \<and>
       (\<forall>n \<in> set (dep_mods (deps r)). map_of (mods s3) (File n) \<noteq> None)"
    proof (cases m)
      case (Synthetic j)
      with m y have j: "j = uid s" "r = synthetic ds" by (auto split: if_splits)
      have "map_of (mods s3) (File n) \<noteq> None" if "n \<in> set (dep_mods ds)" for n
        using o(3) [OF that] injectsD(3) [OF i] by (simp add: known_def)
      with j Synthetic show ?thesis by (auto simp: synthetic_def make_module_info_def file_needs_def)
    next
      case (File n)
      with m have kn: "known s3 n" by (simp add: known_def)
      then have ld: "loaded s3 n" using k by blast
      have ne: "\<not> ended s n" using ex [of n] m File by (auto simp: status_def)
      with ld l have "came fs s3 n" using cm by blast
      with m File ld have "\<exists>f. map_of fs n = Some (Define (deps r) f) \<and> (\<forall>d \<in> set (dep_mods (deps r)). loaded s3 d)"
        by (auto simp: came_def status_def split: option.splits source.splits)
      moreover have "adef r \<noteq> None" using ld m File by (auto simp: loaded_def)
      moreover have "loaded s3 d \<Longrightarrow> map_of (mods s3) (File d) \<noteq> None" for d using k [of d] by (simp add: known_def)
      ultimately show ?thesis using File by (auto simp: file_needs_def)
    qed
  qed
qed


text \<open>The order of the factories: each comes after what it needs, circles apart.\<close>

definition after_needs :: "files \<Rightarrow> dep list \<Rightarrow> loader \<Rightarrow> mid list \<Rightarrow> bool" where
  "after_needs fs ds s new \<longleftrightarrow> (\<forall>us k vs n. new = us @ k # vs \<longrightarrow> (k, File n) \<in> file_needs fs ds (uid s) \<longrightarrow>
     ended s n \<or> \<not> has_factory fs n \<or> File n \<in> set us \<or> (File n, k) \<in> (file_needs fs ds (uid s))\<^sup>+)"

definition all_there :: "files \<Rightarrow> dep list \<Rightarrow> loader \<Rightarrow> bool" where
  "all_there fs ds s \<longleftrightarrow> (\<forall>n. needs_of fs ds s n \<longrightarrow> ended s n \<or> map_of fs n \<noteq> None)"

lemma check_complete_empty: "exec_queue s = [] \<Longrightarrow> check_complete run i s = s"
  by (simp add: check_complete.simps)

lemma split_last_synthetic:
  assumes "distinct xs" "xs \<noteq> []" "last xs = Synthetic u" "set xs \<subseteq> insert (Synthetic u) (range File)"
  obtains ns where "xs = map File ns @ [Synthetic u]" "distinct ns"
proof -
  from assms(2,3) obtain ys where x: "xs = ys @ [Synthetic u]" by (cases xs rule: rev_cases) auto
  with assms(1) have d: "distinct ys" "Synthetic u \<notin> set ys" by simp_all
  have "set ys \<subseteq> range File" using d(2) assms(4) unfolding x by auto
  then have "\<exists>ns. ys = map File ns" by (simp add: ex_map_conv subset_eq image_iff)
  then obtain ns where "ys = map File ns" by blast
  with x d(1) show thesis using that by (simp add: distinct_map)
qed

text \<open>From the fetched state on.\<close>

lemma executed_all:
  assumes c: "calm s" and h: "\<forall>n. needs_of fs ds s n \<longrightarrow> ended s n \<or> map_of fs n \<noteq> None"
    and i: "injects fs (opened ds s) s3" and k: "\<And>n. known s3 n \<longleftrightarrow> loaded s3 n"
    and l: "\<And>n. loaded s3 n \<longleftrightarrow> ended s n \<or> needs_of fs ds s n"
    and e: "executes (file_needs fs ds (uid s)) s3 s4 new" "is_done s4 (Synthetic (uid s))"
  shows "needs_of fs ds s n \<Longrightarrow> ended s4 n" "ended s4 n \<longleftrightarrow> ended s n \<or> needs_of fs ds s n"
    "set new = insert (Synthetic (uid s)) (File ` {n. needs_of fs ds s n \<and> \<not> ended s n \<and> has_factory fs n})"
    "after_needs fs ds s new"
proof -
  note f = fetched_ready [OF c h i k l]
  from e(1) have a: "adv s3 s4" and sn: "set new = {k. status s3 k = Some Not_executed \<and> is_done s4 k}"
    and o: "in_order (file_needs fs ds (uid s)) s3 new"
    and cl: "\<And>k d. k \<in> set new \<Longrightarrow> (k, File d) \<in> file_needs fs ds (uid s) \<Longrightarrow> ended s4 d"
    using f(2) by (fastforce simp: executes_def is_done_def ended_def)+
  have ym: "Synthetic (uid s) \<in> set new"
    using e(2) f(1) by (simp add: sn status_def synthetic_def make_module_info_def)
  have st: "status s3 (File n) = Some Executed" if "ended s n \<or> needs_of fs ds s n" "\<not> (needs_of fs ds s n \<and> \<not> ended s n \<and> has_factory fs n)" for n
  proof -
    from that(1) l k have "known s3 n" by blast
    then obtain x where x: "status s3 (File n) = Some x" by (auto simp: known_def status_def)
    with f(2) [of n] f(4) [of n] that(2) show ?thesis by (cases x) auto
  qed
  show en: "needs_of fs ds s n \<Longrightarrow> ended s4 n" for n
    unfolding needs_of_def
  proof (induction rule: needed.induct)
    case (needed_start n)
    have "(Synthetic (uid s), File n) \<in> file_needs fs ds (uid s)" using needed_start by (simp add: file_needs_def)
    with cl [OF ym] show ?case by blast
  next
    case (needed_dep n ds' f' k')
    have n: "needs_of fs ds s n" "\<not> ended s n" using needed_dep by (simp_all add: needs_of_def)
    have "has_factory fs n" using needed_dep.hyps(3,4) by (auto simp: has_factory_def)
    with n f(4) needed_dep.IH have "File n \<in> set new" by (simp add: sn is_done_def ended_def)
    moreover have "(File n, File k') \<in> file_needs fs ds (uid s)" using needed_dep.hyps by (auto simp: file_needs_def)
    ultimately show ?case by (rule cl)
  qed
  show "ended s4 n \<longleftrightarrow> ended s n \<or> needs_of fs ds s n" for n
  proof
    assume n: "ended s4 n"
    then obtain r where "map_of (mods s4) (File n) = Some r" by (auto simp: ended_def status_def)
    from advD(2) [OF a this] have "known s3 n" by (auto simp: known_def)
    with k l show "ended s n \<or> needs_of fs ds s n" by blast
  next
    assume "ended s n \<or> needs_of fs ds s n"
    then show "ended s4 n"
    proof
      assume "ended s n"
      from f(3) [OF this] adv_status(1) [OF a] show ?thesis by (simp add: ended_def)
    qed (rule en)
  qed
  show "set new = insert (Synthetic (uid s)) (File ` {n. needs_of fs ds s n \<and> \<not> ended s n \<and> has_factory fs n})"
  proof (intro set_eqI)
    fix m
    show "m \<in> set new \<longleftrightarrow> m \<in> insert (Synthetic (uid s)) (File ` {n. needs_of fs ds s n \<and> \<not> ended s n \<and> has_factory fs n})"
    proof (cases m)
      case (File n)
      with f(4) [of n] en [of n] show ?thesis by (auto simp: sn is_done_def ended_def)
    next
      case (Synthetic j)
      have "status s3 (Synthetic j) = None" if "j \<noteq> uid s" using that by (simp add: status_def f(1))
      with Synthetic ym show ?thesis by (auto simp: sn)
    qed
  qed
  show "after_needs fs ds s new"
    unfolding after_needs_def
  proof (intro allI impI)
    fix us m vs n assume x: "new = us @ m # vs" "(m, File n) \<in> file_needs fs ds (uid s)"
    from o x have "is_done s3 (File n) \<or> File n \<in> set us \<or> (File n, m) \<in> (file_needs fs ds (uid s))\<^sup>+"
      unfolding in_order_def by blast
    moreover have "ended s n \<or> \<not> has_factory fs n" if "is_done s3 (File n)"
    proof (rule ccontr)
      assume y: "\<not> ?thesis"
      from that have d: "status s3 (File n) = Some Executed" by (simp add: is_done_def)
      then have "known s3 n" by (auto simp: known_def status_def)
      with k l y have "needs_of fs ds s n" by blast
      with y f(4) [of n] d show False by simp
    qed
    ultimately show "ended s n \<or> \<not> has_factory fs n \<or> File n \<in> set us \<or> (File n, m) \<in> (file_needs fs ds (uid s))\<^sup>+" by blast
  qed
qed


lemma require_calls_once:
  assumes "calm s" "ds \<noteq> []" "all_there fs ds s"
  shows "\<exists>s' ns. require_list run fs ds s = Inr s' \<and> calm s' \<and>
     (\<forall>n. ended s' n \<longleftrightarrow> ended s n \<or> needs_of fs ds s n) \<and>
     ran s' = ran s @ map File ns @ [Synthetic (uid s)] \<and> distinct ns \<and>
     set ns = {n. needs_of fs ds s n \<and> \<not> ended s n \<and> has_factory fs n} \<and>
     after_needs fs ds s (map File ns @ [Synthetic (uid s)]) \<and>
     last (calls s') = (Synthetic (uid s), map (arg_of (Synthetic (uid s)) s') ds)"
proof -
  let ?m = "Synthetic (uid s)"
  from assms(3) have h: "\<forall>n. needs_of fs ds s n \<longrightarrow> ended s n \<or> map_of fs n \<noteq> None" by (simp add: all_there_def)
  obtain s3 where s3: "inject_modules fs (dep_mods ds) (opened ds s) = Inr s3" "injects fs (opened ds s) s3"
    "\<And>n. known s3 n \<longleftrightarrow> loaded s3 n" "\<And>n. loaded s3 n \<longleftrightarrow> ended s n \<or> needs_of fs ds s n" "waiting s3 = []"
    by (rule fetched [OF assms(1) h]) (rule that)
  note f = fetched_ready [OF assms(1) h s3(2,3,4)]
  have m: "map_of (mods s3) ?m = Some (synthetic ds)" using f(1) by simp
  have sm: "status s3 ?m = Some Not_executed" by (simp add: status_def m synthetic_def make_module_info_def)
  have ne: "status s3 k \<noteq> Some Executing" for k
    using f(1,2) by (cases k) (auto simp: status_def synthetic_def make_module_info_def)
  then have lt: "leads_to (file_needs fs ds (uid s)) s3 ?m" by (simp add: leads_to_def)
  from exec_ok(1) [OF refl f(5) _ lt] sm ne obtain a s4 new where e: "exec_module run False ?m s3 = (Some a, s4)"
    "executes (file_needs fs ds (uid s)) s3 s4 new" "is_done s4 ?m" by (metis option.distinct(1))
  from e(2) have adv: "adv s3 s4" and rn: "ran s4 = ran s3 @ new" and dn: "distinct new" by (simp_all add: executes_def)
  note x = executed_all [OF assms(1) h s3(2,3,4) e(2,3)]
  have y: "last (calls s4) = (?m, map (arg_of ?m s4) ds)" "calls s4 \<noteq> []" "status s4 ?m = None"
    using exec_synthetic [OF m _ _ _ _ e(1)] f(2) by (simp_all add: synthetic_def make_module_info_def)
  have q: "exec_queue s3 = []" using injectsD(8) [OF s3(2)] assms(1) by (simp add: opened_mods calm_def)
  then have q4: "exec_queue s4 = []" using exec_queue_shrinks(1) [of run False ?m s3] e(1) by simp
  have r: "require_list run fs ds s = Inr s4"
    using e(1,3) by (simp add: require_opened [OF assms(2)] s3(1) Let_def check_complete_empty [OF q4])
  have ls: "last new = ?m" "new \<noteq> []"
  proof -
    show n: "new \<noteq> []" using x(3) by auto
    have "last (ran s4) = ?m" using y(1,2) by (simp add: ran_def last_map)
    with n show "last new = ?m" by (simp add: rn)
  qed
  obtain ns where ns: "new = map File ns @ [?m]" "distinct ns"
    by (rule split_last_synthetic [OF dn ls(2,1)]) (use x(3) in auto)
  have sn: "set ns = {n. needs_of fs ds s n \<and> \<not> ended s n \<and> has_factory fs n}"
  proof -
    have "File ` set ns = File ` {n. needs_of fs ds s n \<and> \<not> ended s n \<and> has_factory fs n}"
      using x(3) unfolding ns(1) by auto
    then show ?thesis by (simp add: inj_image_eq_iff inj_on_def)
  qed
  have "calm s4"
    unfolding calm_def
  proof (intro conjI allI impI)
    fix k r assume k: "map_of (mods s4) k = Some r"
    from advD(2) [OF adv k] obtain r3 where r3: "map_of (mods s3) k = Some r3" "same_def r3 r" by blast
    from k y(3) f(1) r3(1) obtain n where n: "k = File n"
      by (cases k) (auto simp: status_def split: if_splits)
    then show "\<exists>n. k = File n" by blast
    from r3 n have ld: "loaded s3 n" using s3(3) [of n] by (simp add: known_def)
    with r3 n have "injected r = Arrived" by (simp add: loaded_def same_def_def)
    moreover have "ended s4 n" using ld s3(4) x(2) by simp
    ultimately show "injected r = Arrived" "executed r = Executed" using k n by (simp_all add: ended_def status_def)
  qed (use advD(4) [OF adv] s3(5) q4 in simp_all)
  moreover have "ran s4 = ran s @ map File ns @ [?m]"
    using rn ns(1) injectsD(6) [OF s3(2)] by (simp add: ran_def opened_mods)
  ultimately show ?thesis using r x(2,4) y(1) ns sn by (intro exI [of _ s4] exI [of _ ns]) auto
qed


text \<open>Where a file that is needed is missing, the request ends with the exception and calls nothing.\<close>

lemma require_stops:
  assumes "calm s" "ds \<noteq> []" "\<not> all_there fs ds s"
  shows "\<exists>s'. require_list run fs ds s = Inl s' \<and> calls s' = calls s"
proof -
  note o = opened_no_stray [OF assms(1)]
  have kn: "\<forall>n \<in> set (dep_mods ds). known (opened ds s) n" using o(3) by blast
  have e: "{n. loaded (opened ds s) n} = {n. ended s n}" by (simp add: o(2))
  show ?thesis
  proof (cases "inject_modules fs (dep_mods ds) (opened ds s)")
    case (Inl s')
    from inject_Inl [OF Inl o(1) kn] have "calls s' = calls s" by (simp add: opened_mods)
    with Inl show ?thesis by (simp add: require_opened [OF assms(2)])
  next
    case (Inr s')
    from inject_Inr [OF Inr o(1) kn] have i: "injects fs (opened ds s) s'" "\<forall>n \<in> set (dep_mods ds). loaded s' n" by blast+
    have cm: "came fs s' n" if "loaded s' n" "\<not> ended s n" for n
      using injectsD(4) [OF i(1)] that o(2) by blast
    have "loaded s' n" if "needs_of fs ds s n" for n
      using that unfolding needs_of_def
    proof (induction rule: needed.induct)
      case (needed_start n)
      with i(2) show ?case by blast
    next
      case (needed_dep n ds' f' k)
      then have "came fs s' n" using cm by blast
      with needed_dep.hyps show ?case by (auto simp: came_def)
    qed
    with cm have "ended s n \<or> came fs s' n" if "needs_of fs ds s n" for n using that by blast
    then have "ended s n \<or> map_of fs n \<noteq> None" if "needs_of fs ds s n" for n
      using that by (fastforce simp: came_def split: option.splits)
    then have "all_there fs ds s" by (simp add: all_there_def)
    with assms(3) show ?thesis by blast
  qed
qed

section \<open>A file that could not be fetched\<close>

text \<open>The module of a file that is missing stays requested: it is never fetched again, and never executed.\<close>

definition blocked :: "loader \<Rightarrow> string \<Rightarrow> bool" where
  "blocked s n \<longleftrightarrow> (\<exists>r. map_of (mods s) (File n) = Some r \<and> injected r = Requested \<and> executed r = Not_executed \<and> adef r = None)"

definition held :: "loader \<Rightarrow> string \<Rightarrow> nat \<Rightarrow> bool" where
  "held s n j \<longleftrightarrow> blocked s n \<and> Synthetic j \<notin> set (ran s) \<and>
     (\<exists>r. map_of (mods s) (Synthetic j) = Some r \<and> n \<in> set (dep_mods (deps r)) \<and> executed r \<noteq> Executed)"

lemma ran_simps [simp]: "ran (set_mod k f s) = ran s" "ran (finish_exec k s) = ran s" "ran (mark k e s) = ran s"
  by (simp_all add: ran_def mark_def)

lemma ran_run: "set (ran (run_factory run m args s)) \<subseteq> insert m (set (ran s))"
  by (auto simp: ran_def run_factory_def split: option.splits factory.splits)

lemma blocked_other:
  assumes "blocked s n" "m \<noteq> File n"
  shows "blocked (mark m e s) n" "blocked (finish_exec m (run_factory run m args s)) n"
  using assms by (auto simp: blocked_def mark_def run_factory_mods)

lemma exec_blocked:
  "blocked s n \<Longrightarrow> blocked (snd (exec_module run strict m s)) n \<and> (m = File n \<longrightarrow> fst (exec_module run strict m s) = None)"
  "blocked s n \<Longrightarrow> blocked (snd (exec_deps run strict self ds args s)) n \<and>
     (n \<in> set (dep_mods ds) \<longrightarrow> fst (exec_deps run strict self ds args s) = None)"
proof (induction run strict m s and run strict self ds args s rule: exec_module_exec_deps.induct)
  case (1 run strict m s)
  show ?case
  proof (cases "\<exists>r. map_of (mods s) m = Some r \<and> executed r = Not_executed \<and> adef r \<noteq> None")
    case False
    then have "snd (exec_module run strict m s) = s" by (auto split: option.splits exec.splits)
    moreover have "fst (exec_module run strict (File n) s) = None" using 1(2) by (auto simp: blocked_def)
    ultimately show ?thesis using 1(2) by simp
  next
    case True
    then obtain r where r: "map_of (mods s) m = Some r" "executed r = Not_executed" "adef r \<noteq> None" by blast
    with 1(2) have m: "m \<noteq> File n" by (auto simp: blocked_def)
    obtain o1 s1 where e: "exec_deps run strict m (deps r) [] (mark m Executing s) = (o1, s1)" by force
    from 1(1) [OF r blocked_other(1) [OF 1(2) m]] e have "blocked s1 n" by simp
    from blocked_other [OF this m] show ?thesis using r e m by (cases o1) (auto simp: Let_def)
  qed
next
  case (2 run strict self args s)
  then show ?case by simp
next
  case (3 run strict self d ds args s)
  show ?case
  proof (cases d)
    case (Mod k)
    obtain o1 s1 where e: "exec_module run strict (File k) s = (o1, s1)" by force
    have p: "blocked s1 n" "k = n \<longrightarrow> o1 = None" using 3(4) [OF Mod 3(6)] unfolding e by auto
    show ?thesis
    proof (cases o1)
      case (Some a)
      with 3(5) [OF Mod e [symmetric] _ p(1)] p(2) Mod e show ?thesis by auto
    qed (use p Mod e in simp)
  qed (use 3 in auto)
qed

lemma exec_held:
  "held s n j \<Longrightarrow> held (snd (exec_module run strict m s)) n j"
  "held s n j \<Longrightarrow> held (snd (exec_deps run strict self ds args s)) n j"
proof (induction run strict m s and run strict self ds args s rule: exec_module_exec_deps.induct)
  case (1 run strict m s)
  show ?case
  proof (cases "\<exists>r. map_of (mods s) m = Some r \<and> executed r = Not_executed \<and> adef r \<noteq> None")
    case False
    then show ?thesis using 1(2) by (auto split: option.splits exec.splits)
  next
    case True
    then obtain r where r: "map_of (mods s) m = Some r" "executed r = Not_executed" "adef r \<noteq> None" by blast
    with 1(2) have m: "m \<noteq> File n" by (auto simp: blocked_def held_def)
    let ?s0 = "mark m Executing s"
    obtain o1 s1 where e: "exec_deps run strict m (deps r) [] ?s0 = (o1, s1)" by force
    have h0: "held ?s0 n j" using 1(2) m by (auto simp: held_def blocked_def mark_def)
    from 1(1) [OF r h0] e have h1: "held s1 n j" by simp
    show ?thesis
    proof (cases o1)
      case None
      with h1 m have "held (mark m Not_executed s1) n j" by (auto simp: held_def blocked_def mark_def)
      with None r e show ?thesis by auto
    next
      case (Some xs)
      have nd: "n \<notin> set (dep_mods (deps r))"
        using exec_blocked(2) [of ?s0 n run strict m "deps r" "[]"] h0 e Some by (auto simp: held_def)
      have mj: "m \<noteq> Synthetic j" using 1(2) r(1) nd by (auto simp: held_def)
      with h1 m ran_run [of run m xs s1] have "held (finish_exec m (run_factory run m xs s1)) n j"
        by (auto simp: held_def blocked_def run_factory_mods)
      with Some r e show ?thesis by (auto simp: Let_def)
    qed
  qed
next
  case (2 run strict self args s)
  then show ?case by simp
next
  case (3 run strict self d ds args s)
  show ?case
  proof (cases d)
    case (Mod k)
    obtain o1 s1 where e: "exec_module run strict (File k) s = (o1, s1)" by force
    with 3(4) [OF Mod 3(6)] have p: "held s1 n j" by simp
    show ?thesis
    proof (cases o1)
      case (Some a)
      with 3(5) [OF Mod e [symmetric] _ p] Mod e show ?thesis by auto
    qed (use p Mod e in simp)
  qed (use 3 in auto)
qed

lemma check_held: "held s n j \<Longrightarrow> held (check_complete run i s) n j"
proof (induction run i s rule: check_complete.induct)
  case (1 run i s)
  have "held (snd (exec_module run False (exec_queue s ! i) s)) n j" by (rule exec_held(1) [OF 1(3)])
  with 1 show ?case by (subst check_complete.simps) (auto simp: Let_def)
qed


text \<open>Fetching leaves what was asked for before, and the requests, as they are.\<close>

definition kept :: "loader \<Rightarrow> loader \<Rightarrow> bool" where
  "kept s t \<longleftrightarrow> (\<forall>n r. map_of (mods s) (File n) = Some r \<longrightarrow> injected r \<noteq> Not_injected \<longrightarrow> map_of (mods t) (File n) = Some r) \<and>
     (\<forall>i. map_of (mods t) (Synthetic i) = map_of (mods s) (Synthetic i)) \<and> calls t = calls s \<and> uid t = uid s"

lemma kept_refl [simp]: "kept s s" by (simp add: kept_def)

lemma kept_trans: "kept s t \<Longrightarrow> kept t u \<Longrightarrow> kept s u" by (simp add: kept_def)

definition state_of :: "loader + loader \<Rightarrow> loader" where
  "state_of x = (case x of Inl t \<Rightarrow> t | Inr t \<Rightarrow> t)"

lemma kept_define:
  assumes "\<not> skipped (File m) s"
  shows "kept s (define_module (File m) ds f (set_requested (File m) s))" "kept s (set_requested (File m) s)"
    "kept s (finish_exec (File m) (set_arrived (File m) (set_requested (File m) s)))"
proof -
  from not_skippedD [OF assms] obtain r where r: "map_of (mods s) (File m) = Some r" "injected r = Not_injected" by blast
  then have m: "map_of (mods (set_requested (File m) s)) (File m) = Some (r\<lparr>injected := Requested\<rparr>)"
    "injected (r\<lparr>injected := Requested\<rparr>) \<noteq> Arrived" by simp_all
  show "kept s (define_module (File m) ds f (set_requested (File m) s))"
    using r define_module_mods [OF m, of ds f] define_module_simps(2,3) [OF m]
    by (auto simp: kept_def split: option.splits)
  show "kept s (set_requested (File m) s)" using r by (auto simp: kept_def)
  show "kept s (finish_exec (File m) (set_arrived (File m) (set_requested (File m) s)))" using r by (auto simp: kept_def)
qed

lemma inject_kept: "kept s (state_of (inject_modules fs ms s))"
proof (induction fs ms s rule: inject_modules.induct)
  case (1 fs s)
  then show ?case by (simp add: state_of_def)
next
  case (2 fs m ms s)
  show ?case
  proof (cases "skipped (File m) s")
    case True
    with 2(1) show ?thesis by simp
  next
    case False
    show ?thesis
    proof (cases "map_of fs m")
      case None
      with False kept_define(2) [OF False] show ?thesis by (simp add: state_of_def)
    next
      case (Some x)
      show ?thesis
      proof (cases x)
        case Script
        with 2(4) [OF False Some Script] False Some kept_trans [OF kept_define(3) [OF False]] show ?thesis by simp
      next
        case (Define ds f)
        note k = kept_define(1) [OF False, of ds f]
        let ?x = "inject_modules fs (dep_mods ds) (define_module (File m) ds f (set_requested (File m) s))"
        have kx: "kept s (state_of ?x)" by (rule kept_trans [OF k 2(2) [OF False Some Define]])
        show ?thesis
        proof (cases ?x)
          case (Inl t)
          with kx False Some Define show ?thesis by (simp add: state_of_def)
        next
          case (Inr t)
          from kx Inr have "kept s t" by (simp add: state_of_def)
          from kept_trans [OF this 2(3) [OF False Some Define Inr]] False Some Define Inr show ?thesis by simp
        qed
      qed
    qed
  qed
qed

text \<open>The number of a request is new.\<close>

definition fresh_ids :: "loader \<Rightarrow> bool" where
  "fresh_ids s \<longleftrightarrow> (\<forall>j. map_of (mods s) (Synthetic j) \<noteq> None \<or> Synthetic j \<in> set (ran s) \<longrightarrow> j < uid s)"

lemma exec_fresh:
  "fresh_ids s \<Longrightarrow> fresh_ids (snd (exec_module run strict m s))"
  "fresh_ids s \<Longrightarrow> fresh_ids (snd (exec_deps run strict self ds args s))"
proof (induction run strict m s and run strict self ds args s rule: exec_module_exec_deps.induct)
  case (1 run strict m s)
  have u: "uid (mark m e x) = uid x" for e x by (simp add: mark_def)
  show ?case
  proof (cases "\<exists>r. map_of (mods s) m = Some r \<and> executed r = Not_executed \<and> adef r \<noteq> None")
    case False
    then show ?thesis using 1(2) by (auto split: option.splits exec.splits)
  next
    case True
    then obtain r where r: "map_of (mods s) m = Some r" "executed r = Not_executed" "adef r \<noteq> None" by blast
    let ?s0 = "mark m Executing s"
    obtain o1 s1 where e: "exec_deps run strict m (deps r) [] ?s0 = (o1, s1)" by force
    have "fresh_ids ?s0" using 1(2) r(1) by (auto simp: fresh_ids_def mark_def)
    from 1(1) [OF r this] e have f: "fresh_ids s1" by simp
    have "adv ?s0 s1" using exec_progress(2) [of ?s0 run strict m "deps r" "[]"] e by (simp add: progress_def)
    from advD(5) [OF this] have "uid s1 = uid s" by (simp add: u)
    then have mu: "m = Synthetic j \<Longrightarrow> j < uid s1" for j using 1(2) r(1) by (auto simp: fresh_ids_def)
    have "fresh_ids (mark m Not_executed s1)" using f by (auto simp: fresh_ids_def mark_def split: if_splits)
    moreover have "fresh_ids (finish_exec m (run_factory run m xs s1))" for xs
      using f mu ran_run [of run m xs s1] by (auto simp: fresh_ids_def run_factory_mods split: if_splits)
    ultimately show ?thesis using r e by (cases o1) (auto simp: Let_def)
  qed
next
  case (2 run strict self args s)
  then show ?case by simp
next
  case (3 run strict self d ds args s)
  show ?case
  proof (cases d)
    case (Mod k)
    obtain o1 s1 where e: "exec_module run strict (File k) s = (o1, s1)" by force
    with 3(4) [OF Mod 3(6)] have p: "fresh_ids s1" by simp
    show ?thesis
    proof (cases o1)
      case (Some a)
      with 3(5) [OF Mod e [symmetric] _ p] Mod e show ?thesis by auto
    qed (use p Mod e in simp)
  qed (use 3 in auto)
qed

lemma check_fresh: "fresh_ids s \<Longrightarrow> fresh_ids (check_complete run i s)"
proof (induction run i s rule: check_complete.induct)
  case (1 run i s)
  have "fresh_ids (snd (exec_module run False (exec_queue s ! i) s))" by (rule exec_fresh(1) [OF 1(3)])
  with 1 show ?case by (subst check_complete.simps) (auto simp: Let_def)
qed

lemma check_blocked: "blocked s n \<Longrightarrow> blocked (check_complete run i s) n"
proof (induction run i s rule: check_complete.induct)
  case (1 run i s)
  have "blocked (snd (exec_module run False (exec_queue s ! i) s)) n" using exec_blocked(1) [OF 1(3)] by blast
  with 1 show ?case by (subst check_complete.simps) (auto simp: Let_def)
qed


lemma kept_blocked: "kept s t \<Longrightarrow> blocked s n \<Longrightarrow> blocked t n"
  by (fastforce simp: kept_def blocked_def)

lemma kept_held: "kept s t \<Longrightarrow> held s n j \<Longrightarrow> held t n j"
  using kept_blocked by (auto simp: held_def kept_def ran_def)

lemma kept_fresh: "kept s t \<Longrightarrow> fresh_ids s \<Longrightarrow> fresh_ids t"
  by (simp add: kept_def fresh_ids_def ran_def)

lemma opened_any:
  "map_of (mods (opened ds s)) (Synthetic i) =
     (case map_of (mods s) (Synthetic i) of Some r \<Rightarrow> Some r | None \<Rightarrow> if i = uid s then Some (synthetic ds) else None)"
  "ran (opened ds s) = ran s"
  by (auto simp: opened_def Let_def map_add_def ran_def image_iff split: option.splits)

lemma opened_blocked: "blocked s n \<Longrightarrow> blocked (opened ds s) n"
  by (auto simp: blocked_def opened_mods)

lemma opened_fresh:
  assumes "fresh_ids s"
  shows "fresh_ids (opened ds s)" "map_of (mods (opened ds s)) (Synthetic (uid s)) = Some (synthetic ds)"
    "Synthetic (uid s) \<notin> set (ran s)"
proof -
  show "fresh_ids (opened ds s)"
    using assms by (auto simp: fresh_ids_def opened_any opened_mods less_Suc_eq split: option.splits if_splits)
  have "map_of (mods s) (Synthetic (uid s)) = None" using assms unfolding fresh_ids_def by blast
  then show "map_of (mods (opened ds s)) (Synthetic (uid s)) = Some (synthetic ds)" by (simp add: opened_any)
  show "Synthetic (uid s) \<notin> set (ran s)" using assms unfolding fresh_ids_def by blast
qed

text \<open>A request preserves all that fetching, the execution and the queue preserve.\<close>

lemma request_preserves:
  assumes "ds \<noteq> []" "P (opened ds s)" "\<And>t u. kept t u \<Longrightarrow> P t \<Longrightarrow> P u"
    "\<And>t. P t \<Longrightarrow> P (snd (exec_module run False (Synthetic (uid s)) t))"
    "\<And>t q. P t \<Longrightarrow> P (t\<lparr>exec_queue := q\<rparr>)" "\<And>t. P t \<Longrightarrow> P (check_complete run 0 t)"
  shows "P (state_of (require_list run fs ds s))"
proof (cases "inject_modules fs (dep_mods ds) (opened ds s)")
  case (Inl t)
  then have "P t" using assms(2) assms(3) [OF inject_kept [of "opened ds s" fs "dep_mods ds"]] by (simp add: state_of_def)
  then show ?thesis by (simp add: require_opened [OF assms(1)] Inl state_of_def)
next
  case (Inr t)
  then have "P t" using assms(2) assms(3) [OF inject_kept [of "opened ds s" fs "dep_mods ds"]] by (simp add: state_of_def)
  from assms(4) [OF this] assms(5) show ?thesis
    by (simp add: require_opened [OF assms(1)] Inr Let_def state_of_def assms(6))
qed

lemma exec_queue_only:
  "blocked (t\<lparr>exec_queue := q\<rparr>) n \<longleftrightarrow> blocked t n" "held (t\<lparr>exec_queue := q\<rparr>) n j \<longleftrightarrow> held t n j"
  "fresh_ids (t\<lparr>exec_queue := q\<rparr>) \<longleftrightarrow> fresh_ids t"
  by (simp_all add: blocked_def held_def fresh_ids_def ran_def)

lemma require_nil: "require_list run fs [] s = Inr (s\<lparr>calls := calls s @ [(Synthetic (uid s), [])], uid := Suc (uid s)\<rparr>)"
  by (simp add: require_list_def)

lemma request_blocked: "blocked s n \<Longrightarrow> blocked (state_of (require_list run fs ds s)) n"
proof (cases "ds = []")
  case True
  then show "blocked s n \<Longrightarrow> ?thesis" by (simp add: require_nil state_of_def blocked_def)
next
  case False
  assume b: "blocked s n"
  show ?thesis
    by (rule request_preserves [where P = "\<lambda>s. blocked s n", OF False opened_blocked [OF b] kept_blocked])
      (use exec_blocked(1) check_blocked in \<open>auto simp: exec_queue_only\<close>)
qed

lemma request_fresh: "fresh_ids s \<Longrightarrow> fresh_ids (state_of (require_list run fs ds s))"
proof (cases "ds = []")
  case True
  then show "fresh_ids s \<Longrightarrow> ?thesis" by (auto simp: require_nil state_of_def fresh_ids_def ran_def less_Suc_eq)
next
  case False
  assume b: "fresh_ids s"
  show ?thesis
    by (rule request_preserves [where P = fresh_ids, OF False opened_fresh(1) [OF b] kept_fresh])
      (use exec_fresh(1) check_fresh in \<open>simp_all add: exec_queue_only\<close>)
qed

lemma opened_held: "held s n j \<Longrightarrow> held (opened ds s) n j"
  by (auto simp: held_def opened_blocked opened_any)

lemma request_held:
  assumes "held s n j" "fresh_ids s"
  shows "held (state_of (require_list run fs ds s)) n j"
proof (cases "ds = []")
  case True
  have "j < uid s" using assms unfolding held_def fresh_ids_def by blast
  with True assms(1) show ?thesis by (auto simp: require_nil state_of_def held_def blocked_def ran_def)
next
  case False
  show ?thesis
    by (rule request_preserves [where P = "\<lambda>s. held s n j", OF False opened_held [OF assms(1)] kept_held])
      (use exec_held(1) check_held in \<open>simp_all add: exec_queue_only\<close>)
qed

text \<open>A request that names a module that is blocked is held from the start.\<close>

lemma request_new_held:
  assumes "blocked s n" "fresh_ids s" "n \<in> set (dep_mods ds)"
  shows "held (state_of (require_list run fs ds s)) n (uid s)"
proof -
  have ds: "ds \<noteq> []" using assms(3) by auto
  have "held (opened ds s) n (uid s)"
    using opened_blocked [OF assms(1)] opened_fresh(2,3) [OF assms(2)] assms(3)
    by (simp add: held_def opened_any synthetic_def make_module_info_def)
  show ?thesis
    by (rule request_preserves [where P = "\<lambda>t. held t n (uid s)", OF ds \<open>held (opened ds s) n (uid s)\<close> kept_held])
      (use exec_held(1) check_held in \<open>simp_all add: exec_queue_only\<close>)
qed


text \<open>Where the exception came from, a module is blocked.\<close>

lemma inject_Inl_blocked:
  "inject_modules fs ms s = Inl s' \<Longrightarrow> no_stray s \<Longrightarrow> \<forall>n \<in> set ms. known s n \<Longrightarrow> \<exists>n. map_of fs n = None \<and> blocked s' n"
proof (induction fs ms s arbitrary: s' rule: inject_modules.induct)
  case (1 fs s)
  then show ?case by simp
next
  case (2 fs m ms s)
  have km: "known s m" and kms: "\<forall>n \<in> set ms. known s n" using 2(7) by simp_all
  have sk: "skipped (File m) s \<longleftrightarrow> loaded s m" using 2(6) km by (rule skipped_no_stray)
  show ?case
  proof (cases "loaded s m")
    case True
    with 2(5) sk have "inject_modules fs ms s = Inl s'" by simp
    from 2(1) [OF _ this 2(6) kms] True sk show ?thesis by blast
  next
    case False
    show ?thesis
    proof (cases "map_of fs m")
      case None
      with 2(5) sk False have "s' = set_requested (File m) s" by simp
      with not_loaded_fresh [OF 2(6) km False] None have "map_of fs m = None \<and> blocked s' m"
        by (simp add: blocked_def make_module_info_def)
      then show ?thesis by blast
    next
      case (Some x)
      show ?thesis
      proof (cases x)
        case Script
        let ?s1 = "finish_exec (File m) (set_arrived (File m) (set_requested (File m) s))"
        note st = script_step [OF 2(6) km False Some [unfolded Script]]
        have kn: "\<forall>n \<in> set ms. known ?s1 n" using kms injectsD(3) [OF st(2)] by simp
        have "inject_modules fs ms ?s1 = Inl s'" using 2(5) sk False Some Script by simp
        from 2(4) [OF _ Some Script this st(1) kn] sk False show ?thesis by blast
      next
        case (Define ds f)
        define s1 where s1: "s1 = define_module (File m) ds f (set_requested (File m) s)"
        note st = define_step [OF 2(6) km False s1]
        have kd: "\<forall>n \<in> set (dep_mods ds). known s1 n" using st(3) by blast
        show ?thesis
        proof (cases "inject_modules fs (dep_mods ds) s1")
          case (Inl z)
          with 2(5) sk False Some Define have "z = s'" by (simp add: s1)
          with 2(2) [OF _ Some Define] sk False st(1) kd Inl show ?thesis unfolding s1 by blast
        next
          case (Inr s2)
          with 2(5) sk False Some Define have r: "inject_modules fs ms s2 = Inl s'" by (simp add: s1)
          from inject_Inr [OF Inr st(1) kd] have s2: "injects fs s1 s2" "no_stray s2" by blast+
          have "\<forall>n \<in> set ms. known s2 n" using kms st(3) injectsD(3) [OF s2(1)] by blast
          with 2(3) [OF _ Some Define Inr [unfolded s1] r] sk False s2(2) show ?thesis by blast
        qed
      qed
    qed
  qed
qed

text \<open>Requests one after the other; an exception ends only the request it comes from.\<close>

definition requests :: "(files \<times> dep list) list \<Rightarrow> world \<Rightarrow> loader \<Rightarrow> loader" where
  "requests rs run s = fold (\<lambda>(fs, ds) s. state_of (require_list run fs ds s)) rs s"

lemma requests_blocked: "blocked s n \<Longrightarrow> blocked (requests rs run s) n"
  by (induction rs arbitrary: s) (auto simp: requests_def request_blocked)

lemma requests_fresh: "fresh_ids s \<Longrightarrow> fresh_ids (requests rs run s)"
  by (induction rs arbitrary: s) (auto simp: requests_def request_fresh)

lemma requests_held: "held s n j \<Longrightarrow> fresh_ids s \<Longrightarrow> held (requests rs run s) n j"
  by (induction rs arbitrary: s) (auto simp: requests_def request_held request_fresh)

lemma require_fails:
  assumes "calm s" "fresh_ids s" "ds \<noteq> []" "\<not> all_there fs ds s"
  shows "\<exists>s' n. require_list run fs ds s = Inl s' \<and> calls s' = calls s \<and> map_of fs n = None \<and>
     (\<forall>before after fs' ds'. n \<in> set (dep_mods ds') \<longrightarrow>
        Synthetic (uid (requests before run s')) \<notin> set (ran (requests (before @ (fs', ds') # after) run s')))"
proof -
  from require_stops [OF assms(1,3,4)] obtain s' where s': "require_list run fs ds s = Inl s'" "calls s' = calls s" by blast
  then have i: "inject_modules fs (dep_mods ds) (opened ds s) = Inl s'"
    by (auto simp: require_opened [OF assms(3)] Let_def split: sum.splits)
  have "\<forall>n \<in> set (dep_mods ds). known (opened ds s) n" using opened_no_stray(3) [OF assms(1)] by blast
  from inject_Inl_blocked [OF i opened_no_stray(1) [OF assms(1)] this] obtain n where n: "map_of fs n = None" "blocked s' n"
    by blast
  have f: "fresh_ids s'" using request_fresh [OF assms(2), of run fs ds] s'(1) by (simp add: state_of_def)
  have "Synthetic (uid (requests before run s')) \<notin> set (ran (requests (before @ (fs', ds') # after) run s'))"
    if "n \<in> set (dep_mods ds')" for before after fs' ds'
  proof -
    let ?t = "requests before run s'"
    let ?u = "state_of (require_list run fs' ds' ?t)"
    have t: "blocked ?t n" "fresh_ids ?t" by (rule requests_blocked [OF n(2)], rule requests_fresh [OF f])
    have "held (requests after run ?u) n (uid ?t)"
      by (rule requests_held [OF request_new_held [OF t that] request_fresh [OF t(2)]])
    then show ?thesis by (simp add: requests_def held_def)
  qed
  with s' n(1) show ?thesis by blast
qed

section \<open>Properties\<close>

text \<open>C10: \<^verbatim>\<open>require\<close> with all files on the server: it takes the factory of every module that is needed and was
  not executed before, once and no other, each after the factories of what it needs (modules in a circle
  apart); the callback comes last, with the results of the modules in the order of the list, and
  afterwards nothing waits and everything needed is executed.\<close>
theorem require_runs:
  assumes "calm s" "ds \<noteq> []" "all_there fs ds s"
  shows "\<exists>s' ns. require_list run fs ds s = Inr s' \<and> calm s' \<and>
     (\<forall>n. ended s' n \<longleftrightarrow> ended s n \<or> needs_of fs ds s n) \<and>
     ran s' = ran s @ map File ns @ [Synthetic (uid s)] \<and> distinct ns \<and>
     set ns = {n. needs_of fs ds s n \<and> \<not> ended s n \<and> has_factory fs n} \<and>
     after_needs fs ds s (map File ns @ [Synthetic (uid s)]) \<and>
     last (calls s') = (Synthetic (uid s), map (arg_of (Synthetic (uid s)) s') ds)"
  by (rule require_calls_once [OF assms])

definition no_modules :: loader where
  "no_modules = \<lparr>mods = [], waiting = [], exec_queue = [], def_order = 0, uid = 0, calls = []\<rparr>"

definition circle_files :: files where
  "circle_files =
     [(''dom'', Define [Mod ''sniff''] Function), (''sniff'', Define [] (Constant 7)), (''jquery'', Script),
      (''panel'', Define [Mod ''dom'', Mod ''util'', Mod ''jquery''] Function),
      (''util'', Define [Exports, Mod ''panel'', Mod ''dom''] Function)]"

lemma calm_no_modules [simp]: "calm no_modules" by (simp add: calm_def no_modules_def)

lemma needed_closed: "needed fs L ms n \<Longrightarrow> set ms \<subseteq> X \<Longrightarrow>
    (\<And>n ds f k. n \<in> X \<Longrightarrow> map_of fs n = Some (Define ds f) \<Longrightarrow> k \<in> set (dep_mods ds) \<Longrightarrow> k \<in> X) \<Longrightarrow> n \<in> X"
  by (induction rule: needed.induct) blast+

definition closed_files :: "files \<Rightarrow> string list \<Rightarrow> bool" where
  "closed_files fs ms \<longleftrightarrow> list_all (\<lambda>m. map_of fs m \<noteq> None) ms \<and>
     list_all (\<lambda>(n, x). case x of Define ds f \<Rightarrow> list_all (\<lambda>m. map_of fs m \<noteq> None) (dep_mods ds) | Script \<Rightarrow> True) fs"

lemma closed_all_there:
  assumes "closed_files fs (dep_mods ds)"
  shows "all_there fs ds s"
proof -
  have "map_of fs n \<noteq> None" if "needs_of fs ds s n" for n
    using that unfolding needs_of_def
  proof (induction rule: needed.induct)
    case (needed_dep n ds' f k)
    from map_of_SomeD [OF needed_dep.hyps(3)] assms needed_dep.hyps(4) show ?case
      by (fastforce simp: closed_files_def list_all_iff)
  qed (use assms in \<open>simp add: closed_files_def list_all_iff\<close>)
  then show ?thesis by (simp add: all_there_def)
qed

theorem require_runs_witness:
  "\<exists>s' ns. require_list (\<lambda>_ _. None) circle_files [Mod ''panel'', Require] no_modules = Inr s' \<and> calm s' \<and>
     (\<forall>n. ended s' n \<longleftrightarrow> ended no_modules n \<or> needs_of circle_files [Mod ''panel'', Require] no_modules n) \<and>
     ran s' = ran no_modules @ map File ns @ [Synthetic (uid no_modules)] \<and> distinct ns \<and>
     set ns = {n. needs_of circle_files [Mod ''panel'', Require] no_modules n \<and> \<not> ended no_modules n \<and>
       has_factory circle_files n} \<and>
     after_needs circle_files [Mod ''panel'', Require] no_modules (map File ns @ [Synthetic (uid no_modules)]) \<and>
     last (calls s') = (Synthetic (uid no_modules),
       map (arg_of (Synthetic (uid no_modules)) s') [Mod ''panel'', Require])"
  by (rule require_runs [OF calm_no_modules _ closed_all_there]) (simp_all add: closed_files_def circle_files_def)


text \<open>C21: when a file that is needed is missing, the request ends with the exception of the fetch before any
  factory is taken, and the module of that file is lost for good: whatever is requested later, and even when
  the file is there by then, a request that names the module never calls back.\<close>
theorem missing_file_blocks:
  assumes "calm s" "fresh_ids s" "ds \<noteq> []" "\<not> all_there fs ds s"
  shows "\<exists>s' n. require_list run fs ds s = Inl s' \<and> calls s' = calls s \<and> map_of fs n = None \<and>
     (\<forall>before after fs' ds'. n \<in> set (dep_mods ds') \<longrightarrow>
        Synthetic (uid (requests before run s')) \<notin> set (ran (requests (before @ (fs', ds') # after) run s')))"
  by (rule require_fails [OF assms])

definition broken_files :: files where
  "broken_files = [(''panel'', Define [Mod ''dom''] Function)]"

theorem missing_file_blocks_witness:
  "\<exists>s' n. require_list (\<lambda>_ _. None) broken_files [Mod ''panel''] no_modules = Inl s' \<and> calls s' = calls no_modules \<and>
     map_of broken_files n = None \<and>
     (\<forall>before after fs' ds'. n \<in> set (dep_mods ds') \<longrightarrow>
        Synthetic (uid (requests before (\<lambda>_ _. None) s')) \<notin>
          set (ran (requests (before @ (fs', ds') # after) (\<lambda>_ _. None) s')))"
proof (rule missing_file_blocks)
  have "needed broken_files {n. ended no_modules n} [''panel''] ''dom''"
  proof (rule needed_dep)
    show "needed broken_files {n. ended no_modules n} [''panel''] ''panel''" by (rule needed_start) simp
    show "map_of broken_files ''panel'' = Some (Define [Mod ''dom''] Function)" by (simp add: broken_files_def)
  qed (simp_all add: ended_def status_def no_modules_def)
  then have "needs_of broken_files [Mod ''panel''] no_modules ''dom''" by (simp add: needs_of_def)
  moreover have "\<not> ended no_modules ''dom'' \<and> map_of broken_files ''dom'' = None"
    by (simp add: ended_def status_def no_modules_def broken_files_def)
  ultimately show "\<not> all_there broken_files [Mod ''panel''] no_modules" unfolding all_there_def by blast
qed (simp_all add: fresh_ids_def calm_def no_modules_def ran_def)

end
