(* ===== verification/Dtl.thy ===== *)
theory Dtl
  imports Prelude
begin

text \<open>
  The template language of the widgets (\<^verbatim>\<open>dojox/dtl/_base\<close>, \<^verbatim>\<open>dojox/string/tokenize\<close>,
  \<^verbatim>\<open>dojox/dtl/tag/logic\<close>), up to the tree of nodes: a template is cut into text, variables and blocks,
  a variable into its path and filters, and the parser builds the nodes of \<^verbatim>\<open>if\<close> and \<^verbatim>\<open>for\<close>. The
  regular expressions are written out as scanners that try what the expression tries, in its order.
  The other tags are registered, as in the source, but what they parse is left out (\<open>Left_out\<close>), for no
  template of the console uses one; so is what \<^verbatim>\<open>load\<close> loads.
\<close>

datatype dtl_error =
    No_tag string | No_closing "string list" | Empty_name | Mixed_and_or | Bad_for string | Reads_undefined
  | Not_callable_on string | Left_out string

section \<open>Strings\<close>

definition is_word :: "char \<Rightarrow> bool" where
  "is_word c \<longleftrightarrow> is_digit c \<or> (of_char c :: nat) \<in> {65..90} \<or> (of_char c :: nat) \<in> {97..122} \<or> c = CHR ''_''"

definition is_path :: "char \<Rightarrow> bool" where
  "is_path c \<longleftrightarrow> is_word c \<or> c = CHR ''.''"

definition newline :: "char \<Rightarrow> bool" where
  "newline c \<longleftrightarrow> (of_char c :: nat) \<in> {10, 13}"

definition quote :: char where "quote = CHR 0x27"

definition dquote :: char where "dquote = CHR 0x22"

definition backslash :: char where "backslash = CHR 0x5C"

fun strip_prefix :: "string \<Rightarrow> string \<Rightarrow> string option" where
  "strip_prefix [] s = Some s"
| "strip_prefix (p # ps) [] = None"
| "strip_prefix (p # ps) (c # s) = (if p = c then strip_prefix ps s else None)"

lemma strip_prefix_Some: "strip_prefix p s = Some r \<longleftrightarrow> s = p @ r"
  by (induction p s rule: strip_prefix.induct) auto

fun first_some :: "('a \<Rightarrow> 'b option) \<Rightarrow> 'a list \<Rightarrow> 'b option" where
  "first_some f [] = None"
| "first_some f (x # xs) = (case f x of Some y \<Rightarrow> Some y | None \<Rightarrow> first_some f xs)"

lemma first_some_in: "first_some f xs = Some y \<Longrightarrow> \<exists>x \<in> set xs. f x = Some y"
  by (induction xs) (auto split: option.splits)

text \<open>Where a separator stands first, with what is before and after it; and \<^verbatim>\<open>split\<close>.\<close>

fun find_sub :: "string \<Rightarrow> string \<Rightarrow> (string \<times> string) option" where
  "find_sub sep s = (case strip_prefix sep s of
     Some r \<Rightarrow> Some ([], r)
   | None \<Rightarrow> (case s of [] \<Rightarrow> None | c # cs \<Rightarrow> map_option (\<lambda>(a, r). (c # a, r)) (find_sub sep cs)))"

declare find_sub.simps [simp del]

lemma find_sub_Some: "find_sub sep s = Some (a, r) \<Longrightarrow> s = a @ sep @ r"
proof (induction sep s arbitrary: a rule: find_sub.induct)
  case (1 sep s)
  then show ?case
    by (subst (asm) (2) find_sub.simps) (auto simp: strip_prefix_Some split: option.splits list.splits)
qed

function split_str :: "string \<Rightarrow> string \<Rightarrow> string list" where
  "split_str sep s = (if sep = [] then [s] else (case find_sub sep s of
     None \<Rightarrow> [s]
   | Some (a, r) \<Rightarrow> a # split_str sep r))"
  by pat_completeness auto
termination by (relation "measure (\<lambda>(sep, s). length s)") (auto dest: find_sub_Some)

declare split_str.simps [simp del]

text \<open>\<^verbatim>\<open>split(/\s+/)\<close>.\<close>

function split_ws :: "string \<Rightarrow> string list" where
  "split_ws s = takeWhile (\<lambda>c. \<not> js_space c) s #
     (case dropWhile (\<lambda>c. \<not> js_space c) s of
        [] \<Rightarrow> []
      | c # r \<Rightarrow> split_ws (dropWhile js_space r))"
  by pat_completeness auto
termination
proof (relation "measure length", goal_cases)
  case (2 s c r)
  then have "length (c # r) \<le> length s" by (metis length_dropWhile_le)
  moreover have "length (dropWhile js_space r) \<le> length r" by (rule length_dropWhile_le)
  ultimately show ?case by simp
qed simp

declare split_ws.simps [simp del]

section \<open>Tokens of a template\<close>

datatype token = Plain string | Var string | Block string

text \<open>\<open>lazy_at close s\<close>: the shortest text of at least one character, without a line break, that is
  followed by white space and \<open>close\<close>.\<close>

fun lazy_at :: "string \<Rightarrow> string \<Rightarrow> (string \<times> string) option" where
  "lazy_at close [] = None"
| "lazy_at close (c # s) =
     (if newline c then None
      else (case strip_prefix close (dropWhile js_space s) of
         Some r \<Rightarrow> Some ([c], r)
       | None \<Rightarrow> map_option (\<lambda>(a, r). (c # a, r)) (lazy_at close s)))"

text \<open>White space is taken greedily and given back one at a time.\<close>

definition spaces_down :: "string \<Rightarrow> string list" where
  "spaces_down s = map (\<lambda>k. drop k s) (rev [0..<Suc (length (takeWhile js_space s))])"

definition match_var :: "string \<Rightarrow> (token list \<times> string) option" where
  "match_var s = map_option (\<lambda>(a, r). ([Var a], r)) (first_some (lazy_at ''}}'') (spaces_down s))"

definition match_tag_at :: "string \<Rightarrow> (token list \<times> string) option" where
  "match_tag_at s =
     (case (case strip_prefix ''load'' s of
              Some r \<Rightarrow> map_option (\<lambda>(a, r). ([], r)) (first_some (lazy_at ''%}'') (spaces_down r))
            | None \<Rightarrow> None) of
        Some x \<Rightarrow> Some x
      | None \<Rightarrow> map_option (\<lambda>(a, r). ([Block a], r)) (lazy_at ''%}'' s))"

definition match_delim :: "string \<Rightarrow> (token list \<times> string) option" where
  "match_delim s =
     (case (case strip_prefix ''{{'' s of Some r \<Rightarrow> match_var r | None \<Rightarrow> None) of
        Some x \<Rightarrow> Some x
      | None \<Rightarrow> (case strip_prefix ''{%'' s of
            Some r \<Rightarrow> first_some match_tag_at (spaces_down r)
          | None \<Rightarrow> None))"

lemma spaces_down_short: "t \<in> set (spaces_down s) \<Longrightarrow> length t \<le> length s"
  by (auto simp: spaces_down_def)

lemma lazy_at_short: "lazy_at close s = Some (a, r) \<Longrightarrow> length r < length s"
proof (induction close s arbitrary: a rule: lazy_at.induct)
  case (2 close c s)
  have "length (dropWhile js_space s) \<le> length s" by (rule length_dropWhile_le)
  with 2 show ?case by (force simp: strip_prefix_Some split: if_splits option.splits)
qed simp

lemma match_var_short: "match_var s = Some (t, r) \<Longrightarrow> length r < length s"
  unfolding match_var_def
  by (auto dest!: first_some_in lazy_at_short spaces_down_short intro: less_le_trans)

lemma match_tag_short: "match_tag_at s = Some (t, r) \<Longrightarrow> length r < length s"
  unfolding match_tag_at_def
  by (auto dest!: first_some_in lazy_at_short spaces_down_short simp: strip_prefix_Some simp del: lazy_at.simps
      split: option.splits)

lemma match_delim_short: "match_delim s = Some (t, r) \<Longrightarrow> length r < length s"
  unfolding match_delim_def
  by (auto dest!: first_some_in match_tag_short match_var_short spaces_down_short simp: strip_prefix_Some
      split: option.splits)

definition plain_token :: "string \<Rightarrow> token list" where
  "plain_token s = (if s = [] then [] else [Plain s])"

function tokens_from :: "string \<Rightarrow> string \<Rightarrow> token list" where
  "tokens_from acc [] = plain_token acc"
| "tokens_from acc (c # s) =
     (case match_delim (c # s) of
        Some (ts, r) \<Rightarrow> plain_token acc @ ts @ tokens_from [] r
      | None \<Rightarrow> tokens_from (acc @ [c]) s)"
  by pat_completeness auto
termination
  by (relation "measure (\<lambda>(acc, s). length s)") (auto dest: match_delim_short)

definition tokenize :: "string \<Rightarrow> token list" where
  "tokenize s = tokens_from [] s"

section \<open>Variables\<close>

text \<open>A variable is a path (or a text in double quotes) and filters, each with an argument that is a path
  or a text.\<close>

datatype farg = No_arg | Path_arg string | Text_arg string

record filt =
  fkey :: "string option"
  ffilters :: "(string \<times> farg) list"

fun quoted :: "char \<Rightarrow> string \<Rightarrow> (string \<times> string) option" where
  "quoted q [] = None"
| "quoted q (c # s) =
     (if c = q then Some ([], s)
      else if c = backslash then
        (case s of [] \<Rightarrow> None
         | d # t \<Rightarrow> if newline d then None else map_option (\<lambda>(a, r). (c # d # a, r)) (quoted q t))
      else map_option (\<lambda>(a, r). (c # a, r)) (quoted q s))"

lemma quoted_short: "quoted q s = Some (a, r) \<Longrightarrow> length r < length s"
  by (induction q s arbitrary: a rule: quoted.induct) (force split: if_splits list.splits)+

text \<open>In \<^verbatim>\<open>_("...")\<close> an escape is followed by exactly one more character.\<close>

fun escapes :: "string \<Rightarrow> string \<times> string" where
  "escapes (b # d # e # s) =
     (if b = backslash \<and> \<not> newline d \<and> e \<noteq> backslash \<and> e \<noteq> dquote
      then (let (a, r) = escapes s in (b # d # e # a, r)) else ([], b # d # e # s))"
| "escapes s = ([], s)"

lemma escapes_short: "escapes s = (a, r) \<Longrightarrow> length r \<le> length s"
  by (induction s arbitrary: a r rule: escapes.induct) (auto split: if_splits prod.splits)

definition gettext :: "string \<Rightarrow> (string \<times> string) option" where
  "gettext s = (case strip_prefix [CHR ''_'', CHR ''('', dquote] s of
     None \<Rightarrow> None
   | Some r \<Rightarrow>
       (let p = takeWhile (\<lambda>c. c \<noteq> backslash \<and> c \<noteq> dquote) r;
            (a, r1) = escapes (dropWhile (\<lambda>c. c \<noteq> backslash \<and> c \<noteq> dquote) r)
        in (case strip_prefix [dquote, CHR '')''] r1 of Some r2 \<Rightarrow> Some (p @ a, r2) | None \<Rightarrow> None)))"

lemma gettext_short: "gettext s = Some (a, r) \<Longrightarrow> length r < length s"
proof -
  have "length (dropWhile P t) \<le> length t" for P and t :: string by (rule length_dropWhile_le)
  then show "gettext s = Some (a, r) \<Longrightarrow> ?thesis"
    unfolding gettext_def Let_def
    by (auto simp: strip_prefix_Some dest!: escapes_short split: option.splits prod.splits intro: le_less_trans)
      (metis add_Suc_right le_trans less_Suc_eq_le not_less_eq_eq le_imp_less_Suc Suc_leD Suc_n_not_le_n nat_le_linear)
qed

definition take_path :: "string \<Rightarrow> (string \<times> string) option" where
  "take_path s = (if takeWhile is_path s = [] then None else Some (takeWhile is_path s, dropWhile is_path s))"

definition unescape_in :: "char \<Rightarrow> string \<Rightarrow> string" where
  "unescape_in q s = join_with [q] (split_str [backslash, q] s)"

text \<open>An empty argument is as good as none.\<close>

definition text_arg :: "string \<Rightarrow> farg" where
  "text_arg s = (if s = [] then No_arg else Text_arg s)"

definition quoted_by :: "char \<Rightarrow> string \<Rightarrow> (string \<times> string) option" where
  "quoted_by q s = (case s of c # r \<Rightarrow> if c = q then quoted q r else None | [] \<Rightarrow> None)"

definition filter_arg :: "string \<Rightarrow> farg \<times> string" where
  "filter_arg s = (case s of
     [] \<Rightarrow> (No_arg, [])
   | c # r \<Rightarrow> if c \<noteq> CHR '':'' then (No_arg, s)
       else (case gettext r of
           Some (a, t) \<Rightarrow> (text_arg (unescape_in dquote a), t)
         | None \<Rightarrow> (case quoted_by dquote r of
             Some (a, t) \<Rightarrow> (text_arg (unescape_in dquote a), t)
           | None \<Rightarrow> (case take_path r of
               Some (a, t) \<Rightarrow> (Path_arg a, t)
             | None \<Rightarrow> (case quoted_by quote r of
                 Some (a, t) \<Rightarrow> (text_arg (unescape_in quote a), t)
               | None \<Rightarrow> (No_arg, s))))))"

lemma filter_arg_short: "length (snd (filter_arg s)) \<le> length s"
proof (cases s)
  case (Cons c r)
  have "gettext r = Some (a, t) \<Longrightarrow> length t \<le> length r" for a t using gettext_short by fastforce
  moreover have "quoted_by q r = Some (a, t) \<Longrightarrow> length t \<le> length r" for q a t
    using quoted_short by (fastforce simp: quoted_by_def split: list.splits if_splits)
  moreover have "take_path r = Some (a, t) \<Longrightarrow> length t \<le> length r" for a t
    by (auto simp: take_path_def length_dropWhile_le split: if_splits)
  ultimately show ?thesis using Cons
    by (auto simp: filter_arg_def le_SucI split: option.splits)
qed (simp add: filter_arg_def)

text \<open>Everything between the filters is passed over.\<close>

function scan_filters :: "string \<Rightarrow> (string \<times> farg) list" where
  "scan_filters [] = []"
| "scan_filters (c # s) =
     (let n = takeWhile is_word s
      in if c = CHR ''|'' \<and> n \<noteq> [] then (let (a, r) = filter_arg (dropWhile is_word s) in (n, a) # scan_filters r)
         else scan_filters s)"
  by pat_completeness auto
termination
proof (relation "measure length", goal_cases)
  case (2 c s n x a r)
  then have "length r \<le> length (dropWhile is_word s)" using filter_arg_short [of "dropWhile is_word s"] by (metis snd_conv)
  also have "\<dots> \<le> length s" by (rule length_dropWhile_le)
  finally show ?case by simp
qed auto

definition text_key :: "string \<Rightarrow> string option" where
  "text_key s = (if s = [] then None else Some ([dquote] @ s @ [dquote]))"

text \<open>The first match decides on the key: a text, a path, or none, when all filters are ignored.\<close>

definition filter_key :: "string \<Rightarrow> string option \<times> string" where
  "filter_key s = (case gettext s of
     Some (a, t) \<Rightarrow> (text_key a, t)
   | None \<Rightarrow> (case quoted_by dquote s of
       Some (a, t) \<Rightarrow> (text_key a, t)
     | None \<Rightarrow> (case take_path s of
         Some (a, t) \<Rightarrow> (Some a, t)
       | None \<Rightarrow> (case quoted_by quote s of
           Some (a, t) \<Rightarrow> (text_key a, t)
         | None \<Rightarrow> (None, s)))))"

definition registered_filters :: "string list" where
  "registered_filters =
     [''date'', ''time'', ''timesince'', ''timeuntil'', ''linebreaks'', ''linebreaksbr'', ''removetags'', ''striptags'',
      ''add'', ''get_digit'', ''dictsort'', ''dictsortreversed'', ''first'', ''join'', ''length'', ''length_is'', ''random'',
      ''slice'', ''unordered_list'', ''default'', ''default_if_none'', ''divisibleby'', ''yesno'', ''filesizeformat'',
      ''pluralize'', ''phone2numeric'', ''pprint'', ''addslashes'', ''capfirst'', ''center'', ''cut'', ''fix_ampersands'',
      ''floatformat'', ''iriencode'', ''linenumbers'', ''ljust'', ''lower'', ''make_list'', ''rjust'', ''slugify'',
      ''stringformat'', ''title'', ''truncatewords'', ''truncatewords_html'', ''upper'', ''urlencode'', ''urlize'',
      ''urlizetrunc'', ''wordcount'', ''wordwrap'', ''escape'', ''safe'']"

definition lower :: "string \<Rightarrow> string" where
  "lower = map (\<lambda>c. if (of_char c :: nat) \<in> {65..90} then char_of ((of_char c :: nat) + 32) else c)"

text \<open>A name that every object inherits is taken for one in the cache, without a key.\<close>

definition parse_filter :: "string \<Rightarrow> dtl_error + filt" where
  "parse_filter token =
     (if token = [] then Inl Empty_name
      else if token \<in> set proto_names then Inr \<lparr>fkey = None, ffilters = []\<rparr>
      else (case filter_key token of
          (None, r) \<Rightarrow> Inr \<lparr>fkey = None, ffilters = []\<rparr>
        | (Some k, r) \<Rightarrow>
            (case find (\<lambda>(n, a). lower n \<notin> set registered_filters) (scan_filters r) of
               Some (n, a) \<Rightarrow> Inl (No_tag n)
             | None \<Rightarrow> Inr \<lparr>fkey = Some k, ffilters = map (\<lambda>(n, a). (lower n, a)) (scan_filters r)\<rparr>)))"


section \<open>Nodes\<close>

datatype conn = All_of | Any_of

datatype dnode =
    Text_node string
  | Var_node filt
  | If_node "(bool \<times> filt) list" "dnode list" "dnode list option" conn
  | For_node "string list" filt bool "dnode list"

definition registered_tags :: "string list" where
  "registered_tags =
     [''now'', ''if'', ''for'', ''ifequal'', ''ifnotequal'', ''extends'', ''block'', ''include'', ''load'', ''ssi'', ''comment'',
      ''debug'', ''filter'', ''firstof'', ''spaceless'', ''templatetag'', ''widthratio'', ''with'', ''cycle'', ''ifchanged'',
      ''regroup'']"

text \<open>The condition of an \<^verbatim>\<open>if\<close>: the words after the tag, cut at \<^verbatim>\<open>and\<close>, or at \<^verbatim>\<open>or\<close> when there is none.
  The loop over the parts ends at an empty one.\<close>

fun bools_of :: "string list \<Rightarrow> dtl_error + (bool \<times> filt) list" where
  "bools_of [] = Inr []"
| "bools_of (p # ps) =
     (if p = [] then Inr []
      else (let (n, q) = (case strip_prefix ''not '' p of Some q \<Rightarrow> (True, q) | None \<Rightarrow> (False, p))
        in (case parse_filter q of
            Inl e \<Rightarrow> Inl e
          | Inr f \<Rightarrow> (case bools_of ps of Inl e \<Rightarrow> Inl e | Inr bs \<Rightarrow> Inr ((n, f) # bs)))))"

definition parse_cond :: "string \<Rightarrow> dtl_error + (bool \<times> filt) list \<times> conn" where
  "parse_cond contents =
     (let t = join_with '' '' (tl (split_ws contents));
          ands = split_str '' and '' t
      in if length ands = 1
         then map_sum id (\<lambda>bs. (bs, Any_of)) (bools_of (split_str '' or '' t))
         else if list_ex (\<lambda>p. find_sub '' or '' p \<noteq> None) ands then Inl Mixed_and_or
         else map_sum id (\<lambda>bs. (bs, All_of)) (bools_of ands))"

text \<open>The head of a \<^verbatim>\<open>for\<close>: the names, what is looped over, and whether it is reversed.\<close>

definition trim_blanks :: "string \<Rightarrow> string" where
  "trim_blanks s = rev (dropWhile (\<lambda>c. c = CHR '' '') (rev (dropWhile (\<lambda>c. c = CHR '' '') s)))"

definition parse_for :: "string \<Rightarrow> dtl_error + string list \<times> string \<times> bool" where
  "parse_for contents =
     (let parts = split_ws contents
      in if length parts < 4 then Inl (Bad_for contents)
         else (let reversed = (last parts = ''reversed'');
                   i = length parts - (if reversed then 3 else 2);
                   names = map trim_blanks (split_on CHR '','' (join_with '' '' (take (i - 1) (tl parts))))
               in if parts ! i \<noteq> ''in'' then Inl (Bad_for contents)
                  else if list_ex (\<lambda>n. n = [] \<or> List.member n CHR '' '') names then Inl (Bad_for contents)
                  else Inr (names, parts ! (i + 1), reversed)))"

text \<open>A block that ends the nodes is left for the caller; a name that every object inherits ends them too.\<close>

definition ends_at :: "string list \<Rightarrow> string \<Rightarrow> bool" where
  "ends_at stop b \<longleftrightarrow> b \<in> set stop \<or> b \<in> set proto_names"

function parse :: "string list \<Rightarrow> token list \<Rightarrow> dtl_error + dnode list \<times> token list" where
  "parse stop [] = (if stop \<noteq> [] then Inl (No_closing stop) else Inr ([], []))"
| "parse stop (Plain s # ts) =
     (case parse stop ts of Inl e \<Rightarrow> Inl e | Inr (ns, r) \<Rightarrow> Inr (Text_node s # ns, r))"
| "parse stop (Var v # ts) =
     (case parse_filter v of
        Inl e \<Rightarrow> Inl e
      | Inr f \<Rightarrow> (case parse stop ts of Inl e \<Rightarrow> Inl e | Inr (ns, r) \<Rightarrow> Inr (Var_node f # ns, r)))"
| "parse stop (Block b # ts) =
     (if ends_at stop b then Inr ([], Block b # ts)
      else (let cmd = lower (hd (split_ws b))
        in if cmd = ''if'' then
             (case parse_cond (js_trim b) of
                Inl e \<Rightarrow> Inl e
              | Inr (bs, conn) \<Rightarrow>
                  (case parse [''else'', ''endif''] ts of
                     Inl e \<Rightarrow> Inl e
                   | Inr (trues, r) \<Rightarrow>
                       (case r of
                          Block x # r1 \<Rightarrow>
                            (if js_trim x = ''else'' then
                               (case parse [''endif''] r1 of
                                  Inl e \<Rightarrow> Inl e
                                | Inr (falses, r2) \<Rightarrow>
                                    (case parse stop (tl r2) of
                                       Inl e \<Rightarrow> Inl e
                                     | Inr (ns, r3) \<Rightarrow> Inr (If_node bs trues (Some falses) conn # ns, r3)))
                             else (case parse stop r1 of
                                 Inl e \<Rightarrow> Inl e
                               | Inr (ns, r3) \<Rightarrow> Inr (If_node bs trues None conn # ns, r3)))
                        | _ \<Rightarrow> Inl Reads_undefined)))
           else if cmd = ''for'' then
             (case parse_for (js_trim b) of
                Inl e \<Rightarrow> Inl e
              | Inr (names, loop, reversed) \<Rightarrow>
                  (case parse [''endfor''] ts of
                     Inl e \<Rightarrow> Inl e
                   | Inr (body, r) \<Rightarrow>
                       (case parse_filter loop of
                          Inl e \<Rightarrow> Inl e
                        | Inr f \<Rightarrow>
                            (case parse stop (tl r) of
                               Inl e \<Rightarrow> Inl e
                             | Inr (ns, r3) \<Rightarrow> Inr (For_node names f reversed body # ns, r3)))))
           else if cmd \<in> set registered_tags then Inl (Left_out cmd)
           else Inl (No_tag cmd)))"
  by pat_completeness auto

lemma parse_rest: "parse_dom (stop, ts) \<Longrightarrow> parse stop ts = Inr (ns, r) \<Longrightarrow> length r \<le> length ts"
proof (induction stop ts arbitrary: ns r rule: parse.pinduct)
  case (1 stop)
  then show ?case by (simp add: parse.psimps split: if_splits)
next
  case (2 stop s ts)
  then show ?case by (force simp: parse.psimps split: sum.splits)
next
  case (3 stop v ts)
  then show ?case by (force simp: parse.psimps split: sum.splits)
next
  case (4 stop b ts)
  note ps = parse.psimps(4) [OF 4(1)]
  let ?cmd = "lower (hd (split_ws b))"
  show ?case
  proof (cases "ends_at stop b")
    case True
    with 4 ps show ?thesis by simp
  next
    case nf: False
    consider "?cmd = ''if''" | "?cmd \<noteq> ''if''" "?cmd = ''for''"
      using 4(8) ps nf by (auto simp: Let_def split: if_splits)
    then show ?thesis
    proof cases
      case 1
      with 4(8) ps nf obtain bs conn trues x r1 where
        c: "parse_cond (js_trim b) = Inr (bs, conn)" "parse [''else'', ''endif''] ts = Inr (trues, Block x # r1)"
        by (auto simp: Let_def split: sum.splits prod.splits list.splits token.splits)
      note l = 4(2) [OF nf refl 1 c(1) refl c(2)]
      show ?thesis
      proof (cases "js_trim x = ''else''")
        case True
        with 4(8) ps nf 1 c obtain falses r2 ns' where
          e: "parse [''endif''] r1 = Inr (falses, r2)" "parse stop (tl r2) = Inr (ns', r)"
          by (auto simp: Let_def split: sum.splits prod.splits)
        note 4(3) [OF nf refl 1 c(1) refl c(2) refl refl refl True e(1)]
          and 4(4) [OF nf refl 1 c(1) refl c(2) refl refl refl True e(1) refl e(2)]
        with l show ?thesis by simp
      next
        case False
        with 4(8) ps nf 1 c obtain ns' where e: "parse stop r1 = Inr (ns', r)"
          by (auto simp: Let_def split: sum.splits prod.splits)
        note 4(5) [OF nf refl 1 c(1) refl c(2) refl refl refl False e]
        with l show ?thesis by simp
      qed
    next
      case 2
      with 4(8) ps nf obtain names loop reversed body r1 f ns' where
        c: "parse_for (js_trim b) = Inr (names, loop, reversed)" "parse [''endfor''] ts = Inr (body, r1)"
        and e: "parse_filter loop = Inr f" "parse stop (tl r1) = Inr (ns', r)"
        by (auto simp: Let_def split: sum.splits prod.splits)
      note 4(6) [OF nf refl 2 c(1) refl refl c(2)]
        and 4(7) [OF nf refl 2 c(1) refl refl c(2) refl e]
      then show ?thesis by simp
    qed
  qed
qed

termination parse
  by (relation "measure (\<lambda>(stop, ts). length ts)") (auto dest!: parse_rest)

declare parse.simps [simp del]

end
