(* ===== verification/DtlRender.thy ===== *)
theory DtlRender
  imports Dtl "HOL-Library.AList"
begin

text \<open>
  Rendering (\<^verbatim>\<open>dojox/dtl/_base\<close>, \<^verbatim>\<open>dojox/dtl/tag/logic\<close>): values, contexts, the reading of a path, the
  filters, and the text a node gives. A template reads data the server sent as JSON, so values are what
  JSON has, texts that are marked safe, and functions (the widget's methods). Left out, as an error of
  their own, are calls of methods of the data and of the language's prototypes, numbers that are not
  whole, and loops over several names at once; a widget's getter does not exist yet when it renders. The
  methods of a context are apart from its names: in the code a loop variable named \<^verbatim>\<open>get\<close>, \<^verbatim>\<open>push\<close> or \<^verbatim>\<open>pop\<close>
  overwrites one, which no template of the console does.
\<close>

section \<open>Values\<close>

datatype dval =
    VUndef | VNull | VBool bool | VNum int | VText string | VSafe string
  | VList "dval list" | VObj "(string \<times> dval) list" | VFun

fun truthy :: "dval \<Rightarrow> bool" where
  "truthy VUndef = False"
| "truthy VNull = False"
| "truthy (VBool b) = b"
| "truthy (VNum n) = (n \<noteq> 0)"
| "truthy (VText s) = (s \<noteq> [])"
| "truthy _ = True"

fun to_text :: "dval \<Rightarrow> string" where
  "to_text VUndef = ''undefined''"
| "to_text VNull = ''null''"
| "to_text (VBool b) = (if b then ''true'' else ''false'')"
| "to_text (VNum n) = int_str n"
| "to_text (VText s) = s"
| "to_text (VSafe s) = s"
| "to_text (VList vs) = join_with '','' (map (\<lambda>v. if v = VUndef \<or> v = VNull then [] else to_text v) vs)"
| "to_text (VObj fs) = ''[object Object]''"
| "to_text VFun = ''function''"

text \<open>A key that is an index, written as the language writes it.\<close>

definition index_of :: "string \<Rightarrow> nat option" where
  "index_of k = (if list_all is_digit k \<and> nat_str (digits_val 0 k) = k then Some (digits_val 0 k) else None)"

definition inherits :: "string \<Rightarrow> dval" where
  "inherits k = (if k \<in> set proto_names then VFun else VUndef)"

definition elem_of :: "'a list \<Rightarrow> ('a \<Rightarrow> dval) \<Rightarrow> string \<Rightarrow> dval" where
  "elem_of xs f k = (if k = ''length'' then VNum (int (length xs))
     else (case index_of k of Some i \<Rightarrow> if i < length xs then f (xs ! i) else VUndef | None \<Rightarrow> inherits k))"

fun prop_of :: "dval \<Rightarrow> string \<Rightarrow> dval" where
  "prop_of (VObj fs) k = (case map_of fs k of Some v \<Rightarrow> v | None \<Rightarrow> inherits k)"
| "prop_of (VList vs) k = elem_of vs (\<lambda>v. v) k"
| "prop_of (VText s) k = elem_of s (\<lambda>c. VText [c]) k"
| "prop_of (VSafe s) k = (if k = ''safe'' then VBool True else elem_of s (\<lambda>c. VText [c]) k)"
| "prop_of _ k = inherits k"

section \<open>Contexts\<close>

text \<open>A context inherits from the one it was pushed on: a list of layers, the newest first. The widget's
  fields are the last layer; below are the methods of contexts.\<close>

type_synonym layer = "(string \<times> dval) list"

type_synonym ctx = "layer list"

definition ctx_names :: "string list" where
  "ctx_names = [''push'', ''pop'', ''get'', ''_normalize'', ''update'']"

fun ctx_prop :: "ctx \<Rightarrow> string \<Rightarrow> dval" where
  "ctx_prop [] k = (if k \<in> set ctx_names then VFun else inherits k)"
| "ctx_prop (l # ls) k = (case map_of l k of Some v \<Rightarrow> v | None \<Rightarrow> ctx_prop ls k)"

definition ctx_push :: "ctx \<Rightarrow> ctx" where
  "ctx_push c = [] # c"

fun ctx_set :: "string \<Rightarrow> dval \<Rightarrow> ctx \<Rightarrow> ctx" where
  "ctx_set k v [] = [[(k, v)]]"
| "ctx_set k v (l # ls) = AList.update k v l # ls"

fun ctx_unset :: "string \<Rightarrow> ctx \<Rightarrow> ctx" where
  "ctx_unset k [] = []"
| "ctx_unset k (l # ls) = AList.delete k l # ls"

text \<open>What only reads a context sees the properties.\<close>

type_synonym env = "string \<Rightarrow> dval"

definition ctx_get :: "env \<Rightarrow> string \<Rightarrow> dval \<Rightarrow> dval" where
  "ctx_get c k other = (if c k \<noteq> VUndef then c k else other)"

section \<open>Reading a path\<close>

definition items_of :: "dval \<Rightarrow> dtl_error + dval" where
  "items_of v = (case v of
     VObj fs \<Rightarrow> Inr (VList (map (\<lambda>(k, x). VList [VText k, x]) fs))
   | VList vs \<Rightarrow> Inr (VList (map (\<lambda>(i, x). VList [VText (nat_str i), x]) (zip [0..<length vs] vs)))
   | _ \<Rightarrow> Inl (Left_out ''items''))"

definition is_object :: "dval \<Rightarrow> bool" where
  "is_object v = (case v of VNull \<Rightarrow> True | VList _ \<Rightarrow> True | VObj _ \<Rightarrow> True | VSafe _ \<Rightarrow> True | VFun \<Rightarrow> True | _ \<Rightarrow> False)"

fun walk_path :: "dval \<Rightarrow> string list \<Rightarrow> dtl_error + dval" where
  "walk_path cur [] = Inr cur"
| "walk_path cur (p # ps) =
     (if \<not> truthy cur then Inr (VText [])
      else if is_object cur \<and> p = ''items'' \<and> prop_of cur p = VUndef
      then (case items_of cur of Inl e \<Rightarrow> Inl e | Inr v \<Rightarrow> walk_path v ps)
      else (case prop_of cur p of
          VUndef \<Rightarrow> Inr VUndef
        | VFun \<Rightarrow> Inl (Left_out p)
        | v \<Rightarrow> walk_path v ps))"

definition resolve_path :: "string \<Rightarrow> env \<Rightarrow> dtl_error + dval" where
  "resolve_path path c =
     (if path \<noteq> [] \<and> is_digit (hd path) then
        (if List.member path CHR ''.'' then Inl (Left_out path) else Inr (VNum (int (digits_val 0 (takeWhile is_digit path)))))
      else if path \<noteq> [] \<and> hd path = dquote \<and> last path = dquote then Inr (VText (butlast (tl path)))
      else if path = ''true'' then Inr (VBool True)
      else if path = ''false'' then Inr (VBool False)
      else if path = ''null'' \<or> path = ''None'' then Inr VNull
      else (let parts = split_on CHR ''.'' path; v = ctx_get c (hd parts) VUndef
        in walk_path (if v = VFun then VText [] else v) (tl parts)))"

section \<open>Filters\<close>

fun replace_char :: "char \<Rightarrow> string \<Rightarrow> string \<Rightarrow> string" where
  "replace_char c r [] = []"
| "replace_char c r (x # s) = (if x = c then r else [x]) @ replace_char c r s"

definition escape_html :: "string \<Rightarrow> string" where
  "escape_html s =
     replace_char quote ''&#39;'' (replace_char dquote ''&quot;'' (replace_char CHR ''>'' ''&gt;''
       (replace_char CHR ''<'' ''&lt;'' (replace_char CHR ''&'' ''&amp;'' s))))"

text \<open>The value of an argument is a text, or what its path reads; without one it is undefined.\<close>

definition arg_value :: "farg \<Rightarrow> env \<Rightarrow> dtl_error + dval" where
  "arg_value a c = (case a of No_arg \<Rightarrow> Inr VUndef | Text_arg s \<Rightarrow> Inr (VText s) | Path_arg p \<Rightarrow> resolve_path p c)"

definition or_else :: "dval \<Rightarrow> dval \<Rightarrow> dval" where
  "or_else v w = (if truthy v then v else w)"

definition upper :: "string \<Rightarrow> string" where
  "upper = map (\<lambda>c. if (of_char c :: nat) \<in> {97..122} then char_of ((of_char c :: nat) - 32) else c)"

definition filter_first :: "dval \<Rightarrow> dtl_error + dval" where
  "filter_first v = (if v = VUndef \<or> v = VNull then Inl Reads_undefined
     else Inr (if truthy (prop_of v ''length'') then prop_of v ''0'' else VText []))"

definition filter_join :: "dval \<Rightarrow> dval \<Rightarrow> dtl_error + dval" where
  "filter_join v a = (case v of
     VUndef \<Rightarrow> Inl Reads_undefined
   | VNull \<Rightarrow> Inl Reads_undefined
   | VList vs \<Rightarrow> Inr (VText (join_with (to_text (or_else a (VText '','')))
       (map (\<lambda>v. if v = VUndef \<or> v = VNull then [] else to_text v) vs)))
   | _ \<Rightarrow> if prop_of v ''join'' = VUndef then Inl (Not_callable_on ''join'') else Inl (Left_out ''join''))"

text \<open>What is called on a text.\<close>

definition on_text :: "(string \<Rightarrow> dval) \<Rightarrow> string \<Rightarrow> dval \<Rightarrow> dtl_error + dval" where
  "on_text f m v = (case v of
     VText s \<Rightarrow> Inr (f s)
   | VSafe s \<Rightarrow> Inr (f s)
   | VUndef \<Rightarrow> Inl Reads_undefined
   | VNull \<Rightarrow> Inl Reads_undefined
   | _ \<Rightarrow> Inl (Not_callable_on m))"

definition filter_safe :: "dval \<Rightarrow> dtl_error + dval" where
  "filter_safe v = (case v of
     VText s \<Rightarrow> Inr (VSafe s)
   | VNull \<Rightarrow> Inl Reads_undefined
   | VList _ \<Rightarrow> Inl (Left_out ''safe'')
   | VObj _ \<Rightarrow> Inl (Left_out ''safe'')
   | _ \<Rightarrow> Inr v)"

definition apply_filter :: "string \<Rightarrow> dval \<Rightarrow> dval \<Rightarrow> dtl_error + dval" where
  "apply_filter n v a =
     (if n = ''default'' then Inr (or_else v (or_else a (VText [])))
      else if n = ''default_if_none'' then Inr (if v = VNull then or_else a (VText []) else or_else v (VText []))
      else if n = ''first'' then filter_first v
      else if n = ''join'' then filter_join v a
      else if n = ''lower'' then Inr (VText (lower (to_text v)))
      else if n = ''upper'' then on_text (\<lambda>s. VText (upper s)) ''toUpperCase'' v
      else if n = ''escape'' then on_text (\<lambda>s. VSafe (escape_html s)) ''replace'' v
      else if n = ''safe'' then filter_safe v
      else Inl (Left_out n))"

fun apply_filters :: "(string \<times> farg) list \<Rightarrow> dval \<Rightarrow> env \<Rightarrow> dtl_error + dval" where
  "apply_filters [] v c = Inr v"
| "apply_filters ((n, a) # fs) v c =
     (case arg_value a c of
        Inl e \<Rightarrow> Inl e
      | Inr x \<Rightarrow> (case apply_filter n v x of Inl e \<Rightarrow> Inl e | Inr w \<Rightarrow> apply_filters fs w c))"

definition resolve_filt :: "filt \<Rightarrow> env \<Rightarrow> dtl_error + dval" where
  "resolve_filt f c = (case fkey f of
     None \<Rightarrow> Inr (VText [])
   | Some k \<Rightarrow> (case resolve_path k c of Inl e \<Rightarrow> Inl e | Inr v \<Rightarrow> apply_filters (ffilters f) v c))"

section \<open>Rendering\<close>

text \<open>A variable that is undefined or null has no property \<^verbatim>\<open>safe\<close> to ask for.\<close>

definition render_var :: "dval \<Rightarrow> dtl_error + string" where
  "render_var v = (case v of
     VUndef \<Rightarrow> Inl Reads_undefined
   | VNull \<Rightarrow> Inl Reads_undefined
   | _ \<Rightarrow> Inr (if truthy (prop_of v ''safe'') then to_text v else escape_html (to_text v)))"

text \<open>\<^verbatim>\<open>value == true\<close> and \<^verbatim>\<open>value == false\<close>: both sides become numbers. Texts that may be numbers in another
  form than signed decimals are left out.\<close>

definition text_num :: "string \<Rightarrow> dtl_error + int option" where
  "text_num s =
     (let t = js_trim s
      in if t = [] then Inr (Some 0)
         else if list_all is_digit t then Inr (Some (int (digits_val 0 t)))
         else if hd t = CHR ''-'' \<and> tl t \<noteq> [] \<and> list_all is_digit (tl t) then Inr (Some (- int (digits_val 0 (tl t))))
         else if hd t = CHR ''+'' \<and> tl t \<noteq> [] \<and> list_all is_digit (tl t) then Inr (Some (int (digits_val 0 (tl t))))
         else if list_ex is_digit t then Inl (Left_out t)
         else Inr None)"

definition equals_bool :: "dval \<Rightarrow> bool \<Rightarrow> dtl_error + bool" where
  "equals_bool v b = (case v of
     VUndef \<Rightarrow> Inr False
   | VNull \<Rightarrow> Inr False
   | VBool x \<Rightarrow> Inr (x = b)
   | VNum n \<Rightarrow> Inr (n = (if b then 1 else 0))
   | VFun \<Rightarrow> Inr False
   | VObj _ \<Rightarrow> Inr False
   | v \<Rightarrow> map_sum id (\<lambda>n. n = Some (if b then 1 else 0)) (text_num (to_text v)))"

text \<open>Whether the first branch is taken. With \<^verbatim>\<open>or\<close> one of the conditions has to hold, with \<^verbatim>\<open>and\<close> none may
  equal its negation.\<close>

fun test_any :: "(bool \<times> filt) list \<Rightarrow> env \<Rightarrow> dtl_error + bool" where
  "test_any [] c = Inr False"
| "test_any ((n, f) # bs) c =
     (case resolve_filt f c of
        Inl e \<Rightarrow> Inl e
      | Inr v \<Rightarrow> if truthy v \<noteq> n then Inr True else test_any bs c)"

fun test_all :: "(bool \<times> filt) list \<Rightarrow> env \<Rightarrow> dtl_error + bool" where
  "test_all [] c = Inr True"
| "test_all ((n, f) # bs) c =
     (case resolve_filt f c of
        Inl e \<Rightarrow> Inl e
      | Inr v \<Rightarrow> (case equals_bool v n of
          Inl e \<Rightarrow> Inl e
        | Inr b \<Rightarrow> if b then Inr False else test_all bs c))"

definition test_cond :: "conn \<Rightarrow> (bool \<times> filt) list \<Rightarrow> env \<Rightarrow> dtl_error + bool" where
  "test_cond conn bs c = (case conn of Any_of \<Rightarrow> test_any bs c | All_of \<Rightarrow> test_all bs c)"

text \<open>What a loop goes through: a list, the values of an object, the characters of a text; other values have
  no length.\<close>

definition loop_items :: "bool \<Rightarrow> dval \<Rightarrow> dtl_error + dval list" where
  "loop_items reversed v =
     (case (if truthy v then v else VList []) of
        VList vs \<Rightarrow> Inr (if reversed then rev vs else vs)
      | VObj fs \<Rightarrow> if map_of fs ''length'' \<noteq> None then Inl (Left_out ''length'')
          else if reversed then Inl (Not_callable_on ''slice'') else Inr (map snd fs)
      | VText s \<Rightarrow> if reversed then Inl (Not_callable_on ''reverse'') else Inr (map (\<lambda>ch. VText [ch]) s)
      | VSafe s \<Rightarrow> Inl (Left_out ''for'')
      | _ \<Rightarrow> if reversed then Inl (Not_callable_on ''slice'') else Inr [])"

definition forloop :: "dval \<Rightarrow> nat \<Rightarrow> nat \<Rightarrow> dval" where
  "forloop parent j n = VObj
     [(''parentloop'', parent), (''counter0'', VNum (int j)), (''counter'', VNum (int j + 1)),
      (''revcounter0'', VNum (int n - int j - 1)), (''revcounter'', VNum (int n - int j)),
      (''first'', VBool (j = 0)), (''last'', VBool (j + 1 = n))]"

text \<open>A loop pushes a context when its names are taken, or inside another loop; otherwise it sets the names
  in the context it was given and deletes them afterwards.\<close>

definition names_taken :: "string list \<Rightarrow> env \<Rightarrow> bool" where
  "names_taken names c \<longleftrightarrow> list_ex (\<lambda>n. c n \<noteq> VUndef) names \<or> truthy (c ''forloop'')"

definition array_like :: "dval \<Rightarrow> bool" where
  "array_like v = (case v of VList _ \<Rightarrow> True | VObj fs \<Rightarrow> map_of fs ''length'' \<noteq> None | _ \<Rightarrow> False)"

function render_node :: "dnode \<Rightarrow> ctx \<Rightarrow> dtl_error + string \<times> ctx"
  and render_nodes :: "dnode list \<Rightarrow> ctx \<Rightarrow> dtl_error + string \<times> ctx"
  and render_loop :: "dnode list \<Rightarrow> string list \<Rightarrow> dval \<Rightarrow> nat \<Rightarrow> nat \<Rightarrow> dval list \<Rightarrow> ctx \<Rightarrow> dtl_error + string \<times> ctx" where
  "render_node (Text_node s) c = Inr (s, c)"
| "render_node (Var_node f) c =
     (case resolve_filt f (ctx_prop c) of
        Inl e \<Rightarrow> Inl e
      | Inr v \<Rightarrow> map_sum id (\<lambda>s. (s, c)) (render_var v))"
| "render_node (If_node bs trues falses conn) c =
     (case test_cond conn bs (ctx_prop c) of
        Inl e \<Rightarrow> Inl e
      | Inr b \<Rightarrow> if b then render_nodes trues c
          else (case falses of Some ns \<Rightarrow> render_nodes ns c | None \<Rightarrow> Inr ([], c)))"
| "render_node (For_node names f reversed body) c =
     (let dirty = names_taken names (ctx_prop c); c1 = (if dirty then ctx_push c else c)
      in (case resolve_filt f (ctx_prop c1) of
            Inl e \<Rightarrow> Inl e
          | Inr v \<Rightarrow> (case loop_items reversed v of
              Inl e \<Rightarrow> Inl e
            | Inr items \<Rightarrow>
                (let parent = ctx_get (ctx_prop c1) ''forloop'' (VObj []);
                     c2 = ctx_set ''forloop'' (VObj [(''parentloop'', parent)]) c1
                 in (case render_loop body names parent (length items) 0 items c2 of
                       Inl e \<Rightarrow> Inl e
                     | Inr (s, c3) \<Rightarrow>
                         Inr (s, if dirty then tl (ctx_unset ''forloop'' c3)
                                 else fold ctx_unset names (ctx_unset ''forloop'' c3)))))))"
| "render_nodes [] c = Inr ([], c)"
| "render_nodes (n # ns) c =
     (case render_node n c of
        Inl e \<Rightarrow> Inl e
      | Inr (s, c1) \<Rightarrow> (case render_nodes ns c1 of Inl e \<Rightarrow> Inl e | Inr (t, c2) \<Rightarrow> Inr (s @ t, c2)))"
| "render_loop body names parent n j [] c = Inr ([], c)"
| "render_loop body names parent n j (x # xs) c =
     (if 1 < length names \<and> array_like x then Inl (Left_out ''for'')
      else (case render_nodes body (ctx_set (hd names) x (ctx_set ''forloop'' (forloop parent j n) c)) of
          Inl e \<Rightarrow> Inl e
        | Inr (s, c1) \<Rightarrow> (case render_loop body names parent n (Suc j) xs c1 of
            Inl e \<Rightarrow> Inl e
          | Inr (t, c2) \<Rightarrow> Inr (s @ t, c2))))"
  by pat_completeness auto
termination
  by (relation "measures [\<lambda>x. case x of Inl (n, c) \<Rightarrow> size n
      | Inr y \<Rightarrow> (case y of Inl (ns, c) \<Rightarrow> size_list size ns
          | Inr (body, names, parent, n, j, xs, c) \<Rightarrow> size_list size body),
      \<lambda>x. case x of Inr (Inr (body, names, parent, n, j, xs, c)) \<Rightarrow> Suc (length xs) | _ \<Rightarrow> 0]") auto

text \<open>A template, parsed and rendered with the fields of a widget.\<close>

definition render_template :: "string \<Rightarrow> layer \<Rightarrow> dtl_error + string" where
  "render_template t widget =
     (case parse [] (tokenize t) of
        Inl e \<Rightarrow> Inl e
      | Inr (ns, r) \<Rightarrow> map_sum id fst (render_nodes ns [widget]))"

end
