(* ===== verification/DtlScope.thy ===== *)
theory DtlScope
  imports DtlRender
begin

text \<open>
  What templates mean. The reference renderer has no contexts that are pushed, set and cleaned up: a loop
  renders its body in an environment in which its name stands for the item. The renderer of the source
  gives the same text, or the same error, and leaves the context as it found it; so nothing a loop sets can
  be seen after it. On the reference renderer it is browser_text that data cannot add markup, and what the
  conditions of the console's templates really ask.
\<close>

section \<open>The reference renderer\<close>

function ref_node :: "dnode \<Rightarrow> env \<Rightarrow> dtl_error + string"
  and ref_nodes :: "dnode list \<Rightarrow> env \<Rightarrow> dtl_error + string"
  and ref_loop :: "dnode list \<Rightarrow> string \<Rightarrow> bool \<Rightarrow> dval \<Rightarrow> nat \<Rightarrow> nat \<Rightarrow> dval list \<Rightarrow> env \<Rightarrow> dtl_error + string" where
  "ref_node (Text_node s) \<rho> = Inr s"
| "ref_node (Var_node f) \<rho> = (case resolve_filt f \<rho> of Inl e \<Rightarrow> Inl e | Inr v \<Rightarrow> render_var v)"
| "ref_node (If_node bs trues falses conn) \<rho> =
     (case test_cond conn bs \<rho> of
        Inl e \<Rightarrow> Inl e
      | Inr b \<Rightarrow> if b then ref_nodes trues \<rho>
          else (case falses of Some ns \<Rightarrow> ref_nodes ns \<rho> | None \<Rightarrow> Inr []))"
| "ref_node (For_node names f reversed body) \<rho> =
     (case resolve_filt f \<rho> of
        Inl e \<Rightarrow> Inl e
      | Inr v \<Rightarrow> (case loop_items reversed v of
          Inl e \<Rightarrow> Inl e
        | Inr items \<Rightarrow>
            ref_loop body (hd names) (1 < length names) (ctx_get \<rho> ''forloop'' (VObj [])) (length items) 0 items \<rho>))"
| "ref_nodes [] \<rho> = Inr []"
| "ref_nodes (n # ns) \<rho> =
     (case ref_node n \<rho> of
        Inl e \<Rightarrow> Inl e
      | Inr s \<Rightarrow> (case ref_nodes ns \<rho> of Inl e \<Rightarrow> Inl e | Inr t \<Rightarrow> Inr (s @ t)))"
| "ref_loop body x several parent n j [] \<rho> = Inr []"
| "ref_loop body x several parent n j (v # vs) \<rho> =
     (if several \<and> array_like v then Inl (Left_out ''for'')
      else (case ref_nodes body (\<rho>(''forloop'' := forloop parent j n, x := v)) of
          Inl e \<Rightarrow> Inl e
        | Inr s \<Rightarrow> (case ref_loop body x several parent n (Suc j) vs \<rho> of Inl e \<Rightarrow> Inl e | Inr t \<Rightarrow> Inr (s @ t))))"
  by pat_completeness auto
termination
  by (relation "measures [\<lambda>x. case x of Inl (n, c) \<Rightarrow> size n
      | Inr y \<Rightarrow> (case y of Inl (ns, c) \<Rightarrow> size_list size ns
          | Inr (body, x, several, parent, n, j, xs, c) \<Rightarrow> size_list size body),
      \<lambda>x. case x of Inr (Inr (body, x, several, parent, n, j, xs, c)) \<Rightarrow> Suc (length xs) | _ \<Rightarrow> 0]") auto

section \<open>Data\<close>

text \<open>What JSON can hold; the fields of a widget are that or methods.\<close>

fun is_json :: "dval \<Rightarrow> bool" where
  "is_json VUndef = False"
| "is_json (VSafe s) = False"
| "is_json VFun = False"
| "is_json (VList vs) = (\<forall>v \<in> set vs. is_json v)"
| "is_json (VObj fs) = (\<forall>e \<in> set fs. is_json (snd e))"
| "is_json _ = True"

definition layer_ok :: "layer \<Rightarrow> bool" where
  "layer_ok l \<longleftrightarrow> (\<forall>k v. map_of l k = Some v \<longrightarrow> is_json v \<or> v = VFun) \<and>
     (\<forall>v. map_of l ''forloop'' = Some v \<longrightarrow> truthy v \<and> v \<noteq> VFun)"

definition env_ok :: "env \<Rightarrow> bool" where
  "env_ok \<rho> \<longleftrightarrow> (\<forall>k. is_json (\<rho> k) \<or> \<rho> k = VFun \<or> \<rho> k = VUndef) \<and> \<rho> ''forloop'' \<noteq> VFun"

text \<open>What reading a path and applying filters gives.\<close>

definition markup :: "char \<Rightarrow> bool" where
  "markup c \<longleftrightarrow> c \<in> {CHR ''<'', CHR ''>'', quote, dquote}"

definition bare :: "string \<Rightarrow> bool" where
  "bare s \<longleftrightarrow> (\<forall>c \<in> set s. \<not> markup c)"

definition result_ok :: "dval \<Rightarrow> bool" where
  "result_ok v \<longleftrightarrow> is_json v \<or> v = VUndef \<or> (\<exists>s. v = VSafe s)"

lemma json_map_of: "is_json (VObj fs) \<Longrightarrow> map_of fs k = Some v \<Longrightarrow> is_json v"
  by (force dest: map_of_SomeD)

lemma elem_of_json:
  assumes "\<And>x. x \<in> set xs \<Longrightarrow> is_json (f x)"
  shows "is_json (elem_of xs f k) \<or> elem_of xs f k \<in> {VFun, VUndef}"
  using assms by (auto simp: elem_of_def inherits_def split: option.splits)

lemma prop_of_json: "is_json v \<or> (\<exists>s. v = VSafe s) \<Longrightarrow> is_json (prop_of v k) \<or> prop_of v k \<in> {VFun, VUndef}"
  using elem_of_json [of _ "\<lambda>v. v" k] elem_of_json [of _ "\<lambda>c. VText [c]" k]
  by (cases v) (auto simp: inherits_def dest!: map_of_SomeD split: option.splits)

lemma json_list: "is_json (VList (map g xs)) \<longleftrightarrow> (\<forall>x \<in> set xs. is_json (g x))" by simp

lemma items_of_json: "is_json v \<Longrightarrow> items_of v = Inr w \<Longrightarrow> is_json w"
  by (fastforce simp: items_of_def in_set_zip split: dval.splits)

lemma walk_json: "is_json v \<or> v = VUndef \<Longrightarrow> walk_path v ps = Inr w \<Longrightarrow> is_json w \<or> w = VUndef"
proof (induction v ps rule: walk_path.induct)
  case (2 cur p ps)
  show ?case
  proof (cases "truthy cur")
    case True
    then have j: "is_json cur" using "2.prems"(1) by auto
    show ?thesis
    proof (cases "is_object cur \<and> p = ''items'' \<and> prop_of cur p = VUndef")
      case it: True
      with "2.prems"(2) True obtain x where "items_of cur = Inr x" "walk_path x ps = Inr w" by (auto split: sum.splits)
      with "2.IH"(1) [OF _ it] True items_of_json [OF j] show ?thesis by auto
    next
      case False
      with True "2.prems"(2) prop_of_json [of cur p] j "2.IH"(2-) show ?thesis
        by (cases "prop_of cur p") auto
    qed
  qed (use 2 in auto)
qed simp

lemma resolve_path_json: "env_ok \<rho> \<Longrightarrow> resolve_path p \<rho> = Inr v \<Longrightarrow> is_json v \<or> v = VUndef"
  using walk_json [of "if ctx_get \<rho> (hd (split_on CHR ''.'' p)) VUndef = VFun then VText []
      else ctx_get \<rho> (hd (split_on CHR ''.'' p)) VUndef" "tl (split_on CHR ''.'' p)" v]
  by (auto simp: resolve_path_def Let_def env_ok_def ctx_get_def split: if_splits)

lemma arg_value_json: "env_ok \<rho> \<Longrightarrow> arg_value a \<rho> = Inr v \<Longrightarrow> is_json v \<or> v = VUndef"
  by (auto simp: arg_value_def resolve_path_json split: farg.splits)

lemma filter_results:
  "result_ok v \<Longrightarrow> filter_first v = Inr w \<Longrightarrow> result_ok w"
  "filter_join v a = Inr w \<Longrightarrow> result_ok w"
  "(\<And>s. result_ok (f s)) \<Longrightarrow> on_text f m v = Inr w \<Longrightarrow> result_ok w"
  "result_ok v \<Longrightarrow> filter_safe v = Inr w \<Longrightarrow> result_ok w"
proof -
  have "prop_of v ''0'' \<noteq> VFun" if v: "result_ok v"
  proof (cases v)
    case (VList vs)
    with v have "\<forall>x \<in> set vs. x \<noteq> VFun" by (auto simp: result_ok_def)
    then have "i < length vs \<Longrightarrow> vs ! i \<noteq> VFun" for i using nth_mem by blast
    with VList show ?thesis by (auto simp: elem_of_def inherits_def proto_names_def split: option.splits)
  next
    case (VObj fs)
    with v have "map_of fs ''0'' = Some w \<Longrightarrow> is_json w" for w using json_map_of by (auto simp: result_ok_def)
    with VObj show ?thesis by (auto simp: inherits_def proto_names_def split: option.splits dest: json_map_of)
  qed (auto simp: elem_of_def inherits_def proto_names_def split: option.splits)
  then show "result_ok v \<Longrightarrow> filter_first v = Inr w \<Longrightarrow> result_ok w"
    using prop_of_json [of v "''0''"] by (auto simp: filter_first_def result_ok_def split: if_splits)
  show "filter_join v a = Inr w \<Longrightarrow> result_ok w"
    by (auto simp: filter_join_def result_ok_def split: dval.splits if_splits)
  show "(\<And>s. result_ok (f s)) \<Longrightarrow> on_text f m v = Inr w \<Longrightarrow> result_ok w"
    by (auto simp: on_text_def split: dval.splits)
  show "result_ok v \<Longrightarrow> filter_safe v = Inr w \<Longrightarrow> result_ok w"
    by (auto simp: filter_safe_def result_ok_def split: dval.splits)
qed

lemma or_else_ok: "result_ok v \<Longrightarrow> result_ok w \<Longrightarrow> result_ok (or_else v w)"
  by (simp add: or_else_def)

lemma result_ok_simps [simp]: "result_ok (VText s)" "result_ok (VSafe s)" "is_json v \<Longrightarrow> result_ok v" "result_ok VUndef"
  by (auto simp: result_ok_def)

lemma apply_filter_ok:
  assumes "result_ok v" "is_json a \<or> a = VUndef" "apply_filter n v a = Inr w"
  shows "result_ok w"
proof -
  have "result_ok a" using assms(2) by auto
  then have "result_ok (or_else v (or_else a (VText [])))" "result_ok (or_else a (VText []))" "result_ok (or_else v (VText []))"
    using assms(1) by (simp_all add: or_else_ok)
  moreover have "on_text (\<lambda>s. VText (g s)) m v = Inr w \<Longrightarrow> result_ok w" "on_text (\<lambda>s. VSafe (g s)) m v = Inr w \<Longrightarrow> result_ok w"
    for g m by (rule filter_results(3); simp)+
  ultimately show ?thesis
    using assms(3) filter_results(1) [OF assms(1)] filter_results(2) filter_results(4) [OF assms(1)]
    unfolding apply_filter_def by (auto split: if_split_asm)
qed

lemma apply_filters_ok: "result_ok v \<Longrightarrow> env_ok \<rho> \<Longrightarrow> apply_filters fs v \<rho> = Inr w \<Longrightarrow> result_ok w"
proof (induction fs v \<rho> rule: apply_filters.induct)
  case (2 n a fs v c)
  then show ?case
    by (auto split: sum.splits dest: apply_filter_ok arg_value_json)
qed simp

lemma resolve_filt_ok:
  assumes "env_ok \<rho>" "resolve_filt f \<rho> = Inr v"
  shows "result_ok v"
proof (cases "fkey f")
  case (Some k)
  with assms(2) obtain x where x: "resolve_path k \<rho> = Inr x" "apply_filters (ffilters f) x \<rho> = Inr v"
    by (auto simp: resolve_filt_def split: sum.splits)
  from resolve_path_json [OF assms(1) x(1)] have "result_ok x" by auto
  from apply_filters_ok [OF this assms(1) x(2)] show ?thesis .
qed (use assms in \<open>auto simp: resolve_filt_def\<close>)

lemma loop_items_json: "result_ok v \<Longrightarrow> loop_items b v = Inr xs \<Longrightarrow> x \<in> set xs \<Longrightarrow> is_json x"
  by (auto simp: loop_items_def result_ok_def split: dval.splits if_splits)

lemma forloop_json: "is_json p \<Longrightarrow> is_json (forloop p j n)"
  by (auto simp: forloop_def)

section \<open>The source's scopes are lexical\<close>

text \<open>A context and the one it may have become: the same below the newest layer, and the same names in it.\<close>

definition ctx_ok :: "ctx \<Rightarrow> bool" where
  "ctx_ok c \<longleftrightarrow> c \<noteq> [] \<and> (\<forall>l \<in> set c. layer_ok l)"

definition same_ctx :: "ctx \<Rightarrow> ctx \<Rightarrow> bool" where
  "same_ctx c c' \<longleftrightarrow> c' \<noteq> [] \<and> tl c' = tl c \<and> map_of (hd c') = map_of (hd c)"

fun wf_node :: "dnode \<Rightarrow> bool" where
  "wf_node (Text_node s) = True"
| "wf_node (Var_node f) = True"
| "wf_node (If_node bs trues falses conn) =
     (list_all wf_node trues \<and> (case falses of Some ns \<Rightarrow> list_all wf_node ns | None \<Rightarrow> True))"
| "wf_node (For_node names f r body) = (names \<noteq> [] \<and> ''forloop'' \<notin> set names \<and> list_all wf_node body)"

lemma ctx_prop_Cons: "ctx_prop (l # ls) = (\<lambda>k. case map_of l k of Some v \<Rightarrow> v | None \<Rightarrow> ctx_prop ls k)"
  by auto

lemma same_ctx_prop: "same_ctx c c' \<Longrightarrow> c \<noteq> [] \<Longrightarrow> ctx_prop c' = ctx_prop c"
  by (cases c; cases c') (auto simp: same_ctx_def ctx_prop_Cons)

lemma same_ctx_ok: "same_ctx c c' \<Longrightarrow> ctx_ok c \<Longrightarrow> ctx_ok c'"
  by (cases c; cases c') (auto simp: same_ctx_def ctx_ok_def layer_ok_def)

lemma ctx_prop_ok:
  assumes "ctx_ok c"
  shows "env_ok (ctx_prop c)"
proof -
  have "\<forall>l \<in> set c. layer_ok l \<Longrightarrow> (is_json (ctx_prop c k) \<or> ctx_prop c k = VFun \<or> ctx_prop c k = VUndef) \<and>
      ctx_prop c ''forloop'' \<noteq> VFun" for c k
  proof (induction c)
    case (Cons l c)
    then show ?case by (fastforce simp: layer_ok_def split: option.splits)
  qed (simp add: inherits_def ctx_names_def proto_names_def)
  with assms show ?thesis by (auto simp: ctx_ok_def env_ok_def)
qed

lemma ctx_set_prop: "c \<noteq> [] \<Longrightarrow> ctx_prop (ctx_set k v c) = (ctx_prop c)(k := v)"
  by (cases c) (auto simp: ctx_prop_Cons update_conv' split: option.splits)

lemma ctx_set_parts [simp]: "c \<noteq> [] \<Longrightarrow> ctx_set k v c \<noteq> []" "c \<noteq> [] \<Longrightarrow> tl (ctx_set k v c) = tl c"
  "c \<noteq> [] \<Longrightarrow> map_of (hd (ctx_set k v c)) = (map_of (hd c))(k \<mapsto> v)"
  by (cases c; simp add: update_conv')+

lemma ctx_set_ok: "ctx_ok c \<Longrightarrow> is_json v \<Longrightarrow> k \<noteq> ''forloop'' \<or> truthy v \<Longrightarrow> ctx_ok (ctx_set k v c)"
  by (cases c) (auto simp: ctx_ok_def layer_ok_def update_conv' split: if_splits)

lemma ctx_unset_parts [simp]: "c \<noteq> [] \<Longrightarrow> ctx_unset k c \<noteq> []" "c \<noteq> [] \<Longrightarrow> tl (ctx_unset k c) = tl c"
  "c \<noteq> [] \<Longrightarrow> map_of (hd (ctx_unset k c)) = (map_of (hd c))(k := None)"
  by (cases c; auto simp: delete_conv')+

lemma fold_unset_parts:
  "c \<noteq> [] \<Longrightarrow> fold ctx_unset ks c \<noteq> [] \<and> tl (fold ctx_unset ks c) = tl c \<and>
     map_of (hd (fold ctx_unset ks c)) = (map_of (hd c)) |` (- set ks)"
proof (induction ks arbitrary: c)
  case (Cons k ks)
  have "(\<lambda>a. if a = k then None else m a) |` (- set ks) = m |` (- insert k (set ks))" for m :: "string \<Rightarrow> dval option"
    by (auto simp: restrict_map_def fun_eq_iff)
  moreover have "(map_of (hd c))(k := None) = (\<lambda>a. if a = k then None else map_of (hd c) a)" by auto
  ultimately show ?case using Cons.IH [of "ctx_unset k c"] Cons.prems by (simp del: fun_upd_apply)
qed (auto simp: restrict_map_def)

text \<open>During a loop the newest layer has the names of the loop besides those it had.\<close>

definition in_loop :: "ctx \<Rightarrow> string \<Rightarrow> ctx \<Rightarrow> bool" where
  "in_loop c x c' \<longleftrightarrow> ctx_ok c' \<and> tl c' = tl c \<and>
     (\<forall>k. k \<noteq> ''forloop'' \<longrightarrow> k \<noteq> x \<longrightarrow> map_of (hd c') k = map_of (hd c) k)"

lemma in_loop_set:
  assumes "in_loop c x c'" "c \<noteq> []" "is_json v" "is_json w" "truthy w" "x \<noteq> ''forloop''"
  shows "in_loop c x (ctx_set x v (ctx_set ''forloop'' w c'))"
    "ctx_prop (ctx_set x v (ctx_set ''forloop'' w c')) = (ctx_prop c)(''forloop'' := w, x := v)"
proof -
  have o: "ctx_ok c'" "c' \<noteq> []" using assms(1) by (auto simp: in_loop_def ctx_ok_def)
  show "in_loop c x (ctx_set x v (ctx_set ''forloop'' w c'))"
    using assms o by (auto simp: in_loop_def ctx_set_ok)
  have "ctx_prop c' k = ctx_prop c k" if "k \<noteq> ''forloop''" "k \<noteq> x" for k
    using assms(1,2) o(2) that by (cases c; cases c') (auto simp: in_loop_def ctx_prop_Cons)
  then show "ctx_prop (ctx_set x v (ctx_set ''forloop'' w c')) = (ctx_prop c)(''forloop'' := w, x := v)"
    using o(2) by (auto simp: ctx_set_prop)
qed


text \<open>A result of the renderer against the reference.\<close>

definition meets :: "dtl_error + string \<times> ctx \<Rightarrow> dtl_error + string \<Rightarrow> (ctx \<Rightarrow> bool) \<Rightarrow> bool" where
  "meets x y P \<longleftrightarrow> (case x of Inl e \<Rightarrow> y = Inl e | Inr (s, c) \<Rightarrow> y = Inr s \<and> P c)"

lemma meets_Inr [simp]: "meets (Inr (s, c)) y P \<longleftrightarrow> y = Inr s \<and> P c" by (simp add: meets_def)

lemma meets_Inl [simp]: "meets (Inl e) y P \<longleftrightarrow> y = Inl e" by (simp add: meets_def)

lemma meetsE:
  assumes "meets x y P"
  obtains e where "x = Inl e" "y = Inl e" | s c where "x = Inr (s, c)" "y = Inr s" "P c"
  using assms by (cases x) (auto simp: meets_def)

lemma same_ctx_refl [simp]: "c \<noteq> [] \<Longrightarrow> same_ctx c c" by (simp add: same_ctx_def)

lemma ctx_ok_not_Nil: "ctx_ok c \<Longrightarrow> c \<noteq> []" by (simp add: ctx_ok_def)

lemma loop_start:
  assumes c: "ctx_ok c" and w: "is_json p"
  shows "ctx_ok (if d then ctx_push c else c)" "ctx_prop (if d then ctx_push c else c) = ctx_prop c"
    "in_loop (if d then ctx_push c else c) x (ctx_set ''forloop'' (VObj [(''parentloop'', p)]) (if d then ctx_push c else c))"
proof -
  show o: "ctx_ok (if d then ctx_push c else c)" using c by (auto simp: ctx_ok_def ctx_push_def layer_ok_def)
  show "ctx_prop (if d then ctx_push c else c) = ctx_prop c" by (auto simp: ctx_push_def)
  show "in_loop (if d then ctx_push c else c) x (ctx_set ''forloop'' (VObj [(''parentloop'', p)]) (if d then ctx_push c else c))"
    using o ctx_ok_not_Nil [OF o] w by (auto simp: in_loop_def intro!: ctx_set_ok)
qed

lemma layer_okD: "layer_ok l \<Longrightarrow> map_of l k = Some v \<Longrightarrow> v \<noteq> VUndef \<and> (k = ''forloop'' \<longrightarrow> truthy v)"
  unfolding layer_ok_def using is_json.simps(1) by blast

lemma loop_end:
  assumes c: "ctx_ok c" and l: "in_loop (if d then ctx_push c else c) (hd names) c3" and n: "names \<noteq> []"
    and d: "d = names_taken names (ctx_prop c)"
  shows "same_ctx c (if d then tl (ctx_unset ''forloop'' c3) else fold ctx_unset names (ctx_unset ''forloop'' c3))"
proof (cases d)
  case True
  with l have "tl c3 = c" "c3 \<noteq> []" by (auto simp: in_loop_def ctx_push_def ctx_ok_def)
  with True c show ?thesis by (simp add: ctx_ok_not_Nil)
next
  case False
  with l have l: "tl c3 = tl c" "c3 \<noteq> []" "\<And>k. k \<noteq> ''forloop'' \<Longrightarrow> k \<noteq> hd names \<Longrightarrow> map_of (hd c3) k = map_of (hd c) k"
    by (auto simp: in_loop_def ctx_ok_def)
  have ok: "layer_ok (hd c)" and ne: "c \<noteq> []" using c by (auto simp: ctx_ok_def)
  have free: "map_of (hd c) k = None" if "k = ''forloop'' \<or> k \<in> set names" for k
  proof (rule ccontr)
    assume "map_of (hd c) k \<noteq> None"
    then obtain v where v: "map_of (hd c) k = Some v" by blast
    with ne have cv: "ctx_prop c k = v" by (cases c) auto
    from layer_okD [OF ok v] have "v \<noteq> VUndef" "k = ''forloop'' \<Longrightarrow> truthy v" by auto
    with False d that cv show False by (auto simp: names_taken_def list_ex_iff)
  qed
  have "map_of (hd (fold ctx_unset names (ctx_unset ''forloop'' c3))) = map_of (hd c)"
  proof
    fix k
    show "map_of (hd (fold ctx_unset names (ctx_unset ''forloop'' c3))) k = map_of (hd c) k"
      using fold_unset_parts [of "ctx_unset ''forloop'' c3" names] l free [of k] hd_in_set [OF n]
      by (cases "k = ''forloop'' \<or> k \<in> set names") (auto simp: restrict_map_def)
  qed
  with False show ?thesis
    using fold_unset_parts [of "ctx_unset ''forloop'' c3" names] l by (auto simp: same_ctx_def)
qed

lemma ctx_get_json: "env_ok \<rho> \<Longrightarrow> is_json (ctx_get \<rho> ''forloop'' (VObj []))"
  by (auto simp: env_ok_def ctx_get_def)

lemma scopes:
  "ctx_ok c \<Longrightarrow> wf_node n \<Longrightarrow> meets (render_node n c) (ref_node n (ctx_prop c)) (same_ctx c)"
  "ctx_ok c \<Longrightarrow> list_all wf_node ns \<Longrightarrow> meets (render_nodes ns c) (ref_nodes ns (ctx_prop c)) (same_ctx c)"
  "list_all wf_node body \<Longrightarrow> names \<noteq> [] \<Longrightarrow> ''forloop'' \<notin> set names \<Longrightarrow> is_json parent \<Longrightarrow> \<forall>x \<in> set xs. is_json x \<Longrightarrow>
     in_loop c0 (hd names) c \<Longrightarrow> c0 \<noteq> [] \<Longrightarrow>
     meets (render_loop body names parent m j xs c)
       (ref_loop body (hd names) (1 < length names) parent m j xs (ctx_prop c0)) (in_loop c0 (hd names))"
proof (induction n c and ns c and body names parent m j xs c arbitrary: and and c0
    rule: render_node_render_nodes_render_loop.induct)
  case (1 s c)
  then show ?case by (simp add: ctx_ok_not_Nil)
next
  case (2 f c)
  show ?case
  proof (cases "resolve_filt f (ctx_prop c)")
    case (Inr v)
    with 2 show ?thesis by (cases "render_var v") (auto simp: ctx_ok_not_Nil)
  qed simp
next
  case (3 bs trues falses conn c)
  then show ?case by (auto simp: ctx_ok_not_Nil split: sum.splits option.splits)
next
  case (4 names f reversed body c)
  let ?d = "names_taken names (ctx_prop c)"
  let ?c1 = "if ?d then ctx_push c else c"
  let ?p = "ctx_get (ctx_prop c) ''forloop'' (VObj [])"
  let ?c2 = "ctx_set ''forloop'' (VObj [(''parentloop'', ?p)]) ?c1"
  have p: "is_json ?p" by (rule ctx_get_json [OF ctx_prop_ok [OF 4(2)]])
  note st = loop_start(1,2) [OF 4(2) p, of ?d] loop_start(3) [OF 4(2) p, of ?d "hd names"]
  have n: "names \<noteq> []" "''forloop'' \<notin> set names" "list_all wf_node body" using 4(3) by auto
  show ?case
  proof (cases "resolve_filt f (ctx_prop c)")
    case (Inr v)
    show ?thesis
    proof (cases "loop_items reversed v")
      case items: (Inr items)
      have j: "\<forall>x \<in> set items. is_json x"
        using loop_items_json [OF resolve_filt_ok [OF ctx_prop_ok [OF 4(2)] Inr] items] by blast
      have "meets (render_loop body names ?p (length items) 0 items ?c2)
         (ref_loop body (hd names) (1 < length names) ?p (length items) 0 items (ctx_prop ?c1)) (in_loop ?c1 (hd names))"
        by (rule 4(1) [OF refl refl _ items]) (use st n j p Inr ctx_ok_not_Nil [OF st(1)] in simp_all)
      then show ?thesis
      proof (cases rule: meetsE)
        case (1 e)
        with Inr items st(2) show ?thesis by (simp add: Let_def del: if_split)
      next
        case (2 s c3)
        with loop_end [OF 4(2) 2(3) n(1) refl] Inr items st(2) show ?thesis
          by (simp add: Let_def del: if_split)
      qed
    qed (simp add: Let_def Inr st(2) del: if_split)
  qed (simp add: Let_def st(2))
next
  case (5 c)
  then show ?case by (simp add: ctx_ok_not_Nil)
next
  case (6 n ns c)
  from 6(3,4) have w: "ctx_ok c" "wf_node n" "list_all wf_node ns" "c \<noteq> []" by (auto simp: ctx_ok_not_Nil)
  from 6(1) [OF w(1,2)] show ?case
  proof (cases rule: meetsE)
    case (2 s c1)
    from same_ctx_ok [OF 2(3) w(1)] have o: "ctx_ok c1" .
    from 6(2) [OF 2(1) refl o w(3)] show ?thesis
      unfolding same_ctx_prop [OF 2(3) w(4)]
      by (cases rule: meetsE) (use 2 in \<open>auto simp: same_ctx_def\<close>)
  qed simp
next
  case (7 body names parent n j c)
  then show ?case by simp
next
  case (8 body names parent n j x xs c)
  let ?c1 = "ctx_set (hd names) x (ctx_set ''forloop'' (forloop parent j n) c)"
  have x: "hd names \<noteq> ''forloop''" "is_json x" "is_json (forloop parent j n)" "truthy (forloop parent j n)"
    using 8(5,6,7) hd_in_set [OF 8(4)] by (auto simp: forloop_json simp del: hd_in_set) (auto simp: forloop_def)
  note st = in_loop_set [OF 8(8,9) x(2,3,4,1)]
  show ?case
  proof (cases "1 < length names \<and> array_like x")
    case False
    from st(1) have o: "ctx_ok ?c1" by (simp add: in_loop_def)
    from 8(1) [OF False o 8(3)] have "meets (render_nodes body ?c1)
        (ref_nodes body ((ctx_prop c0)(''forloop'' := forloop parent j n, hd names := x))) (same_ctx ?c1)"
      unfolding st(2) .
    then show ?thesis
    proof (cases rule: meetsE)
      case (1 e)
      with False show ?thesis by (auto simp del: fun_upd_apply)
    next
      case (2 s c1)
      have "in_loop c0 (hd names) c1"
        using st(1) 2(3) same_ctx_ok [OF 2(3) o] by (auto simp: in_loop_def same_ctx_def)
      from 8(2) [OF False 2(1) refl 8(3,4,5,6) _ this 8(9)] 8(7) have
        "meets (render_loop body names parent n (Suc j) xs c1)
          (ref_loop body (hd names) (1 < length names) parent n (Suc j) xs (ctx_prop c0)) (in_loop c0 (hd names))" by simp
      then show ?thesis
        by (cases rule: meetsE) (use 2 False in \<open>auto del: fun_upd_apply\<close>)
    qed
  qed simp
qed

section \<open>Data adds no markup\<close>

text \<open>The text of a template, and the filters it applies to its variables.\<close>

fun texts :: "dnode \<Rightarrow> string set" where
  "texts (Text_node s) = {s}"
| "texts (Var_node f) = {}"
| "texts (If_node bs trues falses conn) =
     (\<Union>n \<in> set trues. texts n) \<union> (case falses of Some ns \<Rightarrow> (\<Union>n \<in> set ns. texts n) | None \<Rightarrow> {})"
| "texts (For_node names f r body) = (\<Union>n \<in> set body. texts n)"

fun vars_of :: "dnode \<Rightarrow> filt list" where
  "vars_of (Text_node s) = []"
| "vars_of (Var_node f) = [f]"
| "vars_of (If_node bs trues falses conn) =
     concat (map vars_of trues) @ (case falses of Some ns \<Rightarrow> concat (map vars_of ns) | None \<Rightarrow> [])"
| "vars_of (For_node names f r body) = concat (map vars_of body)"

definition unsafe :: "filt \<Rightarrow> bool" where
  "unsafe f \<longleftrightarrow> ''safe'' \<notin> fst ` set (ffilters f)"

definition clean :: "dval \<Rightarrow> bool" where
  "clean v \<longleftrightarrow> result_ok v \<and> (\<forall>s. v = VSafe s \<longrightarrow> bare s)"

lemma bare_append [simp]: "bare (s @ t) \<longleftrightarrow> bare s \<and> bare t"
  by (auto simp: bare_def)

lemma bare_concat: "bare (concat ss) \<longleftrightarrow> (\<forall>s \<in> set ss. bare s)"
  by (auto simp: bare_def)

lemma replace_char_concat: "replace_char c r s = concat (map (\<lambda>x. if x = c then r else [x]) s)"
  by (induction s) auto

lemma replace_char_append [simp]: "replace_char c r (s @ t) = replace_char c r s @ replace_char c r t"
  by (induction s) auto

lemma escape_Cons: "escape_html (c # s) = escape_html [c] @ escape_html s"
  by (simp add: escape_html_def replace_char_concat)

lemma bare_escape_char: "bare (escape_html [c])"
  by (auto simp: escape_html_def bare_def markup_def quote_def dquote_def)

lemma bare_escape: "bare (escape_html s)"
proof (induction s)
  case (Cons c s)
  then show ?case using bare_escape_char [of c] by (subst escape_Cons) simp
qed (simp add: escape_html_def bare_def)

lemma render_var_bare:
  assumes v: "clean v" and s: "render_var v = Inr s"
  shows "bare s"
proof (cases "truthy (prop_of v ''safe'')")
  case True
  show ?thesis
  proof (cases v)
    case (VSafe t)
    with v s True show ?thesis by (auto simp: clean_def render_var_def)
  next
    case (VObj fs)
    with s True have "s = ''[object Object]''" by (simp add: render_var_def)
    then show ?thesis by (simp add: bare_def markup_def quote_def dquote_def)
  qed (use s True in \<open>auto simp: render_var_def elem_of_def inherits_def proto_names_def index_of_def is_digit_def
        split: option.splits if_splits\<close>)
next
  case False
  then show ?thesis using s bare_escape by (auto simp: render_var_def split: dval.splits)
qed

lemma clean_simps [simp]: "clean (VText s)" "clean VUndef" "is_json v \<Longrightarrow> clean v" "clean (VSafe s) \<longleftrightarrow> bare s"
  by (auto simp: clean_def)

lemma clean_on_text: "(\<And>s. clean (f s)) \<Longrightarrow> on_text f m v = Inr w \<Longrightarrow> clean w"
  by (auto simp: on_text_def split: dval.splits)

lemma filter_first_clean:
  assumes "clean v" "filter_first v = Inr w"
  shows "clean w"
proof -
  have "w \<noteq> VSafe s" for s
  proof (cases v)
    case (VList vs)
    with assms have "\<forall>x \<in> set vs. x \<noteq> VSafe s" by (auto simp: clean_def result_ok_def)
    with VList assms show ?thesis
      by (auto simp: filter_first_def elem_of_def inherits_def split: if_splits option.splits)
  next
    case (VObj fs)
    with assms have "is_json (VObj fs)" by (auto simp: clean_def result_ok_def)
    from json_map_of [OF this, of "''0''"] VObj assms show ?thesis
      by (auto simp: filter_first_def inherits_def split: if_splits option.splits)
  qed (use assms in \<open>auto simp: filter_first_def elem_of_def inherits_def split: if_splits option.splits\<close>)
  with filter_results(1) [OF _ assms(2)] assms(1) show ?thesis by (simp add: clean_def)
qed

lemma apply_filter_clean:
  assumes v: "clean v" and a: "is_json a \<or> a = VUndef" and n: "n \<noteq> ''safe''" and w: "apply_filter n v a = Inr w"
  shows "clean w"
proof -
  have "clean a" using a by auto
  with v have "clean (or_else v (or_else a (VText [])))" "clean (or_else a (VText []))" "clean (or_else v (VText []))"
    by (simp_all add: or_else_def)
  moreover have "on_text (\<lambda>s. VText (upper s)) m v = Inr w \<Longrightarrow> clean w"
      "on_text (\<lambda>s. VSafe (escape_html s)) m v = Inr w \<Longrightarrow> clean w" for m
    by (rule clean_on_text; simp add: bare_escape)+
  moreover have "filter_join v a = Inr w \<Longrightarrow> clean w" by (auto simp: filter_join_def split: dval.splits if_splits)
  ultimately show ?thesis
    using w n filter_first_clean [OF v] unfolding apply_filter_def by (auto split: if_split_asm)
qed

lemma apply_filters_clean:
  "clean v \<Longrightarrow> env_ok \<rho> \<Longrightarrow> ''safe'' \<notin> fst ` set fs \<Longrightarrow> apply_filters fs v \<rho> = Inr w \<Longrightarrow> clean w"
proof (induction fs v \<rho> rule: apply_filters.induct)
  case (2 n a fs v c)
  from 2(5) obtain x y where x: "arg_value a c = Inr x" "apply_filter n v x = Inr y" "apply_filters fs y c = Inr w"
    by (auto split: sum.splits)
  from arg_value_json [OF 2(3) x(1)] have "is_json x \<or> x = VUndef" .
  from apply_filter_clean [OF 2(2) this _ x(2)] 2 x show ?case by auto
qed simp

lemma resolve_filt_clean:
  assumes "env_ok \<rho>" "unsafe f" "resolve_filt f \<rho> = Inr v"
  shows "clean v"
proof (cases "fkey f")
  case (Some k)
  with assms(3) obtain x where x: "resolve_path k \<rho> = Inr x" "apply_filters (ffilters f) x \<rho> = Inr v"
    by (auto simp: resolve_filt_def split: sum.splits)
  from resolve_path_json [OF assms(1) x(1)] have "clean x" by auto
  from apply_filters_clean [OF this assms(1) _ x(2)] assms(2) show ?thesis by (simp add: unsafe_def)
qed (use assms in \<open>auto simp: resolve_filt_def\<close>)

text \<open>A text made of pieces of the template and of pieces without markup.\<close>

definition made_of :: "string set \<Rightarrow> string \<Rightarrow> bool" where
  "made_of T s \<longleftrightarrow> (\<exists>ps. s = concat ps \<and> (\<forall>p \<in> set ps. p \<in> T \<or> bare p))"

lemma made_of_append: "made_of T s \<Longrightarrow> made_of T t \<Longrightarrow> made_of T (s @ t)"
proof -
  assume "made_of T s" "made_of T t"
  then obtain ps qs where "s = concat ps" "t = concat qs" "\<forall>p \<in> set (ps @ qs). p \<in> T \<or> bare p"
    by (auto simp: made_of_def)
  then show ?thesis unfolding made_of_def by (intro exI [of _ "ps @ qs"]) simp
qed

lemma made_of_piece: "s \<in> T \<or> bare s \<Longrightarrow> made_of T s"
  unfolding made_of_def by (intro exI [of _ "[s]"]) simp

lemma made_of_Nil [simp]: "made_of T []" by (rule made_of_piece) (simp add: bare_def)

lemma env_ok_loop: "env_ok \<rho> \<Longrightarrow> is_json v \<Longrightarrow> is_json w \<Longrightarrow> env_ok (\<rho>(''forloop'' := w, x := v))"
  by (auto simp: env_ok_def)

lemma ref_made_of:
  "env_ok \<rho> \<Longrightarrow> texts n \<subseteq> T \<Longrightarrow> list_all unsafe (vars_of n) \<Longrightarrow> ref_node n \<rho> = Inr s \<Longrightarrow> made_of T s"
  "env_ok \<rho> \<Longrightarrow> (\<Union>n \<in> set ns. texts n) \<subseteq> T \<Longrightarrow> list_all unsafe (concat (map vars_of ns)) \<Longrightarrow> ref_nodes ns \<rho> = Inr s \<Longrightarrow>
     made_of T s"
  "env_ok \<rho> \<Longrightarrow> (\<Union>n \<in> set body. texts n) \<subseteq> T \<Longrightarrow> list_all unsafe (concat (map vars_of body)) \<Longrightarrow>
     \<forall>v \<in> set xs. is_json v \<Longrightarrow> is_json parent \<Longrightarrow> ref_loop body x several parent m j xs \<rho> = Inr s \<Longrightarrow> made_of T s"
proof (induction n \<rho> and ns \<rho> and body x several parent m j xs \<rho> arbitrary: s and s and s
    rule: ref_node_ref_nodes_ref_loop.induct)
  case (1 t \<rho>)
  then show ?case by (auto intro: made_of_piece)
next
  case (2 f \<rho>)
  then show ?case
    by (auto split: sum.splits intro!: made_of_piece render_var_bare [OF resolve_filt_clean])
next
  case (3 bs trues falses conn \<rho>)
  then show ?case by (auto split: sum.splits option.splits if_splits)
next
  case (4 names f reversed body \<rho>)
  from 4(5) obtain v xs where v: "resolve_filt f \<rho> = Inr v" "loop_items reversed v = Inr xs" by (auto split: sum.splits)
  have "\<forall>x \<in> set xs. is_json x" using loop_items_json [OF resolve_filt_ok [OF 4(2) v(1)] v(2)] by blast
  from 4(1) [OF v 4(2) _ _ this ctx_get_json [OF 4(2)]] 4 v show ?case by simp
next
  case (5 \<rho>)
  then show ?case by simp
next
  case (6 n ns \<rho>)
  then show ?case by (auto split: sum.splits intro!: made_of_append)
next
  case (7 body x several parent n j \<rho>)
  then show ?case by simp
next
  case (8 body x several parent n j v vs \<rho>)
  from 8(8) obtain a b where ab: "\<not> (several \<and> array_like v)"
      "ref_nodes body (\<rho>(''forloop'' := forloop parent j n, x := v)) = Inr a"
      "ref_loop body x several parent n (Suc j) vs \<rho> = Inr b" "s = a @ b"
    by (auto split: sum.splits if_splits simp del: fun_upd_apply)
  have "env_ok (\<rho>(''forloop'' := forloop parent j n, x := v))"
    using 8(3,6,7) by (intro env_ok_loop) (simp_all add: forloop_json)
  from 8(1) [OF ab(1) this 8(4,5) ab(2)] 8(2) [OF ab(1,2) 8(3,4,5) _ 8(7) ab(3)] 8(6) ab(4) show ?case
    by (simp add: made_of_append)
qed

end
