(* ===== verification/DtlText.thy ===== *)
theory DtlText
  imports DtlScope
begin

text \<open>
  Templates as text. Escaping loses nothing and what it writes is browser_text as the data was; text that was
  written from tokens is cut into these tokens again; and what the conditions in the console's templates
  ask, which is less than they say.
\<close>

section \<open>Escaped text\<close>

text \<open>What a browser shows of a text with the entities that are written.\<close>

definition entities :: "(string \<times> char) list" where
  "entities = [(''amp;'', CHR ''&''), (''lt;'', CHR ''<''), (''gt;'', CHR ''>''), (''quot;'', dquote), (''#39;'', quote)]"

function browser_text :: "string \<Rightarrow> string" where
  "browser_text [] = []"
| "browser_text (c # s) =
     (case (if c = CHR ''&'' then first_some (\<lambda>(e, d). map_option (Pair d) (strip_prefix e s)) entities else None) of
        Some (d, r) \<Rightarrow> d # browser_text r
      | None \<Rightarrow> c # browser_text s)"
  by pat_completeness auto
termination
  by (relation "measure length") (auto dest!: first_some_in simp: strip_prefix_Some split: if_splits)

lemma shown_escape_char: "browser_text (escape_html [c] @ s) = c # browser_text s"
  by (simp add: escape_html_def entities_def quote_def dquote_def)

lemma shown_escape: "browser_text (escape_html s) = s"
proof (induction s)
  case (Cons c s)
  then show ?case by (subst escape_Cons) (simp add: shown_escape_char)
qed (simp add: escape_html_def)

section \<open>Printed tokens\<close>

fun print_token :: "token \<Rightarrow> string" where
  "print_token (Plain s) = s"
| "print_token (Var s) = ''{{'' @ s @ ''}}''"
| "print_token (Block s) = ''{%'' @ s @ ''%}''"

text \<open>What stands between delimiters: one line without their closing character and without blanks at the
  ends.\<close>

definition inner :: "char \<Rightarrow> string \<Rightarrow> bool" where
  "inner q s \<longleftrightarrow> s \<noteq> [] \<and> (\<forall>c \<in> set s. c \<noteq> q \<and> \<not> newline c) \<and> \<not> js_space (hd s) \<and> \<not> js_space (last s)"

fun printable :: "token \<Rightarrow> bool" where
  "printable (Plain s) = (s \<noteq> [] \<and> CHR ''{'' \<notin> set s)"
| "printable (Var s) = inner CHR ''}'' s"
| "printable (Block s) = (inner CHR ''%'' s \<and> strip_prefix ''load'' s = None)"

fun is_plain :: "token \<Rightarrow> bool" where
  "is_plain (Plain s) = True"
| "is_plain _ = False"

fun apart :: "token list \<Rightarrow> bool" where
  "apart (s # t # ts) = (\<not> (is_plain s \<and> is_plain t) \<and> apart (t # ts))"
| "apart ts = True"

lemma lazy_at_print:
  assumes "s \<noteq> []" "\<forall>c \<in> set s. c \<noteq> q \<and> \<not> newline c" "\<not> js_space (last s)" "\<not> js_space q"
  shows "lazy_at (q # p) (s @ q # p @ r) = Some (s, r)"
  using assms
proof (induction s)
  case (Cons c s)
  show ?case
  proof (cases s)
    case Nil
    have "strip_prefix p (p @ r) = Some r" by (simp add: strip_prefix_Some)
    with Nil Cons.prems show ?thesis by simp
  next
    case (Cons d t)
    let ?u = "s @ q # p @ r"
    have "dropWhile js_space ?u = dropWhile js_space s @ q # p @ r"
      using Cons.prems(3) Cons by (intro dropWhile_append1 [of "last s"]) auto
    moreover from Cons.prems(3) Cons have "dropWhile js_space s \<noteq> []"
      by (metis dropWhile_eq_Nil_conv last_ConsR last_in_set list.distinct(1))
    then obtain e u where e: "dropWhile js_space s = e # u" by (cases "dropWhile js_space s") auto
    moreover have "e \<noteq> q" using Cons.prems(2) set_dropWhileD [of e js_space s] e by auto
    ultimately have "strip_prefix (q # p) (dropWhile js_space ?u) = None" by simp
    moreover have "lazy_at (q # p) ?u = Some (s, r)"
      using Cons.IH Cons.prems Cons by simp
    ultimately show ?thesis using Cons.prems(2) by simp
  qed
qed simp

lemma strip_prefix_stop: "strip_prefix p s = None \<Longrightarrow> q \<notin> set p \<Longrightarrow> strip_prefix p (s @ q # r) = None"
  by (induction p s rule: strip_prefix.induct) auto

lemma spaces_down_none: "s \<noteq> [] \<Longrightarrow> \<not> js_space (hd s) \<Longrightarrow> spaces_down s = [s]"
  by (cases s) (simp_all add: spaces_down_def)

lemma match_print:
  assumes "printable t" "\<not> is_plain t"
  shows "match_delim (print_token t @ r) = Some ([t], r)"
proof (cases t)
  case (Var s)
  with assms have s: "inner CHR ''}'' s" by simp
  then have "lazy_at ''}}'' (s @ ''}}'' @ r) = Some (s, r)"
    using lazy_at_print [of s "CHR ''}''" "''}''" r] by (simp add: inner_def js_space_def)
  moreover have "spaces_down (s @ ''}}'' @ r) = [s @ ''}}'' @ r]"
    using s by (intro spaces_down_none) (auto simp: inner_def hd_append)
  ultimately show ?thesis using Var by (simp add: match_delim_def match_var_def)
next
  case (Block s)
  with assms have s: "inner CHR ''%'' s" "strip_prefix ''load'' s = None" by simp_all
  from s(1) have "lazy_at ''%}'' (s @ ''%}'' @ r) = Some (s, r)"
    using lazy_at_print [of s "CHR ''%''" "''}''" r] by (simp add: inner_def js_space_def)
  moreover have "spaces_down (s @ ''%}'' @ r) = [s @ ''%}'' @ r]"
    using s by (intro spaces_down_none) (auto simp: inner_def hd_append)
  moreover have "strip_prefix ''load'' (s @ ''%}'' @ r) = None"
    using strip_prefix_stop [OF s(2), of "CHR ''%''" "''}'' @ r"] by simp
  ultimately show ?thesis using Block by (simp add: match_delim_def match_tag_at_def)
qed (use assms in simp)

lemma match_delim_none: "c \<noteq> CHR ''{'' \<Longrightarrow> match_delim (c # s) = None"
  by (simp add: match_delim_def)

lemma tokens_plain: "CHR ''{'' \<notin> set s \<Longrightarrow> tokens_from acc (s @ r) = tokens_from (acc @ s) r"
proof (induction s arbitrary: acc)
  case (Cons c s)
  then have "CHR ''{'' \<notin> set s" "match_delim (c # s @ r) = None" by (auto intro: match_delim_none)
  with Cons.IH [of "acc @ [c]"] show ?case by simp
qed simp

lemma print_token_Cons: "printable t \<Longrightarrow> \<not> is_plain t \<Longrightarrow> \<exists>c s. print_token t = c # s"
  by (cases t) auto

lemma tokens_print:
  "apart ts \<Longrightarrow> list_all printable ts \<Longrightarrow> acc = [] \<or> ts = [] \<or> \<not> is_plain (hd ts) \<Longrightarrow>
     tokens_from acc (concat (map print_token ts)) = plain_token acc @ ts"
proof (induction ts arbitrary: acc)
  case (Cons t ts)
  have a: "apart ts" "list_all printable ts" using Cons.prems(1,2) by (cases ts; simp)+
  show ?case
  proof (cases "is_plain t")
    case True
    with Cons.prems obtain s where s: "t = Plain s" "s \<noteq> []" "CHR ''{'' \<notin> set s" "acc = []" by (cases t) auto
    have "ts = [] \<or> \<not> is_plain (hd ts)" using Cons.prems(1) True by (cases ts) auto
    with Cons.IH [OF a, of s] s show ?thesis by (simp add: tokens_plain plain_token_def)
  next
    case False
    with Cons.prems have m: "match_delim (print_token t @ concat (map print_token ts)) = Some ([t], concat (map print_token ts))"
      by (intro match_print) auto
    have "printable t" using Cons.prems(2) by simp
    from print_token_Cons [OF this False] obtain c u where "print_token t = c # u" by blast
    with m Cons.IH [OF a, of "[]"] show ?thesis by (simp add: plain_token_def)
  qed
qed simp

section \<open>What a condition asks\<close>

lemma take_path_first: "w \<noteq> [] \<Longrightarrow> \<forall>c \<in> set w. is_path c \<Longrightarrow> \<not> is_path d \<Longrightarrow> take_path (w @ d # r) = Some (w, d # r)"
  by (simp add: take_path_def)

lemma scan_no_filters: "CHR ''|'' \<notin> set s \<Longrightarrow> scan_filters s = []"
  by (induction s) (auto simp: Let_def)

lemma proto_names_path: "w \<in> set proto_names \<Longrightarrow> c \<in> set w \<Longrightarrow> is_path c"
proof -
  have "list_all (list_all is_path) proto_names" by code_simp
  then show "w \<in> set proto_names \<Longrightarrow> c \<in> set w \<Longrightarrow> ?thesis" by (auto simp: list_all_iff)
qed

lemma path_char_not: "is_path c \<Longrightarrow> c \<noteq> dquote \<and> c \<noteq> CHR ''(''"
  by (auto simp: is_path_def is_word_def is_digit_def dquote_def)

lemma parse_filter_first:
  assumes w: "w \<noteq> []" "\<forall>c \<in> set w. is_path c" and d: "\<not> is_path d" "d \<noteq> CHR ''('' \<or> w \<noteq> ''_''"
    and r: "CHR ''|'' \<notin> set (d # r)"
  shows "parse_filter (w @ d # r) = Inr \<lparr>fkey = Some w, ffilters = []\<rparr>"
proof -
  have "w @ d # r \<notin> set proto_names" using proto_names_path [of "w @ d # r" d] d(1) by auto
  moreover have "gettext (w @ d # r) = None"
    using w d by (cases w; cases "tl w") (auto simp: gettext_def dest: path_char_not)
  moreover have "quoted_by dquote (w @ d # r) = None"
    using w by (cases w) (auto simp: quoted_by_def dest: path_char_not)
  ultimately show ?thesis
    using w(1) take_path_first [OF w d(1)] scan_no_filters [OF r]
    by (simp add: parse_filter_def filter_key_def del: scan_filters.simps)
qed

text \<open>The radios of a user's role in \<^verbatim>\<open>user-modify.html\<close>.\<close>

definition user_role_radios :: string where
  "user_role_radios =
     ''                      {% for role in roles %}\<newline>'' @
     ''                        <div>\<newline>'' @
     ''                          <input type=\"radio\" name=\"user_role\" value=\"{{role}}\" {% if role == user.role %}checked{%endif%} ></input>\<newline>'' @
     ''                          <span>{{role}}</span>\<newline>'' @
     ''                        </div>\<newline>'' @
     ''                      {% endfor %}''"

definition radio_start :: string where
  "radio_start = ''\<newline>                        <div>\<newline>'' @
     ''                          <input type=\"radio\" name=\"user_role\" value=\"''"

definition radio_mid :: string where
  "radio_mid = '' ></input>\<newline>                          <span>''"

definition radio_end :: string where
  "radio_end = ''</span>\<newline>                        </div>\<newline>                      ''"

definition radio_body :: "dnode list" where
  "radio_body =
    [Text_node radio_start, Var_node \<lparr>fkey = Some ''role'', ffilters = []\<rparr>, Text_node ''\" '',
     If_node [(False, \<lparr>fkey = Some ''role'', ffilters = []\<rparr>)] [Text_node ''checked''] None Any_of,
     Text_node radio_mid, Var_node \<lparr>fkey = Some ''role'', ffilters = []\<rparr>, Text_node radio_end]"

definition radio_nodes :: "dnode list" where
  "radio_nodes =
    [Text_node ''                      '', For_node [''role''] \<lparr>fkey = Some ''roles'', ffilters = []\<rparr> False radio_body]"

lemma parse_radios: "parse [] (tokenize user_role_radios) = Inr (radio_nodes, [])"
  by code_simp

definition radio_text :: "string \<Rightarrow> string" where
  "radio_text r = radio_start @ escape_html r @ ''\" '' @ (if r = [] then [] else ''checked'') @ radio_mid @ escape_html r @
     radio_end"

lemma radio_step:
  assumes "resolve_filt \<lparr>fkey = Some ''role'', ffilters = []\<rparr> \<rho> = Inr (VText r)"
  shows "ref_nodes radio_body \<rho> = Inr (radio_text r)"
proof -
  have "render_var (VText r) = Inr (escape_html r)"
    by (simp add: render_var_def elem_of_def index_of_def inherits_def is_digit_def proto_names_def)
  then show ?thesis
    using assms by (cases "r = []") (simp_all add: radio_body_def radio_text_def test_cond_def)
qed

lemma radio_loop:
  "ref_loop radio_body ''role'' False p m j (map VText rs) \<rho> = Inr (concat (map radio_text rs))"
proof (induction rs arbitrary: j)
  case (Cons r rs)
  have "resolve_filt \<lparr>fkey = Some ''role'', ffilters = []\<rparr> (\<rho>(''forloop'' := f, ''role'' := VText r)) = Inr (VText r)" for f
    by (simp add: resolve_filt_def resolve_path_def is_digit_def dquote_def ctx_get_def)
  with Cons.IH show ?case by (simp add: radio_step del: fun_upd_apply)
qed simp

section \<open>Templates of the console and their reference\<close>

lemma render_by_ref:
  assumes "layer_ok w" "parse [] (tokenize t) = Inr (ns, r)" "list_all wf_node ns" "ref_nodes ns (ctx_prop [w]) = Inr s"
  shows "render_template t w = Inr s"
proof -
  have "ctx_ok [w]" using assms(1) by (simp add: ctx_ok_def)
  from scopes(2) [OF this assms(3)] have "\<exists>c. render_nodes ns [w] = Inr (s, c)"
    by (cases rule: meetsE) (simp_all add: assms(4))
  then show ?thesis by (auto simp: render_template_def assms(2))
qed

text \<open>C14: The scopes of template loops are lexical. A list of nodes rendered with the source's contexts
  (a layer pushed when a loop's names are taken, names set in place and deleted afterwards otherwise) gives
  the text or the error of the reference renderer, where a loop binds its name for its body alone; and the
  context is left as it was found.\<close>
theorem scopes_lexical:
  assumes "ctx_ok c" "list_all wf_node ns"
  shows "case render_nodes ns c of
      Inl e \<Rightarrow> ref_nodes ns (ctx_prop c) = Inl e
    | Inr (s, c') \<Rightarrow> ref_nodes ns (ctx_prop c) = Inr s \<and> ctx_prop c' = ctx_prop c \<and> tl c' = tl c"
  using scopes(2) [OF assms]
proof (cases rule: meetsE)
  case (2 s c')
  have "ctx_prop c' = ctx_prop c" by (rule same_ctx_prop [OF 2(3) ctx_ok_not_Nil [OF assms(1)]])
  with 2 show ?thesis by (simp add: same_ctx_def)
qed simp

definition nested_loops :: "dnode list" where
  "nested_loops = [For_node [''x''] \<lparr>fkey = Some ''x'', ffilters = []\<rparr> False
     [For_node [''y''] \<lparr>fkey = Some ''x'', ffilters = []\<rparr> False [Var_node \<lparr>fkey = Some ''y'', ffilters = []\<rparr>]],
     Var_node \<lparr>fkey = Some ''x'', ffilters = []\<rparr>]"

definition nested_data :: ctx where
  "nested_data = [[(''x'', VList [VText ''ab'', VText ''c''])]]"

lemma scopes_lexical_witness:
  "case render_nodes nested_loops nested_data of
      Inl e \<Rightarrow> ref_nodes nested_loops (ctx_prop nested_data) = Inl e
    | Inr (s, c') \<Rightarrow> ref_nodes nested_loops (ctx_prop nested_data) = Inr s \<and> ctx_prop c' = ctx_prop nested_data \<and>
        tl c' = tl nested_data"
  by (rule scopes_lexical) (auto simp: nested_loops_def nested_data_def ctx_ok_def layer_ok_def)

text \<open>C15: Data adds no markup. When no variable of a template is marked safe, what it renders from JSON data is
  a sequence of pieces that each stand in the template or hold none of the characters of markup.\<close>
theorem data_adds_no_markup:
  assumes "layer_ok w" "list_all wf_node ns" "list_all unsafe (concat (map vars_of ns))"
    and "render_nodes ns [w] = Inr (s, c)"
  shows "made_of (\<Union>n \<in> set ns. texts n) s"
proof -
  have c: "ctx_ok [w]" using assms(1) by (simp add: ctx_ok_def)
  from scopes(2) [OF c assms(2)] assms(4) have "ref_nodes ns (ctx_prop [w]) = Inr s" by simp
  from ref_made_of(2) [OF ctx_prop_ok [OF c] subset_refl assms(3) this] show ?thesis .
qed

definition greeting :: "dnode list" where
  "greeting = [Text_node ''<b>'', Var_node \<lparr>fkey = Some ''user.name'', ffilters = [(''upper'', No_arg)]\<rparr>, Text_node ''</b>'']"

definition greeting_data :: layer where
  "greeting_data = [(''user'', VObj [(''name'', VText ''<i>'')])]"

lemma data_adds_no_markup_witness:
  "made_of (\<Union>n \<in> set greeting. texts n) ''<b>&lt;I&gt;</b>''"
proof (rule data_adds_no_markup [of greeting_data greeting])
  show "layer_ok greeting_data" by (auto simp: greeting_data_def layer_ok_def)
  show "list_all unsafe (concat (map vars_of greeting))" by (simp add: greeting_def unsafe_def)
  show "list_all wf_node greeting" by (simp add: greeting_def)
  show "render_nodes greeting [greeting_data] = Inr (''<b>&lt;I&gt;</b>'', [greeting_data])" by code_simp
qed

text \<open>C34: Escaping is faithful. Every text is shown by a browser as it was before it was escaped, and the escaped
  text has no character of markup.\<close>
theorem escape_roundtrip: "browser_text (escape_html s) = s \<and> bare (escape_html s)"
  by (simp add: shown_escape bare_escape)

text \<open>C29: The tokenizer inverts printing. Texts without an opening brace, no two of them next to each other, variables
  and blocks but \<^verbatim>\<open>load\<close>, whose contents are one line without the closing character and without blanks at the
  ends, written one after the other, are cut into the same tokens.\<close>
theorem tokenize_print:
  assumes "apart ts" "list_all printable ts"
  shows "tokenize (concat (map print_token ts)) = ts"
  using tokens_print [OF assms, of "[]"] by (simp add: tokenize_def plain_token_def)

lemma tokenize_print_witness:
  "tokenize ''<b>{{user.name|upper}}</b>{%endif%}'' = [Plain ''<b>'', Var ''user.name|upper'', Plain ''</b>'', Block ''endif'']"
  using tokenize_print [of "[Plain ''<b>'', Var ''user.name|upper'', Plain ''</b>'', Block ''endif'']"]
  by (simp add: inner_def js_space_def newline_def)

text \<open>C20: The radios of \<^verbatim>\<open>user-modify.html\<close> are all checked. Whatever role the user has, the template writes
  \<^verbatim>\<open>checked\<close> for every role that is not empty: of the condition \<^verbatim>\<open>role == user.role\<close> only \<^verbatim>\<open>role\<close> is read.\<close>
theorem role_radios_checked:
  "render_template user_role_radios [(''user'', VObj [(''role'', VText own)]), (''roles'', VList (map VText rs))] =
     Inr (''                      '' @ concat (map radio_text rs))"
proof -
  let ?w = "[(''user'', VObj [(''role'', VText own)]), (''roles'', VList (map VText rs))]"
  have r: "resolve_filt \<lparr>fkey = Some ''roles'', ffilters = []\<rparr> (ctx_prop [?w]) = Inr (VList (map VText rs))"
    by (simp add: resolve_filt_def resolve_path_def is_digit_def dquote_def ctx_get_def)
  show ?thesis
  proof (rule render_by_ref [OF _ parse_radios])
    show "layer_ok ?w" by (auto simp: layer_ok_def)
    show "list_all wf_node radio_nodes" by (simp add: radio_nodes_def radio_body_def)
    show "ref_nodes radio_nodes (ctx_prop [?w]) = Inr (''                      '' @ concat (map radio_text rs))"
      using radio_loop r by (simp add: radio_nodes_def loop_items_def del: ctx_prop.simps)
  qed
qed

text \<open>A condition ends at the first character that no path has. The filter that is parsed from a path
  followed by anything without a bar is the path alone, so comparisons are dropped without an error.\<close>

theorem comparison_ignored:
  assumes "w \<noteq> []" "\<forall>c \<in> set w. is_path c" "\<not> is_path d" "d \<noteq> CHR ''('' \<or> w \<noteq> ''_''" "CHR ''|'' \<notin> set (d # r)"
  shows "parse_filter (w @ d # r) = Inr \<lparr>fkey = Some w, ffilters = []\<rparr>"
  using parse_filter_first [OF assms] .

lemma comparison_ignored_witness:
  "parse_filter ''storage.volume_id == volume.id'' = Inr \<lparr>fkey = Some ''storage.volume_id'', ffilters = []\<rparr>"
  using comparison_ignored [of "''storage.volume_id''" "CHR '' ''" "''== volume.id''"]
  by (simp add: is_path_def is_word_def is_digit_def)

text \<open>With \<^verbatim>\<open>and\<close>, what is missing counts as true: when every part of a condition reads undefined or null,
  the first branch is taken under \<^verbatim>\<open>and\<close>, negated or not; under \<^verbatim>\<open>or\<close> it is taken if a part is negated.\<close>

lemma and_of_missing:
  "list_all (\<lambda>(n, f). resolve_filt f c \<in> {Inr VUndef, Inr VNull}) bs \<Longrightarrow>
     test_cond All_of bs c = Inr True \<and> test_cond Any_of bs c = Inr (list_ex fst bs)"
  by (induction bs) (auto simp: test_cond_def equals_bool_def)

end
