(* ===== verification/Json.thy ===== *)
theory Json
  imports DtlScope
begin

text \<open>
  Data as text (\<^verbatim>\<open>dojo/json\<close>): what the toolkit writes when the browser has no \<^verbatim>\<open>JSON\<close>, and \<^verbatim>\<open>JSON.parse\<close>,
  which reads answers, as the language defines it. Values are those templates read (\<open>dval\<close>). Left out, as an
  error of their own, are values that serialize themselves, numbers that are not whole and characters
  beyond the first 256.
\<close>

datatype json_error = Syntax | Not_function string | Not_modelled string

section \<open>Writing\<close>

definition linefeed :: char where "linefeed = CHR 0x0A"

definition json_string :: "string \<Rightarrow> string" where
  "json_string s =
     replace_char CHR 0x0D [backslash, CHR ''r''] (replace_char CHR 0x09 [backslash, CHR ''t'']
       (replace_char linefeed [backslash, CHR ''n''] (replace_char CHR 0x08 [backslash, CHR ''b'']
         (replace_char CHR 0x0C [backslash, CHR ''f'']
           (dquote # concat (map (\<lambda>c. if c = dquote \<or> c = backslash then [backslash, c] else [c]) s) @ [dquote])))))"

text \<open>Undefined values and functions have no text: they become null in a list and are left out of an object.
  An object is asked for \<^verbatim>\<open>toJSON\<close>, \<^verbatim>\<open>valueOf\<close> and \<^verbatim>\<open>hasOwnProperty\<close>, which its fields may hide.\<close>

definition asked :: "string list" where
  "asked = [''toJSON'', ''valueOf'', ''hasOwnProperty'']"

definition hidden_method :: "(string \<times> dval) list \<Rightarrow> json_error option" where
  "hidden_method fs = first_some (\<lambda>k. case map_of fs k of
       None \<Rightarrow> None
     | Some VFun \<Rightarrow> Some (Not_modelled k)
     | Some v \<Rightarrow> if k = ''toJSON'' then None else Some (Not_function k)) asked"

function stringify :: "dval \<Rightarrow> json_error + string option"
  and str_items :: "dval list \<Rightarrow> json_error + string list"
  and str_fields :: "(string \<times> dval) list \<Rightarrow> json_error + string list" where
  "stringify VUndef = Inr None"
| "stringify VFun = Inr None"
| "stringify VNull = Inr (Some ''null'')"
| "stringify (VBool b) = Inr (Some (if b then ''true'' else ''false''))"
| "stringify (VNum n) = Inr (Some (int_str n))"
| "stringify (VText s) = Inr (Some (json_string s))"
| "stringify (VSafe s) = Inr (Some (json_string s))"
| "stringify (VList vs) = map_sum id (\<lambda>ts. Some (''['' @ join_with '','' ts @ '']'')) (str_items vs)"
| "stringify (VObj fs) = (case hidden_method fs of
       Some e \<Rightarrow> Inl e
     | None \<Rightarrow> map_sum id (\<lambda>ts. Some (''{'' @ join_with '','' ts @ ''}'')) (str_fields fs))"
| "str_items [] = Inr []"
| "str_items (v # vs) = (case stringify v of
       Inl e \<Rightarrow> Inl e
     | Inr t \<Rightarrow> map_sum id (Cons (case t of Some s \<Rightarrow> s | None \<Rightarrow> ''null'')) (str_items vs))"
| "str_fields [] = Inr []"
| "str_fields ((k, v) # fs) = (case stringify v of
       Inl e \<Rightarrow> Inl e
     | Inr None \<Rightarrow> str_fields fs
     | Inr (Some s) \<Rightarrow> map_sum id (Cons (json_string k @ '':'' @ s)) (str_fields fs))"
  by pat_completeness auto
termination stringify
  by (relation "measure (\<lambda>x. case x of Inl v \<Rightarrow> size v
      | Inr (Inl vs) \<Rightarrow> size_list size vs | Inr (Inr fs) \<Rightarrow> size_list (size_prod (\<lambda>_. 0) size) fs)") auto

section \<open>Reading\<close>

definition json_space :: "char \<Rightarrow> bool" where
  "json_space c \<longleftrightarrow> c \<in> {CHR 0x09, linefeed, CHR 0x0D, CHR '' ''}"

definition skip_space :: "string \<Rightarrow> string" where
  "skip_space = dropWhile json_space"

definition escape_of :: "char \<Rightarrow> char option" where
  "escape_of c = map_of [(dquote, dquote), (backslash, backslash), (CHR ''/'', CHR ''/''), (CHR ''b'', CHR 0x08),
     (CHR ''f'', CHR 0x0C), (CHR ''n'', linefeed), (CHR ''r'', CHR 0x0D), (CHR ''t'', CHR 0x09)] c"

definition hex_val :: "char \<Rightarrow> nat option" where
  "hex_val c = (let n = of_char c in
     if 48 \<le> n \<and> n \<le> 57 then Some (n - 48) else if 65 \<le> n \<and> n \<le> 70 then Some (n - 55)
     else if 97 \<le> n \<and> n \<le> 102 then Some (n - 87) else None)"

definition hex4 :: "string \<Rightarrow> (nat \<times> string) option" where
  "hex4 s = (case s of
     a # b # c # d # r \<Rightarrow> (case (hex_val a, hex_val b, hex_val c, hex_val d) of
         (Some w, Some x, Some y, Some z) \<Rightarrow> Some (((w * 16 + x) * 16 + y) * 16 + z, r)
       | _ \<Rightarrow> None)
   | _ \<Rightarrow> None)"

lemma hex4_short: "hex4 s = Some (n, r) \<Longrightarrow> length r < length s"
  by (auto simp: hex4_def split: list.splits option.splits)

function string_body :: "string \<Rightarrow> json_error + string \<times> string" where
  "string_body [] = Inl Syntax"
| "string_body (c # s) =
     (if c = dquote then Inr ([], s)
      else if c = backslash then
        (case s of
           [] \<Rightarrow> Inl Syntax
         | d # t \<Rightarrow> (case escape_of d of
             Some x \<Rightarrow> map_sum id (\<lambda>(u, r). (x # u, r)) (string_body t)
           | None \<Rightarrow> (if d = CHR ''u'' then
               (case hex4 t of
                  None \<Rightarrow> Inl Syntax
                | Some (n, r) \<Rightarrow> if n < 256 then map_sum id (\<lambda>(u, q). (char_of n # u, q)) (string_body r)
                    else Inl (Not_modelled (take 4 t)))
               else Inl Syntax)))
      else if (of_char c :: nat) < 32 then Inl Syntax
      else map_sum id (\<lambda>(u, r). (c # u, r)) (string_body s))"
  by pat_completeness auto
termination by (relation "measure length") (auto dest: hex4_short)

definition number_at :: "string \<Rightarrow> json_error + dval \<times> string" where
  "number_at s =
     (let (neg, t) = (case strip_prefix ''-'' s of Some t \<Rightarrow> (True, t) | None \<Rightarrow> (False, s));
          ds = takeWhile is_digit t; r = dropWhile is_digit t
      in if ds = [] \<or> (1 < length ds \<and> hd ds = CHR ''0'') then Inl Syntax
         else if r \<noteq> [] \<and> hd r \<in> {CHR ''.'', CHR ''e'', CHR ''E''} then Inl (Not_modelled s)
         else Inr (VNum (if neg then - int (digits_val 0 ds) else int (digits_val 0 ds)), r))"

definition word_at :: "string \<Rightarrow> (dval \<times> string) option" where
  "word_at s = first_some (\<lambda>(w, v). map_option (Pair v) (strip_prefix w s))
     [(''true'', VBool True), (''false'', VBool False), (''null'', VNull)]"

text \<open>A later field of the same name takes the place of the earlier one.\<close>

definition object_of :: "(string \<times> dval) list \<Rightarrow> dval" where
  "object_of fs = VObj (fold (\<lambda>(k, v). AList.update k v) fs [])"

definition after :: "char \<Rightarrow> string \<Rightarrow> string option" where
  "after c s = strip_prefix [c] (skip_space s)"

lemma skip_space_short: "length (skip_space s) \<le> length s"
  by (simp add: skip_space_def length_dropWhile_le)

lemma skip_space_Cons_short: "skip_space s = c # t \<Longrightarrow> length t < length s"
  using skip_space_short [of s] by simp

lemma after_short: "after c s = Some t \<Longrightarrow> length t < length s"
  by (auto simp: after_def strip_prefix_Some dest: skip_space_Cons_short)

definition field_name :: "string \<Rightarrow> json_error + string \<times> string" where
  "field_name s =
     (case after dquote s of
        None \<Rightarrow> Inl Syntax
      | Some t \<Rightarrow> (case string_body t of
          Inl e \<Rightarrow> Inl e
        | Inr (k, r) \<Rightarrow> (case after CHR '':'' r of None \<Rightarrow> Inl Syntax | Some p \<Rightarrow> Inr (k, p))))"

text \<open>What follows an element is read only if it is shorter than what came_back before, which always holds.\<close>

function value_at :: "string \<Rightarrow> json_error + dval \<times> string"
  and items_at :: "string \<Rightarrow> json_error + dval list \<times> string"
  and fields_at :: "string \<Rightarrow> json_error + (string \<times> dval) list \<times> string" where
  "value_at s =
     (case skip_space s of
        [] \<Rightarrow> Inl Syntax
      | c # t \<Rightarrow>
          if c = dquote then map_sum id (\<lambda>(u, r). (VText u, r)) (string_body t)
          else if c = CHR ''['' then
            (case after CHR '']'' t of
               Some r \<Rightarrow> Inr (VList [], r)
             | None \<Rightarrow> map_sum id (\<lambda>(vs, r). (VList vs, r)) (items_at t))
          else if c = CHR ''{'' then
            (case after CHR ''}'' t of
               Some r \<Rightarrow> Inr (VObj [], r)
             | None \<Rightarrow> map_sum id (\<lambda>(fs, r). (object_of fs, r)) (fields_at t))
          else (case word_at (c # t) of Some x \<Rightarrow> Inr x | None \<Rightarrow> number_at (c # t)))"
| "items_at s =
     (case value_at s of
        Inl e \<Rightarrow> Inl e
      | Inr (v, r) \<Rightarrow> (case after CHR '']'' r of
          Some q \<Rightarrow> Inr ([v], q)
        | None \<Rightarrow> (case after CHR '','' r of
            None \<Rightarrow> Inl Syntax
          | Some q \<Rightarrow> if length q < length s then map_sum id (\<lambda>(vs, p). (v # vs, p)) (items_at q) else Inl Syntax)))"
| "fields_at s =
     (case field_name s of
        Inl e \<Rightarrow> Inl e
      | Inr (k, p) \<Rightarrow>
          if \<not> length p < length s then Inl Syntax
          else (case value_at p of
             Inl e \<Rightarrow> Inl e
           | Inr (v, q) \<Rightarrow> (case after CHR ''}'' q of
               Some z \<Rightarrow> Inr ([(k, v)], z)
             | None \<Rightarrow> (case after CHR '','' q of
                 None \<Rightarrow> Inl Syntax
               | Some z \<Rightarrow> if length z < length s then map_sum id (\<lambda>(fs, y). ((k, v) # fs, y)) (fields_at z)
                   else Inl Syntax))))"
  by pat_completeness auto

termination value_at
  by (relation "measures [\<lambda>x. case x of Inl s \<Rightarrow> length s | Inr (Inl s) \<Rightarrow> length s | Inr (Inr s) \<Rightarrow> length s,
      \<lambda>x. case x of Inl s \<Rightarrow> 0 | _ \<Rightarrow> 1]") (auto dest: skip_space_Cons_short)

declare value_at.simps [simp del] items_at.simps [simp del] fields_at.simps [simp del]

definition json_parse :: "string \<Rightarrow> json_error + dval" where
  "json_parse s = (case value_at s of
     Inl e \<Rightarrow> Inl e
   | Inr (v, r) \<Rightarrow> if skip_space r = [] then Inr v else Inl Syntax)"


section \<open>What is written is read again\<close>

definition json_char :: "char \<Rightarrow> string" where
  "json_char c = (if c = dquote \<or> c = backslash then [backslash, c] else if c = CHR 0x0C then [backslash, CHR ''f'']
     else if c = CHR 0x08 then [backslash, CHR ''b''] else if c = linefeed then [backslash, CHR ''n'']
     else if c = CHR 0x09 then [backslash, CHR ''t''] else if c = CHR 0x0D then [backslash, CHR ''r''] else [c])"

lemma json_string_chars: "json_string s = dquote # concat (map json_char s) @ [dquote]"
proof -
  have "replace_char CHR 0x0D [backslash, CHR ''r''] (replace_char CHR 0x09 [backslash, CHR ''t'']
       (replace_char linefeed [backslash, CHR ''n''] (replace_char CHR 0x08 [backslash, CHR ''b'']
         (replace_char CHR 0x0C [backslash, CHR ''f'']
           (concat (map (\<lambda>c. if c = dquote \<or> c = backslash then [backslash, c] else [c]) s))))))
     = concat (map json_char s)"
    by (induction s) (simp_all add: json_char_def dquote_def backslash_def linefeed_def)
  then show ?thesis by (simp add: json_string_def dquote_def linefeed_def)
qed

text \<open>The control characters that have no escape of one letter are written as they are, and not read.\<close>

definition writable :: "string \<Rightarrow> bool" where
  "writable s \<longleftrightarrow> list_all (\<lambda>c. 32 \<le> (of_char c :: nat) \<or> c \<in> {CHR 0x0C, CHR 0x08, linefeed, CHR 0x09, CHR 0x0D}) s"

lemma string_body_char:
  assumes "32 \<le> (of_char c :: nat) \<or> c \<in> {CHR 0x0C, CHR 0x08, linefeed, CHR 0x09, CHR 0x0D}"
  shows "string_body (json_char c @ s) = map_sum id (\<lambda>(u, r). (c # u, r)) (string_body s)"
  using assms by (auto simp: json_char_def escape_of_def dquote_def backslash_def linefeed_def)

lemma string_body_written: "writable s \<Longrightarrow> string_body (concat (map json_char s) @ dquote # r) = Inr (s, r)"
  by (induction s) (simp_all add: writable_def string_body_char del: string_body.simps(2), simp)

lemma string_body_control:
  assumes "writable s" "(of_char c :: nat) < 32" "c \<notin> {CHR 0x0C, CHR 0x08, linefeed, CHR 0x09, CHR 0x0D}"
  shows "string_body (concat (map json_char (s @ c # t)) @ r) = Inl Syntax"
  using assms(1)
proof (induction s)
  case Nil
  have "c \<noteq> dquote" "c \<noteq> backslash" using assms(2) by (auto simp: dquote_def backslash_def)
  with assms(2,3) show ?case by (simp add: json_char_def)
qed (simp add: writable_def string_body_char del: string_body.simps)

fun storable :: "dval \<Rightarrow> bool" where
  "storable VNull = True"
| "storable (VBool b) = True"
| "storable (VNum n) = True"
| "storable (VText s) = writable s"
| "storable (VList vs) = list_all storable vs"
| "storable (VObj fs) = (distinct (map fst fs) \<and> hidden_method fs = None \<and>
     list_all (\<lambda>e. writable (fst e) \<and> storable (snd e)) fs)"
| "storable _ = False"

definition starts :: "string \<Rightarrow> bool" where
  "starts t \<longleftrightarrow> t \<noteq> [] \<and> \<not> json_space (hd t) \<and> hd t \<notin> {CHR '']'', CHR ''}'', CHR '',''}"

definition ends :: "string \<Rightarrow> bool" where
  "ends r \<longleftrightarrow> r = [] \<or> hd r \<in> {CHR '']'', CHR ''}'', CHR '',''}"

definition reads :: "string \<Rightarrow> dval \<Rightarrow> bool" where
  "reads t v \<longleftrightarrow> starts t \<and> (\<forall>r. ends r \<longrightarrow> value_at (t @ r) = Inr (v, r))"

lemma skip_starts: "starts t \<Longrightarrow> skip_space (t @ r) = t @ r"
  by (cases t) (simp_all add: starts_def skip_space_def)

lemma after_starts: "starts t \<Longrightarrow> c \<in> {CHR '']'', CHR ''}'', CHR '',''} \<Longrightarrow> after c (t @ r) = None"
  using skip_starts [of t r] by (cases t) (auto simp: after_def starts_def)

lemma after_hit [simp]: "\<not> json_space c \<Longrightarrow> after c (c # r) = Some r"
  by (simp add: after_def skip_space_def)

lemma after_miss [simp]: "\<not> json_space d \<Longrightarrow> c \<noteq> d \<Longrightarrow> after c (d # r) = None"
  by (simp add: after_def skip_space_def)

lemma json_space_marks [simp]: "\<not> json_space CHR '']''" "\<not> json_space CHR ''}''" "\<not> json_space CHR '',''"
  "\<not> json_space CHR '':''" "\<not> json_space dquote" "\<not> json_space CHR ''[''" "\<not> json_space CHR ''{''"
  by (simp_all add: json_space_def linefeed_def dquote_def)

lemma ends_marks [simp]: "ends []" "ends (CHR '']'' # r)" "ends (CHR ''}'' # r)" "ends (CHR '','' # r)"
  by (simp_all add: ends_def)

lemma ends_not_digit: "ends r \<Longrightarrow> takeWhile is_digit r = [] \<and> dropWhile is_digit r = r"
  by (cases r) (auto simp: ends_def is_digit_def)

lemma nat_str_first: "n \<noteq> 0 \<Longrightarrow> hd (nat_str n) \<noteq> CHR ''0''"
proof (induction n rule: nat_str.induct)
  case (1 n)
  show ?case
  proof (cases "n < 10")
    case True
    have "(of_char (digit_char n) :: nat) \<noteq> of_char CHR ''0''" using True 1(2) by simp
    with True show ?thesis by (metis list.sel(1) nat_str.simps)
  next
    case False
    with 1 show ?thesis by (subst nat_str.simps) (simp add: hd_append)
  qed
qed

lemma number_written:
  assumes "ends r"
  shows "number_at (int_str n @ r) = Inr (VNum n, r)"
proof -
  let ?m = "nat \<bar>n\<bar>"
  have d: "takeWhile is_digit (nat_str ?m @ r) = nat_str ?m" "dropWhile is_digit (nat_str ?m @ r) = r"
    using ends_not_digit [OF assms] nat_str_digits by (auto simp: takeWhile_append dropWhile_append)
  have z: "\<not> (1 < length (nat_str ?m) \<and> hd (nat_str ?m) = CHR ''0'')"
    using nat_str_first [of ?m] by (cases "?m = 0") (simp_all add: nat_str.simps [of 0])
  have e: "\<not> (r \<noteq> [] \<and> hd r \<in> {CHR ''.'', CHR ''e'', CHR ''E''})"
    using assms by (auto simp: ends_def)
  have "hd (nat_str ?m) \<noteq> CHR ''-''"
    using nat_str_digits [of "hd (nat_str ?m)" ?m] by (auto simp: is_digit_def)
  then have s: "strip_prefix ''-'' (nat_str ?m @ r) = None"
    by (cases "nat_str ?m") auto
  show ?thesis
  proof (cases "n < 0")
    case True
    then have "int_str n = CHR ''-'' # nat_str ?m" by (simp add: int_str_def abs_if)
    with True d z e show ?thesis by (simp add: number_at_def Let_def)
  next
    case False
    then have "int_str n = nat_str ?m" by (simp add: int_str_def abs_if)
    with False d z e s show ?thesis by (simp add: number_at_def Let_def)
  qed
qed

lemma int_str_first: "\<exists>c s. int_str n = c # s \<and> (c = CHR ''-'' \<or> is_digit c)"
proof (cases "n < 0")
  case False
  then show ?thesis
    using nat_str_digits [of "hd (nat_str (nat n))" "nat n"] by (cases "nat_str (nat n)") (auto simp: int_str_def)
qed (simp add: int_str_def)

lemma digit_not: "c = CHR ''-'' \<or> is_digit c \<Longrightarrow> c \<notin> {dquote, CHR ''['', CHR ''{'', CHR '']'', CHR ''}'', CHR '','', CHR ''t'', CHR ''f'', CHR ''n''}
     \<and> \<not> json_space c"
  by (auto simp: is_digit_def dquote_def json_space_def linefeed_def)

lemma value_at_Cons: "\<not> json_space c \<Longrightarrow> value_at (c # u) =
     (if c = dquote then map_sum id (\<lambda>(u, r). (VText u, r)) (string_body u)
      else if c = CHR ''['' then
        (case after CHR '']'' u of
           Some r \<Rightarrow> Inr (VList [], r)
         | None \<Rightarrow> map_sum id (\<lambda>(vs, r). (VList vs, r)) (items_at u))
      else if c = CHR ''{'' then
        (case after CHR ''}'' u of
           Some r \<Rightarrow> Inr (VObj [], r)
         | None \<Rightarrow> map_sum id (\<lambda>(fs, r). (object_of fs, r)) (fields_at u))
      else (case word_at (c # u) of Some x \<Rightarrow> Inr x | None \<Rightarrow> number_at (c # u)))"
  by (subst value_at.simps) (simp add: skip_space_def)

lemma reads_word: "(w, v) \<in> {(''true'', VBool True), (''false'', VBool False), (''null'', VNull)} \<Longrightarrow> reads w v"
  unfolding reads_def
  by (auto simp: value_at_Cons starts_def json_space_def linefeed_def dquote_def word_at_def)

lemma reads_number: "reads (int_str n) (VNum n)"
proof -
  obtain c s where c: "int_str n = c # s" "c = CHR ''-'' \<or> is_digit c" using int_str_first by blast
  note d = digit_not [OF c(2)]
  then have "starts (int_str n)" using c(1) by (simp add: starts_def)
  moreover have "word_at (int_str n @ r) = None" for r using c(1) d by (auto simp: word_at_def)
  moreover have "ends r \<Longrightarrow> value_at (int_str n @ r) = number_at (int_str n @ r)" for r
    using d calculation(2) [of r] unfolding c(1) by (simp add: value_at_Cons)
  ultimately show ?thesis using number_written by (simp add: reads_def)
qed

lemma reads_string: "writable s \<Longrightarrow> reads (json_string s) (VText s)"
  by (simp add: reads_def json_string_chars starts_def value_at_Cons string_body_written)
    (simp add: dquote_def)

lemma object_of_distinct: "distinct (map fst fs) \<Longrightarrow> object_of fs = VObj fs"
proof -
  have "distinct (map fst (acc @ fs)) \<Longrightarrow> fold (\<lambda>(k, v). AList.update k v) fs acc = acc @ fs" for acc
  proof (induction fs arbitrary: acc)
    case (Cons e fs)
    obtain k v where e: "e = (k, v)" by (cases e)
    with Cons.prems have "k \<notin> fst ` set acc" by auto
    then have "AList.update k v acc = acc @ [(k, v)]" by (induction acc) auto
    with Cons.IH [of "acc @ [e]"] Cons.prems e show ?case by simp
  qed simp
  from this [of "[]"] show "distinct (map fst fs) \<Longrightarrow> ?thesis" by (simp add: object_of_def)
qed

text \<open>The texts of a list's items and of an object's fields, with what is read from them.\<close>

lemma join_Cons: "ts \<noteq> [] \<Longrightarrow> join_with '','' (t # ts) @ r = t @ CHR '','' # join_with '','' ts @ r"
  by (cases ts) simp_all

lemma items_at_written:
  "list_all2 reads ts vs \<Longrightarrow> vs \<noteq> [] \<Longrightarrow> items_at (join_with '','' ts @ CHR '']'' # r) = Inr (vs, r)"
proof (induction ts vs rule: list_all2_induct)
  case (Cons t ts v vs)
  show ?case
  proof (cases vs)
    case Nil
    with Cons have "value_at (t @ CHR '']'' # r) = Inr (v, CHR '']'' # r)" "ts = []" by (auto simp: reads_def)
    with Nil show ?thesis by (simp add: items_at.simps)
  next
    case (Cons w ws)
    with Cons.hyps(2) have ts: "ts \<noteq> []" by auto
    let ?q = "join_with '','' ts @ CHR '']'' # r"
    have "value_at (t @ CHR '','' # ?q) = Inr (v, CHR '','' # ?q)" using Cons.hyps(1) by (simp add: reads_def)
    moreover have "items_at ?q = Inr (vs, r)" using Cons.IH Cons by simp
    ultimately show ?thesis unfolding join_Cons [OF ts] by (simp add: items_at.simps [of "t @ _"])
  qed
qed simp

definition field_reads :: "string \<Rightarrow> string \<times> dval \<Rightarrow> bool" where
  "field_reads t e \<longleftrightarrow> (\<exists>s. t = json_string (fst e) @ CHR '':'' # s \<and> writable (fst e) \<and> reads s (snd e))"

lemma field_name_written: "writable k \<Longrightarrow> field_name (json_string k @ CHR '':'' # r) = Inr (k, r)"
  by (simp add: field_name_def json_string_chars string_body_written)

lemma field_at:
  assumes "field_reads t e" "ends q"
  shows "\<exists>p. field_name (t @ q) = Inr (fst e, p) \<and> length p < length (t @ q) \<and> value_at p = Inr (snd e, q)"
proof -
  obtain s where s: "t = json_string (fst e) @ CHR '':'' # s" "writable (fst e)" "reads s (snd e)"
    using assms(1) by (auto simp: field_reads_def)
  with assms(2) have "field_name (t @ q) = Inr (fst e, s @ q)" "value_at (s @ q) = Inr (snd e, q)"
    by (simp_all add: field_name_written reads_def)
  with s(1) show ?thesis by simp
qed

lemma fields_at_written:
  "list_all2 field_reads ts fs \<Longrightarrow> fs \<noteq> [] \<Longrightarrow> fields_at (join_with '','' ts @ CHR ''}'' # r) = Inr (fs, r)"
proof (induction ts fs rule: list_all2_induct)
  case (Cons t ts e fs)
  show ?case
  proof (cases fs)
    case Nil
    with Cons have ts: "ts = []" by simp
    obtain p where "field_name (t @ CHR ''}'' # r) = Inr (fst e, p)" "length p < length (t @ CHR ''}'' # r)"
        "value_at p = Inr (snd e, CHR ''}'' # r)"
      using field_at [OF Cons.hyps(1), of "CHR ''}'' # r"] by auto
    with Nil ts show ?thesis by (simp add: fields_at.simps)
  next
    case (Cons w ws)
    with Cons.hyps(2) have ts: "ts \<noteq> []" by auto
    let ?q = "join_with '','' ts @ CHR ''}'' # r"
    obtain p where "field_name (t @ CHR '','' # ?q) = Inr (fst e, p)" "length p < length (t @ CHR '','' # ?q)"
        "value_at p = Inr (snd e, CHR '','' # ?q)"
      using field_at [OF Cons.hyps(1), of "CHR '','' # ?q"] by auto
    moreover have "fields_at ?q = Inr (fs, r)" using Cons.IH Cons by simp
    ultimately show ?thesis unfolding join_Cons [OF ts] by (simp add: fields_at.simps [of "t @ _"])
  qed
qed simp

lemma join_first: "ts \<noteq> [] \<Longrightarrow> hd ts \<noteq> [] \<Longrightarrow> hd (join_with c ts @ r) = hd (hd ts) \<and> join_with c ts \<noteq> []"
  by (cases ts; cases "tl ts") (auto simp: hd_append)

lemma starts_join: "list_all2 reads ts vs \<Longrightarrow> vs \<noteq> [] \<Longrightarrow> starts (join_with '','' ts)"
  by (cases ts; cases vs; cases "tl ts") (auto simp: starts_def reads_def hd_append)

lemma starts_join_fields: "list_all2 field_reads ts fs \<Longrightarrow> fs \<noteq> [] \<Longrightarrow> starts (join_with '','' ts)"
  by (cases ts; cases fs; cases "tl ts")
    (auto simp: starts_def field_reads_def json_string_chars, (simp_all add: dquote_def)?)

lemma reads_list:
  assumes "list_all2 reads ts vs"
  shows "reads (''['' @ join_with '','' ts @ '']'') (VList vs)"
proof (cases "vs = []")
  case True
  with assms show ?thesis by (simp add: reads_def value_at_Cons starts_def) (simp add: dquote_def)
next
  case False
  have "value_at ((''['' @ join_with '','' ts @ '']'') @ r) = Inr (VList vs, r)" for r
    using items_at_written [OF assms False, of r] after_starts [OF starts_join [OF assms False], of "CHR '']''" "CHR '']'' # r"]
    by (simp add: value_at_Cons) (simp add: dquote_def)
  then show ?thesis by (simp add: reads_def starts_def)
qed

lemma reads_object:
  assumes "list_all2 field_reads ts fs" "distinct (map fst fs)"
  shows "reads (''{'' @ join_with '','' ts @ ''}'') (VObj fs)"
proof (cases "fs = []")
  case True
  with assms show ?thesis by (simp add: reads_def value_at_Cons starts_def) (simp add: dquote_def)
next
  case False
  have "value_at ((''{'' @ join_with '','' ts @ ''}'') @ r) = Inr (VObj fs, r)" for r
    using fields_at_written [OF assms(1) False, of r] object_of_distinct [OF assms(2)]
      after_starts [OF starts_join_fields [OF assms(1) False], of "CHR ''}''" "CHR ''}'' # r"]
    by (simp add: value_at_Cons) (simp add: dquote_def)
  then show ?thesis by (simp add: reads_def starts_def)
qed

lemma storable_reads:
  "storable v \<Longrightarrow> \<exists>t. stringify v = Inr (Some t) \<and> reads t v"
  "list_all storable vs \<Longrightarrow> \<exists>ts. str_items vs = Inr ts \<and> list_all2 reads ts vs"
  "list_all (\<lambda>e. writable (fst e) \<and> storable (snd e)) fs \<Longrightarrow> \<exists>ts. str_fields fs = Inr ts \<and> list_all2 field_reads ts fs"
proof (induction v and vs and fs rule: stringify_str_items_str_fields.induct)
  case (9 fs)
  then obtain ts where "str_fields fs = Inr ts" "list_all2 field_reads ts fs" by auto
  with reads_object [OF this(2)] 9 show ?case by auto
next
  case (8 vs)
  then obtain ts where "str_items vs = Inr ts" "list_all2 reads ts vs" by auto
  with reads_list [OF this(2)] show ?case by auto
next
  case (13 k v fs)
  then obtain t ts where "stringify v = Inr (Some t)" "reads t v" "str_fields fs = Inr ts" "list_all2 field_reads ts fs" by auto
  with 13 show ?case by (auto simp: field_reads_def)
qed (auto simp: reads_word reads_number reads_string)

lemma update_json: "\<forall>e \<in> set acc. is_json (snd e) \<Longrightarrow> is_json v \<Longrightarrow> \<forall>e \<in> set (AList.update k v acc). is_json (snd e)"
  by (induction acc) (auto split: if_splits)

lemma object_of_json: "\<forall>e \<in> set fs. is_json (snd e) \<Longrightarrow> is_json (object_of fs)"
proof -
  have "\<forall>e \<in> set (acc @ fs). is_json (snd e) \<Longrightarrow> \<forall>e \<in> set (fold (\<lambda>(k, v). AList.update k v) fs acc). is_json (snd e)" for acc
  proof (induction fs arbitrary: acc)
    case (Cons e fs)
    then have "\<forall>e \<in> set (AList.update (fst e) (snd e) acc). is_json (snd e)" by (intro update_json) auto
    with Cons show ?case by (cases e) auto
  qed simp
  from this [of "[]"] show "\<forall>e \<in> set fs. is_json (snd e) \<Longrightarrow> ?thesis" by (simp add: object_of_def)
qed

lemma word_at_json: "word_at s = Some (v, r) \<Longrightarrow> is_json v"
  by (auto simp: word_at_def split: option.splits)

lemma number_at_json: "number_at s = Inr (v, r) \<Longrightarrow> is_json v"
  by (auto simp: number_at_def Let_def split: if_splits prod.splits)

lemma map_sum_Inr: "map_sum id g x = Inr y \<longleftrightarrow> (\<exists>z. x = Inr z \<and> y = g z)"
  by (cases x) auto

lemma read_json:
  "value_at s = Inr (v, r) \<Longrightarrow> is_json v"
  "items_at s = Inr (vs, r) \<Longrightarrow> \<forall>v \<in> set vs. is_json v"
  "fields_at s = Inr (fs, r) \<Longrightarrow> \<forall>e \<in> set fs. is_json (snd e)"
proof (induction s and s and s arbitrary: v r and vs r and fs r rule: value_at_items_at_fields_at.induct)
  case (1 s)
  from 1(3) obtain c t where c: "skip_space s = c # t" by (subst (asm) value_at.simps) (auto split: list.splits)
  from 1(3) show ?case
    unfolding value_at.simps [of s] c using 1(1,2) [OF c]
    by (auto simp: map_sum_Inr dest: word_at_json number_at_json intro: object_of_json split: if_splits option.splits)
next
  case (2 s)
  from 2(3) obtain a b where a: "value_at s = Inr (a, b)" by (subst (asm) items_at.simps) (auto split: sum.splits)
  show ?case
  proof (cases "after CHR '']'' b")
    case None
    with 2(3) a obtain q us where q: "after CHR '','' b = Some q" "length q < length s" "items_at q = Inr (us, r)" "vs = a # us"
      by (subst (asm) items_at.simps) (auto simp: map_sum_Inr split: option.splits if_splits)
    from 2(1) [OF a] 2(2) [OF a refl None q(1,2,3)] q(4) show ?thesis by simp
  next
    case (Some q)
    with 2(1) [OF a] 2(3) a show ?thesis by (subst (asm) items_at.simps) auto
  qed
next
  case (3 s)
  from 3(3) obtain k p v q where a: "field_name s = Inr (k, p)" "length p < length s" "value_at p = Inr (v, q)"
    by (subst (asm) fields_at.simps) (auto split: sum.splits if_splits)
  have v: "is_json v" using 3(1) [OF a(1) refl] a(2,3) by simp
  show ?case
  proof (cases "after CHR ''}'' q")
    case None
    with 3(3) a obtain z us where z: "after CHR '','' q = Some z" "length z < length s" "fields_at z = Inr (us, r)" "fs = (k, v) # us"
      by (subst (asm) fields_at.simps) (auto simp: map_sum_Inr split: option.splits if_splits)
    from 3(2) [OF a(1) refl _ a(3) refl None z(1,2,3)] a(2) z(4) v show ?thesis by simp
  next
    case (Some z)
    with v 3(3) a show ?thesis by (subst (asm) fields_at.simps) auto
  qed
qed

lemma json_parse_is_json: "json_parse s = Inr v \<Longrightarrow> is_json v"
  by (auto simp: json_parse_def dest: read_json(1) split: sum.splits if_splits)

lemma json_written: "storable v \<Longrightarrow> \<exists>t. stringify v = Inr (Some t) \<and> json_parse t = Inr v"
proof -
  assume "storable v"
  from storable_reads(1) [OF this] obtain t where t: "stringify v = Inr (Some t)" "reads t v" by blast
  then have "value_at (t @ []) = Inr (v, [])" unfolding reads_def by (metis ends_marks(1))
  with t(1) show ?thesis by (simp add: json_parse_def skip_space_def)
qed

text \<open>C32: What is written as JSON is read back. A value with distinct names, none of them one an object is asked
  for, whose texts have no control character without an escape, has a text, and reading it gives the value.\<close>
theorem json_roundtrip:
  assumes "storable v"
  shows "\<exists>t. stringify v = Inr (Some t) \<and> json_parse t = Inr v"
  by (rule json_written [OF assms])

definition sample_value :: dval where
  "sample_value = VObj [(''name'', VText [CHR ''a'', dquote, linefeed]), (''ids'', VList [VNum (- 40), VNull]), ([], VObj [])]"

lemma json_roundtrip_witness: "\<exists>t. stringify sample_value = Inr (Some t) \<and> json_parse t = Inr sample_value"
  by (rule json_roundtrip) (simp add: sample_value_def writable_def hidden_method_def asked_def dquote_def linefeed_def)

text \<open>Other control characters are written and not read. The toolkit's \<^verbatim>\<open>stringify\<close> leaves a control
  character other than those it knows an escape for as it is, and reading its text is a syntax error.\<close>

theorem control_unreadable:
  assumes "writable s" "(of_char c :: nat) < 32" "c \<notin> {CHR 0x0C, CHR 0x08, linefeed, CHR 0x09, CHR 0x0D}"
  shows "\<exists>u. stringify (VText (s @ c # t)) = Inr (Some u) \<and> json_parse u = Inl Syntax"
  using string_body_control [OF assms, of t "[dquote]"]
  by (simp add: json_parse_def json_string_chars value_at_Cons)

lemma control_unreadable_witness: "\<exists>u. stringify (VText ([CHR ''a''] @ CHR 0x01 # [])) = Inr (Some u) \<and> json_parse u = Inl Syntax"
  by (rule control_unreadable) (simp_all add: writable_def linefeed_def)

end
