(* ===== verification/Query.thy ===== *)
theory Query
  imports Json
begin

text \<open>
  Query strings (\<^verbatim>\<open>dojo/io-query\<close>), with \<^verbatim>\<open>encodeURIComponent\<close> and \<^verbatim>\<open>decodeURIComponent\<close> of the language: a
  text is written as UTF-8, each byte that is not a letter, a digit or one of nine marks as two hexadecimal
  digits. A text has characters up to 255; what decodes to another one is an error of its own (\<open>Wide\<close>).
\<close>

section \<open>Percent-encoding\<close>

datatype uri_error = Bad_uri | Wide

definition unreserved :: "char \<Rightarrow> bool" where
  "unreserved c \<longleftrightarrow> is_word c \<or> c \<in> {CHR ''-'', CHR ''.'', CHR ''!'', CHR ''~'', CHR ''*'', quote, CHR ''('', CHR '')''}"

definition upper_hex :: "nat \<Rightarrow> char" where
  "upper_hex n = char_of (if n < 10 then 48 + n else 55 + n)"

definition utf8 :: "nat \<Rightarrow> nat list" where
  "utf8 n = (if n < 128 then [n] else [192 + n div 64, 128 + n mod 64])"

definition percent :: "nat \<Rightarrow> string" where
  "percent b = [CHR ''%'', upper_hex (b div 16), upper_hex (b mod 16)]"

definition encode_char :: "char \<Rightarrow> string" where
  "encode_char c = (if unreserved c then [c] else concat (map percent (utf8 (of_char c))))"

definition encode_uri :: "string \<Rightarrow> string" where
  "encode_uri s = concat (map encode_char s)"

definition percent_at :: "string \<Rightarrow> (nat \<times> string) option" where
  "percent_at s = (case s of
     p # a # b # r \<Rightarrow> if p \<noteq> CHR ''%'' then None
       else (case (hex_val a, hex_val b) of (Some x, Some y) \<Rightarrow> Some (x * 16 + y, r) | _ \<Rightarrow> None)
   | _ \<Rightarrow> None)"

lemma percent_at_short: "percent_at s = Some (b, r) \<Longrightarrow> length r < length s"
  by (auto simp: percent_at_def split: list.splits option.splits if_splits)

text \<open>The octets of a character: one, or a leading one with as many that continue it. Of the longer ones only
  those of two octets can be a character of the model; the shortest form is required.\<close>

definition octets_at :: "string \<Rightarrow> uri_error + char \<times> string" where
  "octets_at s = (case percent_at s of
     None \<Rightarrow> Inl Bad_uri
   | Some (b, r) \<Rightarrow>
       if b < 128 then Inr (char_of b, r)
       else if b < 194 \<or> 244 < b then Inl Bad_uri
       else (case percent_at r of
           None \<Rightarrow> Inl Bad_uri
         | Some (d, q) \<Rightarrow>
             if d div 64 \<noteq> 2 then Inl Bad_uri
             else if b < 196 then Inr (char_of ((b - 192) * 64 + (d - 128)), q)
             else Inl Wide))"

lemma octets_at_short: "octets_at s = Inr (c, r) \<Longrightarrow> length r < length s"
  by (auto simp: octets_at_def dest!: percent_at_short split: option.splits if_splits)

function decode_uri :: "string \<Rightarrow> uri_error + string" where
  "decode_uri [] = Inr []"
| "decode_uri (c # s) =
     (if c \<noteq> CHR ''%'' then map_sum id (Cons c) (decode_uri s)
      else (case octets_at (c # s) of
          Inl e \<Rightarrow> Inl e
        | Inr (d, r) \<Rightarrow> map_sum id (Cons d) (decode_uri r)))"
  by pat_completeness auto
termination by (relation "measure length") (auto dest: octets_at_short)

lemma upper_hex_val [simp]: "n < 16 \<Longrightarrow> hex_val (upper_hex n) = Some n"
  by (auto simp: hex_val_def upper_hex_def Let_def)

lemma percent_at_percent [simp]: "b < 256 \<Longrightarrow> percent_at (percent b @ r) = Some (b, r)"
  by (simp add: percent_at_def percent_def)

lemma of_char_less: "(of_char c :: nat) < 256"
  using of_char_mod_256 [of c, where ?'a = nat] by (metis mod_less_divisor zero_less_numeral)

lemma unreserved_not_percent: "\<not> unreserved CHR ''%''"
  by (simp add: unreserved_def is_word_def is_digit_def quote_def)

lemma decode_encode_char: "decode_uri (encode_char c @ s) = map_sum id (Cons c) (decode_uri s)"
proof (cases "unreserved c")
  case True
  then have "c \<noteq> CHR ''%''" using unreserved_not_percent by auto
  with True show ?thesis by (simp add: encode_char_def)
next
  case False
  let ?n = "of_char c :: nat"
  have n: "?n < 256" by (rule of_char_less)
  have o: "octets_at (encode_char c @ s) = Inr (c, s)"
  proof (cases "?n < 128")
    case True
    with False n show ?thesis by (simp add: encode_char_def utf8_def octets_at_def)
  next
    case big: False
    have "?n div 64 < 4" by (rule less_mult_imp_div_less) (use n in simp)
    moreover have "2 \<le> ?n div 64" using div_le_mono [of 128 ?n 64] big by simp
    moreover have "(?n div 64) * 64 + ?n mod 64 = ?n" by simp
    moreover have p: "percent_at (percent (192 + ?n div 64) @ r) = Some (192 + ?n div 64, r)"
        "percent_at (percent (128 + ?n mod 64) @ r) = Some (128 + ?n mod 64, r)" for r
    proof -
      have "192 + ?n div 64 < 256" using \<open>?n div 64 < 4\<close> by linarith
      moreover have "128 + ?n mod 64 < 256" using mod_less_divisor [of 64 ?n] by linarith
      ultimately show "percent_at (percent (192 + ?n div 64) @ r) = Some (192 + ?n div 64, r)"
          "percent_at (percent (128 + ?n mod 64) @ r) = Some (128 + ?n mod 64, r)"
        by (simp_all only: percent_at_percent)
    qed
    moreover have "(192 + ?n div 64 - 192) * 64 + (128 + ?n mod 64 - 128) = ?n" "(128 + ?n mod 64) div 64 = 2" by simp_all
    ultimately show ?thesis using False big
      by (simp add: encode_char_def utf8_def octets_at_def p del: percent_at_percent)
  qed
  obtain u where "encode_char c @ s = CHR ''%'' # u"
    using False by (cases "?n < 128") (auto simp: encode_char_def utf8_def percent_def)
  with o show ?thesis by simp
qed

lemma decode_encode: "decode_uri (encode_uri s) = Inr s"
  by (induction s) (simp_all add: encode_uri_def decode_encode_char)

lemma upper_hex_chars: "n < 16 \<Longrightarrow> upper_hex n \<noteq> CHR ''&'' \<and> upper_hex n \<noteq> CHR ''=''"
proof -
  assume "n < 16"
  moreover have "hex_val CHR ''&'' = None" "hex_val CHR ''='' = None" by (simp_all add: hex_val_def Let_def)
  ultimately show ?thesis using upper_hex_val [of n] by (metis option.distinct(1))
qed

lemma encode_uri_marks: "c \<in> set (encode_uri s) \<Longrightarrow> c \<noteq> CHR ''&'' \<and> c \<noteq> CHR ''=''"
proof -
  have p: "c \<in> set (percent b) \<Longrightarrow> b < 256 \<Longrightarrow> c \<noteq> CHR ''&'' \<and> c \<noteq> CHR ''=''" for b
    using upper_hex_chars [of "b div 16"] upper_hex_chars [of "b mod 16"] by (auto simp: percent_def less_mult_imp_div_less)
  have u: "b \<in> set (utf8 n) \<Longrightarrow> n < 256 \<Longrightarrow> b < 256" for b n by (auto simp: utf8_def split: if_splits)
  have "\<not> unreserved CHR ''&''" "\<not> unreserved CHR ''=''"
    by (simp_all add: unreserved_def is_word_def is_digit_def quote_def)
  then have "c \<in> set (encode_char d) \<Longrightarrow> c \<noteq> CHR ''&'' \<and> c \<noteq> CHR ''=''" for d
    using p u [OF _ of_char_less [of d]] by (fastforce simp: encode_char_def split: if_splits)
  then show "c \<in> set (encode_uri s) \<Longrightarrow> ?thesis" by (auto simp: encode_uri_def)
qed

section \<open>Objects as query strings\<close>

text \<open>A field is left out when its value equals what every object has under its name: nothing, mostly. A list
  gives its name once per item.\<close>

definition same_as_bare :: "string \<Rightarrow> dval \<Rightarrow> bool" where
  "same_as_bare k v \<longleftrightarrow> (v = VUndef \<or> v = VNull) \<and> inherits k = VUndef"

definition sent_texts :: "string \<times> dval \<Rightarrow> string list" where
  "sent_texts e = (if same_as_bare (fst e) (snd e) then []
     else (case snd e of VList vs \<Rightarrow> map to_text vs | v \<Rightarrow> [to_text v]))"

definition query_pair :: "string \<Rightarrow> string \<Rightarrow> string" where
  "query_pair k x = encode_uri k @ CHR ''='' # encode_uri x"

definition object_to_query :: "(string \<times> dval) list \<Rightarrow> string" where
  "object_to_query fs = join_with ''&'' (concat (map (\<lambda>e. map (query_pair (fst e)) (sent_texts e)) fs))"

text \<open>Setting the prototype of an object to a text does nothing.\<close>

definition add_value :: "(string \<times> dval) list \<Rightarrow> string \<Rightarrow> string \<Rightarrow> (string \<times> dval) list" where
  "add_value ret k x =
     (case map_of ret k of
        Some (VText s) \<Rightarrow> AList.update k (VList [VText s, VText x]) ret
      | Some (VList vs) \<Rightarrow> AList.update k (VList (vs @ [VText x])) ret
      | _ \<Rightarrow> if k = ''__proto__'' then ret else AList.update k (VText x) ret)"

definition read_pair :: "string \<Rightarrow> uri_error + string \<times> string" where
  "read_pair item =
     (let k = takeWhile (\<lambda>c. c \<noteq> CHR ''='') item; x = tl (dropWhile (\<lambda>c. c \<noteq> CHR ''='') item)
      in (case decode_uri k of
            Inl e \<Rightarrow> Inl e
          | Inr k' \<Rightarrow> map_sum id (Pair k') (decode_uri x)))"

fun read_items :: "string list \<Rightarrow> (string \<times> dval) list \<Rightarrow> uri_error + (string \<times> dval) list" where
  "read_items [] ret = Inr ret"
| "read_items (p # ps) ret =
     (if p = [] then read_items ps ret
      else (case read_pair p of
          Inl e \<Rightarrow> Inl e
        | Inr (k, x) \<Rightarrow> read_items ps (add_value ret k x)))"

definition query_to_object :: "string \<Rightarrow> uri_error + (string \<times> dval) list" where
  "query_to_object s = read_items (split_on CHR ''&'' s) []"

text \<open>What of a field comes back: its texts, as a list if there are several.\<close>

definition came_back :: "string list \<Rightarrow> dval" where
  "came_back xs = (case xs of [x] \<Rightarrow> VText x | _ \<Rightarrow> VList (map VText xs))"

definition comes_back :: "string \<times> dval \<Rightarrow> (string \<times> dval) list" where
  "comes_back e = (if sent_texts e = [] then [] else [(fst e, came_back (sent_texts e))])"

lemma read_pair_written: "read_pair (query_pair k x) = Inr (k, x)"
proof -
  have "\<forall>c \<in> set (encode_uri k). c \<noteq> CHR ''=''" using encode_uri_marks by blast
  then show ?thesis by (simp add: read_pair_def query_pair_def takeWhile_append dropWhile_append decode_encode)
qed

lemma query_pair_parts: "query_pair k x \<noteq> []" "CHR ''&'' \<notin> set (query_pair k x)"
  using encode_uri_marks by (auto simp: query_pair_def)

lemma add_value_more: "k \<noteq> ''__proto__'' \<Longrightarrow> k \<notin> fst ` set acc \<Longrightarrow> xs \<noteq> [] \<Longrightarrow>
     add_value (acc @ [(k, came_back xs)]) k x = acc @ [(k, came_back (xs @ [x]))]"
proof -
  assume k: "k \<notin> fst ` set acc" and xs: "xs \<noteq> []"
  have "map_of acc k = None" using k by (simp add: map_of_eq_None_iff)
  then have m: "map_of (acc @ [(k, v)]) k = Some v" for v by (simp add: map_add_def)
  have u: "AList.update k w (acc @ [(k, v)]) = acc @ [(k, w)]" for v w using k by (induction acc) auto
  show ?thesis
    using m u xs by (cases xs; cases "tl xs") (auto simp: add_value_def came_back_def)
qed

lemma add_value_first: "k \<noteq> ''__proto__'' \<Longrightarrow> k \<notin> fst ` set acc \<Longrightarrow> add_value acc k x = acc @ [(k, came_back [x])]"
proof -
  assume k: "k \<noteq> ''__proto__''" "k \<notin> fst ` set acc"
  have "AList.update k w acc = acc @ [(k, w)]" for w using k(2) by (induction acc) auto
  moreover have "map_of acc k = None" using k(2) by (simp add: map_of_eq_None_iff)
  ultimately show ?thesis using k(1) by (simp add: add_value_def came_back_def)
qed

lemma read_items_more:
  "k \<noteq> ''__proto__'' \<Longrightarrow> k \<notin> fst ` set acc \<Longrightarrow> xs \<noteq> [] \<Longrightarrow>
     read_items (map (query_pair k) ys @ ps) (acc @ [(k, came_back xs)]) = read_items ps (acc @ [(k, came_back (xs @ ys))])"
proof (induction ys arbitrary: xs)
  case (Cons y ys)
  then show ?case using Cons.IH [of "xs @ [y]"]
    by (simp add: query_pair_parts read_pair_written add_value_more)
qed simp

lemma read_items_field:
  assumes "fst e \<noteq> ''__proto__''" "fst e \<notin> fst ` set acc"
  shows "read_items (map (query_pair (fst e)) (sent_texts e) @ ps) acc = read_items ps (acc @ comes_back e)"
proof (cases "sent_texts e")
  case (Cons x xs)
  with assms read_items_more [OF assms, of "[x]" xs ps] show ?thesis
    by (simp add: query_pair_parts read_pair_written add_value_first comes_back_def)
qed (simp add: comes_back_def)

lemma read_items_object:
  "distinct (map fst fs) \<Longrightarrow> ''__proto__'' \<notin> fst ` set fs \<Longrightarrow> fst ` set acc \<inter> fst ` set fs = {} \<Longrightarrow>
     read_items (concat (map (\<lambda>e. map (query_pair (fst e)) (sent_texts e)) fs)) acc = Inr (acc @ concat (map comes_back fs))"
proof (induction fs arbitrary: acc)
  case (Cons e fs)
  have "fst ` set (acc @ comes_back e) \<inter> fst ` set fs = {}"
    using Cons.prems by (auto simp: comes_back_def split: if_splits)
  with Cons.IH [of "acc @ comes_back e"] Cons.prems
    read_items_field [of e acc "concat (map (\<lambda>e. map (query_pair (fst e)) (sent_texts e)) fs)"]
  show ?case by auto
qed simp

lemma split_join: "ps \<noteq> [] \<Longrightarrow> \<forall>p \<in> set ps. c \<notin> set p \<Longrightarrow> split_on c (join_with [c] ps) = ps"
proof (induction "[c]" ps rule: join_with.induct)
  case (3 w v ws)
  then show ?case by (simp add: split_on_append)
qed (simp_all add: split_on_fresh)

text \<open>C33: Query strings are read back. For an object with distinct names, none of them \<^verbatim>\<open>__proto__\<close>, the query string reads as the
  object with its values as texts: an item of a list each, a list of one item as that item, and fields that
  are empty lists, undefined or null not at all.\<close>
theorem query_roundtrip:
  assumes "distinct (map fst fs)" "''__proto__'' \<notin> fst ` set fs"
  shows "query_to_object (object_to_query fs) = Inr (concat (map comes_back fs))"
proof -
  let ?ps = "concat (map (\<lambda>e. map (query_pair (fst e)) (sent_texts e)) fs)"
  have r: "read_items ?ps [] = Inr (concat (map comes_back fs))" using read_items_object [OF assms, of "[]"] by simp
  show ?thesis
  proof (cases "?ps = []")
    case True
    with r show ?thesis by (simp add: object_to_query_def query_to_object_def del: concat_eq_Nil_conv)
  next
    case False
    moreover have "\<forall>p \<in> set ?ps. CHR ''&'' \<notin> set p" using query_pair_parts(2) by auto
    ultimately have "split_on CHR ''&'' (join_with ''&'' ?ps) = ?ps" by (rule split_join)
    with r show ?thesis by (simp only: object_to_query_def query_to_object_def)
  qed
qed

lemma query_roundtrip_witness:
  "query_to_object (object_to_query [(''a b'', VText ''x&y''), (''ids'', VList [VBool True, VText [CHR 0xE9]]), (''no'', VNull)]) =
     Inr [(''a b'', VText ''x&y''), (''ids'', VList [VText ''true'', VText [CHR 0xE9]])]"
  using query_roundtrip [of "[(''a b'', VText ''x&y''), (''ids'', VList [VBool True, VText [CHR 0xE9]]), (''no'', VNull)]"]
  by (simp add: comes_back_def came_back_def sent_texts_def same_as_bare_def inherits_def proto_names_def)

end
