(* ===== verification/Request.thy ===== *)
theory Request
  imports Query
begin

text \<open>
  Requests (\<^verbatim>\<open>dojo/request/xhr\<close>, \<^verbatim>\<open>dojo/request/util\<close>, \<^verbatim>\<open>dojo/request/handlers\<close>): the options of a request are
  copied over the defaults, its url gets the query, its body and headers are sent; the answer is read as
  the options say, and the promise of the request settles with it. Left out are requests that time out or
  are cancelled, progress, and answers that are read as scripts or XML.
\<close>

type_synonym obj = "(string \<times> dval) list"

section \<open>Options\<close>

text \<open>An object that inherits from another: its own fields, and those of the other it does not hide. Fields
  that are set become its own.\<close>

definition delegated :: "obj \<Rightarrow> obj \<Rightarrow> obj" where
  "delegated own src = own @ filter (\<lambda>e. fst e \<notin> fst ` set own) src"

definition is_object_value :: "dval \<Rightarrow> bool" where
  "is_object_value v = (case v of VList _ \<Rightarrow> True | VObj _ \<Rightarrow> True | VSafe _ \<Rightarrow> True | _ \<Rightarrow> False)"

definition field :: "obj \<Rightarrow> obj \<Rightarrow> string \<Rightarrow> dval option" where
  "field own src n = (case map_of own n of Some v \<Rightarrow> Some v | None \<Rightarrow> map_of src n)"

text \<open>Where both hold objects the copy goes into them. In this model these are never lists or wrapped texts, for
  the defaults have none.\<close>

fun deep_copy :: "obj \<Rightarrow> obj \<Rightarrow> obj \<Rightarrow> json_error + obj" where
  "deep_copy own src [] = Inr own"
| "deep_copy own src ((n, v) # fs) =
     (case field own src n of
        Some (VObj tf) \<Rightarrow>
          (case v of
             VObj sf \<Rightarrow> (case deep_copy tf [] sf of
                Inl e \<Rightarrow> Inl e
              | Inr m \<Rightarrow> deep_copy (AList.update n (VObj m) own) src fs)
           | _ \<Rightarrow> if is_object_value v then Inl (Not_modelled n) else deep_copy (AList.update n v own) src fs)
      | Some t \<Rightarrow> if is_object_value t \<and> is_object_value v then Inl (Not_modelled n)
          else deep_copy (AList.update n v own) src fs
      | None \<Rightarrow> deep_copy (AList.update n v own) src fs)"

text \<open>The properties for a nested object; what is not there counts as an object without fields.\<close>

definition fields_for :: "string \<Rightarrow> obj \<Rightarrow> json_error + obj" where
  "fields_for n props = (case map_of props n of
       Some (VObj fs) \<Rightarrow> Inr fs
     | Some v \<Rightarrow> if truthy v then Inl (Not_modelled n) else Inr []
     | None \<Rightarrow> Inr [])"

function deep_create :: "obj \<Rightarrow> obj \<Rightarrow> json_error + obj"
  and create_nested :: "obj \<Rightarrow> obj \<Rightarrow> json_error + obj" where
  "deep_create src props =
     (case create_nested src props of
        Inl e \<Rightarrow> Inl e
      | Inr own \<Rightarrow> map_sum id (\<lambda>own. delegated own src) (deep_copy own src props))"
| "create_nested [] props = Inr []"
| "create_nested ((n, v) # src) props =
     (case v of
        VObj f \<Rightarrow>
          (case fields_for n props of
             Inl e \<Rightarrow> Inl e
           | Inr p \<Rightarrow> (case deep_create f p of
               Inl e \<Rightarrow> Inl e
             | Inr m \<Rightarrow> map_sum id (Cons (n, VObj m)) (create_nested src props)))
      | _ \<Rightarrow> if is_object_value v then Inl (Not_modelled n) else create_nested src props)"
  by pat_completeness auto
termination deep_create
  by (relation "measures [\<lambda>x. case x of Inl (s, p) \<Rightarrow> size_list (size_prod (\<lambda>_. 0) size) s
      | Inr (s, p) \<Rightarrow> size_list (size_prod (\<lambda>_. 0) size) s, \<lambda>x. case x of Inl _ \<Rightarrow> 1 | Inr _ \<Rightarrow> 0]") auto

definition default_options :: obj where
  "default_options = [(''data'', VNull), (''query'', VNull), (''sync'', VBool False), (''method'', VText ''GET''),
     (''headers'', VObj [(''Content-Type'', VText ''application/x-www-form-urlencoded'')])]"

section \<open>What is sent\<close>

text \<open>The text of the query; an empty one is none. \<open>now\<close> is the time, for requests that must not be cached.\<close>

definition opt :: "obj \<Rightarrow> string \<Rightarrow> dval" where
  "opt os n = prop_of (VObj os) n"

definition query_of :: "obj \<Rightarrow> string \<Rightarrow> json_error + string" where
  "query_of os now =
     (let q = opt os ''query''; cache = ''request.preventCache='' @ now
      in if truthy q then
           (case (case q of VObj fs \<Rightarrow> Inr (object_to_query fs)
                  | v \<Rightarrow> if is_object_value v then Inl (Not_modelled ''query'') else Inr (to_text v)) of
              Inl e \<Rightarrow> Inl e
            | Inr s \<Rightarrow> Inr (if truthy (opt os ''preventCache'') then s @ (if s = [] then [] else ''&'') @ cache else s))
         else Inr (if truthy (opt os ''preventCache'') then cache else []))"

definition body_of :: "obj \<Rightarrow> json_error + dval" where
  "body_of os = (case opt os ''data'' of
       VObj fs \<Rightarrow> Inr (VText (object_to_query fs))
     | v \<Rightarrow> if is_object_value v then Inl (Not_modelled ''data'') else Inr v)"

definition with_query :: "string \<Rightarrow> string \<Rightarrow> string" where
  "with_query url q = (if url = [] \<or> q = [] then url
     else url @ (if CHR ''?'' \<in> set url then ''&'' else ''?'') @ q)"

record sent =
  s_method :: string
  s_url :: string
  s_async :: bool
  s_headers :: "(string \<times> string) list"
  s_body :: dval

text \<open>The last header that is a content type is set after the others.\<close>

definition is_content_type :: "string \<Rightarrow> bool" where
  "is_content_type n \<longleftrightarrow> lower n = ''content-type''"

definition content_type :: "obj \<Rightarrow> (string \<times> string) list" where
  "content_type hs = (case rev (filter (\<lambda>h. is_content_type (fst h)) hs) of
       h # _ \<Rightarrow> if truthy (snd h) then [(''Content-Type'', to_text (snd h))] else []
     | [] \<Rightarrow> [])"

definition headers_of :: "obj \<Rightarrow> json_error + (string \<times> string) list" where
  "headers_of os =
     (case opt os ''headers'' of
        VObj hs \<Rightarrow>
          Inr (map (\<lambda>h. (fst h, to_text (snd h))) (filter (\<lambda>h. \<not> is_content_type (fst h) \<and> truthy (snd h)) hs)
            @ content_type hs @ (if map_of hs ''X-Requested-With'' = None then [(''X-Requested-With'', ''XMLHttpRequest'')] else []))
      | v \<Rightarrow> if truthy v then Inl (Not_modelled ''headers'') else Inr [(''X-Requested-With'', ''XMLHttpRequest'')])"

definition xhr_send :: "string \<Rightarrow> obj \<Rightarrow> string \<Rightarrow> json_error + sent" where
  "xhr_send url options now =
     (case deep_create default_options options of
        Inl e \<Rightarrow> Inl e
      | Inr os \<Rightarrow> (case (body_of os, query_of os now, headers_of os) of
          (Inr body, Inr q, Inr hs) \<Rightarrow>
            Inr \<lparr>s_method = to_text (opt os ''method''), s_url = with_query url q, s_async = (\<not> truthy (opt os ''sync'')),
              s_headers = hs, s_body = body\<rparr>
        | (Inl e, _, _) \<Rightarrow> Inl e
        | (_, Inl e, _) \<Rightarrow> Inl e
        | (_, _, Inl e) \<Rightarrow> Inl e))"

section \<open>The answer\<close>

datatype arrival = Loaded nat string | Net_error nat string

record answer =
  r_status :: nat
  r_text :: string
  r_data :: dval

datatype verdict = Delivered dval | Rejected_with answer

definition check_status :: "nat \<Rightarrow> bool" where
  "check_status st \<longleftrightarrow> (200 \<le> st \<and> st < 300) \<or> st = 304 \<or> st = 1223 \<or> st = 0"

text \<open>An empty answer is read as \<^verbatim>\<open>null\<close>.\<close>

definition handle :: "dval \<Rightarrow> string \<Rightarrow> json_error + dval" where
  "handle as t =
     (if to_text as = ''json'' then json_parse (if t = [] then ''null'' else t)
      else if to_text as \<in> set ([''javascript'', ''xml''] @ proto_names) then Inl (Not_modelled (to_text as))
      else Inr (VText t))"

text \<open>What the callbacks get: the data or, when that counts as false, the text.\<close>

definition handle_response :: "obj \<Rightarrow> arrival \<Rightarrow> json_error + verdict" where
  "handle_response os a =
     (case a of
        Net_error st t \<Rightarrow> Inr (Rejected_with \<lparr>r_status = st, r_text = t, r_data = VUndef\<rparr>)
      | Loaded st t \<Rightarrow> (case handle (opt os ''handleAs'') t of
          Inl Syntax \<Rightarrow> Inr (Rejected_with \<lparr>r_status = st, r_text = t, r_data = VUndef\<rparr>)
        | Inl e \<Rightarrow> Inl e
        | Inr d \<Rightarrow> if check_status st then Inr (Delivered (or_else d (VText t)))
            else Inr (Rejected_with \<lparr>r_status = st, r_text = t, r_data = d\<rparr>)))"

text \<open>\<^verbatim>\<open>error.response.data.msg\<close>, which throws when there are no data.\<close>

definition failure_message :: "answer \<Rightarrow> dval option" where
  "failure_message a = (if r_data a \<in> {VUndef, VNull} then None else Some (prop_of (r_data a) ''msg''))"

section \<open>Options win over defaults\<close>

lemma update_fresh: "n \<notin> fst ` set xs \<Longrightarrow> AList.update n v xs = xs @ [(n, v)]"
  by (induction xs) auto

lemma update_same: "map_of xs n = Some v \<Longrightarrow> AList.update n v xs = xs"
  by (induction xs) (auto split: if_splits)

text \<open>No object goes into another.\<close>

definition goes_over :: "obj \<Rightarrow> obj \<Rightarrow> string \<times> dval \<Rightarrow> bool" where
  "goes_over own src e \<longleftrightarrow> \<not> is_object_value (snd e) \<or> (case field own src (fst e) of Some t \<Rightarrow> \<not> is_object_value t | None \<Rightarrow> True)"

lemma deep_copy_one: "goes_over own src (n, v) \<Longrightarrow> deep_copy own src ((n, v) # fs) = deep_copy (AList.update n v own) src fs"
  by (cases "field own src n") (auto simp: goes_over_def is_object_value_def split: dval.splits)

lemma lookup_update: "k \<noteq> n \<Longrightarrow> field (AList.update n v own) src k = field own src k"
  by (simp add: field_def update_conv')

lemma deep_copy_apart:
  "distinct (map fst fs) \<Longrightarrow> list_all (goes_over own src) fs \<Longrightarrow>
     deep_copy own src fs = Inr (fold (\<lambda>(n, v). AList.update n v) fs own)"
proof (induction fs arbitrary: own)
  case (Cons e fs)
  obtain n v where e: "e = (n, v)" by (cases e)
  have "goes_over (AList.update n v own) src x" if x: "x \<in> set fs" for x
  proof -
    have "fst x \<noteq> n" using Cons.prems(1) e x by auto
    moreover have "goes_over own src x" using Cons.prems(2) x by (simp add: list_all_iff)
    ultimately show ?thesis by (simp add: goes_over_def lookup_update)
  qed
  then have "deep_copy (AList.update n v own) src fs = Inr (fold (\<lambda>(n, v). AList.update n v) fs (AList.update n v own))"
    using Cons.prems(1) by (intro Cons.IH) (auto simp: list_all_iff)
  moreover have "goes_over own src (n, v)" using Cons.prems(2) e by simp
  ultimately show ?case using deep_copy_one e by simp
qed simp

lemma fold_update_map_of:
  "distinct (map fst fs) \<Longrightarrow> map_of (fold (\<lambda>(n, v). AList.update n v) fs own) k =
     (case map_of fs k of Some v \<Rightarrow> Some v | None \<Rightarrow> map_of own k)"
proof (induction fs arbitrary: own)
  case (Cons e fs)
  obtain n v where e: "e = (n, v)" by (cases e)
  show ?case
  proof (cases "k = n")
    case True
    then have "map_of fs k = None" using Cons.prems e by (simp add: map_of_eq_None_iff)
    then show ?thesis using Cons True e by (simp add: update_conv')
  next
    case False
    then show ?thesis using Cons e by (simp add: update_conv' split: option.splits)
  qed
qed simp

lemma fold_update_fresh:
  "distinct (map fst fs) \<Longrightarrow> fst ` set fs \<inter> fst ` set own = {} \<Longrightarrow> fold (\<lambda>(n, v). AList.update n v) fs own = own @ fs"
proof (induction fs arbitrary: own)
  case (Cons e fs)
  then show ?case by (cases e) (auto simp: update_fresh)
qed simp

lemma fold_update_same:
  "\<forall>e \<in> set fs. map_of own (fst e) = Some (snd e) \<Longrightarrow> fold (\<lambda>(n, v). AList.update n v) fs own = own"
  by (induction fs) (auto simp: update_same)

lemma map_of_delegated: "map_of (delegated own src) k = field own src k"
proof (cases "k \<in> fst ` set own")
  case False
  then have "map_of (filter (\<lambda>e. fst e \<notin> fst ` set own) src) k = map_of src k" by (induction src) auto
  moreover have "map_of own k = None" using False by (simp add: map_of_eq_None_iff)
  ultimately show ?thesis by (simp add: delegated_def field_def map_add_def split: option.splits)
next
  case True
  then obtain v where v: "map_of own k = Some v" by (metis map_of_eq_None_iff not_None_eq)
  have "map_of (filter (\<lambda>e. fst e \<notin> fst ` set own) src) k = None" using True by (force simp: map_of_eq_None_iff)
  with v show ?thesis by (simp add: delegated_def field_def map_add_def)
qed

text \<open>The headers of a request: its own, then the default ones it does not name.\<close>

definition flat :: "obj \<Rightarrow> bool" where
  "flat fs \<longleftrightarrow> distinct (map fst fs) \<and> (\<forall>e \<in> set fs. \<not> is_object_value (snd e))"

lemma create_flat:
  assumes "flat src" "flat props"
  shows "deep_create src props = Inr (delegated props src)"
proof -
  have "create_nested src props = Inr []"
    using assms(1) by (induction src) (auto simp: flat_def is_object_value_def split: dval.splits)
  moreover have "deep_copy [] src props = Inr (fold (\<lambda>(n, v). AList.update n v) props [])"
    using assms(2) by (intro deep_copy_apart) (auto simp: flat_def list_all_iff goes_over_def)
  ultimately show ?thesis using assms(2) by (simp add: fold_update_fresh flat_def)
qed

lemma deep_copy_options:
  assumes "deep_copy m [] hs = Inr m"
  shows "distinct (map fst fs) \<Longrightarrow> \<forall>e \<in> set fs. if fst e = ''headers'' then snd e = VObj hs else goes_over own src e \<Longrightarrow>
    map_of own ''headers'' = Some (VObj m) \<Longrightarrow>
    \<exists>r. deep_copy own src fs = Inr r \<and> (\<forall>k. map_of r k =
      (if k = ''headers'' then Some (VObj m) else case map_of fs k of Some v \<Rightarrow> Some v | None \<Rightarrow> map_of own k))"
proof (induction fs arbitrary: own)
  case (Cons e fs)
  obtain n v where e: "e = (n, v)" by (cases e)
  let ?v = "if n = ''headers'' then VObj m else v"
  have s: "deep_copy own src (e # fs) = deep_copy (AList.update n ?v own) src fs"
  proof (cases "n = ''headers''")
    case True
    with Cons.prems e have "v = VObj hs" "field own src n = Some (VObj m)" by (auto simp: field_def)
    with e True assms show ?thesis by simp
  next
    case False
    with Cons.prems(2) e have "goes_over own src (n, v)" by auto
    from deep_copy_one [OF this] e False show ?thesis by simp
  qed
  have n: "fst x \<noteq> n" if "x \<in> set fs" for x using Cons.prems(1) e that by auto
  have "\<exists>r. deep_copy (AList.update n ?v own) src fs = Inr r \<and> (\<forall>k. map_of r k =
      (if k = ''headers'' then Some (VObj m) else case map_of fs k of Some v \<Rightarrow> Some v | None \<Rightarrow> map_of (AList.update n ?v own) k))"
  proof (rule Cons.IH)
    show "distinct (map fst fs)" using Cons.prems(1) by simp
    show "map_of (AList.update n ?v own) ''headers'' = Some (VObj m)" using Cons.prems(3) by (simp add: update_conv')
    show "\<forall>x \<in> set fs. if fst x = ''headers'' then snd x = VObj hs else goes_over (AList.update n ?v own) src x"
    proof
      fix x assume x: "x \<in> set fs"
      then have "if fst x = ''headers'' then snd x = VObj hs else goes_over own src x" using Cons.prems(2) by auto
      with n [OF x] show "if fst x = ''headers'' then snd x = VObj hs else goes_over (AList.update n ?v own) src x"
        by (simp add: goes_over_def lookup_update split: if_splits)
    qed
  qed
  then obtain r where r: "deep_copy (AList.update n ?v own) src fs = Inr r" "\<And>k. map_of r k =
      (if k = ''headers'' then Some (VObj m) else case map_of fs k of Some v \<Rightarrow> Some v | None \<Rightarrow> map_of (AList.update n ?v own) k)"
    by blast
  have "map_of fs n = None" using n by (force simp: map_of_eq_None_iff)
  then have "map_of r k = (if k = ''headers'' then Some (VObj m) else case map_of (e # fs) k of Some v \<Rightarrow> Some v | None \<Rightarrow> map_of own k)" for k
    using e by (simp add: r(2) update_conv' split: option.splits)
  with r(1) s show ?case by auto
qed simp

definition own_headers :: "obj \<Rightarrow> obj" where
  "own_headers props = (case map_of props ''headers'' of Some (VObj hs) \<Rightarrow> hs | _ \<Rightarrow> [])"

definition default_headers :: obj where
  "default_headers = [(''Content-Type'', VText ''application/x-www-form-urlencoded'')]"

text \<open>C19: The options of a request win over the defaults. Each option given is taken, the defaults are for those
  that are not given; the headers, where given as an object of plain values, are merged name by name in the same way.\<close>
theorem options_win:
  assumes d: "distinct (map fst props)" and h: "\<forall>v. map_of props ''headers'' = Some v \<longrightarrow> (\<exists>hs. v = VObj hs \<and> flat hs)"
  shows "\<exists>os. deep_create default_options props = Inr os \<and>
     map_of os ''headers'' = Some (VObj (delegated (own_headers props) default_headers)) \<and>
     (\<forall>k. k \<noteq> ''headers'' \<longrightarrow> map_of os k = (case map_of props k of Some v \<Rightarrow> Some v | None \<Rightarrow> map_of default_options k))"
proof -
  let ?hs = "own_headers props" and ?m = "delegated (own_headers props) default_headers"
  have flat: "flat ?hs"
    using h by (cases "map_of props ''headers''") (auto simp: own_headers_def, simp add: flat_def)
  have f: "fields_for ''headers'' props = Inr ?hs"
    using h by (cases "map_of props ''headers''") (auto simp: fields_for_def own_headers_def)
  have "deep_create default_headers ?hs = Inr ?m"
    by (rule create_flat [OF _ flat]) (simp add: flat_def default_headers_def is_object_value_def)
  with f have c: "create_nested default_options props = Inr [(''headers'', VObj ?m)]"
    by (simp add: default_options_def default_headers_def is_object_value_def del: deep_create.simps(1))
  have "\<forall>e \<in> set ?hs. map_of ?m (fst e) = Some (snd e)"
  proof
    fix e assume "e \<in> set ?hs"
    then have "map_of ?hs (fst e) = Some (snd e)"
      using flat unfolding flat_def by (metis map_of_is_SomeI prod.collapse)
    then show "map_of ?m (fst e) = Some (snd e)" by (simp add: map_of_delegated field_def)
  qed
  then have "deep_copy ?m [] ?hs = Inr ?m"
    using flat by (subst deep_copy_apart) (auto simp: flat_def list_all_iff goes_over_def fold_update_same)
  moreover have "\<forall>e \<in> set props. if fst e = ''headers'' then snd e = VObj ?hs
      else goes_over [(''headers'', VObj ?m)] default_options e"
  proof
    fix e assume e: "e \<in> set props"
    then have m: "map_of props (fst e) = Some (snd e)" using d by (cases e) auto
    show "if fst e = ''headers'' then snd e = VObj ?hs else goes_over [(''headers'', VObj ?m)] default_options e"
      using m h by (auto simp: own_headers_def goes_over_def field_def default_options_def is_object_value_def)
  qed
  ultimately obtain r where r: "deep_copy [(''headers'', VObj ?m)] default_options props = Inr r"
      "\<And>k. map_of r k = (if k = ''headers'' then Some (VObj ?m) else case map_of props k of Some v \<Rightarrow> Some v
         | None \<Rightarrow> map_of [(''headers'', VObj ?m)] k)"
    using deep_copy_options [of ?m ?hs props "[(''headers'', VObj ?m)]" default_options] d by auto
  then have "deep_create default_options props = Inr (delegated r default_options)" using c by simp
  moreover have "map_of (delegated r default_options) k = (if k = ''headers'' then Some (VObj ?m)
      else case map_of props k of Some v \<Rightarrow> Some v | None \<Rightarrow> map_of default_options k)" for k
    by (simp add: map_of_delegated field_def r(2) split: option.splits)
  ultimately show ?thesis by auto
qed

definition sample_options :: obj where
  "sample_options = [(''headers'', VObj [(''X-Key'', VText ''k'')]), (''method'', VText ''POST'')]"

lemma options_win_witness:
  "\<exists>os. deep_create default_options sample_options = Inr os \<and>
     map_of os ''headers'' = Some (VObj (delegated (own_headers sample_options) default_headers)) \<and>
     (\<forall>k. k \<noteq> ''headers'' \<longrightarrow> map_of os k = (case map_of sample_options k of Some v \<Rightarrow> Some v | None \<Rightarrow> map_of default_options k))"
  by (rule options_win) (auto simp: sample_options_def flat_def is_object_value_def)

section \<open>The console's requests and their answers\<close>

text \<open>What the dialogs ask for: JSON with an empty query.\<close>

definition console_options :: "string \<Rightarrow> obj" where
  "console_options t =
     [(''handleAs'', VText ''json''), (''method'', VText ''POST''),
      (''headers'', VObj [(''Content-Type'', VText ''application/json; charset=utf-8'')]),
      (''query'', VObj []), (''data'', VText t)]"

text \<open>C16: What a dialog sends is what it means. A request with the options of the dialogs is posted to the url
  as it is, as JSON; and when the data can be written, its body is a text that reads as the data.\<close>
theorem console_request:
  assumes "storable v"
  shows "\<exists>t. stringify v = Inr (Some t) \<and> json_parse t = Inr v \<and>
     xhr_send url (console_options t) now = Inr \<lparr>s_method = ''POST'', s_url = url, s_async = True,
       s_headers = [(''Content-Type'', ''application/json; charset=utf-8''), (''X-Requested-With'', ''XMLHttpRequest'')],
       s_body = VText t\<rparr>"
proof -
  have "xhr_send url (console_options t) now = Inr \<lparr>s_method = ''POST'', s_url = url, s_async = True,
       s_headers = [(''Content-Type'', ''application/json; charset=utf-8''), (''X-Requested-With'', ''XMLHttpRequest'')],
       s_body = VText t\<rparr>" for t
    by (simp add: xhr_send_def console_options_def default_options_def is_object_value_def fields_for_def field_def delegated_def
        body_of_def query_of_def headers_of_def opt_def inherits_def proto_names_def object_to_query_def with_query_def
        is_content_type_def content_type_def lower_def)
  with json_written [OF assms] show ?thesis by blast
qed

lemma console_request_witness:
  "\<exists>t. stringify sample_value = Inr (Some t) \<and> json_parse t = Inr sample_value \<and>
     xhr_send ''/user/create'' (console_options t) [] = Inr \<lparr>s_method = ''POST'', s_url = ''/user/create'', s_async = True,
       s_headers = [(''Content-Type'', ''application/json; charset=utf-8''), (''X-Requested-With'', ''XMLHttpRequest'')],
       s_body = VText t\<rparr>"
  by (rule console_request) (simp add: sample_value_def writable_def hidden_method_def asked_def dquote_def linefeed_def)

lemma handle_console [simp]: "handle (opt (console_options t) ''handleAs'') s = json_parse (if s = [] then ''null'' else s)"
  by (simp add: handle_def console_options_def opt_def)

lemma parse_null: "json_parse ''null'' = Inr VNull"
  by (simp add: json_parse_def value_at_Cons json_space_def linefeed_def dquote_def word_at_def skip_space_def)

text \<open>C17: An answer that is delivered is the value the server wrote, unless this counts as false: then the callback
  gets its text, so that \<^verbatim>\<open>false\<close>, 0 and \<^verbatim>\<open>null\<close> arrive as texts, which count as true.\<close>
theorem answer_delivered:
  assumes "storable v" "check_status st"
  shows "\<exists>s. stringify v = Inr (Some s) \<and>
     handle_response (console_options t) (Loaded st s) = Inr (Delivered (if truthy v then v else VText s)) \<and> s \<noteq> []"
proof -
  from storable_reads(1) [OF assms(1)] obtain s where s: "stringify v = Inr (Some s)" "reads s v" by blast
  with json_written [OF assms(1)] have "json_parse s = Inr v" by auto
  moreover have "s \<noteq> []" using s(2) by (auto simp: reads_def starts_def)
  ultimately show ?thesis using s(1) assms(2) by (simp add: handle_response_def or_else_def)
qed

lemma answer_delivered_witness:
  "\<exists>s. stringify (VBool False) = Inr (Some s) \<and>
     handle_response (console_options []) (Loaded 200 s) = Inr (Delivered (if truthy (VBool False) then VBool False else VText s)) \<and>
     s \<noteq> []"
  by (rule answer_delivered) (simp_all add: check_status_def)

text \<open>C18: A failure without a message. When the request of a dialog fails, reading the message of the answer throws
  exactly if nothing was answered, or the answer is empty, not JSON, or \<^verbatim>\<open>null\<close>.\<close>
theorem failure_unreadable:
  assumes "handle_response (console_options t) a = Inr (Rejected_with w)"
  shows "failure_message w = None \<longleftrightarrow>
     (case a of Net_error st s \<Rightarrow> True
      | Loaded st s \<Rightarrow> s = [] \<or> json_parse s = Inl Syntax \<or> json_parse s = Inr VNull)"
proof (cases a)
  case (Loaded st s)
  let ?d = "json_parse (if s = [] then ''null'' else s)"
  show ?thesis
  proof (cases ?d)
    case (Inl e)
    with Loaded assms have "e = Syntax" "r_data w = VUndef"
      by (cases e; force simp: handle_response_def)+
    with Loaded Inl show ?thesis using parse_null by (auto simp: failure_message_def split: if_splits)
  next
    case (Inr d)
    then have "d \<noteq> VUndef" using json_parse_is_json by (cases d) fastforce+
    moreover have "r_data w = d" using Loaded assms Inr by (auto simp: handle_response_def split: if_splits)
    ultimately show ?thesis
      using Loaded Inr parse_null by (cases "s = []") (auto simp: failure_message_def)
  qed
qed (use assms in \<open>auto simp: handle_response_def failure_message_def\<close>)

lemma failure_unreadable_witness:
  "failure_message \<lparr>r_status = 500, r_text = ''<html>'', r_data = VUndef\<rparr> = None \<longleftrightarrow>
     ''<html>'' = [] \<or> json_parse ''<html>'' = Inl Syntax \<or> json_parse ''<html>'' = Inr VNull"
proof -
  have "handle_response (console_options []) (Loaded 500 ''<html>'') =
      Inr (Rejected_with \<lparr>r_status = 500, r_text = ''<html>'', r_data = VUndef\<rparr>)"
    by code_simp
  from failure_unreadable [OF this] show ?thesis by simp
qed

end
