(* ===== verification/Double.thy ===== *)
theory Double
  imports Prelude Complex_Main "HOL-Library.Log_Nat"
begin

text \<open>
  JavaScript's numbers where rounding matters. A double is a rational with 53 significant binary digits;
  \<open>fl\<close> rounds to the nearest, and of two that are equally near to the even one. The exponent has no bounds
  here, so numbers too large or too small for a double are outside of this model.
\<close>

definition round_even :: "rat \<Rightarrow> int" where
  "round_even y = (let f = \<lfloor>y\<rfloor>; d = y - of_int f
     in if d < 1 / 2 then f else if 1 / 2 < d then f + 1 else if even f then f else f + 1)"

text \<open>The exponent of the leading digit.\<close>

definition expo :: "rat \<Rightarrow> int" where
  "expo x = (let (p, q) = quotient_of \<bar>x\<bar>; k = bitlen p - bitlen q
     in if 2 powi k \<le> \<bar>x\<bar> then k else k - 1)"

definition fl :: "rat \<Rightarrow> rat" where
  "fl x = (if x = 0 then 0 else let u = 2 powi (expo x - 52) in of_int (round_even (x / u)) * u)"

lemma expo_bounds:
  assumes "x \<noteq> 0"
  shows "2 powi expo x \<le> \<bar>x\<bar>" "\<bar>x\<bar> < 2 powi (expo x + 1)"
proof -
  obtain p q where pq: "quotient_of \<bar>x\<bar> = (p, q)" by fastforce
  have q: "0 < q" and xq: "\<bar>x\<bar> = of_int p / of_int q" using quotient_of_denom_pos [OF pq] quotient_of_div [OF pq] by auto
  have "0 < \<bar>x\<bar>" using assms by simp
  then have p: "0 < p" using q unfolding xq by (simp add: zero_less_divide_iff)
  have pw: "(2::rat) powi k = of_int (2 ^ nat k)" if "0 \<le> k" for k using that by (simp add: power_int_def)
  have bounds: "2 powi (bitlen a - 1) \<le> (of_int a :: rat) \<and> (of_int a :: rat) < 2 powi bitlen a" if "0 < a" for a
  proof -
    have "1 \<le> bitlen a" using that by (simp add: bitlen_alt_def)
    then have "2 powi (bitlen a - 1) = (of_int (2 ^ nat (bitlen a - 1)) :: rat)" "2 powi bitlen a = (of_int (2 ^ nat (bitlen a)) :: rat)"
      by (simp_all add: pw)
    then show ?thesis using bitlen_bounds [OF that] by (simp only: of_int_le_iff of_int_less_iff)
  qed
  note bp = bounds [OF p, THEN conjunct1] bounds [OF p, THEN conjunct2] and bq = bounds [OF q, THEN conjunct1] bounds [OF q, THEN conjunct2]
  let ?k = "bitlen p - bitlen q"
  have lo: "2 powi (?k - 1) \<le> \<bar>x\<bar>"
  proof -
    have "2 powi (?k - 1) * (of_int q :: rat) \<le> 2 powi (?k - 1) * 2 powi bitlen q" using bq(2) by simp
    also have "\<dots> = 2 powi (bitlen p - 1)" by (simp flip: power_int_add)
    also have "\<dots> \<le> of_int p" by (rule bp(1))
    finally show ?thesis using q xq by (simp add: pos_le_divide_eq)
  qed
  have hi: "\<bar>x\<bar> < 2 powi (?k + 1)"
  proof -
    have "(of_int p :: rat) < 2 powi bitlen p" by (rule bp(2))
    also have "\<dots> = 2 powi (?k + 1) * 2 powi (bitlen q - 1)" by (simp flip: power_int_add)
    also have "\<dots> \<le> 2 powi (?k + 1) * of_int q" using bq(1) by simp
    finally show ?thesis using q xq by (simp add: pos_divide_less_eq)
  qed
  show "2 powi expo x \<le> \<bar>x\<bar>" "\<bar>x\<bar> < 2 powi (expo x + 1)"
    using lo hi by (auto simp: expo_def pq Let_def)
qed

text \<open>Whole multiples of a power of two of less than 53 binary digits are doubles.\<close>

definition on_grid :: "int \<Rightarrow> rat \<Rightarrow> bool" where
  "on_grid e x \<longleftrightarrow> (\<exists>z. x = of_int z * 2 powi e \<and> \<bar>z\<bar> < 2 ^ 53)"

lemma round_even_int [simp]: "round_even (of_int z) = z"
  by (simp add: round_even_def Let_def)

lemma fl_exact:
  assumes "on_grid e x"
  shows "fl x = x"
proof (cases "x = 0")
  case False
  obtain z where z: "x = of_int z * 2 powi e" "\<bar>z\<bar> < 2 ^ 53" using assms by (auto simp: on_grid_def)
  let ?u = "2 powi (expo x - 52) :: rat"
  have "e \<ge> expo x - 52"
  proof (rule ccontr)
    assume "\<not> e \<ge> expo x - 52"
    then have le: "53 \<le> expo x - e" by simp
    have "(2::rat) ^ 53 = 2 powi 53" by (simp add: power_int_def)
    also have "\<dots> \<le> 2 powi (expo x - e)" using le by (intro power_int_increasing) auto
    finally have "(2::rat) ^ 53 * 2 powi e \<le> 2 powi (expo x - e) * 2 powi e" by (intro mult_right_mono) auto
    also have "\<dots> = 2 powi expo x" by (simp flip: power_int_add)
    also have "\<dots> \<le> \<bar>x\<bar>" using expo_bounds(1) [OF False] .
    also have "\<dots> = of_int \<bar>z\<bar> * 2 powi e" by (simp add: z(1) abs_mult)
    finally have "(2::rat) ^ 53 \<le> of_int \<bar>z\<bar>" by simp
    then have "(2::int) ^ 53 \<le> \<bar>z\<bar>" by (metis of_int_le_iff of_int_numeral of_int_power)
    with z(2) show False by simp
  qed
  then have "(2::rat) powi (e - (expo x - 52)) = of_int (2 ^ nat (e - (expo x - 52)))" by (simp add: power_int_def)
  moreover have "(2::rat) powi e = 2 powi (e - (expo x - 52)) * ?u" by (simp flip: power_int_add)
  ultimately have "(2::rat) powi e = of_int (2 ^ nat (e - (expo x - 52))) * ?u" by simp
  then have "2 powi e / ?u = of_int (2 ^ nat (e - (expo x - 52)))" by simp
  moreover have "x / ?u = of_int z * (2 powi e / ?u)" using z(1) by (metis times_divide_eq_right)
  ultimately have xu: "x / ?u = of_int (z * 2 ^ nat (e - (expo x - 52)))" by simp
  then have "round_even (x / ?u) = z * 2 ^ nat (e - (expo x - 52))" by (metis round_even_int)
  then have "fl x = of_int (z * 2 ^ nat (e - (expo x - 52))) * ?u" using False by (simp add: fl_def Let_def)
  also have "\<dots> = x" using xu by (metis nonzero_divide_eq_eq power_int_not_zero zero_neq_numeral)
  finally show ?thesis .
qed (simp add: fl_def)

lemma fl_zero: "fl 0 = 0"
  by (simp add: fl_def)

lemma fl_tenth: "fl (1 / 10) = 3602879701896397 / 36028797018963968"
  by code_simp

end
