(* ===== verification/Gauge.thy ===== *)
theory Gauge
  imports Double
begin

text \<open>
  The drawings of the dashboards (\<^verbatim>\<open>charts/gauge.js\<close>, \<^verbatim>\<open>charts/radialProgress.js\<close>): what is computed for them,
  that is the marks of a gauge, the rotation of its pointer over any number of redraws, and the arcs of a
  radial progress. The loops over the marks of a gauge round every sum and quotient to a double, since the
  number of marks depends on it (\<^theory_text>\<open>Double\<close>); angles, in degrees, and the radial's numbers are exact
  rationals, which leaves out the rounding there. What d3 does with them is left out. A division by zero,
  which gives infinity, is written out where the code can meet it.
\<close>

section \<open>Gauges\<close>

record zone =
  z_from :: rat
  z_to :: rat

record gauge_config =
  c_size :: rat
  c_min :: "rat option"
  c_max :: "rat option"
  c_major :: "rat option"
  c_minor :: "rat option"
  c_duration :: "rat option"
  c_zones :: "zone list"

record gauge =
  g_size :: rat
  g_radius :: rat
  g_min :: rat
  g_max :: rat
  g_range :: rat
  g_major :: rat
  g_minor :: rat
  g_duration :: rat
  g_zones :: "zone list"
  g_rotation :: "rat option"

text \<open>\<^verbatim>\<open>configuration.x || d\<close>.\<close>

definition or_number :: "rat option \<Rightarrow> rat \<Rightarrow> rat" where
  "or_number x d = (case x of Some y \<Rightarrow> if y = 0 then d else y | None \<Rightarrow> d)"

definition or_undefined :: "rat option \<Rightarrow> rat \<Rightarrow> rat" where
  "or_undefined x d = (case x of Some y \<Rightarrow> y | None \<Rightarrow> d)"

definition configure :: "gauge_config \<Rightarrow> gauge" where
  "configure c =
     (let size = c_size c * (9 / 10); lo = or_undefined (c_min c) 0; hi = or_undefined (c_max c) 100
      in \<lparr>g_size = size, g_radius = size * (97 / 100) / 2, g_min = lo, g_max = hi, g_range = hi - lo,
          g_major = or_number (c_major c) 5, g_minor = or_number (c_minor c) 2, g_duration = or_number (c_duration c) 500,
          g_zones = c_zones c, g_rotation = None\<rparr>)"

definition value_to_degrees :: "gauge \<Rightarrow> rat \<Rightarrow> rat" where
  "value_to_degrees g v = v / g_range g * 270 - (g_min g / g_range g * 270 + 45)"

text \<open>A band is drawn when it is not empty.\<close>

definition draw_band :: "gauge \<Rightarrow> zone \<Rightarrow> (rat \<times> rat) list" where
  "draw_band g z = (if z_to z - z_from z \<le> 0 then [] else [(value_to_degrees g (z_from z), value_to_degrees g (z_to z))])"

subsection \<open>Marks\<close>

text \<open>The loops add a step until a bound is passed: without a positive step they do not end.\<close>

partial_function (option) minor_ticks :: "rat \<Rightarrow> rat \<Rightarrow> rat \<Rightarrow> rat list option" where
  "minor_ticks d stop x =
     (if x < stop then Option.bind (minor_ticks d stop (fl (x + d))) (\<lambda>xs. Some (x # xs)) else Some [])"

partial_function (option) major_ticks :: "gauge \<Rightarrow> rat \<Rightarrow> rat \<Rightarrow> (rat \<times> rat list) list option" where
  "major_ticks g d x =
     (if x \<le> g_max g then
        (let e = fl (d / g_minor g) in
         Option.bind (minor_ticks e (min (fl (x + d)) (g_max g)) (fl (x + e))) (\<lambda>ms.
           Option.bind (major_ticks g d (fl (x + d))) (\<lambda>rest. Some ((x, ms) # rest))))
      else Some [])"

text \<open>With one major tick the step is infinite.\<close>

definition tick_marks :: "gauge \<Rightarrow> (rat \<times> rat list) list option" where
  "tick_marks g =
     (if g_major g = 1 then Some (if g_min g \<le> g_max g then [(g_min g, [])] else [])
      else major_ticks g (fl (fl (g_range g) / fl (g_major g - 1))) (g_min g))"

lemma minor_ticks_list:
  "0 < d \<Longrightarrow> stop = x + of_nat n * d \<Longrightarrow> (\<And>j. j \<le> n \<Longrightarrow> on_grid e (x + of_nat j * d)) \<Longrightarrow>
   minor_ticks d stop x = Some (map (\<lambda>j. x + of_nat j * d) [0..<n])"
proof (induction n arbitrary: x)
  case 0
  then show ?case by (subst minor_ticks.simps) simp
next
  case (Suc n)
  have "stop = x + d + of_nat n * d" using Suc.prems(2) by (simp add: algebra_simps)
  moreover have "on_grid e (x + d + of_nat j * d)" if "j \<le> n" for j
    using Suc.prems(3) [of "Suc j"] that by (simp add: algebra_simps)
  ultimately have r: "minor_ticks d stop (x + d) = Some (map (\<lambda>j. x + d + of_nat j * d) [0..<n])"
    using Suc.IH [OF Suc.prems(1)] by blast
  have "x < stop" using Suc.prems by (simp add: add_pos_nonneg)
  moreover have "fl (x + d) = x + d" using Suc.prems(3) [of 1] by (simp add: fl_exact)
  moreover have "map (\<lambda>j. x + of_nat j * d) [0..<Suc n] = x # map (\<lambda>j. x + d + of_nat j * d) [0..<n]"
    unfolding upt_conv_Cons [OF zero_less_Suc] map_Suc_upt [symmetric]
    by (simp add: comp_def algebra_simps del: upt_Suc)
  ultimately show ?case by (subst minor_ticks.simps) (simp add: r del: upt_Suc)
qed

lemma minor_ticks_none: "stop \<le> x \<Longrightarrow> minor_ticks d stop x = Some []"
  by (subst minor_ticks.simps) simp

definition minor_row :: "nat \<Rightarrow> rat \<Rightarrow> rat \<Rightarrow> rat list" where
  "minor_row m d x = map (\<lambda>j. x + of_nat j * (d / of_nat m)) [1..<m]"

definition mark_rows :: "nat \<Rightarrow> rat \<Rightarrow> nat \<Rightarrow> rat \<Rightarrow> (rat \<times> rat list) list" where
  "mark_rows m d n x = map (\<lambda>i. (x + of_nat i * d, minor_row m d (x + of_nat i * d))) [0..<n]"

lemma mark_rows_Suc: "mark_rows m d (Suc n) x = (x, minor_row m d x) # mark_rows m d n (x + d)"
  unfolding mark_rows_def upt_conv_Cons [OF zero_less_Suc] map_Suc_upt [symmetric]
  by (simp add: comp_def algebra_simps del: upt_Suc)

text \<open>The marks of a gauge whose minor steps are whole multiples of a power of two.\<close>

definition grid_step :: "int \<Rightarrow> int \<Rightarrow> rat" where
  "grid_step e k = of_int k * 2 powi e"

lemma grid_step_simps: "grid_step e (a + b) = grid_step e a + grid_step e b" "grid_step e (a * b) = of_int a * grid_step e b"
  "grid_step e (a - b) = grid_step e a - grid_step e b" "0 < grid_step e k \<longleftrightarrow> 0 < k" "grid_step e a \<le> grid_step e b \<longleftrightarrow> a \<le> b"
proof -
  have p: "(0::rat) < 2 powi e" by simp
  then show "0 < grid_step e k \<longleftrightarrow> 0 < k"
    unfolding grid_step_def by (metis mult_zero_left mult_less_cancel_right_pos of_int_0_less_iff)
  show "grid_step e a \<le> grid_step e b \<longleftrightarrow> a \<le> b"
    unfolding grid_step_def using mult_le_cancel_right_pos [OF p] by simp
qed (simp_all add: grid_step_def algebra_simps)

lemma grid_exact: "\<bar>k\<bar> < 2 ^ 53 \<Longrightarrow> on_grid e (grid_step e k)" "\<bar>k\<bar> < 2 ^ 53 \<Longrightarrow> fl (grid_step e k) = grid_step e k"
  using fl_exact [of e "grid_step e k"] by (auto simp: on_grid_def grid_step_def)

lemma minors_between:
  assumes "0 < k" "1 \<le> m" "\<bar>z\<bar> + int m * k < 2 ^ 53"
  shows "minor_ticks (grid_step e k) (grid_step e (z + int m * k)) (grid_step e (z + k))
    = Some (minor_row m (grid_step e (int m * k)) (grid_step e z))"
proof -
  obtain i where m: "m = Suc i" using assms(2) by (cases m) auto
  have "grid_step e (z + int m * k) = grid_step e (z + k) + of_nat i * grid_step e k"
    by (simp add: m grid_step_def algebra_simps)
  moreover have "on_grid e (grid_step e (z + k) + of_nat j * grid_step e k)" if "j \<le> i" for j
  proof -
    have "grid_step e (z + k) + of_nat j * grid_step e k = grid_step e (z + int (Suc j) * k)"
      by (simp add: grid_step_def algebra_simps)
    moreover have "int (Suc j) * k \<le> int m * k" "0 \<le> int (Suc j) * k" using that assms(1) by (simp_all add: m)
    ultimately show ?thesis using assms(3) by (simp add: grid_exact)
  qed
  ultimately have "minor_ticks (grid_step e k) (grid_step e (z + int m * k)) (grid_step e (z + k))
      = Some (map (\<lambda>j. grid_step e (z + k) + of_nat j * grid_step e k) [0..<i])"
    using assms(1) by (intro minor_ticks_list) (simp_all add: grid_step_simps)
  moreover have "grid_step e (int m * k) / of_nat m = grid_step e k" using assms(2) by (simp add: grid_step_simps)
  then have "minor_row m (grid_step e (int m * k)) (grid_step e z) = map (\<lambda>j. grid_step e z + of_nat j * grid_step e k) [1..<m]"
    by (simp add: minor_row_def)
  moreover have "\<dots> = map (\<lambda>j. grid_step e (z + k) + of_nat j * grid_step e k) [0..<i]"
    unfolding One_nat_def m map_Suc_upt [symmetric] by (simp add: comp_def algebra_simps grid_step_simps(1))
  ultimately show ?thesis by simp
qed

lemma major_ticks_list:
  assumes k: "0 < k" and m: "g_minor g = of_nat m" "1 \<le> m"
  shows "g_max g = grid_step e (z + int n * (int m * k)) \<Longrightarrow> \<bar>z\<bar> + int (Suc n) * (int m * k) < 2 ^ 53 \<Longrightarrow>
    major_ticks g (grid_step e (int m * k)) (grid_step e z) = Some (mark_rows m (grid_step e (int m * k)) n (grid_step e z) @ [(g_max g, [])])"
proof (induction n arbitrary: z)
  let ?d = "grid_step e (int m * k)"
  have mk: "0 < int m * k" using k m(2) by simp
  have step: "fl (?d / g_minor g) = grid_step e k" "fl (grid_step e z + ?d) = grid_step e (z + int m * k)"
    "fl (grid_step e z + grid_step e k) = grid_step e (z + k)" if "\<bar>z\<bar> + int m * k < 2 ^ 53" for z
  proof -
    have "k \<le> int m * k" using k m(2) by simp
    then have b: "\<bar>k\<bar> < 2 ^ 53" "\<bar>z + int m * k\<bar> < 2 ^ 53" "\<bar>z + k\<bar> < 2 ^ 53" using that k mk by linarith+
    have "?d / g_minor g = grid_step e k" using m by (simp add: grid_step_simps)
    then show "fl (?d / g_minor g) = grid_step e k" using grid_exact(2) [OF b(1)] by simp
    show "fl (grid_step e z + ?d) = grid_step e (z + int m * k)" "fl (grid_step e z + grid_step e k) = grid_step e (z + k)"
      using grid_exact(2) [OF b(2)] grid_exact(2) [OF b(3)] by (simp_all flip: grid_step_simps(1))
  qed
  {
    case 0
    then have x: "g_max g = grid_step e z" and b: "\<bar>z\<bar> + int m * k < 2 ^ 53" by simp_all
    have "minor_ticks (grid_step e k) (min (grid_step e (z + int m * k)) (g_max g)) (grid_step e (z + k)) = Some []"
      by (intro minor_ticks_none min.coboundedI2) (unfold x grid_step_simps(5), use k in simp)
    moreover have "\<not> grid_step e (z + int m * k) \<le> g_max g" using mk unfolding x grid_step_simps(5) by simp
    then have "major_ticks g ?d (grid_step e (z + int m * k)) = Some []" by (subst major_ticks.simps) simp
    ultimately show ?case using x step [OF b] by (subst major_ticks.simps) (simp add: mark_rows_def Let_def)
  next
    case (Suc n)
    have sn: "int (Suc (Suc n)) * (int m * k) = int m * k + int (Suc n) * (int m * k)" by (simp add: algebra_simps)
    have pos: "0 \<le> int n * (int m * k)" using mk by simp
    have e: "g_max g = grid_step e ((z + int m * k) + int n * (int m * k))" using Suc.prems(1) by (simp add: algebra_simps)
    have b: "\<bar>z\<bar> + int m * k < 2 ^ 53" "\<bar>z + int m * k\<bar> + int (Suc n) * (int m * k) < 2 ^ 53"
      using Suc.prems(2) mk pos unfolding sn by (simp_all add: algebra_simps)
    have "z + int m * k \<le> (z + int m * k) + int n * (int m * k)" "z \<le> (z + int m * k) + int n * (int m * k)" using pos mk by linarith+
    then have le: "grid_step e (z + int m * k) \<le> g_max g" "grid_step e z \<le> g_max g" unfolding e grid_step_simps(5) by blast+
    have mn: "minor_ticks (grid_step e k) (min (grid_step e (z + int m * k)) (g_max g)) (grid_step e (z + k))
        = Some (minor_row m ?d (grid_step e z))"
      using minors_between [OF k m(2) b(1)] le by (simp add: min_def)
    show ?case
      using Suc.IH [OF e b(2)] mn le step [OF b(1)]
      by (subst major_ticks.simps) (simp add: mark_rows_Suc Let_def flip: grid_step_simps(1))
  }
qed

text \<open>A step of 0 does not end.\<close>

lemma major_ticks_endless:
  assumes "fl x = x"
  shows "major_ticks g 0 x = Some ys \<Longrightarrow> g_max g < x"
proof (induction ys rule: length_induct)
  case (1 ys)
  show ?case
  proof (rule ccontr)
    assume "\<not> g_max g < x"
    with 1(2) assms obtain ms zs where "major_ticks g 0 x = Some zs" "ys = (x, ms) # zs"
      by (subst (asm) major_ticks.simps) (auto simp: bind_eq_Some_conv Let_def)
    with 1(1) \<open>\<not> g_max g < x\<close> show False by auto
  qed
qed

text \<open>C36: The marks of a gauge. Where the least value and the minor steps are whole multiples of a power of two, of
  less than 53 binary digits as far as one major step beyond the greatest value, the loops end and draw the
  majors evenly from the least to the greatest value, the last one exactly there, and the minors evenly between
  two majors. The console's gauges are such (from 0 to 100, five majors, five minors).\<close>
theorem ticks_drawn:
  assumes "g_min g = of_int z * 2 powi e" "g_max g = of_int (z + int n * (int m * k)) * 2 powi e" "g_range g = g_max g - g_min g"
    and "0 < k" "\<bar>z\<bar> + int (Suc n) * (int m * k) < 2 ^ 53"
    and "g_major g = of_nat (Suc n)" "1 \<le> n" "g_minor g = of_nat m" "1 \<le> m"
  shows "tick_marks g = Some (mark_rows m (g_range g / of_nat n) n (g_min g) @ [(g_max g, [])])"
proof -
  let ?d = "grid_step e (int m * k)"
  have mk: "1 \<le> int m * k" using assms(4,9) by (simp add: mult_le_cancel_right1 zero_less_mult_iff order.strict_implies_order int_one_le_iff_zero_less)
  have g: "g_min g = grid_step e z" "g_max g = grid_step e (z + int n * (int m * k))" using assms(1,2) by (simp_all add: grid_step_def)
  then have r: "g_range g = grid_step e (int n * (int m * k))" using assms(3) by (simp add: grid_step_simps)
  have sn: "int (Suc n) * (int m * k) = int m * k + int n * (int m * k)" by (simp add: algebra_simps)
  have nl: "int n \<le> int n * (int m * k)" using mult_left_mono [OF mk, of "int n"] by simp
  have "fl (g_range g) = g_range g" using assms(5) mk nl unfolding r sn by (intro grid_exact) linarith
  moreover have "fl (g_major g - 1) = of_nat n"
  proof -
    have "of_nat n = grid_step 0 (int n)" by (simp add: grid_step_def)
    moreover have "fl (grid_step 0 (int n)) = grid_step 0 (int n)" using assms(5) mk nl unfolding sn by (intro grid_exact) linarith
    ultimately show ?thesis using assms(6) by simp
  qed
  moreover have d: "g_range g / of_nat n = ?d" using assms(7) unfolding r by (simp add: grid_step_simps)
  moreover have "fl ?d = ?d" using assms(5) mk nl unfolding sn by (intro grid_exact) linarith
  ultimately have "tick_marks g = major_ticks g ?d (grid_step e z)" using assms(6,7) g by (simp add: tick_marks_def)
  then show ?thesis using major_ticks_list [OF assms(4,8,9) g(2) assms(5)] d g(1) by simp
qed

definition console_gauge :: gauge where
  "console_gauge = configure \<lparr>c_size = 150, c_min = Some 0, c_max = Some 100, c_major = None, c_minor = Some 5, c_duration = None,
     c_zones = [\<lparr>z_from = 75, z_to = 90\<rparr>, \<lparr>z_from = 90, z_to = 100\<rparr>]\<rparr>"

lemma ticks_drawn_witness:
  "tick_marks console_gauge = Some (mark_rows 5 (g_range console_gauge / of_nat 4) 4 (g_min console_gauge) @ [(g_max console_gauge, [])])"
  by (rule ticks_drawn [where z = 0 and e = 0 and k = 5])
    (simp_all add: console_gauge_def configure_def or_number_def or_undefined_def Let_def)

text \<open>Other gauges lose their last mark: with seven majors the sixth sum is more than 100, and neither the mark nor
  its label is drawn.\<close>

lemma sixths: "fl (50 / 3) = 4691249611844267 / 281474976710656"
  "fl (4691249611844267 / 281474976710656) = 4691249611844267 / 281474976710656"
  "fl (4691249611844267 / 140737488355328) = 4691249611844267 / 140737488355328"
  "fl (14073748835532801 / 281474976710656) = 50"
  "fl (18764998447377067 / 281474976710656) = 4691249611844267 / 70368744177664"
  "fl (23456248059221335 / 281474976710656) = 2932031007402667 / 35184372088832"
  "fl (28147497671065603 / 281474976710656) = 7036874417766401 / 70368744177664" "fl 100 = 100" "fl 6 = 6"
  by code_simp+

lemma single_step:
  assumes "x \<le> g_max g" "g_minor g = 1" "fl d = d" "fl (x + d) = y"
  shows "major_ticks g d x = map_option (Cons (x, [])) (major_ticks g d y)"
proof -
  have "minor_ticks d (min y (g_max g)) y = Some []" by (rule minor_ticks_none) simp
  then show ?thesis using assms by (subst major_ticks.simps) (cases "major_ticks g d y"; simp add: Let_def)
qed

lemma last_mark_missing:
  "case tick_marks (configure \<lparr>c_size = 150, c_min = Some 0, c_max = Some 100, c_major = Some 7, c_minor = Some 1, c_duration = None,
      c_zones = []\<rparr>) of
     Some rows \<Rightarrow> length rows = 6 \<and> fst (last rows) < 84
   | None \<Rightarrow> False"
proof -
  define g where "g = configure \<lparr>c_size = 150, c_min = Some 0, c_max = Some 100, c_major = Some 7, c_minor = Some 1, c_duration = None,
      c_zones = []\<rparr>"
  let ?d = "4691249611844267 / 281474976710656 :: rat"
  have g: "g_min g = 0" "g_max g = 100" "g_range g = 100" "g_major g = 7" "g_minor g = 1"
    by (simp_all add: g_def configure_def or_number_def or_undefined_def Let_def)
  note step = single_step [of _ g ?d, unfolded g]
  have s: "major_ticks g ?d 0 = map_option (Cons (0, [])) (major_ticks g ?d ?d)"
    "major_ticks g ?d ?d = map_option (Cons (?d, [])) (major_ticks g ?d (4691249611844267 / 140737488355328))"
    "major_ticks g ?d (4691249611844267 / 140737488355328) =
       map_option (Cons (4691249611844267 / 140737488355328, [])) (major_ticks g ?d 50)"
    "major_ticks g ?d 50 = map_option (Cons (50, [])) (major_ticks g ?d (4691249611844267 / 70368744177664))"
    "major_ticks g ?d (4691249611844267 / 70368744177664) =
       map_option (Cons (4691249611844267 / 70368744177664, [])) (major_ticks g ?d (2932031007402667 / 35184372088832))"
    "major_ticks g ?d (2932031007402667 / 35184372088832) =
       map_option (Cons (2932031007402667 / 35184372088832, [])) (major_ticks g ?d (7036874417766401 / 70368744177664))"
    by (rule step; simp add: sixths)+
  have "major_ticks g ?d (7036874417766401 / 70368744177664) = Some []" by (subst major_ticks.simps) (simp add: g)
  moreover have "tick_marks g = major_ticks g ?d 0" by (simp add: tick_marks_def g sixths)
  ultimately show ?thesis by (simp add: s flip: g_def)
qed

text \<open>A gauge without a range hangs the page. When the least value is the greatest the loop that draws the
  marks never ends, for any number of major marks but one.\<close>

theorem ticks_endless:
  assumes "c_min c = Some v" "c_max c = Some v" "c_major c \<noteq> Some 1" "fl v = v"
  shows "tick_marks (configure c) = None"
proof -
  let ?g = "configure c"
  have g: "g_min ?g = v" "g_max ?g = v" "g_range ?g = 0" "g_major ?g \<noteq> 1"
    using assms by (auto simp: configure_def or_number_def or_undefined_def Let_def split: option.splits)
  have "major_ticks ?g 0 v = None"
  proof (cases "major_ticks ?g 0 v")
    case (Some ys)
    from major_ticks_endless [OF assms(4) this] g(2) show ?thesis by simp
  qed
  with g show ?thesis by (simp add: tick_marks_def fl_zero)
qed

lemma ticks_endless_witness:
  "tick_marks (configure \<lparr>c_size = 150, c_min = Some 5, c_max = Some 5, c_major = None, c_minor = None, c_duration = None,
     c_zones = []\<rparr>) = None"
  by (rule ticks_endless [where v = 5]) (simp_all, code_simp)

subsection \<open>The pointer\<close>

text \<open>Beyond the scale the pointer stands a fiftieth of the range away from its end. \<open>redraw\<close> gives the rotations
  the pointer is turned between; a rotation of 0 counts as none.\<close>

definition pointer_value :: "gauge \<Rightarrow> rat \<Rightarrow> rat" where
  "pointer_value g v =
     (if v > g_max g then g_max g + 2 / 100 * g_range g
      else if v < g_min g then g_min g - 2 / 100 * g_range g else v)"

definition target_rotation :: "gauge \<Rightarrow> rat \<Rightarrow> rat" where
  "target_rotation g v = value_to_degrees g (pointer_value g v) - 90"

definition redraw :: "rat \<Rightarrow> gauge \<Rightarrow> (rat \<times> rat) \<times> gauge" where
  "redraw v g =
     (let target = target_rotation g v; current = or_number (g_rotation g) target
      in ((current, target), g\<lparr>g_rotation := Some target\<rparr>))"

definition rotation_at :: "rat \<times> rat \<Rightarrow> rat \<Rightarrow> rat" where
  "rotation_at turn step = fst turn + (snd turn - fst turn) * step"

fun redraws :: "rat list \<Rightarrow> gauge \<Rightarrow> (rat \<times> rat) list" where
  "redraws [] g = []"
| "redraws (v # vs) g = fst (redraw v g) # redraws vs (snd (redraw v g))"

lemma target_formula: "target_rotation g v = (pointer_value g v - g_min g) / g_range g * 270 - 135"
  by (simp add: target_rotation_def value_to_degrees_def diff_divide_distrib algebra_simps)

lemma target_after: "target_rotation (snd (redraw v h)) x = target_rotation h x"
  by (simp add: redraw_def Let_def target_rotation_def value_to_degrees_def pointer_value_def)

lemma target_between:
  assumes "g_range g = g_max g - g_min g" "g_min g < g_max g"
  shows "\<bar>target_rotation g v\<bar> \<le> 702 / 5" "g_min g \<le> v \<Longrightarrow> v \<le> g_max g \<Longrightarrow> \<bar>target_rotation g v\<bar> \<le> 135"
proof -
  define q where "q = (pointer_value g v - g_min g) / g_range g"
  have r: "0 < g_range g" using assms by simp
  have t: "target_rotation g v = q * 270 - 135" by (simp add: target_formula q_def)
  have "- (2 / 100) * g_range g \<le> pointer_value g v - g_min g" "pointer_value g v - g_min g \<le> (1 + 2 / 100) * g_range g"
    using r assms(1) by (auto simp: pointer_value_def algebra_simps)
  with r have "- (2 / 100) \<le> q" "q \<le> 1 + 2 / 100" by (simp_all add: q_def pos_le_divide_eq pos_divide_le_eq)
  with t show "\<bar>target_rotation g v\<bar> \<le> 702 / 5" by linarith
  assume v: "g_min g \<le> v" "v \<le> g_max g"
  then have "0 \<le> q" "q \<le> 1" using r assms(1) by (simp_all add: q_def pointer_value_def pos_divide_le_eq)
  with t show "\<bar>target_rotation g v\<bar> \<le> 135" by linarith
qed

lemma rotation_between: "\<bar>fst p\<bar> \<le> b \<Longrightarrow> \<bar>snd p\<bar> \<le> b \<Longrightarrow> 0 \<le> s \<Longrightarrow> s \<le> 1 \<Longrightarrow> \<bar>rotation_at p s\<bar> \<le> b"
proof -
  assume p: "\<bar>fst p\<bar> \<le> b" "\<bar>snd p\<bar> \<le> b" and s: "0 \<le> s" "s \<le> 1"
  have e: "rotation_at p s = (1 - s) * fst p + s * snd p" by (simp add: rotation_at_def algebra_simps)
  have "\<bar>(1 - s) * fst p\<bar> \<le> (1 - s) * b" "\<bar>s * snd p\<bar> \<le> s * b"
    using p s by (simp_all add: abs_mult mult_left_mono)
  then have "\<bar>rotation_at p s\<bar> \<le> (1 - s) * b + s * b" unfolding e by linarith
  then show ?thesis by (simp add: algebra_simps)
qed

lemma redraws_between:
  assumes "\<And>v. \<bar>target_rotation g v\<bar> \<le> b"
  shows "(\<forall>r. g_rotation h = Some r \<longrightarrow> \<bar>r\<bar> \<le> b) \<Longrightarrow> (\<And>v. target_rotation h v = target_rotation g v) \<Longrightarrow>
     p \<in> set (redraws vs h) \<Longrightarrow> \<bar>fst p\<bar> \<le> b \<and> \<bar>snd p\<bar> \<le> b"
proof (induction vs arbitrary: h)
  case (Cons v vs)
  have t: "target_rotation (snd (redraw v h)) x = target_rotation g x" for x
    by (simp only: target_after Cons.prems(2))
  have s: "\<forall>r. g_rotation (snd (redraw v h)) = Some r \<longrightarrow> \<bar>r\<bar> \<le> b"
    using Cons.prems(2) assms by (simp add: redraw_def Let_def)
  show ?case
  proof (cases "p = fst (redraw v h)")
    case True
    then show ?thesis using Cons.prems(1,2) assms [of v]
      by (auto simp: redraw_def Let_def or_number_def split: option.splits)
  next
    case False
    with Cons.prems(3) Cons.IH [OF s t] show ?thesis by simp
  qed
qed simp

text \<open>C35: The pointer stays on the gauge. However many values a new gauge shows, of any size, at every moment of
  every turn its pointer is within 140.4 degrees of the top.\<close>
theorem pointer_stays:
  assumes "g = configure c" "g_min g < g_max g" "turn \<in> set (redraws vs g)" "0 \<le> step" "step \<le> 1"
  shows "\<bar>rotation_at turn step\<bar> \<le> 702 / 5"
proof -
  have r: "g_range g = g_max g - g_min g" "g_rotation g = None" by (simp_all add: assms(1) configure_def Let_def)
  from redraws_between [OF target_between(1) [OF r(1) assms(2)], of g turn vs] r(2) assms(3)
  have "\<bar>fst turn\<bar> \<le> 702 / 5" "\<bar>snd turn\<bar> \<le> 702 / 5" by auto
  from rotation_between [OF this assms(4,5)] show ?thesis .
qed

lemma pointer_stays_witness:
  "\<bar>rotation_at (target_rotation console_gauge 79, target_rotation console_gauge 1000) (1 / 2)\<bar> \<le> 702 / 5"
proof (rule pointer_stays [OF console_gauge_def, where vs = "[79, 1000]"])
  show "g_min console_gauge < g_max console_gauge"
    by (simp add: console_gauge_def configure_def or_undefined_def Let_def)
  show "(target_rotation console_gauge 79, target_rotation console_gauge 1000) \<in> set (redraws [79, 1000] console_gauge)"
    by (simp add: redraw_def Let_def or_number_def console_gauge_def configure_def or_undefined_def target_rotation_def
        value_to_degrees_def pointer_value_def)
qed simp_all

text \<open>From the middle the pointer jumps. When a gauge shows the middle of its scale, the next value is shown
  without a turn: the rotation 0 counts as no rotation.\<close>

theorem middle_jumps:
  assumes "g_range g = g_max g - g_min g" "g_min g < g_max g" "g1 = snd (redraw ((g_min g + g_max g) / 2) g)"
  shows "rotation_at (fst (redraw v g1)) step = target_rotation g1 v"
proof -
  have "target_rotation g ((g_min g + g_max g) / 2) = 0"
  proof -
    have "pointer_value g ((g_min g + g_max g) / 2) - g_min g = g_range g / 2"
      using assms(1,2) by (simp add: pointer_value_def field_simps)
    moreover have "g_range g / 2 / g_range g = 1 / 2" using assms(1,2) by simp
    ultimately show ?thesis by (simp only: target_formula)
  qed
  with assms(3) have "g_rotation g1 = Some 0" by (simp add: redraw_def Let_def)
  then show ?thesis by (simp add: redraw_def Let_def or_number_def rotation_at_def)
qed

lemma middle_jumps_witness:
  "rotation_at (fst (redraw 80 (snd (redraw ((g_min console_gauge + g_max console_gauge) / 2) console_gauge)))) (1 / 2)
     = target_rotation (snd (redraw ((g_min console_gauge + g_max console_gauge) / 2) console_gauge)) 80"
  by (rule middle_jumps [of console_gauge, OF _ _ refl])
    (simp_all add: console_gauge_def configure_def or_undefined_def Let_def)

section \<open>Radial progress\<close>

text \<open>A radial keeps the angle and the label its transitions start from; what is drawn are two arcs, the second one
  for values beyond the scale, and the label.\<close>

record radial =
  rp_value :: rat
  rp_min :: rat
  rp_max :: rat
  rp_arc :: rat
  rp_label :: rat

record radial_svg =
  sv_arc :: rat
  sv_arc2 :: rat
  sv_label :: string

definition half_up :: "rat \<Rightarrow> int" where
  "half_up x = floor (x + 1 / 2)"

definition new_radial :: radial where
  "new_radial = \<lparr>rp_value = 0, rp_min = 0, rp_max = 100, rp_arc = 0, rp_label = 0\<rparr>"

definition radial_ratio :: "radial \<Rightarrow> rat" where
  "radial_ratio r = (rp_value r - rp_min r) / (rp_max r - rp_min r)"

definition percent_text :: "rat \<Rightarrow> string" where
  "percent_text x = int_str (half_up x) @ ''%''"

text \<open>The first time the paths and the label are made.\<close>

definition enter_radial :: "radial \<Rightarrow> radial_svg option \<Rightarrow> radial_svg" where
  "enter_radial r svg = (case svg of
     Some s \<Rightarrow> s
   | None \<Rightarrow> \<lparr>sv_arc = rp_arc r, sv_arc2 = 0, sv_label = percent_text (radial_ratio r * 100)\<rparr>)"

definition interpolate :: "rat \<Rightarrow> rat \<Rightarrow> rat \<Rightarrow> rat" where
  "interpolate a b t = a * (1 - t) + b * t"

text \<open>What is drawn at a moment of the transitions, from 0 to 1; the second arc starts when the first is done.\<close>

definition radial_tween :: "radial \<Rightarrow> radial_svg option \<Rightarrow> rat \<Rightarrow> rat \<Rightarrow> radial \<times> radial_svg" where
  "radial_tween r svg t t2 =
     (let q = radial_ratio r; arc = interpolate (rp_arc r) (min (360 * q) 360) t;
          label = interpolate (rp_label r) (of_int (half_up (q * 100))) t; s = enter_radial r svg
      in (r\<lparr>rp_arc := arc, rp_label := label\<rparr>,
          s\<lparr>sv_arc := arc, sv_label := percent_text label,
            sv_arc2 := (if 1 < q then interpolate 0 (min (360 * (q - 1)) 360) t2 else sv_arc2 s)\<rparr>))"

definition show_value :: "rat \<Rightarrow> radial \<Rightarrow> radial_svg option \<Rightarrow> radial \<times> radial_svg" where
  "show_value v r svg = radial_tween (r\<lparr>rp_value := v\<rparr>) svg 1 1"

lemma half_up_int [simp]: "half_up (of_int i) = i"
  by (simp add: half_up_def floor_eq_iff)

lemma show_value_drawn:
  "sv_arc (snd (show_value v r svg)) = min (360 * ((v - rp_min r) / (rp_max r - rp_min r))) 360"
  "sv_label (snd (show_value v r svg)) = int_str (half_up ((v - rp_min r) / (rp_max r - rp_min r) * 100)) @ ''%''"
  by (simp_all add: show_value_def radial_tween_def radial_ratio_def interpolate_def Let_def percent_text_def)

text \<open>A value beyond the scale stays in the drawing. After a radial has shown a value beyond its scale and then
  one within it, label and first arc are those of the second value, and the arc of the overflow is still there.\<close>
theorem overflow_stays:
  assumes "rp_min r < rp_max r" "rp_max r < v" "w \<le> rp_max r" "show_value v r svg = (r1, s1)"
    and "show_value w r1 (Some s1) = (r2, s2)"
  shows "sv_arc2 s2 = min (360 * ((v - rp_min r) / (rp_max r - rp_min r) - 1)) 360 \<and> 0 < sv_arc2 s2 \<and>
     sv_label s2 = int_str (half_up ((w - rp_min r) / (rp_max r - rp_min r) * 100)) @ ''%''"
proof -
  let ?d = "rp_max r - rp_min r"
  have d: "0 < ?d" using assms(1) by simp
  have q: "1 < (v - rp_min r) / ?d" "\<not> 1 < (w - rp_min r) / ?d" using d assms(2,3) by (simp_all add: less_divide_eq divide_less_eq)
  have r1: "rp_min r1 = rp_min r" "rp_max r1 = rp_max r"
    using assms(4) by (auto simp: show_value_def radial_tween_def Let_def)
  have "sv_arc2 s1 = min (360 * ((v - rp_min r) / ?d - 1)) 360"
    using assms(4) q(1) by (auto simp: show_value_def radial_tween_def radial_ratio_def interpolate_def Let_def)
  moreover have "sv_arc2 s2 = sv_arc2 s1"
    using assms(5) q(2) by (auto simp: show_value_def radial_tween_def radial_ratio_def enter_radial_def r1 Let_def)
  moreover have "sv_label s2 = int_str (half_up ((w - rp_min r) / ?d * 100)) @ ''%''"
    using show_value_drawn(2) [of w r1 "Some s1"] assms(5) by (simp add: r1)
  moreover have "0 < min (360 * (x - 1)) 360" if "1 < x" for x :: rat using that by simp
  ultimately show ?thesis using q(1) by (simp only: simp_thms)
qed

lemma overflow_stays_witness:
  "sv_arc2 (snd (show_value 20 (fst (show_value 150 new_radial None)) (Some (snd (show_value 150 new_radial None))))) =
     min (360 * ((150 - rp_min new_radial) / (rp_max new_radial - rp_min new_radial) - 1)) 360"
  using overflow_stays [of new_radial 150 20 None "fst (show_value 150 new_radial None)" "snd (show_value 150 new_radial None)"
      "fst (show_value 20 (fst (show_value 150 new_radial None)) (Some (snd (show_value 150 new_radial None))))"
      "snd (show_value 20 (fst (show_value 150 new_radial None)) (Some (snd (show_value 150 new_radial None))))"]
  by (simp add: new_radial_def)

section \<open>Sizes in graphs\<close>

text \<open>\<^verbatim>\<open>getusize\<close> of \<^verbatim>\<open>graph-utils.js\<close>: a count in thousands, millions or thousand millions.\<close>

definition graph_size :: "nat \<Rightarrow> string" where
  "graph_size n = (let x = of_nat n :: rat in
     if 1 \<le> x / 1000 / 1000 / 1000 then int_str (half_up (x / 1000 / 1000 / 1000)) @ ''G''
     else if 1 \<le> x / 1000 / 1000 then int_str (half_up (x / 1000 / 1000)) @ ''M''
     else if 1 \<le> x / 1000 then int_str (half_up (x / 1000)) @ ''K''
     else nat_str n)"

definition graph_unit :: "string \<Rightarrow> nat" where
  "graph_unit s = (if last s = CHR ''G'' then 1000000000 else if last s = CHR ''M'' then 1000000 else if last s = CHR ''K'' then 1000 else 1)"

definition graph_value :: "string \<Rightarrow> nat" where
  "graph_value s = digits_val 0 (takeWhile is_digit s) * graph_unit s"

lemma digits_unit:
  assumes "\<not> is_digit c"
  shows "takeWhile is_digit (nat_str n @ [c]) = nat_str n"
  using assms nat_str_digits [of _ n] by (simp add: takeWhile_append)

lemma half_up_bounds:
  assumes "0 \<le> x"
  shows "int (nat (half_up x)) = half_up x" "x - 1 / 2 < of_int (half_up x)" "of_int (half_up x) \<le> x + 1 / 2"
proof -
  have "0 \<le> half_up x" using assms by (simp add: half_up_def)
  then show "int (nat (half_up x)) = half_up x" by simp
  show "of_int (half_up x) \<le> x + 1 / 2" by (simp add: half_up_def)
  have "x + 1 / 2 < of_int (half_up x) + 1" unfolding half_up_def by (rule floor_correct [THEN conjunct2, THEN less_le_trans]) simp
  then show "x - 1 / 2 < of_int (half_up x)" by simp
qed

lemma graph_value_unit:
  assumes "c \<in> {CHR ''G'', CHR ''M'', CHR ''K''}" "0 \<le> i"
  shows "graph_value (int_str i @ [c]) = nat i * graph_unit [c]"
proof -
  have "\<not> is_digit c" using assms(1) by (auto simp: is_digit_def)
  then show ?thesis using assms digits_unit [of c "nat i"] by (simp add: graph_value_def graph_unit_def int_str_def)
qed

lemma half_up_scaled:
  assumes "0 < k"
  shows "2 * (half_up (of_nat n / of_nat k) * int k) \<le> 2 * int n + int k"
    "2 * int n - int k < 2 * (half_up (of_nat n / of_nat k) * int k)"
proof -
  define x :: rat where "x = of_nat n / of_nat k"
  have x: "x * of_nat k = of_nat n" using assms by (simp add: x_def)
  have b: "of_int (half_up x) \<le> x + 1 / 2" "x - 1 / 2 < of_int (half_up x)"
    using half_up_bounds(2,3) [of x] by (simp_all add: x_def)
  have "of_int (half_up x) * of_nat k \<le> (x + 1 / 2) * of_nat k" by (rule mult_right_mono [OF b(1)]) simp
  then have "(of_int (2 * (half_up x * int k)) :: rat) \<le> of_int (2 * int n + int k)"
    using x by (simp add: distrib_right)
  then show "2 * (half_up (of_nat n / of_nat k) * int k) \<le> 2 * int n + int k" unfolding x_def [symmetric] by (simp only: of_int_le_iff)
  have "(x - 1 / 2) * of_nat k < of_int (half_up x) * of_nat k" by (rule mult_strict_right_mono [OF b(2)]) (use assms in simp)
  then have "(of_int (2 * int n - int k) :: rat) < of_int (2 * (half_up x * int k))"
    using x by (simp add: left_diff_distrib)
  then show "2 * int n - int k < 2 * (half_up (of_nat n / of_nat k) * int k)" unfolding x_def [symmetric] by (simp only: of_int_less_iff)
qed

lemma graph_text_close:
  assumes "c \<in> {CHR ''G'', CHR ''M'', CHR ''K''}" "graph_unit [c] = k" "0 < k"
  shows "\<bar>int (graph_value (int_str (half_up (of_nat n / of_nat k)) @ [c])) - int n\<bar> * 2 \<le> int k"
proof -
  let ?i = "half_up (of_nat n / of_nat k)"
  have "0 \<le> ?i" by (simp add: half_up_def)
  with graph_value_unit [OF assms(1) this] assms(2) have v: "int (graph_value (int_str ?i @ [c])) = ?i * int k" by simp
  have "\<bar>a - b\<bar> * 2 \<le> d" if "2 * a \<le> 2 * b + d" "2 * b - d < 2 * a" for a b d :: int using that by (auto simp: abs_if)
  then show ?thesis unfolding v using half_up_scaled [OF assms(3), of n] by blast
qed

lemma size_steps:
  "1 \<le> (of_nat n :: rat) / 1000 / 1000 / 1000 \<longleftrightarrow> 1000000000 \<le> n" "1 \<le> (of_nat n :: rat) / 1000 / 1000 \<longleftrightarrow> 1000000 \<le> n"
  "1 \<le> (of_nat n :: rat) / 1000 \<longleftrightarrow> 1000 \<le> n"
  by (simp_all add: le_divide_eq)

lemma graph_size_cases:
  "1000000000 \<le> n \<Longrightarrow> graph_size n = int_str (half_up (of_nat n / of_nat 1000000000)) @ ''G''"
  "1000000 \<le> n \<Longrightarrow> n < 1000000000 \<Longrightarrow> graph_size n = int_str (half_up (of_nat n / of_nat 1000000)) @ ''M''"
  "1000 \<le> n \<Longrightarrow> n < 1000000 \<Longrightarrow> graph_size n = int_str (half_up (of_nat n / of_nat 1000)) @ ''K''"
  "n < 1000 \<Longrightarrow> graph_size n = nat_str n"
  unfolding graph_size_def Let_def size_steps by simp_all

lemma graph_unit_snoc: "graph_unit (s @ [c]) = graph_unit [c]"
  by (simp add: graph_unit_def)

lemma graph_value_small: "n < 1000 \<Longrightarrow> graph_value (graph_size n) = n \<and> graph_unit (graph_size n) = 1"
proof -
  have l: "last (nat_str n) \<notin> {CHR ''G'', CHR ''M'', CHR ''K''}"
    using nat_str_digits [of "last (nat_str n)" n] by (auto simp: is_digit_def)
  have "takeWhile is_digit (nat_str n) = nat_str n" using nat_str_digits by simp
  with l show "n < 1000 \<Longrightarrow> ?thesis" by (simp add: graph_size_cases(4) graph_value_def graph_unit_def del: takeWhile_eq_all_conv)
qed

text \<open>A count in a graph is shown to half a unit. What is read from the text differs from the count by at most half
  of the unit it is shown in; below a thousand the unit is one and the count is exact.\<close>
theorem graph_size_close: "\<bar>int (graph_value (graph_size n)) - int n\<bar> * 2 \<le> int (graph_unit (graph_size n))"
proof -
  consider "1000000000 \<le> n" | "1000000 \<le> n" "n < 1000000000" | "1000 \<le> n" "n < 1000000" | "n < 1000" by linarith
  then show ?thesis
  proof cases
    case 1
    from graph_text_close [of "CHR ''G''" 1000000000 n] show ?thesis
      unfolding graph_size_cases(1) [OF 1] graph_unit_snoc by (simp add: graph_unit_def)
  next
    case 2
    from graph_text_close [of "CHR ''M''" 1000000 n] show ?thesis
      unfolding graph_size_cases(2) [OF 2] graph_unit_snoc by (simp add: graph_unit_def)
  next
    case 3
    from graph_text_close [of "CHR ''K''" 1000 n] show ?thesis
      unfolding graph_size_cases(3) [OF 3] graph_unit_snoc by (simp add: graph_unit_def)
  qed (simp add: graph_value_small)
qed

end
