(* ===== verification/Objects.thy ===== *)
theory Objects
  imports Prelude
begin

text \<open>
  Objects and what the toolkit does with them (\<^verbatim>\<open>dojo/_base/lang\<close>): \<^verbatim>\<open>mixin\<close>, paths of names
  (\<^verbatim>\<open>getObject\<close>, \<^verbatim>\<open>setObject\<close>, \<^verbatim>\<open>exists\<close>), \<^verbatim>\<open>replace\<close> and, in \<^theory_text>\<open>Cloning\<close>, \<^verbatim>\<open>clone\<close>. Objects live in a store, so that a
  value may be shared and a store may have circles. The objects are those of literals and of JSON and
  those that functions construct; DOM nodes, dates, regular expressions, fields of functions and the name
  \<^verbatim>\<open>__proto__\<close> are left out.
\<close>

section \<open>Values and the store\<close>

datatype jval = OUndef | ONull | OBool bool | ONum int | OStr string | OFun string | ORef nat

text \<open>A name that is a number is an index; an object enumerates its indices first, ascending, and then the
  other names in the order they were added.\<close>

datatype jkey = Ix nat | Nm string

definition slot_key :: "string \<Rightarrow> jkey" where
  "slot_key s = (if s \<noteq> [] \<and> list_all is_digit s \<and> (s = ''0'' \<or> hd s \<noteq> CHR ''0'')
     then Ix (digits_val 0 s) else Nm s)"

record jobj =
  array_like_obj :: bool
  array_len :: nat
  slots :: "(jkey \<times> jval) list"

type_synonym store = "jobj list"

datatype lang_error = Not_an_object jval | Not_a_constructor jval | Left_out string

definition truthy_val :: "jval \<Rightarrow> bool" where
  "truthy_val v \<longleftrightarrow> v \<notin> {OUndef, ONull, OBool False, ONum 0, OStr []}"

fun comes_before :: "jkey \<Rightarrow> jkey \<Rightarrow> bool" where
  "comes_before (Ix i) (Ix j) \<longleftrightarrow> i < j"
| "comes_before (Ix i) (Nm n) \<longleftrightarrow> True"
| "comes_before (Nm n) k \<longleftrightarrow> False"

fun put_slot :: "jkey \<Rightarrow> jval \<Rightarrow> (jkey \<times> jval) list \<Rightarrow> (jkey \<times> jval) list" where
  "put_slot k v [] = [(k, v)]"
| "put_slot k v ((l, w) # xs) =
     (if l = k then (k, v) # xs else if comes_before k l then (k, v) # (l, w) # xs
      else (l, w) # put_slot k v xs)"

text \<open>What every object, and every array, has without a field of its own.\<close>

definition array_names :: "string list" where
  "array_names = [''concat'', ''every'', ''filter'', ''forEach'', ''indexOf'', ''join'', ''lastIndexOf'', ''map'', ''pop'',
     ''push'', ''reduce'', ''reduceRight'', ''reverse'', ''shift'', ''slice'', ''some'', ''sort'', ''splice'', ''unshift'']"

fun inherited_val :: "jobj \<Rightarrow> jkey \<Rightarrow> jval option" where
  "inherited_val ob (Ix i) = None"
| "inherited_val ob (Nm n) =
     (if n = ''constructor'' then Some (OFun (if array_like_obj ob then ''Array'' else ''Object''))
      else if array_like_obj ob \<and> n = ''length'' then Some (ONum (int (array_len ob)))
      else if n \<in> set proto_names \<or> array_like_obj ob \<and> n \<in> set array_names then Some (OFun n) else None)"

definition own_or_inherited :: "jobj \<Rightarrow> jkey \<Rightarrow> jval option" where
  "own_or_inherited ob k = (case map_of (slots ob) k of Some v \<Rightarrow> Some v | None \<Rightarrow> inherited_val ob k)"

definition read_slot :: "store \<Rightarrow> nat \<Rightarrow> jkey \<Rightarrow> jval" where
  "read_slot h a k = (case own_or_inherited (h ! a) k of Some v \<Rightarrow> v | None \<Rightarrow> OUndef)"

definition plain_obj :: jobj where
  "plain_obj = \<lparr>array_like_obj = False, array_len = 0, slots = []\<rparr>"

definition empty_array :: jobj where
  "empty_array = \<lparr>array_like_obj = True, array_len = 0, slots = []\<rparr>"

definition alloc :: "jobj \<Rightarrow> store \<Rightarrow> store \<times> nat" where
  "alloc ob h = (h @ [ob], length h)"

text \<open>An assignment to a field. An array grows with its indices; an assignment to its length is left out.\<close>

definition put_obj :: "jkey \<Rightarrow> jval \<Rightarrow> jobj \<Rightarrow> jobj" where
  "put_obj k v ob = ob\<lparr>slots := put_slot k v (slots ob),
     array_len := (case k of Ix i \<Rightarrow> if array_like_obj ob then max (array_len ob) (Suc i) else array_len ob
                   | Nm n \<Rightarrow> array_len ob)\<rparr>"

definition write_slot :: "nat \<Rightarrow> jkey \<Rightarrow> jval \<Rightarrow> store \<Rightarrow> lang_error + store" where
  "write_slot a k v h =
     (if array_like_obj (h ! a) \<and> k = Nm ''length'' then Inl (Left_out ''length'')
      else Inr (h[a := put_obj k v (h ! a)]))"

section \<open>Mixing in\<close>

text \<open>What \<^verbatim>\<open>for(name in source)\<close> goes through, and what \<^verbatim>\<open>source[name]\<close> reads.\<close>

definition names_of :: "store \<Rightarrow> jval \<Rightarrow> jkey list" where
  "names_of h v = (case v of ORef a \<Rightarrow> map fst (slots (h ! a)) | OStr s \<Rightarrow> map Ix [0..<length s] | _ \<Rightarrow> [])"

definition read_val :: "store \<Rightarrow> jval \<Rightarrow> jkey \<Rightarrow> jval" where
  "read_val h v k = (case v of
       ORef a \<Rightarrow> read_slot h a k
     | OStr s \<Rightarrow> (case k of Ix i \<Rightarrow> if i < length s then OStr [s ! i] else OUndef | Nm n \<Rightarrow> OUndef)
     | _ \<Rightarrow> OUndef)"

text \<open>A copying function takes a value and the store and need not return (\<open>None\<close>). A field is copied unless the
  target has the same value already or the value is what every object inherits.\<close>

type_synonym copier = "jval \<Rightarrow> store \<Rightarrow> (store \<times> (lang_error + jval)) option"

definition to_copy :: "store \<Rightarrow> nat \<Rightarrow> jkey \<Rightarrow> jval \<Rightarrow> bool" where
  "to_copy h d k s \<longleftrightarrow> (case own_or_inherited (h ! d) k of
       None \<Rightarrow> True
     | Some w \<Rightarrow> w \<noteq> s \<and> inherited_val plain_obj k \<noteq> Some s)"

fun mixin_names :: "copier \<Rightarrow> nat \<Rightarrow> jval \<Rightarrow> jkey list \<Rightarrow> store \<Rightarrow> (store \<times> (lang_error + unit)) option" where
  "mixin_names cp d src [] h = Some (h, Inr ())"
| "mixin_names cp d src (k # ks) h =
     (let s = read_val h src k
      in if to_copy h d k s
         then (case cp s h of
             None \<Rightarrow> None
           | Some (h1, Inl e) \<Rightarrow> Some (h1, Inl e)
           | Some (h1, Inr r) \<Rightarrow> (case write_slot d k r h1 of
               Inl e \<Rightarrow> Some (h1, Inl e)
             | Inr h2 \<Rightarrow> mixin_names cp d src ks h2))
         else mixin_names cp d src ks h)"

definition mixin_into :: "copier \<Rightarrow> nat \<Rightarrow> jval \<Rightarrow> store \<Rightarrow> (store \<times> (lang_error + unit)) option" where
  "mixin_into cp d src h = mixin_names cp d src (names_of h src) h"

definition by_reference :: copier where
  "by_reference s h = Some (h, Inr s)"

fun mixin_all :: "nat \<Rightarrow> jval list \<Rightarrow> store \<Rightarrow> (store \<times> (lang_error + unit)) option" where
  "mixin_all d [] h = Some (h, Inr ())"
| "mixin_all d (src # srcs) h = (case mixin_into by_reference d src h of
       None \<Rightarrow> None
     | Some (h1, Inl e) \<Rightarrow> Some (h1, Inl e)
     | Some (h1, Inr u) \<Rightarrow> mixin_all d srcs h1)"

definition mixin :: "jval \<Rightarrow> jval list \<Rightarrow> store \<Rightarrow> (store \<times> (lang_error + jval)) option" where
  "mixin dest srcs h =
     (if \<not> truthy_val dest then
        (case alloc plain_obj h of (h1, d) \<Rightarrow>
           map_option (map_prod id (map_sum id (\<lambda>u. ORef d))) (mixin_all d srcs h1))
      else (case dest of
          ORef d \<Rightarrow> map_option (map_prod id (map_sum id (\<lambda>u. dest))) (mixin_all d srcs h)
        | OFun f \<Rightarrow> Some (h, Inl (Left_out f))
        | _ \<Rightarrow> if \<exists>src\<in>set srcs. names_of h src \<noteq> [] then Some (h, Inl (Not_an_object dest)) else Some (h, Inr dest)))"

section \<open>Paths of names\<close>

text \<open>The loop of \<^verbatim>\<open>getProp\<close>: it ends at a value that counts as false and at an empty name.\<close>

fun walk_names :: "bool \<Rightarrow> string list \<Rightarrow> jval \<Rightarrow> store \<Rightarrow> store \<times> (lang_error + jval)" where
  "walk_names create [] c h = (h, Inr c)"
| "walk_names create (p # ps) c h =
     (if \<not> truthy_val c \<or> p = [] then (h, Inr c)
      else (case c of
          ORef a \<Rightarrow> (case own_or_inherited (h ! a) (slot_key p) of
              Some v \<Rightarrow> walk_names create ps v h
            | None \<Rightarrow> if create
                then (case alloc plain_obj h of (h1, b) \<Rightarrow>
                    walk_names create ps (ORef b) (h1[a := put_obj (slot_key p) (ORef b) (h1 ! a)]))
                else (h, Inr OUndef))
        | OFun f \<Rightarrow> (h, Inl (Left_out f))
        | _ \<Rightarrow> (h, Inl (Not_an_object c))))"

text \<open>Without a context the first name is looked up among the toolkit's own names (\<open>scopes\<close>) and in the global
  object (at \<open>g\<close>), which are given.\<close>

definition get_prop :: "(string \<Rightarrow> jval) \<Rightarrow> nat \<Rightarrow> string list \<Rightarrow> bool \<Rightarrow> jval \<Rightarrow> store \<Rightarrow> store \<times> (lang_error + jval)" where
  "get_prop scopes g parts create c h =
     (if truthy_val c then walk_names create parts c h
      else (case parts of
          [] \<Rightarrow> (h, Inr (ORef g))
        | p # ps \<Rightarrow>
            (if truthy_val (scopes p) then walk_names create ps (scopes p) h
             else (case own_or_inherited (h ! g) (slot_key p) of
                 Some v \<Rightarrow> walk_names create ps v h
               | None \<Rightarrow> if create
                   then (case alloc plain_obj h of (h1, b) \<Rightarrow>
                       walk_names create ps (ORef b) (h1[g := put_obj (slot_key p) (ORef b) (h1 ! g)]))
                   else walk_names create ps OUndef h))))"

definition get_object :: "(string \<Rightarrow> jval) \<Rightarrow> nat \<Rightarrow> string \<Rightarrow> bool \<Rightarrow> jval \<Rightarrow> store \<Rightarrow> store \<times> (lang_error + jval)" where
  "get_object scopes g name create c h = get_prop scopes g (split_on CHR ''.'' name) create c h"

definition object_exists :: "(string \<Rightarrow> jval) \<Rightarrow> nat \<Rightarrow> string \<Rightarrow> jval \<Rightarrow> store \<Rightarrow> lang_error + bool" where
  "object_exists scopes g name c h = map_sum id (\<lambda>v. v \<noteq> OUndef) (snd (get_object scopes g name False c h))"

text \<open>An assignment to a field of a text, a number or a boolean has no effect.\<close>

definition set_object :: "(string \<Rightarrow> jval) \<Rightarrow> nat \<Rightarrow> string \<Rightarrow> jval \<Rightarrow> jval \<Rightarrow> store \<Rightarrow> store \<times> (lang_error + jval)" where
  "set_object scopes g name v c h =
     (let parts = split_on CHR ''.'' name; p = last parts
      in case get_prop scopes g (butlast parts) True c h of
           (h1, Inl e) \<Rightarrow> (h1, Inl e)
         | (h1, Inr w) \<Rightarrow>
             if truthy_val w \<and> p \<noteq> []
             then (case w of
                 ORef a \<Rightarrow> (case write_slot a (slot_key p) v h1 of Inl e \<Rightarrow> (h1, Inl e) | Inr h2 \<Rightarrow> (h2, Inr v))
               | OFun f \<Rightarrow> (h1, Inl (Left_out f))
               | _ \<Rightarrow> (h1, Inr v))
             else (h1, Inr OUndef))"

section \<open>Texts with holes\<close>

text \<open>What \<^verbatim>\<open>String\<close> makes of a value; for objects and functions it is given (\<open>shown\<close>).\<close>

definition val_text :: "(jval \<Rightarrow> string) \<Rightarrow> jval \<Rightarrow> string" where
  "val_text shown v = (case v of
       OUndef \<Rightarrow> ''undefined'' | ONull \<Rightarrow> ''null'' | OBool b \<Rightarrow> (if b then ''true'' else ''false'')
     | ONum n \<Rightarrow> int_str n | OStr s \<Rightarrow> s | _ \<Rightarrow> shown v)"

text \<open>A match of \<^verbatim>\<open>{([^}]+)}\<close>, each replaced by what \<open>f\<close> says.\<close>

function replace_holes :: "(string \<Rightarrow> lang_error + string) \<Rightarrow> string \<Rightarrow> lang_error + string" where
  "replace_holes f [] = Inr []"
| "replace_holes f (c # s) =
     (if c = CHR ''{'' \<and> takeWhile (\<lambda>d. d \<noteq> CHR ''}'') s \<noteq> [] \<and> CHR ''}'' \<in> set s
      then (case f (takeWhile (\<lambda>d. d \<noteq> CHR ''}'') s) of
          Inl e \<Rightarrow> Inl e
        | Inr t \<Rightarrow> map_sum id (\<lambda>u. t @ u) (replace_holes f (tl (dropWhile (\<lambda>d. d \<noteq> CHR ''}'') s))))
      else map_sum id (Cons c) (replace_holes f s))"
  by pat_completeness auto
termination
  by (relation "measure (length \<circ> snd)") (auto simp: less_Suc_eq_le intro: order_trans [OF diff_le_self length_dropWhile_le])

definition replace_text :: "(jval \<Rightarrow> string) \<Rightarrow> (string \<Rightarrow> jval) \<Rightarrow> nat \<Rightarrow> string \<Rightarrow> jval \<Rightarrow> store \<Rightarrow> lang_error + string" where
  "replace_text shown scopes g tmpl m h =
     replace_holes (\<lambda>k. map_sum id (val_text shown) (snd (get_object scopes g k False m h))) tmpl"

section \<open>Fields\<close>

lemma map_of_put_slot: "map_of (put_slot k v xs) = (map_of xs)(k \<mapsto> v)"
  by (induction k v xs rule: put_slot.induct) auto

lemma set_put_slot: "set (put_slot k v xs) \<subseteq> insert (k, v) (set xs)"
  by (induction k v xs rule: put_slot.induct) auto

section \<open>What a path of names reads and writes\<close>

lemma map_of_put_obj [simp]: "map_of (slots (put_obj k v ob)) = (map_of (slots ob))(k \<mapsto> v)"
  by (simp add: put_obj_def map_of_put_slot)

lemma set_put_obj: "set (slots (put_obj k v ob)) \<subseteq> insert (k, v) (set (slots ob))"
  by (simp add: put_obj_def set_put_slot)

definition refs_inside :: "nat \<Rightarrow> (jkey \<times> jval) list \<Rightarrow> bool" where
  "refs_inside n xs \<longleftrightarrow> list_all (\<lambda>(k, v). case v of ORef b \<Rightarrow> b < n | _ \<Rightarrow> True) xs"

definition in_store :: "store \<Rightarrow> bool" where
  "in_store h \<longleftrightarrow> list_all (\<lambda>ob. refs_inside (length h) (slots ob)) h"

text \<open>Fields that are there stay.\<close>

definition keeps_fields :: "store \<Rightarrow> store \<Rightarrow> bool" where
  "keeps_fields h h' \<longleftrightarrow> length h \<le> length h' \<and>
     (\<forall>a<length h. \<forall>k v. map_of (slots (h ! a)) k = Some v \<longrightarrow> map_of (slots (h' ! a)) k = Some v)"

lemma keeps_fields_trans: "keeps_fields h h' \<Longrightarrow> keeps_fields h' h'' \<Longrightarrow> keeps_fields h h''"
  by (auto simp: keeps_fields_def)

lemma in_store_ref: "in_store h \<Longrightarrow> a < length h \<Longrightarrow> map_of (slots (h ! a)) k = Some (ORef b) \<Longrightarrow> b < length h"
  by (drule map_of_SomeD) (fastforce simp: in_store_def refs_inside_def list_all_iff)

lemma refs_inside_mono: "refs_inside n xs \<Longrightarrow> n \<le> m \<Longrightarrow> refs_inside m xs"
  by (fastforce simp: refs_inside_def list_all_iff split: jval.splits)

lemma refs_inside_put:
  "refs_inside n (slots ob) \<Longrightarrow> (\<And>b. v = ORef b \<Longrightarrow> b < n) \<Longrightarrow> refs_inside n (slots (put_obj k v ob))"
  using set_put_obj [of k v ob] unfolding refs_inside_def list_all_iff by (auto split: jval.splits)

text \<open>A new object in a field that was missing.\<close>

lemma created:
  assumes h: "in_store h" "a < length h" "own_or_inherited (h ! a) k = None"
    and h': "h' = (h @ [plain_obj])[a := put_obj k (ORef (length h)) ((h @ [plain_obj]) ! a)]"
  shows "in_store h'" "keeps_fields h h'" "map_of (slots (h' ! a)) k = Some (ORef (length h))" "length h' = Suc (length h)"
proof -
  have "map_of (slots (h ! a)) k = None" using h(3) by (simp add: own_or_inherited_def split: option.splits)
  then show "keeps_fields h h'" "map_of (slots (h' ! a)) k = Some (ORef (length h))" "length h' = Suc (length h)"
    using h(2) h' by (auto simp: keeps_fields_def nth_list_update nth_append)
  have "refs_inside (Suc (length h)) (slots ob)" if "ob \<in> set (h @ [plain_obj])" for ob
    using h(1) that by (auto simp: in_store_def list_all_iff plain_obj_def refs_inside_def [of _ "[]"] intro: refs_inside_mono)
  then show "in_store h'"
    using h(2) unfolding in_store_def list_all_iff h'
    by (auto dest!: subsetD [OF set_update_subset_insert] intro!: refs_inside_put simp: nth_append)
qed

text \<open>The way to an object can be gone again, in a store that has kept the fields it goes through.\<close>

lemma walk_again:
  "walk_names True ps (ORef c) h = (h1, Inr (ORef a)) \<Longrightarrow> c < length h \<Longrightarrow> in_store h \<Longrightarrow> [] \<notin> set ps \<Longrightarrow>
     keeps_fields h h1 \<and> in_store h1 \<and> a < length h1 \<and>
     (\<forall>h2. (\<forall>x<length h1. \<forall>k\<in>slot_key ` set ps. \<forall>v. map_of (slots (h1 ! x)) k = Some v \<longrightarrow> map_of (slots (h2 ! x)) k = Some v)
        \<longrightarrow> walk_names False ps (ORef c) h2 = (h2, Inr (ORef a)))"
proof (induction ps arbitrary: c h)
  case Nil
  then show ?case by (auto simp: keeps_fields_def)
next
  case (Cons p ps)
  let ?k = "slot_key p"
  have p: "p \<noteq> []" "[] \<notin> set ps" using Cons.prems(4) by auto
  have step: ?case
    if b: "walk_names True ps (ORef b) g = (h1, Inr (ORef a))" "keeps_fields h g" "in_store g" "b < length g"
      "map_of (slots (g ! c)) ?k = Some (ORef b)" for b g
  proof -
    have IH: "keeps_fields g h1" "in_store h1" "a < length h1"
      "\<And>h2. \<forall>x<length h1. \<forall>k\<in>slot_key ` set ps. \<forall>v. map_of (slots (h1 ! x)) k = Some v \<longrightarrow> map_of (slots (h2 ! x)) k = Some v
        \<Longrightarrow> walk_names False ps (ORef b) h2 = (h2, Inr (ORef a))"
      using Cons.IH [OF b(1,4,3) p(2)] by auto
    have c: "c < length g" "c < length h1" using b(2) IH(1) Cons.prems(2) by (auto simp: keeps_fields_def)
    then have "map_of (slots (h1 ! c)) ?k = Some (ORef b)" using IH(1) b(5) by (auto simp: keeps_fields_def)
    then have "walk_names False (p # ps) (ORef c) h2 = (h2, Inr (ORef a))"
      if h2: "\<forall>x<length h1. \<forall>k\<in>slot_key ` set (p # ps). \<forall>v. map_of (slots (h1 ! x)) k = Some v \<longrightarrow> map_of (slots (h2 ! x)) k = Some v"
      for h2
      using h2 c(2) p(1) IH(4) [of h2] by (simp add: own_or_inherited_def truthy_val_def)
    then show ?thesis using IH keeps_fields_trans [OF b(2)] by blast
  qed
  show ?case
  proof (cases "own_or_inherited (h ! c) ?k")
    case None
    let ?g = "(h @ [plain_obj])[c := put_obj ?k (ORef (length h)) ((h @ [plain_obj]) ! c)]"
    have "walk_names True ps (ORef (length h)) ?g = (h1, Inr (ORef a))"
      using Cons.prems(1) None p(1) by (simp add: truthy_val_def alloc_def)
    then show ?thesis by (rule step) (use created [OF Cons.prems(3,2) None refl] in auto)
  next
    case (Some v)
    then have run: "walk_names True ps v h = (h1, Inr (ORef a))"
      using Cons.prems(1) p(1) by (simp add: truthy_val_def)
    then obtain b where b: "v = ORef b"
      by (cases ps; cases v) (auto split: if_splits)
    with Some have m: "map_of (slots (h ! c)) ?k = Some (ORef b)"
      by (cases ?k) (auto simp: own_or_inherited_def split: option.splits if_splits)
    then show ?thesis
      using step [of b h] run b in_store_ref [OF Cons.prems(3,2) m] Cons.prems(3) by (auto simp: keeps_fields_def)
  qed
qed

lemma walk_append:
  "walk_names False ps c h = (h, Inr d) \<Longrightarrow> [] \<notin> set ps \<Longrightarrow> truthy_val d \<Longrightarrow> walk_names False qs d h = r \<Longrightarrow>
     walk_names False (ps @ qs) c h = r"
proof (induction ps arbitrary: c)
  case (Cons p ps)
  then show ?case by (cases c) (auto simp: truthy_val_def split: if_splits option.splits; cases ps; simp)+
qed simp

lemma split_last: "split_on c name = ps @ [p] \<Longrightarrow> last (split_on c name) = p \<and> butlast (split_on c name) = ps"
  by simp

text \<open>C24: What setObject writes getObject reads. When all names of a path are there to read, the last is none of the
  others, and the names before it lead from the context to an object (which are made where they are missing), then
  setObject returns the value, and getObject reads it at the same path afterwards. Nothing else that was there has
  changed: all other fields of all objects are as before.\<close>
theorem set_get_object:
  assumes name: "split_on CHR ''.'' name = ps @ [p]" "[] \<notin> set (ps @ [p])" "slot_key p \<notin> slot_key ` set ps"
    and h: "in_store h" "c < length h"
    and way: "walk_names True ps (ORef c) h = (h1, Inr (ORef a))"
    and len: "slot_key p = Nm ''length'' \<longrightarrow> \<not> array_like_obj (h1 ! a)"
  shows "\<exists>h2. set_object scopes g name v (ORef c) h = (h2, Inr v) \<and>
     get_object scopes g name False (ORef c) h2 = (h2, Inr v) \<and>
     (\<forall>b<length h. \<forall>k w. map_of (slots (h ! b)) k = Some w \<longrightarrow> (b, k) \<noteq> (a, slot_key p) \<longrightarrow>
        map_of (slots (h2 ! b)) k = Some w)"
proof -
  let ?k = "slot_key p" and ?h2 = "h1[a := put_obj (slot_key p) v (h1 ! a)]"
  have w: "keeps_fields h h1" "a < length h1"
    "\<And>h2. \<forall>x<length h1. \<forall>k\<in>slot_key ` set ps. \<forall>v. map_of (slots (h1 ! x)) k = Some v \<longrightarrow> map_of (slots (h2 ! x)) k = Some v
      \<Longrightarrow> walk_names False ps (ORef c) h2 = (h2, Inr (ORef a))"
    using walk_again [OF way h(2,1)] name(2) by auto
  have p: "p \<noteq> []" using name(2) by auto
  have ne: "slot_key q \<noteq> slot_key p" if "q \<in> set ps" for q using name(3) that by (metis imageI)
  have "walk_names False ps (ORef c) ?h2 = (?h2, Inr (ORef a))"
    by (rule w(3)) (use ne w(2) in \<open>auto simp: nth_list_update\<close>)
  then have again: "walk_names False (ps @ [p]) (ORef c) ?h2 = (?h2, Inr v)"
  proof (rule walk_append)
    show "walk_names False [p] (ORef a) ?h2 = (?h2, Inr v)"
      using w(2) p by (simp add: truthy_val_def own_or_inherited_def)
  qed (use name(2) in \<open>auto simp: truthy_val_def\<close>)
  have set: "set_object scopes g name v (ORef c) h = (?h2, Inr v)"
    using way p len split_last [OF name(1)]
    by (auto simp: set_object_def get_prop_def truthy_val_def write_slot_def Let_def)
  have get: "get_object scopes g name False (ORef c) ?h2 = (?h2, Inr v)"
    using again name(1) by (simp add: get_object_def get_prop_def truthy_val_def)
  have "map_of (slots (?h2 ! b)) k = Some u"
    if "b < length h" "map_of (slots (h ! b)) k = Some u" "(b, k) \<noteq> (a, ?k)" for b k u
    using that w(1,2) by (auto simp: keeps_fields_def nth_list_update)
  with set get show ?thesis by blast
qed

definition page_globals :: store where
  "page_globals = [\<lparr>array_like_obj = False, array_len = 0, slots = [(Nm ''stomp'', ORef 1)]\<rparr>,
     \<lparr>array_like_obj = False, array_len = 0, slots = [(Nm ''version'', ONum 0)]\<rparr>]"

theorem set_get_object_witness:
  "\<exists>h2. set_object (\<lambda>s. OUndef) 0 ''stomp.ui.theme'' (OStr ''dark'') (ORef 0) page_globals = (h2, Inr (OStr ''dark'')) \<and>
     get_object (\<lambda>s. OUndef) 0 ''stomp.ui.theme'' False (ORef 0) h2 = (h2, Inr (OStr ''dark'')) \<and>
     map_of (slots (h2 ! 1)) (Nm ''version'') = Some (ONum 0)"
proof -
  let ?g = "[\<lparr>array_like_obj = False, array_len = 0, slots = [(Nm ''stomp'', ORef 1)]\<rparr>,
     \<lparr>array_like_obj = False, array_len = 0, slots = [(Nm ''version'', ONum 0), (Nm ''ui'', ORef 2)]\<rparr>, plain_obj]"
  have way: "walk_names True [''stomp'', ''ui''] (ORef 0) page_globals = (?g, Inr (ORef 2))"
    by (simp add: page_globals_def slot_key_def is_digit_def truthy_val_def own_or_inherited_def proto_names_def alloc_def
        put_obj_def)
  have "\<exists>h2. set_object (\<lambda>s. OUndef) 0 ''stomp.ui.theme'' (OStr ''dark'') (ORef 0) page_globals = (h2, Inr (OStr ''dark'')) \<and>
     get_object (\<lambda>s. OUndef) 0 ''stomp.ui.theme'' False (ORef 0) h2 = (h2, Inr (OStr ''dark'')) \<and>
     (\<forall>b<length page_globals. \<forall>k w. map_of (slots (page_globals ! b)) k = Some w \<longrightarrow> (b, k) \<noteq> (2, slot_key ''theme'') \<longrightarrow>
        map_of (slots (h2 ! b)) k = Some w)"
    by (rule set_get_object [OF _ _ _ _ _ way])
      (simp_all add: slot_key_def is_digit_def page_globals_def in_store_def refs_inside_def)
  then show ?thesis by (elim exE conjE) (rule exI, auto simp: page_globals_def)
qed

text \<open>Behind a text, a number or a boolean nothing can be set, but setObject returns the value as if it had been.\<close>

theorem set_object_lost:
  assumes "split_on CHR ''.'' name = ps @ [p]" "p \<noteq> []" "walk_names True ps (ORef c) h = (h1, Inr w)" "truthy_val w"
    and "(\<exists>s. w = OStr s) \<or> (\<exists>n. w = ONum n) \<or> w = OBool True"
  shows "set_object scopes g name v (ORef c) h = (h1, Inr v)"
  using assms split_last [OF assms(1)] by (auto simp: set_object_def get_prop_def truthy_val_def Let_def)

text \<open>A path that ends early counts as there. When a field holds a value that counts as false but is not
  undefined (zero, null, false, the empty text), exists says yes for every path that goes on behind it, though there
  is nothing to go on to.\<close>

theorem exists_behind_false:
  assumes "\<not> truthy_val v" and "v \<noteq> OUndef" and "map_of (slots (h ! c)) (slot_key p) = Some v" and "p \<noteq> []"
    and "CHR ''.'' \<notin> set p"
  shows "object_exists scopes g (p @ ''.'' @ rest) (ORef c) h = Inr True"
proof -
  have stop: "walk_names False ps v h = (h, Inr v)" for ps using assms(1) by (cases ps) auto
  have "split_on CHR ''.'' (p @ ''.'' @ rest) = p # split_on CHR ''.'' rest"
    using split_on_append [OF assms(5)] by simp
  then show ?thesis
    using assms stop by (simp add: object_exists_def get_object_def get_prop_def truthy_val_def own_or_inherited_def)
qed

theorem exists_behind_false_witness:
  "object_exists (\<lambda>s. OUndef) 0 ''version.major'' (ORef 1) page_globals = Inr True"
  using exists_behind_false [of "ONum 0" page_globals 1 "''version''" "\<lambda>s. OUndef" 0 "''major''"]
  by (simp add: truthy_val_def page_globals_def slot_key_def is_digit_def)

section \<open>What replace fills in\<close>

datatype piece = Plain_piece string | Hole string

fun print_pieces :: "piece list \<Rightarrow> string" where
  "print_pieces [] = []"
| "print_pieces (Plain_piece s # ps) = s @ print_pieces ps"
| "print_pieces (Hole n # ps) = CHR ''{'' # n @ CHR ''}'' # print_pieces ps"

fun fill_pieces :: "(string \<Rightarrow> lang_error + string) \<Rightarrow> piece list \<Rightarrow> lang_error + string" where
  "fill_pieces f [] = Inr []"
| "fill_pieces f (Plain_piece s # ps) = map_sum id (\<lambda>u. s @ u) (fill_pieces f ps)"
| "fill_pieces f (Hole n # ps) = (case f n of Inl e \<Rightarrow> Inl e | Inr t \<Rightarrow> map_sum id (\<lambda>u. t @ u) (fill_pieces f ps))"

fun good_piece :: "piece \<Rightarrow> bool" where
  "good_piece (Plain_piece s) \<longleftrightarrow> CHR ''{'' \<notin> set s"
| "good_piece (Hole n) \<longleftrightarrow> n \<noteq> [] \<and> CHR ''}'' \<notin> set n"

lemma replace_plain: "CHR ''{'' \<notin> set s \<Longrightarrow> replace_holes f (s @ t) = map_sum id (\<lambda>u. s @ u) (replace_holes f t)"
  by (induction s) (cases "replace_holes f t"; auto)+

lemma takeWhile_upto: "x \<notin> set n \<Longrightarrow> takeWhile (\<lambda>d. d \<noteq> x) (n @ x # t) = n \<and> dropWhile (\<lambda>d. d \<noteq> x) (n @ x # t) = x # t"
  by (induction n) auto

lemma replace_fills: "list_all good_piece ps \<Longrightarrow> replace_holes f (print_pieces ps) = fill_pieces f ps"
proof (induction ps)
  case (Cons p ps)
  then show ?case
    by (cases p) (simp_all add: replace_plain takeWhile_upto split: sum.split)
qed simp

text \<open>A hole for which there is nothing is filled with a word. Replace writes the text undefined where the
  object has no such field.\<close>

theorem replace_unmatched:
  assumes "own_or_inherited (h ! c) (slot_key n) = None" and "n \<noteq> []" and "CHR ''.'' \<notin> set n" and "CHR ''}'' \<notin> set n"
    and "CHR ''{'' \<notin> set s" "CHR ''{'' \<notin> set t"
  shows "replace_text shown scopes g (s @ CHR ''{'' # n @ CHR ''}'' # t) (ORef c) h = Inr (s @ ''undefined'' @ t)"
proof -
  have "get_object scopes g n False (ORef c) h = (h, Inr OUndef)"
    using assms(1-3) by (simp add: get_object_def get_prop_def split_on_fresh truthy_val_def)
  moreover have "list_all good_piece [Plain_piece s, Hole n, Plain_piece t]" using assms by simp
  ultimately show ?thesis
    using replace_fills [of "[Plain_piece s, Hole n, Plain_piece t]"] by (simp add: replace_text_def val_text_def)
qed


section \<open>What mixin leaves\<close>

text \<open>The names of a source are fresh to what every object inherits; a source is another object than the target.\<close>

definition plain_names :: "store \<Rightarrow> nat \<Rightarrow> bool" where
  "plain_names h a \<longleftrightarrow> list_all (\<lambda>k. inherited_val plain_obj k = None) (map fst (slots (h ! a)))"

definition fields_of :: "store \<Rightarrow> nat \<Rightarrow> jkey \<Rightarrow> jval option" where
  "fields_of h a = map_of (slots (h ! a))"

lemma mixin_names_into:
  assumes "d < length h" "a \<noteq> d" "\<not> array_like_obj (h ! d)" "list_all (\<lambda>k. inherited_val plain_obj k = None) ks"
    and "set ks \<subseteq> fst ` set (slots (h ! a))"
  shows "\<exists>h'. mixin_names by_reference d (ORef a) ks h = Some (h', Inr ()) \<and> length h' = length h \<and>
     (\<forall>b. b \<noteq> d \<longrightarrow> h' ! b = h ! b) \<and> \<not> array_like_obj (h' ! d) \<and>
     (\<forall>k. fields_of h' d k = (if k \<in> set ks then fields_of h a k else fields_of h d k))"
  using assms
proof (induction ks arbitrary: h)
  case (Cons k ks)
  obtain v where v: "map_of (slots (h ! a)) k = Some v"
    using Cons.prems(5) by (cases "map_of (slots (h ! a)) k") (auto simp: map_of_eq_None_iff)
  have s: "read_val h (ORef a) k = v" using v by (simp add: read_val_def read_slot_def own_or_inherited_def)
  have none: "inherited_val (h ! d) k = None" "inherited_val plain_obj k = None"
    using Cons.prems(3,4) by (cases k; auto simp: plain_obj_def split: if_splits)+
  let ?g = "if to_copy h d k v then h[d := put_obj k v (h ! d)] else h"
  have step: "mixin_names by_reference d (ORef a) (k # ks) h = mixin_names by_reference d (ORef a) ks ?g"
    using s Cons.prems(3) by (simp add: by_reference_def write_slot_def)
  have g: "length ?g = length h" "\<And>b. b \<noteq> d \<Longrightarrow> ?g ! b = h ! b" "\<not> array_like_obj (?g ! d)"
    using Cons.prems(1,3) by (auto simp: put_obj_def)
  have fd: "fields_of ?g d = (fields_of h d)(k \<mapsto> v)"
  proof (cases "to_copy h d k v")
    case True
    then show ?thesis using Cons.prems(1) by (simp add: fields_of_def)
  next
    case False
    then have "map_of (slots (h ! d)) k = Some v"
      using none by (auto simp: to_copy_def own_or_inherited_def split: option.splits)
    then show ?thesis using False by (simp add: fields_of_def fun_upd_idem)
  qed
  have va: "fields_of h a k = Some v" using v by (simp add: fields_of_def)
  have fa: "fields_of ?g a = fields_of h a" "slots (?g ! a) = slots (h ! a)" using g(2) Cons.prems(2) by (auto simp: fields_of_def)
  have "\<exists>h'. mixin_names by_reference d (ORef a) ks ?g = Some (h', Inr ()) \<and> length h' = length ?g \<and>
     (\<forall>b. b \<noteq> d \<longrightarrow> h' ! b = ?g ! b) \<and> \<not> array_like_obj (h' ! d) \<and>
     (\<forall>k. fields_of h' d k = (if k \<in> set ks then fields_of ?g a k else fields_of ?g d k))"
    by (rule Cons.IH) (use Cons.prems g fa in auto)
  then obtain h' where h': "mixin_names by_reference d (ORef a) ks ?g = Some (h', Inr ())" "length h' = length ?g"
    "\<forall>b. b \<noteq> d \<longrightarrow> h' ! b = ?g ! b" "\<not> array_like_obj (h' ! d)"
    "\<forall>k. fields_of h' d k = (if k \<in> set ks then fields_of ?g a k else fields_of ?g d k)" by blast
  show ?case unfolding step
  proof (intro exI [of _ h'] conjI)
    show "\<forall>l. fields_of h' d l = (if l \<in> set (k # ks) then fields_of h a l else fields_of h d l)"
      using h'(5) va unfolding fd fa(1) by auto
  qed (use h' g in auto)
qed auto

text \<open>The rightmost source wins: mixin gives the target the fields of all sources, later ones over earlier ones
  and all over its own, and changes no other object.\<close>

theorem mixin_overrides:
  assumes "d < length h" "\<not> array_like_obj (h ! d)" "d \<notin> set as" "\<forall>a\<in>set as. plain_names h a"
  shows "\<exists>h'. mixin (ORef d) (map ORef as) h = Some (h', Inr (ORef d)) \<and>
     fields_of h' d = foldl (\<lambda>m a. m ++ fields_of h a) (fields_of h d) as \<and> (\<forall>b. b \<noteq> d \<longrightarrow> h' ! b = h ! b)"
proof -
  have "\<exists>h'. mixin_all d (map ORef as) h = Some (h', Inr ()) \<and>
     fields_of h' d = foldl (\<lambda>m a. m ++ fields_of h a) (fields_of h d) as \<and> (\<forall>b. b \<noteq> d \<longrightarrow> h' ! b = h ! b)"
    using assms
  proof (induction as arbitrary: h)
    case (Cons a as)
    obtain h1 where h1: "mixin_names by_reference d (ORef a) (map fst (slots (h ! a))) h = Some (h1, Inr ())"
      "length h1 = length h" "\<forall>b. b \<noteq> d \<longrightarrow> h1 ! b = h ! b" "\<not> array_like_obj (h1 ! d)"
      "\<forall>k. fields_of h1 d k = (if k \<in> set (map fst (slots (h ! a))) then fields_of h a k else fields_of h d k)"
      using mixin_names_into [of d h a "map fst (slots (h ! a))"] Cons.prems by (auto simp: plain_names_def)
    have f1: "fields_of h1 d = fields_of h d ++ fields_of h a"
      using h1(5) by (auto simp: map_add_def fields_of_def fun_eq_iff map_of_eq_None_iff split: option.splits)
        (metis map_of_eq_None_iff option.distinct(1))
    have same: "fields_of h1 b = fields_of h b" "plain_names h1 b = plain_names h b" if "b \<in> set as" for b
      using that h1(3) Cons.prems(3) by (auto simp: fields_of_def plain_names_def)
    obtain h2 where h2: "mixin_all d (map ORef as) h1 = Some (h2, Inr ())"
      "fields_of h2 d = foldl (\<lambda>m a. m ++ fields_of h1 a) (fields_of h1 d) as" "\<forall>b. b \<noteq> d \<longrightarrow> h2 ! b = h1 ! b"
      using Cons.IH [of h1] Cons.prems h1(2,4) same by auto
    have "foldl (\<lambda>m a. m ++ fields_of h1 a) (fields_of h1 d) as = foldl (\<lambda>m a. m ++ fields_of h a) (fields_of h1 d) as"
      by (rule foldl_cong) (use same in auto)
    then show ?case using h1 h2 f1 by (auto simp: mixin_into_def names_of_def)
  qed auto
  then show ?thesis by (auto simp: mixin_def truthy_val_def)
qed

end
