(* ===== verification/Cloning.thy ===== *)
theory Cloning
  imports Objects
begin

text \<open>
  \<^verbatim>\<open>clone\<close> of \<^verbatim>\<open>dojo/_base/lang\<close>: what it copies, how often, when it does not return, and what it makes of
  an array with holes.
\<close>

section \<open>Cloning\<close>

text \<open>\<open>made f\<close> is what a function of the scripts constructs without arguments. The elements of an array are
  cloned and pushed, and then all its fields are mixed in, indices too. The first argument bounds how deep
  \<^verbatim>\<open>clone\<close> calls itself.\<close>

fun push_clones :: "copier \<Rightarrow> nat \<Rightarrow> nat \<Rightarrow> nat list \<Rightarrow> store \<Rightarrow> (store \<times> (lang_error + unit)) option" where
  "push_clones cp a r [] h = Some (h, Inr ())"
| "push_clones cp a r (i # is) h =
     (case own_or_inherited (h ! a) (Ix i) of
        None \<Rightarrow> push_clones cp a r is h
      | Some s \<Rightarrow> (case cp s h of
            None \<Rightarrow> None
          | Some (h1, Inl e) \<Rightarrow> Some (h1, Inl e)
          | Some (h1, Inr v) \<Rightarrow>
              push_clones cp a r is (h1[r := put_obj (Ix (array_len (h1 ! r))) v (h1 ! r)])))"

definition new_like :: "(string \<Rightarrow> jobj) \<Rightarrow> nat \<Rightarrow> store \<Rightarrow> lang_error + jobj" where
  "new_like made a h =
     (let c = read_slot h a (Nm ''constructor'')
      in if \<not> truthy_val c then Inr plain_obj
         else (case c of OFun f \<Rightarrow> Inr (made f) | _ \<Rightarrow> Inl (Not_a_constructor c)))"

primrec clone :: "(string \<Rightarrow> jobj) \<Rightarrow> nat \<Rightarrow> copier" where
  "clone made 0 = (\<lambda>v h. None)"
| "clone made (Suc n) = (\<lambda>v h. case v of
       ORef a \<Rightarrow>
         (if array_like_obj (h ! a)
          then (case alloc empty_array h of (h1, r) \<Rightarrow>
              (case push_clones (clone made n) a r [0..<array_len (h ! a)] h1 of
                 None \<Rightarrow> None
               | Some (h2, Inl e) \<Rightarrow> Some (h2, Inl e)
               | Some (h2, Inr u) \<Rightarrow>
                   map_option (map_prod id (map_sum id (\<lambda>u. ORef r))) (mixin_into (clone made n) r (ORef a) h2)))
          else (case new_like made a h of
              Inl e \<Rightarrow> Some (h, Inl e)
            | Inr ob \<Rightarrow> (case alloc ob h of (h1, r) \<Rightarrow>
                map_option (map_prod id (map_sum id (\<lambda>u. ORef r))) (mixin_into (clone made n) r (ORef a) h1))))
     | _ \<Rightarrow> Some (h, Inr v))"


section \<open>What is copied\<close>

text \<open>The value a store holds as a tree: what it says, without where it is. \<open>shape lo h v t\<close>: the objects reached
  from \<open>v\<close> are at \<open>lo\<close> or above, none of them hides an inherited name, arrays have no holes, and unfolded they
  are \<open>t\<close>.\<close>

datatype jtree = Prim_tree jval | Obj_tree bool nat "(jkey \<times> jtree) list"

fun is_index :: "jkey \<Rightarrow> bool" where
  "is_index (Ix i) \<longleftrightarrow> True"
| "is_index (Nm n) \<longleftrightarrow> False"

definition ordered_keys :: "jkey list \<Rightarrow> bool" where
  "ordered_keys ks \<longleftrightarrow> sorted_wrt (\<lambda>k l. k \<noteq> l \<and> \<not> comes_before l k) ks"

definition tidy :: "jobj \<Rightarrow> bool" where
  "tidy ob \<longleftrightarrow> ordered_keys (map fst (slots ob)) \<and>
     list_all (\<lambda>k. inherited_val ob k = None \<and> inherited_val plain_obj k = None) (map fst (slots ob)) \<and>
     (if array_like_obj ob then filter is_index (map fst (slots ob)) = map Ix [0..<array_len ob] else array_len ob = 0)"

fun shape :: "nat \<Rightarrow> store \<Rightarrow> jval \<Rightarrow> jtree \<Rightarrow> bool"
  and shapes :: "nat \<Rightarrow> store \<Rightarrow> (jkey \<times> jval) list \<Rightarrow> (jkey \<times> jtree) list \<Rightarrow> bool" where
  "shape lo h v (Prim_tree w) \<longleftrightarrow> v = w \<and> (\<forall>a. v \<noteq> ORef a)"
| "shape lo h (ORef a) (Obj_tree ar l xs) \<longleftrightarrow> lo \<le> a \<and> a < length h \<and> tidy (h ! a) \<and> array_like_obj (h ! a) = ar \<and>
     array_len (h ! a) = l \<and> shapes lo h (slots (h ! a)) xs"
| "shape lo h v (Obj_tree ar l xs) \<longleftrightarrow> False"
| "shapes lo h [] [] \<longleftrightarrow> True"
| "shapes lo h ((k, v) # ss) ((l, t) # ts) \<longleftrightarrow> k = l \<and> shape lo h v t \<and> shapes lo h ss ts"
| "shapes lo h ss ts \<longleftrightarrow> False"

fun depth :: "jtree \<Rightarrow> nat" and depth_all :: "(jkey \<times> jtree) list \<Rightarrow> nat" where
  "depth (Prim_tree v) = 0"
| "depth (Obj_tree ar l xs) = Suc (depth_all xs)"
| "depth_all [] = 0"
| "depth_all ((k, t) # ts) = max (depth t) (depth_all ts)"

text \<open>How many objects a clone makes: an element of an array is cloned twice.\<close>

fun copies :: "jtree \<Rightarrow> nat" and copies_all :: "bool \<Rightarrow> (jkey \<times> jtree) list \<Rightarrow> nat" where
  "copies (Prim_tree v) = 0"
| "copies (Obj_tree ar l xs) = Suc (copies_all ar xs)"
| "copies_all ar [] = 0"
| "copies_all ar ((k, t) # ts) = (if ar \<and> is_index k then 2 else 1) * copies t + copies_all ar ts"

lemma shape_frame:
  "shape lo h v t \<Longrightarrow> (\<And>a. lo \<le> a \<Longrightarrow> a < length h \<Longrightarrow> h' ! a = h ! a) \<Longrightarrow> length h \<le> length h' \<Longrightarrow> shape lo h' v t"
  "shapes lo h ss ts \<Longrightarrow> (\<And>a. lo \<le> a \<Longrightarrow> a < length h \<Longrightarrow> h' ! a = h ! a) \<Longrightarrow> length h \<le> length h' \<Longrightarrow> shapes lo h' ss ts"
  by (induction lo h v t and lo h ss ts rule: shape_shapes.induct) auto

lemma shape_mono:
  "shape lo h v t \<Longrightarrow> lo' \<le> lo \<Longrightarrow> shape lo' h v t"
  "shapes lo h ss ts \<Longrightarrow> lo' \<le> lo \<Longrightarrow> shapes lo' h ss ts"
  by (induction lo h v t and lo h ss ts rule: shape_shapes.induct) auto

lemma shapes_keys: "shapes lo h ss ts \<Longrightarrow> map fst ss = map fst ts"
  by (induction lo h ss ts rule: shape_shapes.induct(2) [where P = "\<lambda>lo h v t. True"]) auto

lemma shapes_at: "shapes lo h ss ts \<Longrightarrow> map_of ts k = Some t \<Longrightarrow> \<exists>v. map_of ss k = Some v \<and> shape lo h v t"
  by (induction lo h ss ts rule: shape_shapes.induct(2) [where P = "\<lambda>lo h v t. True"]) (auto split: if_splits)

lemma shapesI:
  "map fst ss = map fst ts \<Longrightarrow> distinct (map fst ts) \<Longrightarrow>
     (\<And>k v t. (k, v) \<in> set ss \<Longrightarrow> map_of ts k = Some t \<Longrightarrow> shape lo h v t) \<Longrightarrow> shapes lo h ss ts"
proof (induction ts arbitrary: ss)
  case (Cons e ts)
  obtain k t where e: "e = (k, t)" by (cases e)
  from Cons.prems(1) e obtain v ss' where ss: "ss = (k, v) # ss'" "map fst ss' = map fst ts" by auto
  have "shapes lo h ss' ts"
  proof (rule Cons.IH)
    show "map fst ss' = map fst ts" "distinct (map fst ts)" using ss Cons.prems by auto
    fix l w u assume lw: "(l, w) \<in> set ss'" "map_of ts l = Some u"
    then have "l \<in> fst ` set ts" using ss(2) by (metis domI dom_map_of_conv_image_fst)
    then have "l \<noteq> k" using Cons.prems(2) e by auto
    then show "shape lo h w u" using Cons.prems(3) [of l w u] ss e lw by simp
  qed
  with Cons.prems(3) [of k v t] ss e show ?case by simp
qed auto

lemma depth_all_at: "map_of ts k = Some t \<Longrightarrow> depth t \<le> depth_all ts"
  by (induction ts) (auto split: if_splits)

section \<open>Orders of fields\<close>

lemma put_slot_new: "list_all (\<lambda>l. l \<noteq> k \<and> \<not> comes_before k l) (map fst xs) \<Longrightarrow> put_slot k v xs = xs @ [(k, v)]"
  by (induction k v xs rule: put_slot.induct) auto

lemma put_slot_old:
  "ordered_keys ks \<Longrightarrow> k \<in> set ks \<Longrightarrow> map fst xs = ks @ ls \<Longrightarrow> map fst (put_slot k v xs) = ks @ ls"
proof (induction ks arbitrary: xs)
  case (Cons l ks)
  then show ?case by (cases xs) (auto simp: ordered_keys_def)
qed simp

lemma ordered_distinct: "ordered_keys ks \<Longrightarrow> distinct ks"
  unfolding ordered_keys_def by (induction ks) auto

lemma indices_first: "ordered_keys ks \<Longrightarrow> filter is_index ks @ filter (\<lambda>k. \<not> is_index k) ks = ks"
proof (induction ks)
  case (Cons k ks)
  show ?case
  proof (cases k)
    case (Nm n)
    with Cons.prems have "\<forall>l\<in>set ks. \<not> is_index l"
      by (auto simp: ordered_keys_def elim!: is_index.elims)
    with Nm show ?thesis by (simp add: filter_False)
  qed (use Cons in \<open>auto simp: ordered_keys_def\<close>)
qed simp

section \<open>The loops of a clone\<close>

text \<open>What the loops start from: the object cloned is at \<open>a\<close> with fields \<open>ss\<close>, which unfold to \<open>ts\<close>, its clone is
  at \<open>r\<close>; below \<open>r\<close> the store stays, and a field's copy takes new places only.\<close>

definition copies_well :: "copier \<Rightarrow> nat \<Rightarrow> store \<Rightarrow> jval \<Rightarrow> jtree \<Rightarrow> bool" where
  "copies_well cp r h0 v t \<longleftrightarrow> (\<forall>h. r \<le> length h \<and> (\<forall>i<r. h ! i = h0 ! i) \<longrightarrow>
     (\<exists>ext w. cp v h = Some (h @ ext, Inr w) \<and> shape (length h) (h @ ext) w t \<and> length ext = copies t))"

definition half_made :: "nat \<Rightarrow> store \<Rightarrow> bool \<Rightarrow> nat \<Rightarrow> jkey list \<Rightarrow> (jkey \<times> jtree) list \<Rightarrow> store \<Rightarrow> bool" where
  "half_made r h0 ar l ks ts h \<longleftrightarrow> r < length h \<and> (\<forall>i<r. h ! i = h0 ! i) \<and> array_like_obj (h ! r) = ar \<and>
     array_len (h ! r) = l \<and> map fst (slots (h ! r)) = ks \<and>
     (\<forall>(k, w)\<in>set (slots (h ! r)). \<forall>t. map_of ts k = Some t \<longrightarrow> shape (Suc r) h w t)"

lemma copies_wellD:
  "copies_well cp r h0 v t \<Longrightarrow> r \<le> length h \<Longrightarrow> \<forall>i<r. h ! i = h0 ! i \<Longrightarrow>
     \<exists>ext w. cp v h = Some (h @ ext, Inr w) \<and> shape (length h) (h @ ext) w t \<and> length ext = copies t"
  by (simp add: copies_well_def)

text \<open>One field is written.\<close>

lemma half_made_put:
  assumes h: "half_made r h0 ar l ks ts h" and w: "shape (length h) (h @ ext) w t" "map_of ts k = Some t"
    and h': "h' = (h @ ext)[r := put_obj k w (h ! r)]"
    and ks': "map fst (put_slot k w (slots (h ! r))) = ks'" and l': "array_len (put_obj k w (h ! r)) = l'"
  shows "half_made r h0 ar l' ks' ts h'"
proof -
  from h have r: "r < length h" by (simp add: half_made_def)
  then have at: "h' ! r = put_obj k w (h ! r)" by (simp add: h')
  have frame: "shape (Suc r) h' u s" if "shape (Suc r) (h @ ext) u s" for u s
    using that by (rule shape_frame) (auto simp: h')
  have "shape (Suc r) h' u s" if us: "(m, u) \<in> set (put_slot k w (slots (h ! r)))" "map_of ts m = Some s" for m u s
  proof (cases "(m, u) = (k, w)")
    case True
    moreover have "shape (Suc r) h' w t" using shape_mono(1) [OF w(1)] r by (intro frame) simp
    ultimately show ?thesis using w(2) us(2) by simp
  next
    case False
    with us(1) have "(m, u) \<in> set (slots (h ! r))" using set_put_slot by fastforce
    with h us(2) have "shape (Suc r) h u s" by (fastforce simp: half_made_def)
    then have "shape (Suc r) (h @ ext) u s" by (rule shape_frame) (auto simp: nth_append)
    then show ?thesis by (rule frame)
  qed
  moreover have "\<forall>i<r. h' ! i = h0 ! i" "r < length h'"
    using h r by (auto simp: half_made_def h' nth_append)
  ultimately show ?thesis
    using h ks' l' at by (auto simp: half_made_def put_obj_def)
qed

lemma read_own: "map_of (slots (h ! a)) k = Some v \<Longrightarrow> read_slot h a k = v"
  by (simp add: read_slot_def own_or_inherited_def)

text \<open>The loop of \<^verbatim>\<open>mixin\<close> over the names \<open>ks\<close> that are left, when the copy has the fields \<open>started\<close> from before
  and those of \<open>before\<close>. A field that is there already is copied again if it is an object, and not otherwise.\<close>

lemma mixin_names_copies:
  assumes src: "\<And>k v. map_of ss k = Some v \<Longrightarrow> a < r \<and> map_of (slots (h0 ! a)) k = Some v"
    and ts: "shapes lo h0 ss ts" "r = length h0"
    and cp: "\<And>k v t. map_of ss k = Some v \<Longrightarrow> map_of ts k = Some t \<Longrightarrow> copies_well cp r h0 v t"
    and ks: "ordered_keys (before @ ks)" "set ks \<subseteq> fst ` set ts"
      "\<And>k. k \<in> set ks \<Longrightarrow> k \<notin> set started \<Longrightarrow> list_all (\<lambda>l. \<not> comes_before k l) started"
    and inh: "\<And>ob k. array_like_obj ob = ar \<Longrightarrow> k \<in> set ks \<Longrightarrow> inherited_val ob k = None \<and> inherited_val plain_obj k = None"
    and len: "\<And>i. Ix i \<in> set ks \<Longrightarrow> ar \<Longrightarrow> i < l"
    and old: "ordered_keys started"
    and h: "half_made r h0 ar l (started @ filter (\<lambda>k. k \<notin> set started) before) ts h"
  shows "\<exists>h'. mixin_names cp r (ORef a) ks h = Some (h', Inr ()) \<and>
     half_made r h0 ar l (started @ filter (\<lambda>k. k \<notin> set started) (before @ ks)) ts h' \<and>
     length h' = length h + sum_list (map (\<lambda>k. copies (the (map_of ts k))) ks)"
  using ks inh len h
proof (induction ks arbitrary: before h)
  case (Cons k ks)
  obtain t where t: "map_of ts k = Some t"
    using Cons.prems(2) by (cases "map_of ts k") (auto simp: map_of_eq_None_iff)
  obtain v where v: "map_of ss k = Some v" "shape lo h0 v t" using shapes_at [OF ts(1) t] by blast
  have ar: "a < r" "map_of (slots (h0 ! a)) k = Some v" using src [OF v(1)] by auto
  have hm: "r < length h" "\<forall>i<r. h ! i = h0 ! i" "array_like_obj (h ! r) = ar" "array_len (h ! r) = l"
    "map fst (slots (h ! r)) = started @ filter (\<lambda>k. k \<notin> set started) before"
    using Cons.prems(6) by (auto simp: half_made_def)
  have s: "read_val h (ORef a) k = v"
    using read_own ar hm(2) by (simp add: read_val_def)
  have inh: "inherited_val (h ! r) k = None" "inherited_val plain_obj k = None"
    using Cons.prems(4) [OF hm(3), of k] by auto
  have rest: "ordered_keys ((before @ [k]) @ ks)" "set ks \<subseteq> fst ` set ts"
    "\<And>l. l \<in> set ks \<Longrightarrow> l \<notin> set started \<Longrightarrow> list_all (\<lambda>m. \<not> comes_before l m) started"
    "\<And>ob l. array_like_obj ob = ar \<Longrightarrow> l \<in> set ks \<Longrightarrow> inherited_val ob l = None \<and> inherited_val plain_obj l = None"
    "\<And>i. Ix i \<in> set ks \<Longrightarrow> ar \<Longrightarrow> i < l"
    using Cons.prems(1-5) by auto
  let ?ks = "\<lambda>b. started @ filter (\<lambda>k. k \<notin> set started) b"
  have k_before: "list_all (\<lambda>m. m \<noteq> k \<and> \<not> comes_before k m) before"
    using Cons.prems(1) by (auto simp: ordered_keys_def sorted_wrt_append list_all_iff)
  show ?case
  proof (cases "to_copy h r k v")
    case True
    obtain ext w where w: "cp v h = Some (h @ ext, Inr w)" "shape (length h) (h @ ext) w t" "length ext = copies t"
      using copies_wellD [OF cp [OF v(1) t], of h] hm by auto
    let ?h = "(h @ ext)[r := put_obj k w (h ! r)]"
    have "k \<noteq> Nm ''length'' \<or> \<not> array_like_obj (h ! r)" using inh by auto
    then have wr: "write_slot r k w (h @ ext) = Inr ?h"
      using hm(1) by (auto simp: write_slot_def nth_append)
    have keys: "map fst (put_slot k w (slots (h ! r))) = ?ks (before @ [k])"
    proof (cases "k \<in> set started")
      case True
      then show ?thesis using put_slot_old [OF old True hm(5)] by simp
    next
      case False
      then have "list_all (\<lambda>l. l \<noteq> k \<and> \<not> comes_before k l) (map fst (slots (h ! r)))"
        using k_before Cons.prems(3) [of k] hm(5) by (auto simp: list_all_iff)
      then show ?thesis using hm(5) False by (subst put_slot_new) auto
    qed
    have "half_made r h0 ar l (?ks (before @ [k])) ts ?h"
    proof (rule half_made_put [OF Cons.prems(6) w(2) t refl keys])
      show "array_len (put_obj k w (h ! r)) = l"
        using hm(3,4) Cons.prems(5) by (cases k) (auto simp: put_obj_def max.absorb1 Suc_leI)
    qed
    from Cons.IH [OF rest this] obtain h' where h': "mixin_names cp r (ORef a) ks ?h = Some (h', Inr ())"
      "half_made r h0 ar l (?ks ((before @ [k]) @ ks)) ts h'"
      "length h' = length ?h + sum_list (map (\<lambda>k. copies (the (map_of ts k))) ks)" by blast
    then show ?thesis using s True w wr t by (simp add: Let_def)
  next
    case False
    then obtain u where u: "map_of (slots (h ! r)) k = Some u" "u = v"
      using inh by (auto simp: to_copy_def own_or_inherited_def split: option.splits)
    then have "(k, v) \<in> set (slots (h ! r))" by (auto dest: map_of_SomeD)
    then have uv: "shape (Suc r) h v t" using Cons.prems(6) t unfolding half_made_def by fast
    have "copies t = 0"
    proof (cases t)
      case (Obj_tree ar' l' xs)
      then obtain b where "v = ORef b" using v(2) by (cases v) auto
      then show ?thesis using uv v(2) Obj_tree ts(2) by simp
    qed simp
    have "k \<in> set (map fst (slots (h ! r)))" using u by (metis map_of_SomeD fst_conv image_eqI set_map)
    then have "k \<in> set started" using hm(5) k_before by (auto simp: list_all_iff)
    then have "half_made r h0 ar l (?ks (before @ [k])) ts h" using Cons.prems(6) by simp
    from Cons.IH [OF rest this] show ?thesis using s False t \<open>copies t = 0\<close> by (simp add: Let_def)
  qed
qed simp

text \<open>The loop that pushes the clones of the elements.\<close>

lemma push_clones_copies:
  assumes src: "\<And>k v. map_of ss k = Some v \<Longrightarrow> a < r \<and> map_of (slots (h0 ! a)) k = Some v"
    and ts: "shapes lo h0 ss ts" "r = length h0"
    and cp: "\<And>k v t. map_of ss k = Some v \<Longrightarrow> map_of ts k = Some t \<Longrightarrow> copies_well cp r h0 v t"
    and all: "\<And>j. j < l \<Longrightarrow> Ix j \<in> fst ` set ts"
    and i: "i \<le> l"
    and h: "half_made r h0 True i (map Ix [0..<i]) ts h"
  shows "\<exists>h'. push_clones cp a r [i..<l] h = Some (h', Inr ()) \<and> half_made r h0 True l (map Ix [0..<l]) ts h' \<and>
     length h' = length h + sum_list (map (\<lambda>j. copies (the (map_of ts (Ix j)))) [i..<l])"
  using i h
proof (induction "l - i" arbitrary: i h)
  case 0
  then show ?case by simp
next
  case (Suc n)
  then have il: "i < l" "n = l - Suc i" "Suc i \<le> l" by auto
  then obtain t where t: "map_of ts (Ix i) = Some t"
    using all [of i] by (cases "map_of ts (Ix i)") (auto simp: map_of_eq_None_iff)
  obtain v where v: "map_of ss (Ix i) = Some v" "shape lo h0 v t" using shapes_at [OF ts(1) t] by blast
  have ar: "a < r" "map_of (slots (h0 ! a)) (Ix i) = Some v" using src [OF v(1)] by auto
  have hm: "r < length h" "\<forall>i<r. h ! i = h0 ! i" "array_like_obj (h ! r)" "array_len (h ! r) = i"
    "map fst (slots (h ! r)) = map Ix [0..<i]"
    using Suc.prems(2) by (auto simp: half_made_def)
  have s: "own_or_inherited (h ! a) (Ix i) = Some v" using ar hm(2) by (simp add: own_or_inherited_def)
  obtain ext w where w: "cp v h = Some (h @ ext, Inr w)" "shape (length h) (h @ ext) w t" "length ext = copies t"
    using copies_wellD [OF cp [OF v(1) t], of h] hm by auto
  let ?h = "(h @ ext)[r := put_obj (Ix i) w (h ! r)]"
  have keys: "map fst (put_slot (Ix i) w (slots (h ! r))) = map Ix [0..<Suc i]"
    using hm(5) by (subst put_slot_new) (auto simp: list_all_iff)
  have "half_made r h0 True (Suc i) (map Ix [0..<Suc i]) ts ?h"
    using half_made_put [OF Suc.prems(2) w(2) t refl keys, of "Suc i"] hm(3,4) by (simp add: put_obj_def)
  from Suc.hyps(1) [OF il(2,3) this] obtain h' where h': "push_clones cp a r [Suc i..<l] ?h = Some (h', Inr ())"
    "half_made r h0 True l (map Ix [0..<l]) ts h'"
    "length h' = length ?h + sum_list (map (\<lambda>j. copies (the (map_of ts (Ix j)))) [Suc i..<l])" by blast
  have "(h @ ext) ! r = h ! r" using hm(1) by (simp add: nth_append)
  then show ?case unfolding upt_conv_Cons [OF il(1)] using h' s w t hm(4) by (intro exI [of _ h']) simp
qed

lemma copies_all_sum:
  "list_all (\<lambda>(k, t). f k = copies t) ts \<Longrightarrow>
     copies_all ar ts = sum_list (map f (map fst ts)) + (if ar then sum_list (map f (filter is_index (map fst ts))) else 0)"
  by (induction ts) (auto simp del: map_map)

section \<open>A clone is a copy\<close>

lemma inherited_kind: "array_like_obj ob = array_like_obj ob' \<Longrightarrow> (inherited_val ob k = None) = (inherited_val ob' k = None)"
  by (cases k) auto

lemma sum_list_map_cong: "(\<And>x. x \<in> set xs \<Longrightarrow> f x = g x) \<Longrightarrow> sum_list (map f xs) = sum_list (map g xs)"
  by (metis map_cong)

lemma clone_node:
  assumes made: "made ''Object'' = plain_obj"
    and cp: "\<And>v t. (\<exists>k. map_of xs k = Some t) \<Longrightarrow> shape lo h v t \<Longrightarrow> copies_well (clone made n) (length h) h v t"
    and sh: "shape lo h (ORef a) (Obj_tree ar l xs)"
  shows "copies_well (clone made (Suc n)) (length h) h (ORef a) (Obj_tree ar l xs)"
  unfolding copies_well_def
proof (intro allI impI)
  fix g :: store assume g: "length h \<le> length g \<and> (\<forall>i<length h. g ! i = h ! i)"
  let ?L = "length g" and ?f = "\<lambda>k. copies (the (map_of xs k))" and ?ss = "slots (h ! a)" and ?ks = "map fst xs"
  from sh have a: "lo \<le> a" "a < length h" "array_like_obj (h ! a) = ar" "array_len (h ! a) = l" "tidy (h ! a)"
    "shapes lo h ?ss xs" by auto
  then have ga: "g ! a = h ! a" "a < ?L" using g by auto
  have keys: "map fst ?ss = ?ks" using shapes_keys [OF a(6)] .
  have ord: "ordered_keys ?ks" using a(5) keys by (simp add: tidy_def)
  then have dist: "distinct ?ks" by (rule ordered_distinct)
  have inh: "inherited_val ob k = None \<and> inherited_val plain_obj k = None"
    if "array_like_obj ob = ar" "k \<in> set ?ks" for ob k
    using a(3,5) that inherited_kind [of ob "h ! a" k] keys unfolding tidy_def list_all_iff by metis
  have ss: "\<And>k v. map_of ?ss k = Some v \<Longrightarrow> a < ?L \<and> map_of (slots (g ! a)) k = Some v" using ga by simp
  have shg: "shapes lo g ?ss xs" by (rule shape_frame(2) [OF a(6)]) (use g in auto)
  have cpg: "copies_well (clone made n) ?L g v t" if vt: "map_of ?ss k = Some v" "map_of xs k = Some t" for k v t
  proof -
    obtain u where "map_of ?ss k = Some u" "shape lo h u t" using shapes_at [OF a(6) vt(2)] by blast
    with vt have "shape lo h v t" by simp
    with cp vt(2) have "copies_well (clone made n) (length h) h v t" by blast
    then show ?thesis using g by (fastforce simp: copies_well_def)
  qed
  have sum: "copies_all ar xs = sum_list (map ?f ?ks) + (if ar then sum_list (map ?f (filter is_index ?ks)) else 0)"
    by (rule copies_all_sum) (use dist in \<open>auto simp: list_all_iff\<close>)
  have whole: "\<exists>ext w. Some (h', Inr (ORef ?L)) = Some (g @ ext, Inr w) \<and> shape ?L (g @ ext) w (Obj_tree ar l xs) \<and>
      length ext = Suc (copies_all ar xs)"
    if h': "half_made ?L g ar l ?ks xs h'" "length h' = Suc ?L + copies_all ar xs" for h'
  proof -
    from h' have r: "?L < length h'" "take ?L h' = g" "array_like_obj (h' ! ?L) = ar" "array_len (h' ! ?L) = l"
      "map fst (slots (h' ! ?L)) = ?ks"
      by (auto simp: half_made_def intro: nth_take_lemma [of ?L h' g, simplified])
    have "shapes ?L h' (slots (h' ! ?L)) xs"
    proof (rule shapesI)
      fix k v t assume "(k, v) \<in> set (slots (h' ! ?L))" "map_of xs k = Some t"
      then have "shape (Suc ?L) h' v t" using h'(1) unfolding half_made_def by fast
      then show "shape ?L h' v t" by (rule shape_mono(1)) simp
    qed (use r dist in auto)
    moreover have "tidy (h' ! ?L)"
      using a(3-5) keys r(3-5) inherited_kind [of "h' ! ?L" "h ! a"]
      by (simp add: tidy_def list_all_iff split: if_splits)
    ultimately have "shape ?L h' (ORef ?L) (Obj_tree ar l xs)" using r by simp
    moreover have "h' = g @ drop ?L h'" using r(2) by (metis append_take_drop_id)
    ultimately show ?thesis using h'(2) by (intro exI [of _ "drop ?L h'"] exI [of _ "ORef ?L"]) simp
  qed
  show "\<exists>ext w. clone made (Suc n) (ORef a) g = Some (g @ ext, Inr w) \<and> shape ?L (g @ ext) w (Obj_tree ar l xs) \<and>
      length ext = copies (Obj_tree ar l xs)"
  proof (cases ar)
    case True
    have idx: "filter is_index ?ks = map Ix [0..<l]" using a(3-5) keys True by (simp add: tidy_def)
    have start: "half_made ?L g True 0 (map Ix [0..<0]) xs (g @ [empty_array])"
      by (simp add: half_made_def empty_array_def nth_append)
    have "\<exists>h1. push_clones (clone made n) a ?L [0..<l] (g @ [empty_array]) = Some (h1, Inr ()) \<and>
        half_made ?L g True l (map Ix [0..<l]) xs h1 \<and>
        length h1 = length (g @ [empty_array]) + sum_list (map (\<lambda>j. copies (the (map_of xs (Ix j)))) [0..<l])"
    proof (rule push_clones_copies [OF ss shg refl cpg _ le0 start])
      fix j assume "j < l"
      then have "Ix j \<in> set (filter is_index ?ks)" using idx by simp
      then show "Ix j \<in> fst ` set xs" by auto
    qed
    then obtain h1 where h1: "push_clones (clone made n) a ?L [0..<l] (g @ [empty_array]) = Some (h1, Inr ())"
      "half_made ?L g True l (map Ix [0..<l]) xs h1"
      "length h1 = Suc ?L + sum_list (map ?f (map Ix [0..<l]))" by (auto simp: comp_def)
    have names: "names_of h1 (ORef a) = ?ks" using h1(2) ga keys by (simp add: names_of_def half_made_def)
    have "\<exists>h2. mixin_names (clone made n) ?L (ORef a) ?ks h1 = Some (h2, Inr ()) \<and>
        half_made ?L g True l (map Ix [0..<l] @ filter (\<lambda>k. k \<notin> set (map Ix [0..<l])) ([] @ ?ks)) xs h2 \<and>
        length h2 = length h1 + sum_list (map ?f ?ks)"
    proof (rule mixin_names_copies [OF ss shg refl cpg])
      show "ordered_keys ([] @ ?ks)" "set ?ks \<subseteq> fst ` set xs" using ord by auto
      show "list_all (\<lambda>l. \<not> comes_before k l) (map Ix [0..<l])" if "k \<in> set ?ks" "k \<notin> set (map Ix [0..<l])" for k
      proof (cases k)
        case (Ix i)
        with that(1) have "k \<in> set (filter is_index ?ks)" by simp
        with that(2) idx show ?thesis by simp
      qed (simp add: list_all_iff)
      show "i < l" if "Ix i \<in> set ?ks" for i
      proof -
        have "Ix i \<in> set (filter is_index ?ks)" using that by simp
        with idx show ?thesis by auto
      qed
      show "ordered_keys (map Ix [0..<l])" by (auto simp: ordered_keys_def sorted_wrt_map intro: sorted_wrt_mono_rel [OF _ sorted_wrt_upt])
    qed (use inh True h1(2) in auto)
    then obtain h2 where h2: "mixin_names (clone made n) ?L (ORef a) ?ks h1 = Some (h2, Inr ())"
      "half_made ?L g True l (map Ix [0..<l] @ filter (\<lambda>k. k \<notin> set (map Ix [0..<l])) ?ks) xs h2"
      "length h2 = length h1 + sum_list (map ?f ?ks)" by auto
    have "filter (\<lambda>k. k \<notin> set (filter is_index ?ks)) ?ks = filter (\<lambda>k. \<not> is_index k) ?ks"
      by (intro filter_cong) auto
    then have "half_made ?L g ar l ?ks xs h2" using h2(2) indices_first [OF ord] True by (simp only: flip: idx)
    then show ?thesis
      using whole [of h2] h1 h2 names ga a True sum idx by (simp add: alloc_def mixin_into_def)
  next
    case False
    have c: "map_of ?ss (Nm ''constructor'') = None"
      using inh [of plain_obj "Nm ''constructor''"] False keys
      by (auto simp: map_of_eq_None_iff plain_obj_def simp flip: set_map)
    have l: "l = 0" using a(3-5) False by (simp add: tidy_def)
    have new: "new_like made a g = Inr plain_obj"
      using made c ga a(3) False by (simp add: new_like_def read_slot_def own_or_inherited_def truthy_val_def)
    have names: "names_of (g @ [plain_obj]) (ORef a) = ?ks" using ga keys by (simp add: names_of_def nth_append)
    have "\<exists>h2. mixin_names (clone made n) ?L (ORef a) ?ks (g @ [plain_obj]) = Some (h2, Inr ()) \<and>
        half_made ?L g False 0 ([] @ filter (\<lambda>k. k \<notin> set []) ([] @ ?ks)) xs h2 \<and>
        length h2 = length (g @ [plain_obj]) + sum_list (map ?f ?ks)"
      by (rule mixin_names_copies [OF ss shg refl cpg])
        (use ord inh False in \<open>auto simp: ordered_keys_def half_made_def plain_obj_def nth_append\<close>)
    then obtain h2 where h2: "mixin_names (clone made n) ?L (ORef a) ?ks (g @ [plain_obj]) = Some (h2, Inr ())"
      "half_made ?L g ar l ?ks xs h2" "length h2 = Suc ?L + sum_list (map ?f ?ks)" using False l by auto
    then show ?thesis
      using whole [of h2] names ga a False sum new by (simp add: alloc_def mixin_into_def)
  qed
qed

lemma clone_well: "made ''Object'' = plain_obj \<Longrightarrow> shape lo h v t \<Longrightarrow> depth t < n \<Longrightarrow> copies_well (clone made n) (length h) h v t"
proof (induction n arbitrary: v t)
  case (Suc n)
  show ?case
  proof (cases t)
    case (Prim_tree w)
    with Suc.prems(2) have "v = w" "\<And>a. v \<noteq> ORef a" by auto
    then show ?thesis using Prim_tree by (auto simp: copies_well_def split: jval.splits)
  next
    case (Obj_tree ar l xs)
    with Suc.prems(2) obtain a where v: "v = ORef a" by (cases v) auto
    have "copies_well (clone made n) (length h) h u s" if "\<exists>k. map_of xs k = Some s" "shape lo h u s" for u s
      using that Suc.IH [OF Suc.prems(1) that(2)] Suc.prems(3) depth_all_at Obj_tree by fastforce
    then show ?thesis using clone_node [where made = made, OF Suc.prems(1)] Suc.prems(2) Obj_tree v by blast
  qed
qed simp

text \<open>C22: A clone is a copy that shares nothing. When the objects reached from a value have no circles, no holes and
  no names of Object.prototype, then with enough depth clone returns without an exception: the store is as it was,
  with new objects behind it, the value returned unfolds to the same tree as the one given, and everything it
  reaches is new. The number of the new objects is counted too: an element of an array is cloned twice.\<close>
theorem clone_copies:
  assumes "made ''Object'' = plain_obj" and "shape lo h v t" and "depth t < n"
  shows "\<exists>new w. clone made n v h = Some (h @ new, Inr w) \<and> shape (length h) (h @ new) w t \<and> length new = copies t"
  using clone_well [where made = made, OF assms] by (rule copies_wellD) auto

definition two_books :: store where
  "two_books = [\<lparr>array_like_obj = False, array_len = 0, slots = [(Nm ''name'', OStr ''blue'')]\<rparr>,
     \<lparr>array_like_obj = True, array_len = 2, slots = [(Ix 0, ORef 0), (Ix 1, ORef 0)]\<rparr>]"

definition blue :: jtree where
  "blue = Obj_tree False 0 [(Nm ''name'', Prim_tree (OStr ''blue''))]"

theorem clone_copies_witness:
  "\<exists>new w. clone (\<lambda>f. plain_obj) 3 (ORef 1) two_books = Some (two_books @ new, Inr w) \<and>
     shape 2 (two_books @ new) w (Obj_tree True 2 [(Ix 0, blue), (Ix 1, blue)]) \<and> length new = 5"
proof -
  have "shape 0 two_books (ORef 1) (Obj_tree True 2 [(Ix 0, blue), (Ix 1, blue)])"
    by (simp add: two_books_def blue_def tidy_def ordered_keys_def plain_obj_def proto_names_def upt_conv_Cons)
  moreover have "depth (Obj_tree True 2 [(Ix 0, blue), (Ix 1, blue)]) < 3" by (simp add: blue_def)
  moreover have "copies (Obj_tree True 2 [(Ix 0, blue), (Ix 1, blue)]) = 5" by (simp add: blue_def)
  moreover have "length two_books = 2" by (simp add: two_books_def)
  ultimately show ?thesis
    using clone_copies [where made = "\<lambda>f. plain_obj" and h = two_books, OF refl, of 0 "ORef 1" "Obj_tree True 2 [(Ix 0, blue), (Ix 1, blue)]" 3]
    by simp
qed

text \<open>Lists in lists: each level doubles the work.\<close>

fun boxes :: "nat \<Rightarrow> store" where
  "boxes 0 = [empty_array]"
| "boxes (Suc n) = boxes n @ [\<lparr>array_like_obj = True, array_len = 1, slots = [(Ix 0, ORef n)]\<rparr>]"

fun box_tree :: "nat \<Rightarrow> jtree" where
  "box_tree 0 = Obj_tree True 0 []"
| "box_tree (Suc n) = Obj_tree True 1 [(Ix 0, box_tree n)]"

lemma length_boxes [simp]: "length (boxes n) = Suc n"
  by (induction n) auto

lemma box_shape: "shape 0 (boxes n) (ORef n) (box_tree n)"
proof (induction n)
  case 0
  show ?case by (simp add: empty_array_def tidy_def ordered_keys_def)
next
  case (Suc n)
  have "shape 0 (boxes (Suc n)) (ORef n) (box_tree n)"
    by (rule shape_frame(1) [OF Suc]) (auto simp: nth_append)
  then show ?case by (simp add: nth_append tidy_def ordered_keys_def)
qed

lemma depth_box_tree [simp]: "depth (box_tree n) = Suc n"
  by (induction n) auto

lemma copies_box_tree: "Suc (copies (box_tree n)) = 2 ^ Suc n"
  by (induction n) auto

text \<open>Cloning nested lists takes exponential time. For a list that holds a list that holds a list, and so on n
  times, clone makes two to the power of n + 1 objects less one, though the copy has only n + 1.\<close>

theorem clone_doubles:
  "\<exists>new w. clone (\<lambda>f. plain_obj) (n + 2) (ORef n) (boxes n) = Some (boxes n @ new, Inr w) \<and> length new = 2 ^ Suc n - 1"
proof -
  have "copies (box_tree n) = 2 ^ Suc n - 1" using copies_box_tree [of n] by simp
  moreover have "copies_well (clone (\<lambda>f. plain_obj) (n + 2)) (length (boxes n)) (boxes n) (ORef n) (box_tree n)"
    by (rule clone_well [OF refl box_shape]) simp
  ultimately show ?thesis by (fastforce dest: copies_wellD [where h = "boxes n"])
qed

section \<open>A clone that does not return\<close>

text \<open>\<open>held_by h a b\<close>: a field of the object at \<open>a\<close> holds the one at \<open>b\<close>.\<close>

definition held_by :: "store \<Rightarrow> nat \<Rightarrow> nat \<Rightarrow> bool" where
  "held_by h a b \<longleftrightarrow> a < length h \<and> (\<exists>k. (k, ORef b) \<in> set (slots (h ! a)))"

definition tidy_store :: "store \<Rightarrow> bool" where
  "tidy_store h \<longleftrightarrow> list_all (\<lambda>ob. tidy ob \<and> list_all (\<lambda>(k, v). case v of ORef b \<Rightarrow> b < length h | _ \<Rightarrow> True) (slots ob)) h"

text \<open>A run that returns leaves the store below \<open>r\<close> as it was, throws nothing, and gives an object that is new
  or what it was given.\<close>

definition behaves :: "copier \<Rightarrow> store \<Rightarrow> jval \<Rightarrow> bool" where
  "behaves cp h0 v \<longleftrightarrow> (\<forall>h. length h0 \<le> length h \<and> take (length h0) h = h0 \<longrightarrow>
     (case cp v h of
        None \<Rightarrow> True
      | Some (h', Inl e) \<Rightarrow> False
      | Some (h', Inr w) \<Rightarrow> length h \<le> length h' \<and> take (length h) h' = h \<and>
          (w = v \<and> (\<forall>a. v \<noteq> ORef a) \<or> (\<exists>b. w = ORef b \<and> length h \<le> b \<and> b < length h'))))"

definition loop_behaves :: "nat \<Rightarrow> store \<Rightarrow> (jkey \<Rightarrow> bool) \<Rightarrow> (store \<times> (lang_error + unit)) option \<Rightarrow> bool" where
  "loop_behaves r h K res \<longleftrightarrow> (case res of
       None \<Rightarrow> True
     | Some (h', Inl e) \<Rightarrow> False
     | Some (h', Inr u) \<Rightarrow> length h \<le> length h' \<and> take r h' = take r h \<and>
         array_like_obj (h' ! r) = array_like_obj (h ! r) \<and> (\<forall>(k, w)\<in>set (slots (h' ! r)). K k))"

definition never_returns :: "copier \<Rightarrow> store \<Rightarrow> jval \<Rightarrow> bool" where
  "never_returns cp h0 v \<longleftrightarrow> (\<forall>h. length h0 \<le> length h \<and> take (length h0) h = h0 \<longrightarrow> cp v h = None)"

lemma take_nth_eq: "take n h = h0 \<Longrightarrow> i < n \<Longrightarrow> n \<le> length h \<Longrightarrow> h ! i = h0 ! i"
  by (metis nth_take)

lemma take_take_eq: "take n h = take n g \<Longrightarrow> m \<le> n \<Longrightarrow> take m h = take m g"
  by (metis min.absorb1 take_take)

text \<open>The copy grows by one field.\<close>

lemma written:
  assumes "behaves cp h0 v" "length h0 \<le> r" "r < length h" "take (length h0) h = h0" "cp v h = Some (h1, Inr w)"
    and "h2 = h1[r := put_obj k w (h1 ! r)]"
  shows "length h \<le> length h2" "take r h2 = take r h" "array_like_obj (h2 ! r) = array_like_obj (h ! r)"
    "set (slots (h2 ! r)) \<subseteq> insert (k, w) (set (slots (h ! r)))" "array_like_obj (h1 ! r) = array_like_obj (h ! r)"
proof -
  have h1: "length h \<le> length h1" "take (length h) h1 = h"
    using assms by (auto simp: behaves_def split: option.splits)
  then have r: "h1 ! r = h ! r" using take_nth_eq assms(3) by blast
  then show "array_like_obj (h1 ! r) = array_like_obj (h ! r)" by simp
  have "take r h1 = take r h" using h1(2) assms(3) by (metis less_imp_le_nat min.absorb1 take_take)
  then show "length h \<le> length h2" "take r h2 = take r h" "array_like_obj (h2 ! r) = array_like_obj (h ! r)"
    "set (slots (h2 ! r)) \<subseteq> insert (k, w) (set (slots (h ! r)))"
    using h1(1) r assms(3,6) set_put_slot by (auto simp: put_obj_def)
qed

lemma cp_cases:
  assumes "behaves cp h0 v" "length h0 \<le> length h" "take (length h0) h = h0"
  obtains "cp v h = None" | h1 w where "cp v h = Some (h1, Inr w)"
proof (cases "cp v h")
  case (Some p)
  obtain h1 x where p: "p = (h1, x)" by (cases p)
  show ?thesis
  proof (cases x)
    case (Inl e)
    then have "cp v h = Some (h1, Inl e)" using Some p by simp
    then have False using assms unfolding behaves_def by fastforce
    then show ?thesis ..
  qed (use that Some p in auto)
qed (rule that)

lemma loop_behaves_step:
  "loop_behaves r h2 K res \<Longrightarrow> length h \<le> length h2 \<Longrightarrow> take r h2 = take r h \<Longrightarrow>
     array_like_obj (h2 ! r) = array_like_obj (h ! r) \<Longrightarrow> loop_behaves r h K res"
  by (cases res) (auto simp: loop_behaves_def split: sum.splits)

lemma mixin_names_behaves:
  assumes a: "a < length h0" "length h0 \<le> r"
    and cp: "\<And>k. k \<in> set ks \<Longrightarrow> behaves cp h0 (read_slot h0 a k)"
    and h: "take (length h0) h = h0" "r < length h"
    and len: "array_like_obj (h ! r) \<Longrightarrow> Nm ''length'' \<notin> set ks"
    and K: "list_all K ks" "\<forall>(k, w)\<in>set (slots (h ! r)). K k"
  shows "loop_behaves r h K (mixin_names cp r (ORef a) ks h) \<and>
     (\<forall>k\<in>set ks. never_returns cp h0 (read_slot h0 a k) \<and> k \<notin> fst ` set (slots (h ! r)) \<and>
        inherited_val (h ! r) k = None \<longrightarrow> mixin_names cp r (ORef a) ks h = None)"
  using cp h len K
proof (induction ks arbitrary: h)
  case Nil
  then show ?case by (simp add: loop_behaves_def)
next
  case (Cons k ks)
  let ?s = "read_slot h0 a k"
  have "h ! a = h0 ! a" using take_nth_eq Cons.prems(2,3) a by (metis dual_order.strict_trans2 nat_less_le)
  then have s: "read_val h (ORef a) k = ?s" by (simp add: read_val_def read_slot_def)
  have len: "length h0 \<le> length h" using a(2) Cons.prems(3) by simp
  show ?case
  proof (cases "to_copy h r k ?s")
    case True
    show ?thesis
    proof (rule cp_cases [OF Cons.prems(1) [of k] len Cons.prems(2)])
      assume "cp ?s h = None"
      then show ?thesis using s True by (simp add: loop_behaves_def)
    next
      fix h1 w assume w: "cp ?s h = Some (h1, Inr w)"
      define h2 where "h2 = h1[r := put_obj k w (h1 ! r)]"
      note wr = written [OF Cons.prems(1) [of k] a(2) Cons.prems(3,2) w h2_def, simplified]
      have run: "mixin_names cp r (ORef a) (k # ks) h = mixin_names cp r (ORef a) ks h2"
        using s True w wr(5) Cons.prems(4) by (auto simp: write_slot_def h2_def)
      have "take (length h0) h2 = h0" using take_take_eq [OF wr(2) a(2)] Cons.prems(2) by simp
      then have IH: "loop_behaves r h2 K (mixin_names cp r (ORef a) ks h2) \<and>
          (\<forall>l\<in>set ks. never_returns cp h0 (read_slot h0 a l) \<and> l \<notin> fst ` set (slots (h2 ! r)) \<and>
             inherited_val (h2 ! r) l = None \<longrightarrow> mixin_names cp r (ORef a) ks h2 = None)"
        by (rule Cons.IH [rotated]) (use Cons.prems wr in \<open>auto 4 4\<close>)
      moreover have "\<not> never_returns cp h0 ?s" using w len Cons.prems(2) by (auto simp: never_returns_def)
      moreover have "l \<notin> fst ` set (slots (h2 ! r))" if "l \<noteq> k" "l \<notin> fst ` set (slots (h ! r))" for l
        using wr(4) that by auto
      ultimately show ?thesis
        using loop_behaves_step [OF conjunct1 wr(1-3)] inherited_kind [OF wr(3)] unfolding run by (metis set_ConsD)
    qed simp
  next
    case False
    then have "k \<in> fst ` set (slots (h ! r)) \<or> inherited_val (h ! r) k \<noteq> None"
      by (auto simp: to_copy_def own_or_inherited_def split: option.splits dest: map_of_SomeD intro: rev_image_eqI)
    then show ?thesis using Cons.IH [of h] Cons.prems s False by auto
  qed
qed

lemma push_clones_behaves:
  assumes a: "a < length h0" "length h0 \<le> r"
    and cp: "\<And>i. i \<in> set is \<Longrightarrow> behaves cp h0 (read_slot h0 a (Ix i)) \<and> map_of (slots (h0 ! a)) (Ix i) \<noteq> None"
    and h: "take (length h0) h = h0" "r < length h" "\<forall>(k, w)\<in>set (slots (h ! r)). is_index k"
  shows "loop_behaves r h is_index (push_clones cp a r is h) \<and>
     (\<forall>i\<in>set is. never_returns cp h0 (read_slot h0 a (Ix i)) \<longrightarrow> push_clones cp a r is h = None)"
  using cp h
proof (induction "is" arbitrary: h)
  case Nil
  then show ?case by (simp add: loop_behaves_def)
next
  case (Cons i "is")
  let ?s = "read_slot h0 a (Ix i)"
  have "h ! a = h0 ! a" using take_nth_eq Cons.prems(2,3) a by (metis dual_order.strict_trans2 nat_less_le)
  then have s: "own_or_inherited (h ! a) (Ix i) = Some ?s"
    using Cons.prems(1) [of i] by (auto simp: own_or_inherited_def read_slot_def)
  have len: "length h0 \<le> length h" using a(2) Cons.prems(3) by simp
  have bh: "behaves cp h0 ?s" using Cons.prems(1) [of i] by simp
  show ?case
  proof (rule cp_cases [OF bh len Cons.prems(2)])
    assume "cp ?s h = None"
    then show ?thesis using s by (simp add: loop_behaves_def)
  next
    fix h1 w assume w: "cp ?s h = Some (h1, Inr w)"
    define h2 where "h2 = h1[r := put_obj (Ix (array_len (h1 ! r))) w (h1 ! r)]"
    note wr = written [OF bh a(2) Cons.prems(3,2) w h2_def]
    have run: "push_clones cp a r (i # is) h = push_clones cp a r is h2" using s w by (simp add: h2_def)
    have "take (length h0) h2 = h0" using take_take_eq [OF wr(2) a(2)] Cons.prems(2) by simp
    then have IH: "loop_behaves r h2 is_index (push_clones cp a r is h2) \<and>
        (\<forall>j\<in>set is. never_returns cp h0 (read_slot h0 a (Ix j)) \<longrightarrow> push_clones cp a r is h2 = None)"
      by (rule Cons.IH [rotated]) (use Cons.prems wr in \<open>auto 4 4\<close>)
    moreover have "\<not> never_returns cp h0 ?s" using w len Cons.prems(2) by (auto simp: never_returns_def)
    ultimately show ?thesis
      using loop_behaves_step [OF conjunct1 wr(1-3)] unfolding run by (metis set_ConsD)
  qed
qed

lemma tidy_storeD:
  assumes "tidy_store h" "a < length h"
  shows "tidy (h ! a)" "(k, v) \<in> set (slots (h ! a)) \<Longrightarrow> v = ORef b \<Longrightarrow> b < length h"
    "(k, v) \<in> set (slots (h ! a)) \<Longrightarrow> read_slot h a k = v" "(k, v) \<in> set (slots (h ! a)) \<Longrightarrow> map_of (slots (h ! a)) k = Some v"
proof -
  have ob: "tidy (h ! a)" "list_all (\<lambda>(k, v). case v of ORef b \<Rightarrow> b < length h | _ \<Rightarrow> True) (slots (h ! a))"
    using assms by (auto simp: tidy_store_def list_all_length)
  then show "tidy (h ! a)" by simp
  show "v = ORef b \<Longrightarrow> b < length h" if "(k, v) \<in> set (slots (h ! a))"
    using that ob(2) by (fastforce simp: list_all_iff)
  show m: "map_of (slots (h ! a)) k = Some v" if "(k, v) \<in> set (slots (h ! a))"
    using that ob(1) ordered_distinct by (auto simp: tidy_def)
  show "read_slot h a k = v" if "(k, v) \<in> set (slots (h ! a))" using read_own [OF m [OF that]] .
qed

definition good_run :: "store \<Rightarrow> (store \<times> (lang_error + jval)) option \<Rightarrow> bool" where
  "good_run h res \<longleftrightarrow> (case res of
       None \<Rightarrow> True
     | Some (h', Inl e) \<Rightarrow> False
     | Some (h', Inr w) \<Rightarrow> take (length h) h' = h \<and> w = ORef (length h) \<and> length h < length h')"

lemma good_run_loop:
  "loop_behaves (length h) h1 K res \<Longrightarrow> length h < length h1 \<Longrightarrow> take (length h) h1 = h \<Longrightarrow>
     good_run h (map_option (map_prod id (map_sum id (\<lambda>u. ORef (length h)))) res)"
  by (cases res) (auto simp: loop_behaves_def good_run_def split: sum.splits)

lemma good_run_behaves: "v = ORef a \<Longrightarrow> (\<And>h. length h0 \<le> length h \<Longrightarrow> take (length h0) h = h0 \<Longrightarrow> good_run h (cp v h)) \<Longrightarrow> behaves cp h0 v"
  unfolding behaves_def good_run_def by (fastforce split: option.splits sum.splits)

lemma clone_step:
  assumes t: "tidy_store h0" "made ''Object'' = plain_obj" and a: "a < length h0"
    and h: "length h0 \<le> length h" "take (length h0) h = h0"
    and cp: "\<And>k v. (k, v) \<in> set (slots (h0 ! a)) \<Longrightarrow> behaves (clone made n) h0 v"
  shows "good_run h (clone made (Suc n) (ORef a) h)"
    "(k, v) \<in> set (slots (h0 ! a)) \<Longrightarrow> never_returns (clone made n) h0 v \<Longrightarrow> clone made (Suc n) (ORef a) h = None"
proof -
  let ?r = "length h" and ?ks = "map fst (slots (h0 ! a))" and ?cp = "clone made n"
  have ha: "h ! a = h0 ! a" "a < ?r" using take_nth_eq [OF h(2) a h(1)] a h(1) by auto
  note tidy = tidy_storeD [OF t(1) a]
  have inh: "inherited_val (h0 ! a) l = None" "inherited_val plain_obj l = None" if "l \<in> set ?ks" for l
    using tidy(1) that by (auto simp: tidy_def list_all_iff)
  have cps: "behaves ?cp h0 (read_slot h0 a l)" if "l \<in> set ?ks" for l
    using that cp tidy(3) by fastforce
  have names: "names_of g (ORef a) = ?ks" if "take ?r g = h" "?r < length g" for g
    using take_nth_eq [OF that(1) ha(2)] that(2) ha(1) by (simp add: names_of_def)
  have base: "take (length h0) g = h0" if "take ?r g = h" for g
    using that h by (metis min.absorb1 take_take)
  have loop: "loop_behaves ?r g (\<lambda>k. True) (mixin_names ?cp ?r (ORef a) ?ks g) \<and>
      (\<forall>k\<in>set ?ks. never_returns ?cp h0 (read_slot h0 a k) \<and> k \<notin> fst ` set (slots (g ! ?r)) \<and>
        inherited_val (g ! ?r) k = None \<longrightarrow> mixin_names ?cp ?r (ORef a) ?ks g = None)"
    if g: "take ?r g = h" "?r < length g" "array_like_obj (g ! ?r) = array_like_obj (h0 ! a)" for g
    by (rule mixin_names_behaves [OF a h(1) cps base [OF g(1)] g(2)])
      (use inh [of "Nm ''length''"] g(3) in \<open>auto simp: list_all_iff\<close>)
  have never: "read_slot h0 a k = v" "k \<in> set ?ks" if "(k, v) \<in> set (slots (h0 ! a))"
    using that tidy(3) by force+
  show "good_run h (clone made (Suc n) (ORef a) h)"
    "(k, v) \<in> set (slots (h0 ! a)) \<Longrightarrow> never_returns ?cp h0 v \<Longrightarrow> clone made (Suc n) (ORef a) h = None"
  proof (atomize (full), cases "array_like_obj (h0 ! a)")
    case True
    let ?g = "h @ [empty_array]" and ?is = "[0..<array_len (h0 ! a)]"
    have idx: "filter is_index ?ks = map Ix ?is" using tidy(1) True by (simp add: tidy_def)
    have at: "Ix i \<in> set ?ks" if "i \<in> set ?is" for i
    proof -
      have "Ix i \<in> set (filter is_index ?ks)" unfolding idx using that by simp
      then show ?thesis by simp
    qed
    have push: "loop_behaves ?r ?g is_index (push_clones ?cp a ?r ?is ?g) \<and>
        (\<forall>i\<in>set ?is. never_returns ?cp h0 (read_slot h0 a (Ix i)) \<longrightarrow> push_clones ?cp a ?r ?is ?g = None)"
    proof (rule push_clones_behaves [OF a h(1)])
      show "behaves ?cp h0 (read_slot h0 a (Ix i)) \<and> map_of (slots (h0 ! a)) (Ix i) \<noteq> None" if "i \<in> set ?is" for i
        using cps [OF at [OF that]] at [OF that] by (auto simp: map_of_eq_None_iff)
    qed (use h in \<open>auto simp: empty_array_def nth_append\<close>)
    have run: "clone made (Suc n) (ORef a) h = (case push_clones ?cp a ?r ?is ?g of
        None \<Rightarrow> None | Some (g, Inl e) \<Rightarrow> Some (g, Inl e)
      | Some (g, Inr u) \<Rightarrow> map_option (map_prod id (map_sum id (\<lambda>u. ORef ?r))) (mixin_into ?cp ?r (ORef a) g))"
      using True ha by (simp add: alloc_def)
    show "good_run h (clone made (Suc n) (ORef a) h) \<and>
      ((k, v) \<in> set (slots (h0 ! a)) \<longrightarrow> never_returns ?cp h0 v \<longrightarrow> clone made (Suc n) (ORef a) h = None)"
    proof (cases "push_clones ?cp a ?r ?is ?g")
      case None
      then show ?thesis unfolding run by (simp add: good_run_def)
    next
      case (Some p)
      then obtain g where g: "push_clones ?cp a ?r ?is ?g = Some (g, Inr ())" "Suc ?r \<le> length g" "take ?r g = h"
        "array_like_obj (g ! ?r)" "\<forall>(k, w)\<in>set (slots (g ! ?r)). is_index k"
        using push by (cases p; cases "snd p") (auto simp: loop_behaves_def empty_array_def nth_append)
      have names: "names_of g (ORef a) = ?ks" using names [OF g(3)] g(2) by simp
      have mix: "loop_behaves ?r g (\<lambda>k. True) (mixin_names ?cp ?r (ORef a) ?ks g)"
        "\<And>k. k \<in> set ?ks \<Longrightarrow> never_returns ?cp h0 (read_slot h0 a k) \<Longrightarrow> k \<notin> fst ` set (slots (g ! ?r)) \<Longrightarrow>
           inherited_val (g ! ?r) k = None \<Longrightarrow> mixin_names ?cp ?r (ORef a) ?ks g = None"
        using loop [OF g(3)] g(2,4) True by auto
      have "clone made (Suc n) (ORef a) h = None" if kv: "(k, v) \<in> set (slots (h0 ! a))" "never_returns ?cp h0 v"
      proof (cases "is_index k")
        case True
        then have "k \<in> set (filter is_index ?ks)" using never [OF kv(1)] by simp
        then obtain i where "i \<in> set ?is" "k = Ix i" unfolding idx by auto
        then show ?thesis using push never [OF kv(1)] kv(2) g(1) by auto
      next
        case False
        then have "k \<notin> fst ` set (slots (g ! ?r))" using g(5) by auto
        then show ?thesis unfolding run
          using g(1) mix(2) [of k] never [OF kv(1)] kv(2) inherited_kind [of "g ! ?r" "h0 ! a" k] inh(1) g(4) True names
          by (simp add: mixin_into_def \<open>array_like_obj (h0 ! a)\<close>)
      qed
      then show ?thesis
        using good_run_loop [OF mix(1) _ g(3)] g(1,2) names unfolding run by (auto simp: mixin_into_def)
    qed
  next
    case False
    let ?g = "h @ [plain_obj]"
    have c: "map_of (slots (h0 ! a)) (Nm ''constructor'') = None"
      using inh(2) [of "Nm ''constructor''"] by (auto simp: map_of_eq_None_iff simp flip: set_map)
    have new: "new_like made a h = Inr plain_obj"
      using t(2) c ha False by (simp add: new_like_def read_slot_def own_or_inherited_def truthy_val_def)
    have g: "take ?r ?g = h" "?r < length ?g" "array_like_obj (?g ! ?r) = array_like_obj (h0 ! a)"
      using False by (auto simp: plain_obj_def)
    have run: "clone made (Suc n) (ORef a) h =
        map_option (map_prod id (map_sum id (\<lambda>u. ORef ?r))) (mixin_names ?cp ?r (ORef a) ?ks ?g)"
      using False ha new names [OF g(1,2)] by (simp add: alloc_def mixin_into_def)
    have "mixin_names ?cp ?r (ORef a) ?ks ?g = None" if "(k, v) \<in> set (slots (h0 ! a))" "never_returns ?cp h0 v"
      using loop [OF g] never [OF that(1)] that(2) inh(2) by (auto simp: plain_obj_def)
    then show "good_run h (clone made (Suc n) (ORef a) h) \<and>
      ((k, v) \<in> set (slots (h0 ! a)) \<longrightarrow> never_returns ?cp h0 v \<longrightarrow> clone made (Suc n) (ORef a) h = None)"
      unfolding run using good_run_loop [OF conjunct1 [OF loop [OF g]] g(2,1)] by auto
  qed
qed

lemma clone_behaves:
  "tidy_store h0 \<Longrightarrow> made ''Object'' = plain_obj \<Longrightarrow> (\<And>b. v = ORef b \<Longrightarrow> b < length h0) \<Longrightarrow> behaves (clone made n) h0 v"
proof (induction n arbitrary: v)
  case (Suc n)
  show ?case
  proof (cases v)
    case (ORef a)
    with Suc.prems have a: "a < length h0" by simp
    have kids: "behaves (clone made n) h0 w" if "(k, w) \<in> set (slots (h0 ! a))" for k w
      using Suc.IH [OF Suc.prems(1,2)] tidy_storeD(2) [OF Suc.prems(1) a that] by blast
    show ?thesis
    proof (rule good_run_behaves [OF ORef])
      fix h assume "length h0 \<le> length h" "take (length h0) h = h0"
      then show "good_run h (clone made (Suc n) v h)" unfolding ORef
        by (rule clone_step(1) [where made = made, OF Suc.prems(1,2) a]) (rule kids)
    qed
  qed (auto simp: behaves_def)
qed (simp add: behaves_def)

text \<open>C23: Clone does not return from a circle. In a store of objects without holes and without names of
  Object.prototype, when each object of a set holds another one of the set, clone returns from none of them
  however deep it may call itself.\<close>
theorem clone_circle:
  assumes t: "tidy_store h" "made ''Object'' = plain_obj"
    and S: "\<forall>a\<in>S. a < length h \<and> (\<exists>b\<in>S. held_by h a b)" and a: "a \<in> S"
  shows "clone made n (ORef a) h = None"
proof -
  have "never_returns (clone made n) h (ORef a)" if "a \<in> S" for a
    using that
  proof (induction n arbitrary: a)
    case (Suc n)
    then obtain k b where b: "a < length h" "b \<in> S" "(k, ORef b) \<in> set (slots (h ! a))" using S by (auto simp: held_by_def)
    have kids: "behaves (clone made n) h w" if "(l, w) \<in> set (slots (h ! a))" for l w
      using clone_behaves [where made = made, OF t] tidy_storeD(2) [OF t(1) b(1) that] by blast
    show ?case unfolding never_returns_def [of "clone made (Suc n)"]
    proof (intro allI impI, elim conjE)
      fix g :: store assume "length h \<le> length g" "take (length h) g = h"
      then show "clone made (Suc n) (ORef a) g = None"
        by (rule clone_step(2) [where made = made, OF t b(1) _ _ _ b(3) Suc.IH [OF b(2)]]) (rule kids)
    qed
  qed (simp add: never_returns_def)
  from this [OF a] show ?thesis by (simp add: never_returns_def)
qed

definition ring :: store where
  "ring = [\<lparr>array_like_obj = False, array_len = 0, slots = [(Nm ''id'', ONum 7), (Nm ''next'', ORef 1)]\<rparr>,
     \<lparr>array_like_obj = True, array_len = 1, slots = [(Ix 0, ORef 0)]\<rparr>]"

theorem clone_circle_witness: "clone (\<lambda>f. plain_obj) 40 (ORef 0) ring = None"
  by (rule clone_circle [of ring _ "{0, 1}"])
    (simp_all add: ring_def held_by_def tidy_store_def tidy_def ordered_keys_def plain_obj_def proto_names_def array_names_def)

section \<open>What clone makes of an array with holes\<close>

lemma push_skip: "list_all (\<lambda>j. own_or_inherited (h ! a) (Ix j) = None) js \<Longrightarrow>
    push_clones cp a r (js @ ks) h = push_clones cp a r ks h"
  by (induction js) auto

text \<open>A clone of an array with holes has too many elements. The clone of an array whose only element is behind
  holes has the element twice: at its place and at the start.\<close>

theorem clone_fills_hole:
  assumes "0 < i" and "\<forall>b. v \<noteq> ORef b" and "a < length h"
    and "h ! a = \<lparr>array_like_obj = True, array_len = Suc i, slots = [(Ix i, v)]\<rparr>"
  shows "clone made (Suc (Suc n)) (ORef a) h =
    Some (h @ [\<lparr>array_like_obj = True, array_len = Suc i, slots = [(Ix 0, v), (Ix i, v)]\<rparr>], Inr (ORef (length h)))"
proof -
  let ?g = "h @ [empty_array]" and ?cp = "clone made (Suc n)"
  have cp: "?cp v g = Some (g, Inr v)" for g using assms(2) by (cases v) auto
  have ga: "?g ! a = h ! a" using assms(3) by (simp add: nth_append)
  have "push_clones ?cp a (length h) [0..<Suc i] ?g =
      Some (h @ [\<lparr>array_like_obj = True, array_len = 1, slots = [(Ix 0, v)]\<rparr>], Inr ())"
    unfolding upt_Suc_append [OF le0]
    by (subst push_skip)
      (use ga assms(4) in \<open>auto simp: list_all_iff own_or_inherited_def cp [simplified] put_obj_def empty_array_def\<close>)
  moreover have "mixin_into ?cp (length h) (ORef a) (h @ [\<lparr>array_like_obj = True, array_len = 1, slots = [(Ix 0, v)]\<rparr>]) =
      Some (h @ [\<lparr>array_like_obj = True, array_len = Suc i, slots = [(Ix 0, v), (Ix i, v)]\<rparr>], Inr ())"
    using assms by (auto simp: mixin_into_def names_of_def nth_append read_val_def read_slot_def own_or_inherited_def
        to_copy_def Let_def cp [simplified] write_slot_def put_obj_def max_def)
  ultimately show ?thesis using assms(3,4)
    by (subst clone.simps(2)) (simp add: alloc_def del: clone.simps upt_Suc)
qed

end
