(* ===== verification/Arrays.thy ===== *)
theory Arrays
  imports Prelude Complex_Main
begin

text \<open>
  What the toolkit does with arrays (\<^verbatim>\<open>dojo/_base/array\<close>): loops that call a function for each index there was
  when they began, and the search for an element. The function may change the array, and what it sees
  is the array of that moment; what is beyond the end is undefined (\<open>None\<close>). Functions given as text are left out.
\<close>

section \<open>Loops\<close>

type_synonym ('a, 's) astate = "'a list \<times> 's"

type_synonym ('a, 's, 'e, 'b) callback = "'a option \<Rightarrow> nat \<Rightarrow> ('a, 's) astate \<Rightarrow> ('e + 'b) \<times> ('a, 's) astate"

definition item_at :: "'a list \<Rightarrow> nat \<Rightarrow> 'a option" where
  "item_at a i = (if i < length a then Some (a ! i) else None)"

fun every_or_some :: "bool \<Rightarrow> ('a, 's, 'e, bool) callback \<Rightarrow> nat list \<Rightarrow> ('a, 's) astate \<Rightarrow> ('e + bool) \<times> ('a, 's) astate" where
  "every_or_some sm fn [] st = (Inr (\<not> sm), st)"
| "every_or_some sm fn (i # is) st =
     (case fn (item_at (fst st) i) i st of
        (Inl e, st') \<Rightarrow> (Inl e, st')
      | (Inr b, st') \<Rightarrow> (let result = \<not> b in
          if sm \<noteq> result then (Inr (\<not> result), st') else every_or_some sm fn is st'))"

definition array_every :: "('a, 's, 'e, bool) callback \<Rightarrow> ('a, 's) astate \<Rightarrow> ('e + bool) \<times> ('a, 's) astate" where
  "array_every fn st = every_or_some False fn [0..<length (fst st)] st"

definition array_some :: "('a, 's, 'e, bool) callback \<Rightarrow> ('a, 's) astate \<Rightarrow> ('e + bool) \<times> ('a, 's) astate" where
  "array_some fn st = every_or_some True fn [0..<length (fst st)] st"

fun each_loop :: "('a, 's, 'e, 'b) callback \<Rightarrow> nat list \<Rightarrow> ('a, 's) astate \<Rightarrow> ('e + unit) \<times> ('a, 's) astate" where
  "each_loop fn [] st = (Inr (), st)"
| "each_loop fn (i # is) st =
     (case fn (item_at (fst st) i) i st of
        (Inl e, st') \<Rightarrow> (Inl e, st')
      | (Inr b, st') \<Rightarrow> each_loop fn is st')"

definition for_each :: "('a, 's, 'e, 'b) callback \<Rightarrow> ('a, 's) astate \<Rightarrow> ('e + unit) \<times> ('a, 's) astate" where
  "for_each fn st = each_loop fn [0..<length (fst st)] st"

text \<open>\<^verbatim>\<open>out\<close> starts with as many holes as the array is long.\<close>

fun map_loop :: "('a, 's, 'e, 'b) callback \<Rightarrow> nat list \<Rightarrow> 'b option list \<Rightarrow> ('a, 's) astate \<Rightarrow>
    ('e + 'b option list) \<times> ('a, 's) astate" where
  "map_loop fn [] out st = (Inr out, st)"
| "map_loop fn (i # is) out st =
     (case fn (item_at (fst st) i) i st of
        (Inl e, st') \<Rightarrow> (Inl e, st')
      | (Inr b, st') \<Rightarrow> map_loop fn is (out[i := Some b]) st')"

definition array_map :: "('a, 's, 'e, 'b) callback \<Rightarrow> ('a, 's) astate \<Rightarrow> ('e + 'b option list) \<times> ('a, 's) astate" where
  "array_map fn st = (let l = length (fst st) in map_loop fn [0..<l] (replicate l None) st)"

fun filter_loop :: "('a, 's, 'e, bool) callback \<Rightarrow> nat list \<Rightarrow> 'a option list \<Rightarrow> ('a, 's) astate \<Rightarrow>
    ('e + 'a option list) \<times> ('a, 's) astate" where
  "filter_loop fn [] out st = (Inr out, st)"
| "filter_loop fn (i # is) out st =
     (let v = item_at (fst st) i
      in case fn v i st of
          (Inl e, st') \<Rightarrow> (Inl e, st')
        | (Inr b, st') \<Rightarrow> filter_loop fn is (if b then out @ [v] else out) st')"

definition array_filter :: "('a, 's, 'e, bool) callback \<Rightarrow> ('a, 's) astate \<Rightarrow> ('e + 'a option list) \<times> ('a, 's) astate" where
  "array_filter fn st = filter_loop fn [0..<length (fst st)] [] st"

section \<open>Searching\<close>

text \<open>An index may be any number; there is an element at whole ones. \<open>eq\<close> is \<^verbatim>\<open>==\<close>, which may hold for undefined.\<close>

definition elem_at :: "'a list \<Rightarrow> rat \<Rightarrow> 'a option" where
  "elem_at a i = (if i = of_int \<lfloor>i\<rfloor> \<and> 0 \<le> i then item_at a (nat \<lfloor>i\<rfloor>) else None)"

partial_function (option) index_loop ::
  "('a option \<Rightarrow> 'a \<Rightarrow> bool) \<Rightarrow> 'a list \<Rightarrow> 'a \<Rightarrow> rat \<Rightarrow> rat \<Rightarrow> rat \<Rightarrow> rat option" where
  "index_loop eq a x delta stop i =
     (if i = stop then Some (- 1) else if eq (elem_at a i) x then Some i
      else index_loop eq a x delta stop (i + delta))"

definition search :: "bool \<Rightarrow> ('a option \<Rightarrow> 'a \<Rightarrow> bool) \<Rightarrow> 'a list \<Rightarrow> 'a \<Rightarrow> rat option \<Rightarrow> rat option" where
  "search up eq a x frm =
     (let delta = (if up then 1 else - 1); l_over = (if up then 0 else - 1); u_over = (if up then 0 else - 1);
          l = of_nat (length a); stop = (if up then l + u_over else l_over);
          i = (case frm of
              None \<Rightarrow> if up then l_over else l + u_over
            | Some f \<Rightarrow> if f < 0 then (let j = l + f in if j < 0 then l_over else j)
                else if f \<ge> l then l + u_over else f)
      in index_loop eq a x delta stop i)"

definition last_index_of :: "('a option \<Rightarrow> 'a \<Rightarrow> bool) \<Rightarrow> 'a list \<Rightarrow> 'a \<Rightarrow> rat option \<Rightarrow> rat option" where
  "last_index_of eq a x frm = search False eq a x frm"

definition index_of_item :: "('a option \<Rightarrow> 'a \<Rightarrow> bool) \<Rightarrow> 'a list \<Rightarrow> 'a \<Rightarrow> rat option \<Rightarrow> bool \<Rightarrow> rat option" where
  "index_of_item eq a x frm lst = (if lst then last_index_of eq a x frm else search True eq a x frm)"

section \<open>What a search finds\<close>

text \<open>The language's own definition: search upwards from a place, or downwards from one.\<close>

definition up_from :: "nat \<Rightarrow> int option \<Rightarrow> nat" where
  "up_from l f = (case f of None \<Rightarrow> 0 | Some n \<Rightarrow> if n \<ge> 0 then min (nat n) l else nat (int l + n))"

definition down_from :: "nat \<Rightarrow> int option \<Rightarrow> nat" where
  "down_from l f = (case f of None \<Rightarrow> l | Some n \<Rightarrow> if n \<ge> 0 then min (Suc (nat n)) l else nat (int l + n + 1))"

definition found :: "nat list \<Rightarrow> (nat \<Rightarrow> bool) \<Rightarrow> rat" where
  "found is P = (case find P is of None \<Rightarrow> - 1 | Some i \<Rightarrow> of_nat i)"

lemma elem_at_nat: "i < length a \<Longrightarrow> elem_at a (of_nat i) = Some (a ! i)"
  by (simp add: elem_at_def item_at_def)

lemma search_up: "i \<le> length a \<Longrightarrow>
    index_loop eq a x 1 (of_nat (length a)) (of_nat i) = Some (found [i..<length a] (\<lambda>j. eq (Some (a ! j)) x))"
proof (induction "length a - i" arbitrary: i)
  case 0
  then show ?case by (subst index_loop.simps) (simp add: found_def)
next
  case (Suc n)
  then have i: "i < length a" "n = length a - Suc i" by auto
  then have "index_loop eq a x 1 (of_nat (length a)) (of_nat (Suc i)) =
      Some (found [Suc i..<length a] (\<lambda>j. eq (Some (a ! j)) x))" by (intro Suc.hyps) auto
  then show ?case
    using i(1) by (subst index_loop.simps) (simp add: found_def elem_at_nat upt_conv_Cons add.commute)
qed

lemma search_down: "i \<le> length a \<Longrightarrow>
    index_loop eq a x (- 1) (- 1) (of_nat i - 1) = Some (found (rev [0..<i]) (\<lambda>j. eq (Some (a ! j)) x))"
proof (induction i)
  case 0
  then show ?case by (subst index_loop.simps) (simp add: found_def)
next
  case (Suc i)
  then have "index_loop eq a x (- 1) (- 1) (of_nat i - 1) = Some (found (rev [0..<i]) (\<lambda>j. eq (Some (a ! j)) x))" by simp
  then show ?case
    using Suc.prems elem_at_nat [of i a] by (subst index_loop.simps) (simp add: found_def)
qed

lemma search_starts:
  fixes f :: "int option"
  shows "search True eq a x (map_option of_int f) = index_loop eq a x 1 (of_nat (length a)) (of_nat (up_from (length a) f))"
    "search False eq a x (map_option of_int f) = index_loop eq a x (- 1) (- 1) (of_nat (down_from (length a) f) - 1)"
proof -
  have r: "(of_int n :: rat) < of_nat l \<longleftrightarrow> n < int l" "(of_nat l :: rat) \<le> of_int n \<longleftrightarrow> int l \<le> n"
    "(of_nat l + of_int n :: rat) < 0 \<longleftrightarrow> int l + n < 0" for n :: int and l :: nat
    by (metis of_int_less_iff of_int_of_nat_eq, metis of_int_le_iff of_int_of_nat_eq,
        metis of_int_0 of_int_add of_int_less_iff of_int_of_nat_eq)
  have c: "(of_nat (nat n) :: rat) = of_int n" if "0 \<le> n" for n
    using that by (metis int_nat_eq of_int_of_nat_eq)
  have m: "min (nat n) l = (if int l \<le> n then l else nat n)" "min (Suc (nat n)) l = (if int l \<le> n then l else Suc (nat n))"
    if "0 \<le> n" for n l
    using that by auto
  show "search True eq a x (map_option of_int f) = index_loop eq a x 1 (of_nat (length a)) (of_nat (up_from (length a) f))"
    by (cases f) (auto simp: search_def up_from_def Let_def r c m)
  show "search False eq a x (map_option of_int f) = index_loop eq a x (- 1) (- 1) (of_nat (down_from (length a) f) - 1)"
    by (cases f) (auto simp: search_def down_from_def Let_def r c m)
qed

text \<open>C25: A search finds what the language's own search does. From any whole number, positive or negative and
  however far beyond the ends, indexOf returns the first index from there with an equal element, lastIndexOf the
  last one up to there, and minus one when there is none; a fourth argument to indexOf searches from the end.\<close>
theorem search_finds:
  fixes f :: "int option"
  shows "index_of_item eq a x (map_option of_int f) False =
      Some (found [up_from (length a) f..<length a] (\<lambda>j. eq (Some (a ! j)) x)) \<and>
    last_index_of eq a x (map_option of_int f) =
      Some (found (rev [0..<down_from (length a) f]) (\<lambda>j. eq (Some (a ! j)) x)) \<and>
    index_of_item eq a x (map_option of_int f) True = last_index_of eq a x (map_option of_int f)"
proof -
  have "up_from (length a) f \<le> length a" "down_from (length a) f \<le> length a"
    by (auto simp: up_from_def down_from_def split: option.splits)
  then show ?thesis
    by (simp add: index_of_item_def last_index_of_def search_starts search_up search_down)
qed

lemmas index_loop_induct = index_loop.raw_induct [where xa = "(((((eq, a), x), delta), stop), i)" for eq a x delta stop i,
    unfolded prod.case, consumes 1, case_names step]

lemma search_whole:
  "index_loop eq a x delta stop i = Some r \<Longrightarrow> delta = 1 \<longrightarrow> stop \<in> \<int> \<longrightarrow> \<not> eq None x \<longrightarrow> i \<in> \<int>"
proof (rule index_loop_induct [rotated, where P = "\<lambda>eq a x delta stop i r. delta = 1 \<longrightarrow> stop \<in> \<int> \<longrightarrow> \<not> eq None x \<longrightarrow> i \<in> \<int>"],
    assumption, intro impI)
  fix loop :: "('a option \<Rightarrow> 'a \<Rightarrow> bool) \<Rightarrow> 'a list \<Rightarrow> 'a \<Rightarrow> rat \<Rightarrow> rat \<Rightarrow> rat \<Rightarrow> rat option"
    and eq a x delta stop i and r :: rat
  assume IH: "\<And>eq a x delta stop i r. loop eq a x delta stop i = Some r \<Longrightarrow>
      delta = 1 \<longrightarrow> stop \<in> \<int> \<longrightarrow> \<not> eq None x \<longrightarrow> i \<in> \<int>"
    and run: "(if i = stop then Some (- 1) else if eq (elem_at a i) x then Some i else loop eq a x delta stop (i + delta)) = Some r"
    and d: "delta = 1" "stop \<in> \<int>" "\<not> eq None x"
  show "i \<in> \<int>"
  proof (rule ccontr)
    assume i: "i \<notin> \<int>"
    then have "elem_at a i = None" unfolding elem_at_def by (metis Ints_of_int)
    with run i d have "loop eq a x delta stop (i + delta) = Some r" by (auto split: if_splits)
    from IH [OF this] d have "i + 1 \<in> \<int>" by simp
    then have "i + 1 - 1 \<in> \<int>" by (rule Ints_diff) simp
    with i show False by simp
  qed
qed

text \<open>A search from a number that is not whole never ends, for the index never meets the end.\<close>

theorem search_endless:
  assumes "0 < f" and "f < of_nat (length a)" and "f \<notin> \<int>" and "\<not> eq None x"
  shows "index_of_item eq a x (Some f) False = None"
proof -
  have "index_of_item eq a x (Some f) False = index_loop eq a x 1 (of_nat (length a)) f"
    using assms(1,2) by (simp add: index_of_item_def search_def Let_def)
  then show ?thesis using search_whole [of eq a x 1 "of_nat (length a)" f] assms(3,4) by (cases "index_loop eq a x 1 (of_nat (length a)) f") auto
qed

section \<open>What the loops see\<close>

text \<open>Some is the opposite of every with the opposite function: the calls, their effects and exceptions are
  the same.\<close>

definition opposite :: "('a, 's, 'e, bool) callback \<Rightarrow> ('a, 's, 'e, bool) callback" where
  "opposite fn v i st = (case fn v i st of (r, st') \<Rightarrow> (map_sum id Not r, st'))"

lemma every_or_some_opposite:
  "every_or_some (\<not> sm) (opposite fn) is st = (case every_or_some sm fn is st of (r, st') \<Rightarrow> (map_sum id Not r, st'))"
  by (induction "is" arbitrary: st) (auto simp: opposite_def Let_def split: prod.splits sum.splits)

theorem some_is_not_every:
  "array_some (opposite fn) st = (case array_every fn st of (r, st') \<Rightarrow> (map_sum id Not r, st'))"
  using every_or_some_opposite [of False fn "[0..<length (fst st)]" st] by (simp add: array_some_def array_every_def)

text \<open>When the function leaves the array alone and only tells: the results in order, and the elements it accepts.\<close>

lemma map_loop_tells:
  assumes "\<And>v i st. fn v i st = (Inr (g v i), st)"
  shows "distinct is \<Longrightarrow> set is \<subseteq> {..<length out} \<Longrightarrow>
     map_loop fn is out st = (Inr (map (\<lambda>i. if i \<in> set is then Some (g (item_at (fst st) i) i) else out ! i) [0..<length out]), st)"
proof (induction "is" arbitrary: out)
  case Nil
  then show ?case by (simp add: map_nth)
next
  case (Cons j "is")
  then show ?case by (auto simp: assms nth_list_update intro!: map_cong)
qed

theorem map_tells:
  assumes "\<And>v i st. fn v i st = (Inr (g v i), st)"
  shows "array_map fn (a, s) = (Inr (map (\<lambda>i. Some (g (Some (a ! i)) i)) [0..<length a]), (a, s))"
proof -
  have "array_map fn (a, s) = (Inr (map (\<lambda>i. if i \<in> set [0..<length a] then Some (g (item_at a i) i) else replicate (length a) None ! i)
      [0..<length a]), (a, s))"
    unfolding array_map_def Let_def using map_loop_tells [where fn = fn and g = g, OF assms, of "[0..<length a]" "replicate (length a) None" "(a, s)"]
    by (simp add: lessThan_atLeast0)
  also have "\<dots> = (Inr (map (\<lambda>i. Some (g (Some (a ! i)) i)) [0..<length a]), (a, s))" by (simp add: item_at_def)
  finally show ?thesis .
qed

lemma filter_loop_tells:
  assumes "\<And>v i st. fn v i st = (Inr (P v), st)"
  shows "set is \<subseteq> {..<length a} \<Longrightarrow>
     filter_loop fn is out (a, s) = (Inr (out @ map (\<lambda>i. Some (a ! i)) (filter (\<lambda>i. P (Some (a ! i))) is)), (a, s))"
  by (induction "is" arbitrary: out) (auto simp: assms item_at_def Let_def)

theorem filter_tells:
  assumes "\<And>v i st. fn v i st = (Inr (P v), st)"
  shows "array_filter fn (a, s) = (Inr (map Some (filter (\<lambda>v. P (Some v)) a)), (a, s))"
proof -
  have "filter (\<lambda>v. P (Some v)) a = map (\<lambda>i. a ! i) (filter (\<lambda>i. P (Some (a ! i))) [0..<length a])"
    using filter_map [of "\<lambda>v. P (Some v)" "(!) a" "[0..<length a]"] by (simp add: map_nth comp_def)
  then show ?thesis
    using filter_loop_tells [where fn = fn and P = P, OF assms, of "[0..<length a]" a "[]" s]
    by (simp add: array_filter_def lessThan_atLeast0 comp_def)
qed

end
