(* ===== verification/DomClass.thy ===== *)
theory DomClass
  imports Dtl
begin

text \<open>
  The classes of a node (\<^verbatim>\<open>dojo/dom-class\<close>), which widgets are given when they are made: operations on the
  text of the attribute \<^verbatim>\<open>class\<close>, and that they are operations on the list of its words.
\<close>

section \<open>Operations on the text\<close>

datatype class_arg = No_classes | Class_text string | Class_list "string list"

definition drop_empty_ends :: "string list \<Rightarrow> string list" where
  "drop_empty_ends a =
     (let b = (if a \<noteq> [] \<and> hd a = [] then tl a else a)
      in if b \<noteq> [] \<and> last b = [] then butlast b else b)"

definition str2array :: "class_arg \<Rightarrow> string list" where
  "str2array a = (case a of
       No_classes \<Rightarrow> []
     | Class_text s \<Rightarrow> if s \<noteq> [] \<and> \<not> list_ex js_space s then [s] else drop_empty_ends (split_ws s)
     | Class_list ss \<Rightarrow> filter (\<lambda>s. s \<noteq> []) ss)"

definition has_text :: "string \<Rightarrow> string \<Rightarrow> bool" where
  "has_text s t \<longleftrightarrow> find_sub t s \<noteq> None"

definition replace_first :: "string \<Rightarrow> string \<Rightarrow> string \<Rightarrow> string" where
  "replace_first pat by s = (case find_sub pat s of None \<Rightarrow> s | Some (a, r) \<Rightarrow> a @ by @ r)"

definition class_contains :: "string \<Rightarrow> string \<Rightarrow> bool" where
  "class_contains name c \<longleftrightarrow> has_text ('' '' @ name @ '' '') ('' '' @ c @ '' '')"

definition class_add :: "string \<Rightarrow> class_arg \<Rightarrow> string" where
  "class_add name a =
     (let start = (if name \<noteq> [] then '' '' @ name @ '' '' else '' '');
          cls = foldl (\<lambda>cls c. if c \<noteq> [] \<and> \<not> has_text cls ('' '' @ c @ '' '') then cls @ c @ '' '' else cls) start (str2array a)
      in if length start < length cls then take (length cls - 2) (drop 1 cls) else name)"

definition class_remove :: "string \<Rightarrow> class_arg \<Rightarrow> string" where
  "class_remove name a =
     (if a = No_classes then []
      else js_trim (foldl (\<lambda>cls c. replace_first ('' '' @ c @ '' '') '' '' cls) ('' '' @ name @ '' '') (str2array a)))"

definition class_replace :: "string \<Rightarrow> class_arg \<Rightarrow> class_arg \<Rightarrow> string" where
  "class_replace name add rem = class_add (class_remove name rem) add"

definition class_toggle :: "string \<Rightarrow> class_arg \<Rightarrow> bool option \<Rightarrow> string" where
  "class_toggle name a cond = (case cond of
       None \<Rightarrow> foldl (\<lambda>name c. if class_contains name c then class_remove name (Class_text c) else class_add name (Class_text c))
           name (str2array a)
     | Some b \<Rightarrow> if b then class_add name a else class_remove name a)"

section \<open>Operations on the list of words\<close>

definition class_word :: "string \<Rightarrow> bool" where
  "class_word c \<longleftrightarrow> c \<noteq> [] \<and> \<not> list_ex js_space c"

definition with_words :: "string list \<Rightarrow> string list \<Rightarrow> string list" where
  "with_words cs ds = foldl (\<lambda>cs d. if d \<in> set cs then cs else cs @ [d]) cs ds"

definition without_words :: "string list \<Rightarrow> string list \<Rightarrow> string list" where
  "without_words cs ds = foldl (\<lambda>cs d. remove1 d cs) cs ds"

definition toggled_words :: "string list \<Rightarrow> string list \<Rightarrow> string list" where
  "toggled_words cs ds = foldl (\<lambda>cs d. if d \<in> set cs then remove1 d cs else cs @ [d]) cs ds"

abbreviation class_text :: "string list \<Rightarrow> string" where
  "class_text cs \<equiv> join_with '' '' cs"

fun spaced :: "string list \<Rightarrow> string" where
  "spaced [] = '' ''"
| "spaced (c # cs) = CHR '' '' # c @ spaced cs"

lemma spaced_text: "cs \<noteq> [] \<Longrightarrow> '' '' @ class_text cs @ '' '' = spaced cs"
proof (induction cs)
  case (Cons c cs)
  then show ?case by (cases cs) auto
qed simp

lemma spaced_append: "spaced (cs @ [c]) = spaced cs @ c @ '' ''"
  by (induction cs) auto

lemma spaced_hd: "\<exists>r. spaced cs = CHR '' '' # r"
  by (cases cs) auto

lemma word_no_space: "class_word c \<Longrightarrow> CHR '' '' \<notin> set c"
  by (auto simp: class_word_def list_ex_iff js_space_def)

lemma strip_word: "CHR '' '' \<notin> set c \<Longrightarrow> CHR '' '' \<notin> set u \<Longrightarrow>
    strip_prefix (c @ '' '') (u @ CHR '' '' # r) = (if u = c then Some r else None)"
proof (induction c arbitrary: u)
  case Nil
  then show ?case by (cases u) auto
next
  case (Cons x c)
  then show ?case by (cases u) auto
qed

lemma find_past: "CHR '' '' \<notin> set u \<Longrightarrow>
    find_sub (CHR '' '' # p) (u @ s) = map_option (\<lambda>(a, r). (u @ a, r)) (find_sub (CHR '' '' # p) s)"
proof (induction u)
  case Nil
  then show ?case by (simp add: option.map_ident)
next
  case (Cons x u)
  then show ?case by (subst find_sub.simps) (auto simp: option.map_comp comp_def split_def)
qed

lemma find_spaced:
  assumes "class_word c" "\<forall>u\<in>set cs. class_word u"
  shows "find_sub (CHR '' '' # c @ '' '') (spaced cs) \<noteq> None \<longleftrightarrow> c \<in> set cs"
    "replace_first (CHR '' '' # c @ '' '') '' '' (spaced cs) = spaced (remove1 c cs)"
proof -
  let ?p = "CHR '' '' # c @ '' ''"
  have "(find_sub ?p (spaced cs) \<noteq> None \<longleftrightarrow> c \<in> set cs) \<and> replace_first ?p '' '' (spaced cs) = spaced (remove1 c cs)"
    using assms(2)
  proof (induction cs)
    case Nil
    have "c \<noteq> []" using assms(1) by (simp add: class_word_def)
    then have "find_sub ?p '' '' = None"
      by (cases c) (auto simp: find_sub.simps [of _ "[]"] find_sub.simps [of _ "'' ''"])
    then show ?case by (simp add: replace_first_def)
  next
    case (Cons u cs)
    obtain r where r: "spaced cs = CHR '' '' # r" using spaced_hd by blast
    have u: "CHR '' '' \<notin> set u" "CHR '' '' \<notin> set c" using Cons.prems assms(1) word_no_space by auto
    have find: "find_sub ?p (spaced (u # cs)) = (if u = c then Some ([], r)
        else map_option (\<lambda>(a, q). (CHR '' '' # u @ a, q)) (find_sub ?p (spaced cs)))"
      using strip_word [OF u(2,1), of r] find_past [OF u(1), of "c @ '' ''" "spaced cs"] r
      by (subst find_sub.simps) (auto simp: option.map_comp comp_def split_def)
    show ?case
    proof (cases "u = c")
      case True
      then show ?thesis using find r by (simp add: replace_first_def)
    next
      case False
      then show ?thesis using find Cons by (cases "find_sub ?p (spaced cs)") (auto simp: replace_first_def)
    qed
  qed
  then show "find_sub ?p (spaced cs) \<noteq> None \<longleftrightarrow> c \<in> set cs" "replace_first ?p '' '' (spaced cs) = spaced (remove1 c cs)"
    by blast+
qed

lemma trim_ends: "s \<noteq> [] \<Longrightarrow> \<not> js_space (hd s) \<Longrightarrow> \<not> js_space (last s) \<Longrightarrow> js_trim ('' '' @ s @ '' '') = s"
  by (simp add: js_trim_def js_space_def [of "CHR '' ''"] dropWhile_eq_self_iff [THEN iffD2] hd_append hd_rev)

lemma class_word_ends: "class_word c \<Longrightarrow> c \<noteq> [] \<and> \<not> js_space (hd c) \<and> \<not> js_space (last c)"
  by (auto simp: class_word_def list_ex_iff)

lemma class_text_ends:
  "cs \<noteq> [] \<Longrightarrow> \<forall>c\<in>set cs. class_word c \<Longrightarrow>
     class_text cs \<noteq> [] \<and> \<not> js_space (hd (class_text cs)) \<and> \<not> js_space (last (class_text cs))"
proof (induction cs)
  case (Cons c cs)
  then show ?case using class_word_ends [of c] by (cases cs) auto
qed simp

lemma trim_spaced: "\<forall>c\<in>set cs. class_word c \<Longrightarrow> js_trim (spaced cs) = class_text cs"
proof (cases "cs = []")
  case False
  assume "\<forall>c\<in>set cs. class_word c"
  then show ?thesis using trim_ends class_text_ends [OF False] spaced_text [OF False] by metis
qed (simp add: js_trim_def js_space_def)

lemma str2array_words: "\<forall>d\<in>set ds. class_word d \<Longrightarrow> str2array (Class_list ds) = ds"
  by (auto simp: str2array_def class_word_def intro: filter_True)

lemma str2array_word: "class_word d \<Longrightarrow> str2array (Class_text d) = [d]"
  by (simp add: str2array_def class_word_def)

lemma split_ws_text: "ds \<noteq> [] \<Longrightarrow> \<forall>d\<in>set ds. class_word d \<Longrightarrow> split_ws (class_text ds) = ds"
proof (induction ds)
  case (Cons d ds)
  then have d: "\<forall>x\<in>set d. \<not> js_space x" by (auto simp: class_word_def list_ex_iff)
  show ?case
  proof (cases ds)
    case Nil
    then show ?thesis using d by (subst split_ws.simps) (simp add: takeWhile_eq_all_conv [THEN iffD2] dropWhile_eq_Nil_conv [THEN iffD2])
  next
    case (Cons e es)
    have "js_space CHR '' ''" by (simp add: js_space_def)
    moreover have "dropWhile js_space (class_text ds) = class_text ds"
      using class_text_ends [of ds] Cons Cons.prems by (cases "class_text ds") auto
    ultimately show ?thesis
      using d Cons.IH Cons.prems Cons by (subst split_ws.simps) (simp add: takeWhile_append2 dropWhile_append2)
  qed
qed simp

text \<open>A text of words and the list of them say the same.\<close>

lemma str2array_text: "\<forall>d\<in>set ds. class_word d \<Longrightarrow> str2array (Class_text (class_text ds)) = ds"
proof (cases ds)
  case Nil
  show ?thesis using Nil split_ws.simps [of "[]"] by (simp add: str2array_def drop_empty_ends_def)
next
  case (Cons d es)
  assume ds: "\<forall>d\<in>set ds. class_word d"
  show ?thesis
  proof (cases es)
    case Nil
    then show ?thesis using str2array_word Cons ds by simp
  next
    case (Cons e fs)
    have sp: "list_ex js_space (class_text ds)" using \<open>ds = d # es\<close> Cons by (simp add: js_space_def)
    have ne: "ds \<noteq> []" "hd ds \<noteq> []" "last ds \<noteq> []" using ds \<open>ds = d # es\<close> by (auto simp: class_word_def)
    have "drop_empty_ends ds = ds" using ne by (simp add: drop_empty_ends_def Let_def)
    then show ?thesis using sp split_ws_text [OF ne(1) ds] by (simp add: str2array_def)
  qed
qed

lemma class_contains_text:
  assumes "class_word c" "\<forall>u\<in>set cs. class_word u"
  shows "class_contains (class_text cs) c \<longleftrightarrow> c \<in> set cs"
proof (cases "cs = []")
  case True
  have "find_sub ('' '' @ c @ '' '') ''  '' = None"
    using assms(1)
    by (cases c) (auto simp: class_word_def js_space_def find_sub.simps [of _ "[]"] find_sub.simps [of _ "'' ''"] find_sub.simps [of _ "''  ''"])
  then show ?thesis using True by (simp add: class_contains_def has_text_def)
next
  case False
  then show ?thesis using find_spaced(1) [OF assms] spaced_text [OF False] by (simp add: class_contains_def has_text_def)
qed

lemma with_words_more: "\<exists>zs. with_words cs ds = cs @ zs"
proof (induction ds arbitrary: cs)
  case (Cons d ds)
  show ?case
  proof (cases "d \<in> set cs")
    case False
    obtain zs where "with_words (cs @ [d]) ds = (cs @ [d]) @ zs" using Cons by blast
    with False show ?thesis by (auto simp: with_words_def)
  qed (use Cons [of cs] in \<open>simp add: with_words_def\<close>)
qed (simp add: with_words_def)

lemma spaced_longer: "length (spaced cs) + length zs \<le> length (spaced (cs @ zs))"
proof (induction zs rule: rev_induct)
  case (snoc z zs)
  then show ?case using spaced_append [of "cs @ zs" z] by simp
qed simp

lemma add_loop:
  "\<forall>c\<in>set cs. class_word c \<Longrightarrow> \<forall>d\<in>set ds. class_word d \<Longrightarrow>
     foldl (\<lambda>cls c. if c \<noteq> [] \<and> \<not> has_text cls ('' '' @ c @ '' '') then cls @ c @ '' '' else cls) (spaced cs) ds =
       spaced (with_words cs ds)"
proof (induction ds arbitrary: cs)
  case (Cons d ds)
  have d: "class_word d" "d \<noteq> []" using Cons.prems by (auto simp: class_word_def)
  have has: "has_text (spaced cs) ('' '' @ d @ '' '') \<longleftrightarrow> d \<in> set cs"
    using find_spaced(1) [OF d(1) Cons.prems(1)] by (simp add: has_text_def)
  show ?case
  proof (cases "d \<in> set cs")
    case True
    then show ?thesis using Cons.IH [OF Cons.prems(1)] Cons.prems(2) has by (simp add: with_words_def)
  next
    case False
    then show ?thesis using Cons.IH [of "cs @ [d]"] Cons.prems has d by (simp add: with_words_def spaced_append)
  qed
qed (simp add: with_words_def)

lemma class_add_text:
  assumes "\<forall>c\<in>set cs. class_word c" "\<forall>d\<in>set ds. class_word d" "str2array a = ds"
  shows "class_add (class_text cs) a = class_text (with_words cs ds)"
proof -
  have start: "(if class_text cs \<noteq> [] then '' '' @ class_text cs @ '' '' else '' '') = spaced cs"
    using spaced_text [of cs] class_text_ends [of cs] assms(1) by (cases "cs = []") auto
  obtain zs where zs: "with_words cs ds = cs @ zs" using with_words_more by blast
  have add: "class_add (class_text cs) a = (if length (spaced cs) < length (spaced (cs @ zs))
      then take (length (spaced (cs @ zs)) - 2) (drop 1 (spaced (cs @ zs))) else class_text cs)"
    unfolding class_add_def Let_def start assms(3) add_loop [OF assms(1,2)] zs ..
  show ?thesis
  proof (cases "zs = []")
    case True
    then show ?thesis unfolding add using zs by simp
  next
    case False
    then have "length (spaced cs) < length (spaced (cs @ zs))" using spaced_longer [of cs zs] by (cases zs) auto
    then show ?thesis unfolding add using spaced_text [of "cs @ zs"] False zs by (simp flip: spaced_text)
  qed
qed

lemma remove_loop:
  "\<forall>c\<in>set cs. class_word c \<Longrightarrow> \<forall>d\<in>set ds. class_word d \<Longrightarrow>
     foldl (\<lambda>cls c. replace_first ('' '' @ c @ '' '') '' '' cls) (spaced cs) ds = spaced (without_words cs ds) \<and>
       (\<forall>c\<in>set (without_words cs ds). class_word c)"
proof (induction ds arbitrary: cs)
  case (Cons d ds)
  have d: "class_word d" "\<forall>c\<in>set (remove1 d cs). class_word c"
    using Cons.prems notin_set_remove1 by (auto dest: notin_set_remove1)
  then show ?case using Cons.IH [OF d(2)] find_spaced(2) [OF d(1) Cons.prems(1)] Cons.prems(2) by (simp add: without_words_def)
qed (simp add: without_words_def)

lemma remove_none: "\<forall>d\<in>set ds. class_word d \<Longrightarrow>
    foldl (\<lambda>cls c. replace_first ('' '' @ c @ '' '') '' '' cls) ''  '' ds = ''  ''"
proof (induction ds)
  case (Cons d ds)
  have "find_sub ('' '' @ d @ '' '') ''  '' = None"
    using Cons.prems
    by (cases d) (auto simp: class_word_def js_space_def find_sub.simps [of _ "[]"] find_sub.simps [of _ "'' ''"] find_sub.simps [of _ "''  ''"])
  then show ?case using Cons by (simp add: replace_first_def)
qed simp

lemma class_remove_text:
  assumes "\<forall>c\<in>set cs. class_word c" "\<forall>d\<in>set ds. class_word d" "str2array a = ds" "a \<noteq> No_classes"
  shows "class_remove (class_text cs) a = class_text (without_words cs ds)"
proof (cases "cs = []")
  case True
  have "without_words [] ds = []" by (induction ds) (auto simp: without_words_def)
  then show ?thesis using True remove_none [OF assms(2)] assms(3,4) by (simp add: class_remove_def js_trim_def js_space_def)
next
  case False
  then show ?thesis
    using remove_loop [OF assms(1,2)] trim_spaced assms(3,4) spaced_text [OF False] by (simp add: class_remove_def)
qed

text \<open>C26: Classes are words. When the attribute of a node is a list of words with one space between them, contains
  asks for a word of the list; add appends the words that are not there, in order; remove takes one occurrence of each;
  replace removes and then adds; toggle takes out the words that are there and appends the others. What they
  leave is the text of such a list again. It is all the same whether the words come as a list or as a text.\<close>
theorem classes_are_words:
  assumes cs: "\<forall>c\<in>set cs. class_word c" and ds: "\<forall>d\<in>set ds. class_word d" and es: "\<forall>e\<in>set es. class_word e"
    and a: "a \<in> {Class_list ds, Class_text (class_text ds)}" and b: "b \<in> {Class_list es, Class_text (class_text es)}"
  shows "(\<forall>d\<in>set ds. class_contains (class_text cs) d \<longleftrightarrow> d \<in> set cs) \<and>
    class_add (class_text cs) a = class_text (with_words cs ds) \<and>
    class_remove (class_text cs) a = class_text (without_words cs ds) \<and>
    class_replace (class_text cs) a b = class_text (with_words (without_words cs es) ds) \<and>
    class_toggle (class_text cs) a None = class_text (toggled_words cs ds)"
proof (intro conjI)
  have arr: "str2array a = ds" "str2array b = es" "a \<noteq> No_classes" "b \<noteq> No_classes"
    using a b str2array_words str2array_text ds es by auto
  show "\<forall>d\<in>set ds. class_contains (class_text cs) d \<longleftrightarrow> d \<in> set cs" using class_contains_text cs ds by simp
  show "class_add (class_text cs) a = class_text (with_words cs ds)" by (rule class_add_text [OF cs ds arr(1)])
  show "class_remove (class_text cs) a = class_text (without_words cs ds)" by (rule class_remove_text [OF cs ds arr(1,3)])
  have "\<forall>c\<in>set (without_words cs es). class_word c" using remove_loop [OF cs es] by blast
  then show "class_replace (class_text cs) a b = class_text (with_words (without_words cs es) ds)"
    unfolding class_replace_def class_remove_text [OF cs es arr(2,4)] by (rule class_add_text [OF _ ds arr(1)])
  show "class_toggle (class_text cs) a None = class_text (toggled_words cs ds)"
    unfolding class_toggle_def arr(1) option.case using cs ds
  proof (induction ds arbitrary: cs)
    case (Cons d ds)
    have d: "class_word d" "\<forall>u\<in>set [d]. class_word u" using Cons.prems by auto
    have "class_remove (class_text cs) (Class_text d) = class_text (remove1 d cs)"
      using class_remove_text [OF Cons.prems(1) d(2) str2array_word [OF d(1)]] by (simp add: without_words_def)
    moreover have "class_add (class_text cs) (Class_text d) = class_text (cs @ [d])" if "d \<notin> set cs"
      using class_add_text [OF Cons.prems(1) d(2) str2array_word [OF d(1)]] that by (simp add: with_words_def)
    moreover have "\<forall>c\<in>set (remove1 d cs). class_word c" using Cons.prems by (auto dest: notin_set_remove1)
    ultimately show ?case
      using Cons.IH [of "remove1 d cs"] Cons.IH [of "cs @ [d]"] Cons.prems class_contains_text [OF d(1) Cons.prems(1)]
      by (simp add: toggled_words_def)
  qed (simp add: toggled_words_def)
qed

theorem classes_are_words_witness:
  "class_toggle ''dijit open'' (Class_text ''open dijitHover'') None = ''dijit dijitHover''"
  using classes_are_words [of "[''dijit'', ''open'']" "[''open'', ''dijitHover'']" "[]"
      "Class_text ''open dijitHover''" "Class_list []"]
  by (simp add: class_word_def js_space_def toggled_words_def)

text \<open>A class that is there twice is there once after it was removed.\<close>

lemma removed_once: "class_remove ''row row'' (Class_text ''row'') = ''row''"
  using class_remove_text [of "[''row'', ''row'']" "[''row'']" "Class_text ''row''"]
  by (simp add: class_word_def js_space_def without_words_def str2array_word)

end
