(* ===== verification/Spec2Isabelle.thy ===== *)
theory Spec2Isabelle
  imports Menu Failures Promise Declare Loader DtlText Request Gauge Cloning Arrays DomClass
begin

text \<open>
  The web console of the storage galaxy: the scripts under \<^verbatim>\<open>src/rws/static/scripts/stomp.js\<close> and
  \<^verbatim>\<open>stomp/widgets/\<close>, and the modules of the dojo toolkit and of jQuery's plugins they run on.

  \<^bold>\<open>The program.\<close> The server sends the page \<^verbatim>\<open>home.html\<close>; \<^verbatim>\<open>stomp.js\<close> fills it with widgets, one
  list per panel in the side bar and one content area per entry of the menu. A widget renders its
  template, subscribes to topics, and asks the server for data. The buttons of a list or a row open a
  dialog in a modal popup; the dialog's button validates the fields, sends a request under a loading
  overlay, and the answer is published on a topic, on which the list adds, replaces or removes rows and
  shows a toast. All of this is single-threaded: what can interleave is the order in which a person
  presses buttons, requests are answered and animations end.

  \<^bold>\<open>The model.\<close> A method or callback of the scripts is a definition of its name (with the panel's name
  before it where two panels have the same), an \<open>act\<close>: a function from the page to the page it
  leaves and the exception it ends with, if any. The page (\<open>page\<close> in \<^theory_text>\<open>Page\<close>) is the document,
  dijit's registry, the topics, the open popups, the overlay's message, the requests under way with
  their callbacks, and what was shown or drawn. A session (\<open>reach\<close> in \<^theory_text>\<open>Console\<close>) is any sequence of
  buttons with any data, answers to any of the requests under way (successes, failures, answers without
  data), clicks on the menu and ends of fades, from the page \<^verbatim>\<open>initialize\<close> leaves.

  \<^bold>\<open>Theories, from the ground up.\<close>

  \<^item> \<^theory_text>\<open>Prelude\<close>: digits, \<^verbatim>\<open>split\<close>, \<^verbatim>\<open>join\<close>, \<^verbatim>\<open>trim\<close>, and lemmas on lists.
  \<^item> \<^theory_text>\<open>DomTree\<close> (\<^verbatim>\<open>dojo/dom\<close>, \<^verbatim>\<open>dojo/dom-construct\<close>): a document is a list of trees whose nodes have
    an identity and an element; where \<open>place\<close> puts a node, told by the children of every node.
  \<^item> \<^theory_text>\<open>Registry\<close> (\<^verbatim>\<open>dijit/registry\<close>): one widget per id, ids that are generated.
  \<^item> \<^theory_text>\<open>Hub\<close> (\<^verbatim>\<open>dojo/topic\<close>, \<^verbatim>\<open>dojo/Evented\<close>, \<^verbatim>\<open>dojo/aspect\<close>, \<^verbatim>\<open>dojo/on\<close>): the linked list of a topic's
    listeners as cells with pointers, refined to the list of listeners (\<open>listeners\<close>): subscribing
    appends, removing deletes, publishing runs each once, in order.
  \<^item> \<^theory_text>\<open>Objects\<close>, \<^theory_text>\<open>Cloning\<close>, \<^theory_text>\<open>Arrays\<close>, \<^theory_text>\<open>DomClass\<close> (\<^verbatim>\<open>dojo/_base/lang\<close>, \<^verbatim>\<open>dojo/_base/array\<close>, \<^verbatim>\<open>dojo/dom-class\<close>):
    what every module calls. Objects with shared and circular references in a store, mixed in, found by
    paths of names and cloned; the loops and searches of arrays; the classes of a node as a text.
  \<^item> \<^theory_text>\<open>Promise\<close> (\<^verbatim>\<open>dojo/Deferred\<close>): promises settle once, and of the callbacks they were given those are called
    that should be, once, which is what a continuation of the page (a pair of callbacks that is run once) takes
    from them. Callbacks and cancelers are bodies that may change the page and call the module themselves.
  \<^item> \<^theory_text>\<open>Mro\<close>, \<^theory_text>\<open>Declare\<close> (\<^verbatim>\<open>dojo/_base/declare\<close>): how the classes of the widgets are made. \<^theory_text>\<open>Mro\<close> has the
    order of classes (\<^verbatim>\<open>c3mro\<close>) with its table of counted references, its stack and its shortcut along
    chains; \<^theory_text>\<open>Declare\<close> the prototypes and \<^verbatim>\<open>this.inherited\<close> with its cache.
  \<^item> \<^theory_text>\<open>Loader\<close> (\<^verbatim>\<open>dojo/dojo.js\<close>): \<^verbatim>\<open>require\<close> and \<^verbatim>\<open>define\<close> with files fetched while the requester waits:
    the states of a module, the fetching of all that is needed, the execution of factories with circles,
    and the queue of what could not be executed.
  \<^item> \<^theory_text>\<open>Dtl\<close>, \<^theory_text>\<open>DtlRender\<close>, \<^theory_text>\<open>DtlScope\<close>, \<^theory_text>\<open>DtlText\<close> (\<^verbatim>\<open>dojox/dtl\<close>): the language of the widgets' templates.
    \<^theory_text>\<open>Dtl\<close> cuts a template into tokens and parses them into nodes; \<^theory_text>\<open>DtlRender\<close> renders nodes with contexts
    that loops push, set and clean up; \<^theory_text>\<open>DtlScope\<close> shows that this is a renderer with lexical scopes and that
    data adds no markup; \<^theory_text>\<open>DtlText\<close> has the round trips and what conditions of the console's templates ask.
  \<^item> \<^theory_text>\<open>Json\<close>, \<^theory_text>\<open>Query\<close>, \<^theory_text>\<open>Request\<close> (\<^verbatim>\<open>dojo/json\<close>, \<^verbatim>\<open>dojo/io-query\<close>, \<^verbatim>\<open>dojo/request\<close>): data as text, query
    strings, and requests: the options over the defaults, what is sent, how an answer is read, and what the
    callbacks get. In the model of the page a request is its url and data, and its answer a reply; \<^theory_text>\<open>Request\<close>
    tells which replies there are (\<open>failure_unreadable\<close> is when a failure has no message).
  \<^item> \<^theory_text>\<open>Model\<close>: the server's objects, the names of listeners and continuations.
  \<^item> \<^theory_text>\<open>GroupGraph\<close> (\<^verbatim>\<open>groups/group-content.js\<close>): the graph of groups and users and the selection in it.
  \<^item> \<^theory_text>\<open>Page\<close>, \<^theory_text>\<open>PageInv\<close>, \<^theory_text>\<open>Closing\<close> (\<^verbatim>\<open>dijit/_WidgetBase\<close>, \<^verbatim>\<open>dojox/dtl/_Templated\<close>,
    \<^verbatim>\<open>jquery.lightbox_me\<close>, \<^verbatim>\<open>msgbox.js\<close>, \<^verbatim>\<open>util.js\<close>): the steps the scripts are made of. The locales
    \<open>page_core\<close>, \<open>page_steps\<close>, \<open>page_inv\<close> and \<open>page_all\<close> are the contract between these steps and
    the panels: a predicate that the steps keep is kept by every method, proved once per panel in the
    locale. They are interpreted by the well-formedness of the page (\<open>page_ok\<close>), by there being one
    popup at most (\<open>one_dialog\<close>), by the overlay having a request that closes it (\<open>load_ok\<close>), and in
    \<^theory_text>\<open>Session\<close> by the overlay being away and by the topics being those of the start.
  \<^item> \<^theory_text>\<open>Regex\<close>, \<^theory_text>\<open>StompUtil\<close> (\<^verbatim>\<open>util.js\<close>): the validators, as matching by derivatives of the source's
    patterns, and the sizes.
  \<^item> \<^theory_text>\<open>GroupPanel\<close>, \<^theory_text>\<open>UserPanel\<close>, \<^theory_text>\<open>HostPanel\<close>, \<^theory_text>\<open>StoragePanel\<close>, \<^theory_text>\<open>AppPanel\<close>, \<^theory_text>\<open>Dashboard\<close>: the
    directories of \<^verbatim>\<open>stomp/widgets/\<close>, each with its templates, its list, rows, dialogs and callbacks.
  \<^item> \<^theory_text>\<open>Double\<close>, \<^theory_text>\<open>Gauge\<close> (\<^verbatim>\<open>charts/\<close>, \<^verbatim>\<open>graph-utils.js\<close>): what is computed for the drawings: the marks of a gauge
    and its pointer over any number of redraws, the arcs of a radial progress, sizes in graphs. \<^theory_text>\<open>Double\<close> rounds a
    rational to a double, as the loops over the marks do at every step.
  \<^item> \<^theory_text>\<open>Console\<close> (\<^verbatim>\<open>stomp.js\<close>): \<^verbatim>\<open>initialize\<close>, the menu, sessions.
  \<^item> \<^theory_text>\<open>Relabel\<close>: changes of classes, styles and values leave look-ups alone.
  \<^item> \<^theory_text>\<open>Session\<close>, \<^theory_text>\<open>Wiring\<close>, \<^theory_text>\<open>Rows\<close>, \<^theory_text>\<open>Forms\<close>, \<^theory_text>\<open>Menu\<close>, \<^theory_text>\<open>Failures\<close>: what holds across
    components: invariants of sessions; which listener a topic reaches; which rows the answers append;
    which requests a form sends; which content area is displayed; and where the console fails.

  \<^bold>\<open>What the theorems show.\<close> In every session the document, the registry and the topics stay consistent
  and at most one popup is open (\<open>session_page_ok\<close>), the overlay never outlives the request it belongs
  to (\<open>overlay_closes\<close>), each topic reaches its one listener (\<open>topics_wired\<close>), and the menu displays the
  content of the last click however fast the clicks are (\<open>menu_shows_last_click\<close>, \<open>fades_settle\<close>). A form
  sends its fields if and only if they are valid (\<open>user_add_safe\<close>, \<open>host_add_safe\<close>), a confirmed host
  appears in the list (\<open>host_added_shows\<close>), closing a popup ends and frees its id
  (\<open>closing_frees_dialog\<close>). The validators accept exactly the strings they describe, sizes survive
  printing and reading up to rounding, a row's button asks for what it was made for. A \<^verbatim>\<open>require\<close> whose
  files are there takes every factory it needs once, after what that needs, and then calls back
  (\<open>require_runs\<close>); \<^verbatim>\<open>declare\<close> finds an order that all bases agree with or refuses because there is none
  (\<open>class_order\<close>), and methods and inherited calls follow that order (\<open>methods_follow_order\<close>,
  \<open>inherited_calls_next\<close>). A template renders as its reference does (\<open>scopes_lexical\<close>), and what it takes
  from data is shown as it was and never as markup (\<open>data_adds_no_markup\<close>, \<open>escape_roundtrip\<close>); a request of a
  dialog is sent as it means (\<open>console_request\<close>, \<open>options_win\<close>, \<open>json_roundtrip\<close>, \<open>query_roundtrip\<close>), and what is
  delivered is the answer unless this counts as false (\<open>answer_delivered\<close>); but a comparison in a condition is dropped (\<open>comparison_ignored\<close>), so that every
  role of a user is checked (\<open>role_radios_checked\<close>). A gauge is drawn as it was
  configured where no step is rounded, as those of the console (\<open>ticks_drawn\<close>), and may lose its last mark where
  one is (\<open>last_mark_missing\<close>); its pointer stays on it (\<open>pointer_stays\<close>). A promise settles once, whatever its
  callbacks do (\<open>promises_settle_once\<close>), and exactly those of them are called that should be
  (\<open>callbacks_called\<close>). A clone is a copy that shares
  nothing, and comes back unless there are circles (\<open>clone_copies\<close>, \<open>clone_circle\<close>); what is set at a path is
  got there (\<open>set_get_object\<close>), a search finds what the language's own does (\<open>search_finds\<close>), and classes are
  words (\<open>classes_are_words\<close>). Some theorems
  show that the code does not do what it means to: messages of failed requests that are refused because
  the dialog still has the message box's id (\<open>group_failure_lost\<close>), a reference error in a callback, an overlay that stays, a
  blank page, a name that deletes its application (\<open>name_decides_operation\<close>), gauges of one host in the page of another, a module
  that is lost when its file could not be fetched once (\<open>missing_file_blocks\<close>), and others.

  \<^bold>\<open>Bounds and fuel.\<close> Loops over lists are structural. \<open>unique_loop\<close> has one more step than there are
  registered ids (\<open>get_unique_id_total\<close>); \<open>emit_loop\<close> has as many as identifiers were given out, and a
  pass along the list takes each once (\<open>publish_once\<close>); \<open>destroy_widget\<close> has the number of registered
  widgets plus one, which bounds how deep they nest (\<open>closing_frees_dialog\<close>). In \<^theory_text>\<open>Promise\<close> the events
  of a page run for any number of steps, for a callback that waits for the promise it is called by can go on forever;
  \<open>promises_settle_once\<close> and \<open>callbacks_called\<close> hold after every number of steps. The loops of
  \<^theory_text>\<open>Mro\<close>, \<^theory_text>\<open>Declare\<close> and \<^theory_text>\<open>Loader\<close> have no fuel: their termination is proved, by the references still
  counted, by the prototypes (each is made after the one it inherits from), by the files not yet asked
  for, by the modules not yet executed, and for the queue by the modules not yet finished. Nor have those of
  \<^theory_text>\<open>Dtl\<close> and \<^theory_text>\<open>DtlRender\<close>: scanners and the parser leave less of the text than they were given, and rendering goes
  down the nodes.
  JavaScript's integers are \<open>int\<close> and \<open>nat\<close> where the code counts, and rationals where it
  divides, rounded to doubles in the loops over the marks of a gauge and exact elsewhere: angles and percentages
  are those of the code up to rounding (the loops over the marks of a gauge may not end: they are partial functions, and \<open>ticks_drawn\<close> shows
  when they do). \<open>clone\<close> of \<^theory_text>\<open>Cloning\<close> is bounded by how deep it calls itself: one more than the nesting is enough
  (\<open>clone_copies\<close>), and none is for a circle. The search of an array is a partial function that returns from every
  whole number (\<open>search_finds\<close>) and from others need not (\<open>search_endless\<close>). No whole number comes near
  the bounds within which a double is exact, and where \<^verbatim>\<open>parseInt\<close> or \<^verbatim>\<open>toFixed\<close> cut them the model does.

  \<^bold>\<open>What is taken on trust.\<close> Templates are given as the elements they render to, without those no script
  addresses. A request stays under way until it is answered; the server may answer anything. jQuery's
  selectors, \<^verbatim>\<open>css\<close>, \<^verbatim>\<open>val\<close>, \<^verbatim>\<open>prop\<close> and its queue of fades are written out from their documentation for
  the uses the console makes of them.

  \<^bold>\<open>Not modelled.\<close> The Python services (the web server \<^verbatim>\<open>rws\<close>, \<^verbatim>\<open>raft\<close>, \<^verbatim>\<open>rsm\<close>, \<^verbatim>\<open>hdfs\<close>, \<^verbatim>\<open>spmc\<close> and
  others), which are another program; the drawing libraries and minified plugins; the modules of dojo the
  console does not reach or only for its inner working; the web socket of
  \<^verbatim>\<open>stomp.js\<close>, which only logs; of the loader its plugins, its asynchronous mode and the resolution of
  names to paths; of requests their timeouts, cancelling and progress, and answers read as scripts or XML; of \<^verbatim>\<open>dojox/dtl\<close> the tags but \<^verbatim>\<open>if\<close> and \<^verbatim>\<open>for\<close>, most filters, and what is loaded by a template;
  of \<^verbatim>\<open>lang\<close> functions bound to objects, and DOM nodes and dates as what is cloned; of \<^verbatim>\<open>declare\<close> what constructors run and chained methods; positions, sizes and colours on the screen apart from \<^verbatim>\<open>display\<close> and
  the classes the scripts set. \<^verbatim>\<open>stomp-release.js\<close> is an older copy of \<^verbatim>\<open>stomp.js\<close> that no page loads.
\<close>

end
